(* ===== verification/Prelude.thy ===== *)
theory Prelude
  imports Main "HOL-Library.Word" "HOL-Library.Multiset"
begin

text \<open>
  What every component of the development shares: the collections the proofs draw on, Rust's
  machine arithmetic as the document crate uses it, the error type of
  \<^verbatim>\<open>crates/project/src/error.rs\<close> and generic facts about lists.

  Sample positions and lengths (\<open>u64\<close>, \<open>u32\<close>, \<open>usize\<close>) are \<open>nat\<close>; wherever the code names a
  width (\<open>checked_add\<close>, \<open>saturating_add\<close>, a cast \<open>as u32\<close>) the model calls the corresponding
  definition below, which writes the bound out.  Plain \<open>-\<close> on \<open>nat\<close> is \<open>saturating_sub\<close>.
\<close>

unbundle bit_operations_syntax

type_synonym byte = "8 word"

named_theorems doc_simps "unfolding rules of the document model"
named_theorems inv_intros "invariant preservation rules"

section \<open>Machine arithmetic\<close>

definition u32_max :: nat where
  "u32_max = 4294967295"

definition u64_max :: nat where
  "u64_max = 18446744073709551615"

definition i32_max :: nat where
  "i32_max = 2147483647"

definition as_u32 :: "nat \<Rightarrow> nat" where
  "as_u32 n = n mod 4294967296"

definition checked_add32 :: "nat \<Rightarrow> nat \<Rightarrow> nat option" where
  "checked_add32 a b = (if a + b \<le> u32_max then Some (a + b) else None)"

definition checked_add64 :: "nat \<Rightarrow> nat \<Rightarrow> nat option" where
  "checked_add64 a b = (if a + b \<le> u64_max then Some (a + b) else None)"

definition sat_add64 :: "nat \<Rightarrow> nat \<Rightarrow> nat" where
  "sat_add64 a b = min (a + b) u64_max"

definition sat_mul64 :: "nat \<Rightarrow> nat \<Rightarrow> nat" where
  "sat_mul64 a b = min (a * b) u64_max"

definition next_multiple_of :: "nat \<Rightarrow> nat \<Rightarrow> nat" where
  "next_multiple_of n k = (if n mod k = 0 then n else n + (k - n mod k))"

definition clamp :: "nat \<Rightarrow> nat \<Rightarrow> nat \<Rightarrow> nat" where
  "clamp x lo hi = (if x < lo then lo else if x > hi then hi else x)"

lemma as_u32_id [simp]: "n \<le> u32_max \<Longrightarrow> as_u32 n = n"
  by (simp add: as_u32_def u32_max_def)

lemma checked_add32_Some [simp]: "checked_add32 a b = Some c \<longleftrightarrow> c = a + b \<and> a + b \<le> u32_max"
  by (auto simp: checked_add32_def)

lemma checked_add32_None [simp]: "checked_add32 a b = None \<longleftrightarrow> u32_max < a + b"
  by (auto simp: checked_add32_def)

lemma checked_add64_Some [simp]: "checked_add64 a b = Some c \<longleftrightarrow> c = a + b \<and> a + b \<le> u64_max"
  by (auto simp: checked_add64_def)

lemma checked_add64_None [simp]: "checked_add64 a b = None \<longleftrightarrow> u64_max < a + b"
  by (auto simp: checked_add64_def)

lemma sat_add64_id: "a + b \<le> u64_max \<Longrightarrow> sat_add64 a b = a + b"
  by (simp add: sat_add64_def)

lemma sat_add64_le: "sat_add64 a b \<le> a + b"
  by (simp add: sat_add64_def)

lemma next_multiple_of_ge: "n \<le> next_multiple_of n k"
  by (simp add: next_multiple_of_def)

lemma next_multiple_of_dvd: "0 < k \<Longrightarrow> k dvd next_multiple_of n k"
proof -
  assume "0 < k"
  then have "n mod k < k" by simp
  then have "n + (k - n mod k) = (n div k) * k + k"
    using div_mult_mod_eq [of n k] by linarith
  also have "\<dots> = (n div k + 1) * k" by simp
  finally have "k dvd n + (k - n mod k)" by (metis dvd_triv_right)
  then show ?thesis by (auto simp: next_multiple_of_def mod_eq_0_iff_dvd)
qed

lemma next_multiple_of_lt: "0 < k \<Longrightarrow> next_multiple_of n k < n + k"
  by (auto simp: next_multiple_of_def)

lemma clamp_bounds: "lo \<le> hi \<Longrightarrow> lo \<le> clamp x lo hi \<and> clamp x lo hi \<le> hi"
  by (auto simp: clamp_def)

section \<open>Errors\<close>

text \<open>
  The variants of \<open>ProjectError\<close>.  Where the code formats a message (\<open>InvalidEdit(String)\<close>), the
  model keeps the reason and the numbers the message prints; I/O errors keep their context.
\<close>

datatype edit_fault =
    RangeExceeds nat nat nat
  | BadPiece "nat option" nat nat
  | IdentityNeedsLength nat nat
  | NoMarker nat
  | MarkerExists nat
  | MarkerOutside nat nat nat
  | ChangesNothing
  | TakePositionOutside
  | FloorAfterEdit
  | ClipFileShort

datatype wav_fault =
    UnrecognizedFormat
  | UnsupportedCodec
  | NoAudioTrack
  | RateOutOfRange
  | TooManyChannels
  | ChainedStreamChanged
  | TooDamaged
  | WavIoNotFound
  | WavIoPermissionDenied
  | WavOther

datatype project_error =
    NotWhileRecording
  | DiskFull string
  | Io string
  | ChecksumMismatch nat
  | UnknownChunk nat
  | OutOfBounds nat nat nat
  | InvalidEdit edit_fault
  | InvalidArgument string
  | Cancelled
  | SessionLocked
  | StoreInUse
  | NoSuchTake nat
  | TakeAlreadyOpen
  | InvalidTakeFile string
  | TakeNotInStore nat nat
  | JsonError
  | WavError wav_fault
  | NonFiniteSample
  | LoudnessError
  | SidecarLocked
  | SidecarBackupFailed
  | NothingRecoverable

text \<open>The kinds of an \<open>io::Error\<close> the code tells apart.\<close>

datatype io_error = StorageFull | QuotaExceeded | FileTooLarge | NotFound | PermissionDenied | OtherIo

definition io_disk_full :: "io_error \<Rightarrow> bool" where
  "io_disk_full e \<longleftrightarrow> e = StorageFull \<or> e = QuotaExceeded \<or> e = FileTooLarge"

definition from_io :: "string \<Rightarrow> io_error \<Rightarrow> project_error" where
  "from_io ctx e = (if io_disk_full e then DiskFull ctx else Io ctx)"

fun err_is_disk_full :: "project_error \<Rightarrow> bool" where
  "err_is_disk_full (DiskFull _) \<longleftrightarrow> True"
| "err_is_disk_full _ \<longleftrightarrow> False"

fun i18n_key :: "project_error \<Rightarrow> string" where
  "i18n_key NotWhileRecording = ''error.not_while_recording''"
| "i18n_key (DiskFull _) = ''error.disk_full''"
| "i18n_key (Io _) = ''error.io''"
| "i18n_key (ChecksumMismatch _) = ''error.store_corrupt''"
| "i18n_key Cancelled = ''error.cancelled''"
| "i18n_key SessionLocked = ''error.session_locked''"
| "i18n_key (InvalidEdit _) = ''error.invalid_edit''"
| "i18n_key (InvalidArgument _) = ''error.invalid_edit''"
| "i18n_key (OutOfBounds _ _ _) = ''error.invalid_edit''"
| "i18n_key (UnknownChunk _) = ''error.invalid_edit''"
| "i18n_key (TakeNotInStore _ _) = ''error.take_not_in_store''"
| "i18n_key NonFiniteSample = ''error.normalize_non_finite''"
| "i18n_key StoreInUse = ''error.internal''"
| "i18n_key (NoSuchTake _) = ''error.internal''"
| "i18n_key TakeAlreadyOpen = ''error.internal''"
| "i18n_key (InvalidTakeFile _) = ''error.internal''"
| "i18n_key LoudnessError = ''error.internal''"
| "i18n_key JsonError = ''error.internal''"
| "i18n_key SidecarLocked = ''error.save.sidecar_locked''"
| "i18n_key SidecarBackupFailed = ''error.save.sidecar_backup''"
| "i18n_key NothingRecoverable = ''error.recovery.nothing_intact''"
| "i18n_key (WavError f) =
     (case f of
        UnrecognizedFormat \<Rightarrow> ''error.open.unsupported_format''
      | UnsupportedCodec \<Rightarrow> ''error.open.unsupported_codec''
      | NoAudioTrack \<Rightarrow> ''error.open.no_audio_track''
      | RateOutOfRange \<Rightarrow> ''error.open.rate_out_of_range''
      | TooManyChannels \<Rightarrow> ''error.open.too_many_channels''
      | ChainedStreamChanged \<Rightarrow> ''error.open.unsupported_format''
      | TooDamaged \<Rightarrow> ''error.open.damaged''
      | WavIoNotFound \<Rightarrow> ''error.open.not_found''
      | WavIoPermissionDenied \<Rightarrow> ''error.open.permission''
      | WavOther \<Rightarrow> ''error.io'')"

text \<open>
  An operation on a state \<open>'s\<close> that may fail: the result and the state it leaves, errors included.
\<close>

type_synonym ('s, 'a) op = "'s \<Rightarrow> (project_error + 'a) \<times> 's"

section \<open>Lists\<close>

text \<open>\<open>iter().position(P)\<close> and \<open>iter().rposition(P)\<close>.\<close>

fun position :: "('a \<Rightarrow> bool) \<Rightarrow> 'a list \<Rightarrow> nat option" where
  "position P [] = None"
| "position P (x # xs) = (if P x then Some 0 else map_option Suc (position P xs))"

definition rposition :: "('a \<Rightarrow> bool) \<Rightarrow> 'a list \<Rightarrow> nat option" where
  "rposition P xs = map_option (\<lambda>k. length xs - 1 - k) (position P (rev xs))"

text \<open>\<open>iter().max()\<close> and \<open>iter().min()\<close>: \<open>None\<close> for an empty iterator.\<close>

definition iter_max :: "nat list \<Rightarrow> nat option" where
  "iter_max xs = (case xs of [] \<Rightarrow> None | y # ys \<Rightarrow> Some (foldl max y ys))"

definition iter_min :: "nat list \<Rightarrow> nat option" where
  "iter_min xs = (case xs of [] \<Rightarrow> None | y # ys \<Rightarrow> Some (foldl min y ys))"

definition unwrap_or :: "'a option \<Rightarrow> 'a \<Rightarrow> 'a" where
  "unwrap_or x d = (case x of None \<Rightarrow> d | Some v \<Rightarrow> v)"

lemma unwrap_or_simps [simp]: "unwrap_or None d = d" "unwrap_or (Some v) d = v"
  by (simp_all add: unwrap_or_def)

lemma position_SomeD:
  "position P xs = Some k \<Longrightarrow> k < length xs \<and> P (xs ! k) \<and> (\<forall>j < k. \<not> P (xs ! j))"
proof (induction xs arbitrary: k)
  case (Cons x xs)
  then show ?case by (auto simp: less_Suc_eq_0_disj split: if_splits)
qed simp

lemma position_None: "position P xs = None \<longleftrightarrow> (\<forall>x \<in> set xs. \<not> P x)"
  by (induction xs) auto

lemma rposition_SomeD:
  assumes "rposition P xs = Some k"
  shows "k < length xs \<and> P (xs ! k) \<and> (\<forall>j. k < j \<and> j < length xs \<longrightarrow> \<not> P (xs ! j))"
proof -
  from assms obtain i where i: "position P (rev xs) = Some i" and k: "k = length xs - 1 - i"
    by (auto simp: rposition_def)
  from position_SomeD [OF i] have il: "i < length xs" and P: "P (rev xs ! i)"
    and n: "\<forall>j < i. \<not> P (rev xs ! j)" by auto
  have "\<not> P (xs ! j)" if "k < j" "j < length xs" for j
  proof -
    have "length xs - Suc j < i" and "rev xs ! (length xs - Suc j) = xs ! j"
      using that il k by (auto simp: rev_nth)
    with n show ?thesis by metis
  qed
  with il P k show ?thesis by (auto simp: rev_nth)
qed

lemma rposition_None: "rposition P xs = None \<longleftrightarrow> (\<forall>x \<in> set xs. \<not> P x)"
  by (simp add: rposition_def position_None)

lemma foldl_max_ge: "y \<le> foldl max y ys \<and> (\<forall>x \<in> set ys. x \<le> foldl max y (ys :: nat list))"
proof (induction ys arbitrary: y)
  case (Cons a ys)
  from Cons [of "max y a"] show ?case by auto
qed simp

lemma foldl_max_mem: "foldl max y ys \<in> set (y # (ys :: nat list))"
proof (induction ys arbitrary: y)
  case (Cons a ys)
  from Cons [of "max y a"] show ?case by (auto simp: max_def split: if_splits)
qed simp

lemma iter_max_ge: "x \<in> set xs \<Longrightarrow> x \<le> unwrap_or (iter_max xs) d"
  using foldl_max_ge by (cases xs) (auto simp: iter_max_def)

lemma iter_max_le: "(\<And>x. x \<in> set xs \<Longrightarrow> x \<le> b) \<Longrightarrow> d \<le> b \<Longrightarrow> unwrap_or (iter_max xs) d \<le> b"
  using foldl_max_mem by (cases xs) (auto simp: iter_max_def)

lemma foldl_min_le: "foldl min y ys \<le> y \<and> (\<forall>x \<in> set ys. foldl min y (ys :: nat list) \<le> x)"
proof (induction ys arbitrary: y)
  case (Cons a ys)
  from Cons [of "min y a"] show ?case by auto
qed simp


lemma sum_list_take_drop: "sum_list (take n xs) + sum_list (drop n xs) = (sum_list xs :: nat)"
  by (metis append_take_drop_id sum_list_append)

lemma sum_list_take_Suc:
  "n < length xs \<Longrightarrow> sum_list (take (Suc n) xs) = sum_list (take n xs) + (xs ! n :: nat)"
  by (simp add: take_Suc_conv_app_nth)

lemma sum_list_take_le: "sum_list (take n xs) \<le> (sum_list xs :: nat)"
  by (metis le_add1 sum_list_take_drop)

lemma sum_list_take_mono:
  assumes "i \<le> j"
  shows "sum_list (take i xs) \<le> (sum_list (take j xs) :: nat)"
proof -
  have "take i xs = take i (take j xs)" using assms by (simp add: min_def)
  then show ?thesis by (metis sum_list_take_le)
qed

lemma successively_snoc:
  "successively P (xs @ [x]) \<longleftrightarrow> successively P xs \<and> (xs \<noteq> [] \<longrightarrow> P (last xs) x)"
  by (auto simp: successively_append_iff)

lemma list_snoc_cases:
  obtains "xs = []" | ys y where "xs = ys @ [y]"
  by (cases xs rule: rev_cases) auto

text \<open>\<open>buf[k..k + n].copy_from_slice(ys)\<close>.\<close>

definition copy_at :: "nat \<Rightarrow> 'a list \<Rightarrow> 'a list \<Rightarrow> 'a list" where
  "copy_at k ys buf = take k buf @ ys @ drop (k + length ys) buf"

lemma length_copy_at [simp]: "k + length ys \<le> length buf \<Longrightarrow> length (copy_at k ys buf) = length buf"
  by (simp add: copy_at_def)

lemma nth_copy_at:
  "k + length ys \<le> length buf \<Longrightarrow> i < length buf \<Longrightarrow>
   copy_at k ys buf ! i = (if k \<le> i \<and> i < k + length ys then ys ! (i - k) else buf ! i)"
  by (auto simp: copy_at_def nth_append)

section \<open>Ordered maps\<close>

text \<open>\<open>BTreeMap\<close> and \<open>BTreeSet\<close> over numeric keys: association lists and lists in key order.\<close>

type_synonym 'a btree = "(nat \<times> 'a) list"

fun bt_insert :: "nat \<Rightarrow> 'a \<Rightarrow> 'a btree \<Rightarrow> 'a btree" where
  "bt_insert k v [] = [(k, v)]"
| "bt_insert k v ((k', v') # m) =
     (if k < k' then (k, v) # (k', v') # m else if k = k' then (k, v) # m else (k', v') # bt_insert k v m)"

definition bt_remove :: "nat \<Rightarrow> 'a btree \<Rightarrow> 'a btree" where
  "bt_remove k m = filter (\<lambda>(k', _). k' \<noteq> k) m"

definition bt_ok :: "'a btree \<Rightarrow> bool" where
  "bt_ok m \<longleftrightarrow> sorted_wrt (<) (map fst m)"

definition bt_set :: "nat list \<Rightarrow> nat list" where
  "bt_set xs = remdups (sort xs)"

lemma map_of_bt_insert [simp]: "map_of (bt_insert k v m) = (map_of m)(k \<mapsto> v)"
  by (induction m) auto

lemma map_of_bt_remove [simp]: "map_of (bt_remove k m) = (map_of m)(k := None)"
  by (induction m) (auto simp: bt_remove_def fun_eq_iff)

lemma keys_bt_insert [simp]: "fst ` set (bt_insert k v m) = insert k (fst ` set m)"
  by (simp flip: dom_map_of_conv_image_fst)

lemma keys_bt_remove [simp]: "fst ` set (bt_remove k m) = fst ` set m - {k}"
  by (auto simp: bt_remove_def image_iff)

lemma bt_ok_insert: "bt_ok m \<Longrightarrow> bt_ok (bt_insert k v m)"
proof (induction m)
  case (Cons a m)
  obtain k' v' where a: "a = (k', v')" by fastforce
  have "x \<in> insert k (fst ` set m)" if "x \<in> fst ` set (bt_insert k v m)" for x using that by simp
  with Cons a show ?case by (force simp: bt_ok_def)
qed (simp add: bt_ok_def)

lemma bt_ok_remove: "bt_ok m \<Longrightarrow> bt_ok (bt_remove k m)"
  by (induction m) (auto simp: bt_ok_def bt_remove_def)

lemma set_bt_set [simp]: "set (bt_set xs) = set xs" and sorted_bt_set: "sorted (bt_set xs)" and
  distinct_bt_set [simp]: "distinct (bt_set xs)"
  by (simp_all add: bt_set_def sorted_remdups)

end
