(* ===== verification/Snapshot.thy ===== *)
theory Snapshot
  imports Prelude
begin

text \<open>
  Snapshots, the piece table and markers: \<^verbatim>\<open>crates/project/src/snapshot.rs\<close>.

  A document is a list of pieces, each a run of samples of one committed chunk or of silence.
  \<open>content\<close> is the abstract document: the samples a piece table stands for, given what the
  chunks hold.  The lemmas show that \<open>push_piece\<close> keeps tables canonical without changing their
  content, that \<open>slice\<close> and \<open>replaced\<close> are take, drop and append on the content, and that the
  marker mapping keeps markers inside the document.
\<close>

section \<open>Pieces\<close>

definition chunk_samples :: nat where
  "chunk_samples = 65536"

datatype source = Chunk nat | Silence

record piece =
  p_source :: source
  p_offset :: nat
  p_len :: nat

definition piece_chunk :: "nat \<Rightarrow> nat \<Rightarrow> nat \<Rightarrow> piece" where
  "piece_chunk cid off len = \<lparr>p_source = Chunk cid, p_offset = off, p_len = len\<rparr>"

definition piece_silence :: "nat \<Rightarrow> piece" where
  "piece_silence len = \<lparr>p_source = Silence, p_offset = 0, p_len = len\<rparr>"

function silence_run :: "nat \<Rightarrow> piece list" where
  "silence_run rest =
     (if rest > 0 then
        let n = as_u32 (min rest u32_max)
        in piece_silence n # silence_run (rest - n)
      else [])"
  by pat_completeness auto
termination
  by (relation "measure id") (auto simp: as_u32_def u32_max_def min_def)

declare silence_run.simps [simp del]

definition piece_sub :: "piece \<Rightarrow> nat \<Rightarrow> nat \<Rightarrow> piece" where
  "piece_sub p start len =
     (case p_source p of
        Chunk _ \<Rightarrow> p\<lparr>p_offset := p_offset p + start, p_len := len\<rparr>
      | Silence \<Rightarrow> piece_silence len)"

definition piece_merged :: "piece \<Rightarrow> piece \<Rightarrow> piece option" where
  "piece_merged p q =
     (case (p_source p, p_source q) of
        (Chunk a, Chunk b) \<Rightarrow>
          (if a = b \<and> checked_add32 (p_offset p) (p_len p) = Some (p_offset q)
           then (case checked_add32 (p_len p) (p_len q) of
                   None \<Rightarrow> None
                 | Some l \<Rightarrow> Some (p\<lparr>p_len := l\<rparr>))
           else None)
      | (Silence, Silence) \<Rightarrow>
          (case checked_add32 (p_len p) (p_len q) of
             None \<Rightarrow> None
           | Some l \<Rightarrow> Some (piece_silence l))
      | _ \<Rightarrow> None)"

definition push_piece :: "piece list \<Rightarrow> piece \<Rightarrow> piece list" where
  "push_piece out p =
     (if p_len p = 0 then out
      else if out \<noteq> [] then
        (case piece_merged (last out) p of
           Some m \<Rightarrow> butlast out @ [m]
         | None \<Rightarrow> out @ [p])
      else out @ [p])"

definition pieces_len :: "piece list \<Rightarrow> nat" where
  "pieces_len ps = sum_list (map p_len ps)"

section \<open>Markers\<close>

datatype marker_kind = User | Dropout | Other string

definition kind_as_str :: "marker_kind \<Rightarrow> string" where
  "kind_as_str k = (case k of User \<Rightarrow> ''user'' | Dropout \<Rightarrow> ''dropout'' | Other s \<Rightarrow> s)"

definition kind_parse :: "string \<Rightarrow> marker_kind" where
  "kind_parse s = (if s = ''user'' then User else if s = ''dropout'' then Dropout else Other s)"

record marker =
  m_id :: nat
  m_pos :: nat
  m_len :: nat
  m_name :: string
  m_kind :: marker_kind

definition marker_new :: "nat \<Rightarrow> nat \<Rightarrow> nat \<Rightarrow> string \<Rightarrow> marker" where
  "marker_new i pos len name =
     \<lparr>m_id = i, m_pos = pos, m_len = len, m_name = name, m_kind = User\<rparr>"

definition marker_with_kind :: "marker \<Rightarrow> marker_kind \<Rightarrow> marker" where
  "marker_with_kind m k = m\<lparr>m_kind := k\<rparr>"

definition marker_end :: "marker \<Rightarrow> nat" where
  "marker_end m = sat_add64 (m_pos m) (m_len m)"

definition sort_markers :: "marker list \<Rightarrow> marker list" where
  "sort_markers ms = sort_key m_pos ms"

definition map_start :: "nat \<Rightarrow> nat \<Rightarrow> nat \<Rightarrow> nat \<Rightarrow> nat" where
  "map_start a r n p =
     (if p < a then p
      else if r = 0 then sat_add64 p n
      else if p < sat_add64 a r then a
      else p - r + n)"

definition map_end :: "nat \<Rightarrow> nat \<Rightarrow> nat \<Rightarrow> nat \<Rightarrow> nat" where
  "map_end a r n e =
     (if e \<le> a then e
      else if r = 0 then sat_add64 e n
      else if e \<le> sat_add64 a r then a
      else e - r + n)"

definition shift_marker :: "nat \<Rightarrow> nat \<Rightarrow> nat \<Rightarrow> marker \<Rightarrow> marker" where
  "shift_marker a r n m =
     (let pos = map_start a r n (m_pos m);
          len = (if m_len m = 0 then 0 else map_end a r n (marker_end m) - pos)
      in m\<lparr>m_pos := pos, m_len := len\<rparr>)"

definition shift_markers :: "marker list \<Rightarrow> nat \<Rightarrow> nat \<Rightarrow> nat \<Rightarrow> marker list" where
  "shift_markers ms at remove_len insert_len =
     sort_markers (map (shift_marker at remove_len insert_len) ms)"

section \<open>Snapshots\<close>

record doc_snapshot =
  s_rev :: nat
  s_audio_rev :: nat
  s_rate :: nat
  s_pieces :: "piece list"
  s_starts :: "nat list"
  s_len :: nat
  s_markers :: "marker list"

fun prefix_starts :: "nat \<Rightarrow> piece list \<Rightarrow> nat list" where
  "prefix_starts acc [] = []"
| "prefix_starts acc (p # ps) = acc # prefix_starts (acc + p_len p) ps"

definition from_normalized ::
    "nat \<Rightarrow> piece list \<Rightarrow> marker list \<Rightarrow> nat \<Rightarrow> nat \<Rightarrow> doc_snapshot" where
  "from_normalized rate ps ms r ar =
     \<lparr>s_rev = r, s_audio_rev = ar, s_rate = rate, s_pieces = ps, s_starts = prefix_starts 0 ps,
      s_len = pieces_len ps, s_markers = sort_markers ms\<rparr>"

definition push_all :: "piece list \<Rightarrow> piece list \<Rightarrow> piece list" where
  "push_all out ps = foldl push_piece out ps"

definition snapshot_new :: "nat \<Rightarrow> piece list \<Rightarrow> marker list \<Rightarrow> doc_snapshot" where
  "snapshot_new rate ps ms = from_normalized rate (push_all [] ps) ms 0 0"

definition snapshot_empty :: "nat \<Rightarrow> doc_snapshot" where
  "snapshot_empty rate = snapshot_new rate [] []"

text \<open>\<open>partition_point\<close> of a partitioned slice is the length of the prefix that satisfies the test.\<close>

definition locate :: "doc_snapshot \<Rightarrow> nat \<Rightarrow> (nat \<times> nat) option" where
  "locate d pos =
     (if pos \<ge> s_len d then None
      else let k = length (takeWhile (\<lambda>s. s \<le> pos) (s_starts d))
           in if k = 0 then None else Some (k - 1, pos - s_starts d ! (k - 1)))"

definition checked_end :: "doc_snapshot \<Rightarrow> nat \<Rightarrow> nat \<Rightarrow> project_error + nat" where
  "checked_end d at len =
     (case checked_add64 at len of
        Some e \<Rightarrow> if e \<le> s_len d then Inr e else Inl (InvalidEdit (RangeExceeds at len (s_len d)))
      | None \<Rightarrow> Inl (InvalidEdit (RangeExceeds at len (s_len d))))"

text \<open>The \<open>while\<close> loop of \<open>push_range\<close> over the pieces from index \<open>i\<close> on.\<close>

fun push_loop :: "piece list \<Rightarrow> nat \<Rightarrow> nat \<Rightarrow> piece list \<Rightarrow> piece list" where
  "push_loop [] off remaining out = out"
| "push_loop (p # ps) off remaining out =
     (if remaining > 0 then
        let n = min (p_len p - off) remaining
        in push_loop ps 0 (remaining - n) (push_piece out (piece_sub p (as_u32 off) (as_u32 n)))
      else out)"

definition push_range :: "doc_snapshot \<Rightarrow> piece list \<Rightarrow> nat \<Rightarrow> nat \<Rightarrow> piece list" where
  "push_range d out at e =
     (case locate d at of
        None \<Rightarrow> out
      | Some (i, off) \<Rightarrow> push_loop (drop i (s_pieces d)) off (e - at) out)"

definition slice :: "doc_snapshot \<Rightarrow> nat \<Rightarrow> nat \<Rightarrow> project_error + piece list" where
  "slice d at len =
     (case checked_end d at len of
        Inl err \<Rightarrow> Inl err
      | Inr e \<Rightarrow> Inr (push_range d [] at e))"

definition replaced ::
    "doc_snapshot \<Rightarrow> nat \<Rightarrow> nat \<Rightarrow> piece list \<Rightarrow> project_error + piece list" where
  "replaced d at remove_len ins =
     (case checked_end d at remove_len of
        Inl err \<Rightarrow> Inl err
      | Inr e \<Rightarrow> Inr (push_range d (push_all (push_range d [] 0 at) ins) e (s_len d)))"

definition find_marker :: "doc_snapshot \<Rightarrow> nat \<Rightarrow> marker option" where
  "find_marker d i = find (\<lambda>m. m_id m = i) (s_markers d)"

definition same_audio :: "doc_snapshot \<Rightarrow> doc_snapshot \<Rightarrow> bool" where
  "same_audio d e \<longleftrightarrow> s_pieces d = s_pieces e"


section \<open>Content: what a piece table stands for\<close>

text \<open>\<open>rd c i\<close> is sample \<open>i\<close> of chunk \<open>c\<close> and \<open>z\<close> the silent sample.\<close>

definition piece_content :: "(nat \<Rightarrow> nat \<Rightarrow> 'a) \<Rightarrow> 'a \<Rightarrow> piece \<Rightarrow> 'a list" where
  "piece_content rd z p =
     (case p_source p of
        Chunk c \<Rightarrow> map (rd c) [p_offset p ..< p_offset p + p_len p]
      | Silence \<Rightarrow> replicate (p_len p) z)"

definition content :: "(nat \<Rightarrow> nat \<Rightarrow> 'a) \<Rightarrow> 'a \<Rightarrow> piece list \<Rightarrow> 'a list" where
  "content rd z ps = concat (map (piece_content rd z) ps)"

definition piece_ok :: "piece \<Rightarrow> bool" where
  "piece_ok p \<longleftrightarrow>
     (case p_source p of
        Chunk _ \<Rightarrow> p_offset p + p_len p \<le> chunk_samples
      | Silence \<Rightarrow> p_offset p = 0 \<and> p_len p \<le> u32_max)"

definition canonical :: "piece list \<Rightarrow> bool" where
  "canonical ps \<longleftrightarrow> (\<forall>p \<in> set ps. 0 < p_len p) \<and> successively (\<lambda>p q. piece_merged p q = None) ps"

lemma length_piece_content [simp]: "length (piece_content rd z p) = p_len p"
  by (simp add: piece_content_def split: source.splits)

lemma content_Nil [simp]: "content rd z [] = []"
  by (simp add: content_def)

lemma content_Cons [simp]: "content rd z (p # ps) = piece_content rd z p @ content rd z ps"
  by (simp add: content_def)

lemma content_append [simp]: "content rd z (ps @ qs) = content rd z ps @ content rd z qs"
  by (simp add: content_def)

lemma pieces_len_simps [simp]:
  "pieces_len [] = 0" "pieces_len (p # ps) = p_len p + pieces_len ps"
  "pieces_len (ps @ qs) = pieces_len ps + pieces_len qs"
  by (simp_all add: pieces_len_def)

lemma length_content [simp]: "length (content rd z ps) = pieces_len ps"
  by (induction ps) auto

lemma piece_ok_len: "piece_ok p \<Longrightarrow> p_len p \<le> u32_max"
  by (auto simp: piece_ok_def chunk_samples_def u32_max_def split: source.splits)

lemma piece_content_empty: "p_len p = 0 \<Longrightarrow> piece_content rd z p = []"
  by (simp add: piece_content_def split: source.splits)

lemma piece_silence_simps [simp]:
  "p_source (piece_silence n) = Silence" "p_offset (piece_silence n) = 0" "p_len (piece_silence n) = n"
  by (simp_all add: piece_silence_def)

lemma piece_chunk_simps [simp]:
  "p_source (piece_chunk c o' n) = Chunk c" "p_offset (piece_chunk c o' n) = o'"
  "p_len (piece_chunk c o' n) = n"
  by (simp_all add: piece_chunk_def)

lemma piece_content_silence [simp]: "piece_content rd z (piece_silence n) = replicate n z"
  by (simp add: piece_content_def)

lemma piece_sub_len [simp]: "p_len (piece_sub p s n) = n"
  by (simp add: piece_sub_def split: source.splits)

lemma piece_content_sub:
  "off + n \<le> p_len p \<Longrightarrow>
   piece_content rd z (piece_sub p off n) = take n (drop off (piece_content rd z p))"
  by (auto simp: piece_content_def piece_sub_def take_map drop_map add.assoc split: source.splits)

lemma piece_ok_sub: "piece_ok p \<Longrightarrow> off + n \<le> p_len p \<Longrightarrow> piece_ok (piece_sub p off n)"
  by (auto simp: piece_ok_def piece_sub_def split: source.splits)

lemma piece_mergedE:
  assumes "piece_merged p q = Some m"
  obtains (chunk) c where "p_source p = Chunk c" "p_source q = Chunk c"
      "p_offset q = p_offset p + p_len p" "m = p\<lparr>p_len := p_len p + p_len q\<rparr>"
      "p_len p + p_len q \<le> u32_max"
    | (silence) "p_source p = Silence" "p_source q = Silence"
      "m = piece_silence (p_len p + p_len q)" "p_len p + p_len q \<le> u32_max"
  using assms by (auto simp: piece_merged_def split: source.splits if_splits option.splits)

lemma map_upt_split: "map f [i ..< i + a] @ map f [i + a ..< i + a + b] = map f [i ..< i + (a + b)]"
  by (metis add.assoc le_add1 map_append upt_add_eq_append)

lemma piece_content_merged:
  "piece_merged p q = Some m \<Longrightarrow> piece_content rd z m = piece_content rd z p @ piece_content rd z q"
  by (erule piece_mergedE) (auto simp: piece_content_def replicate_add map_upt_split)

lemma piece_ok_merged: "piece_merged p q = Some m \<Longrightarrow> piece_ok p \<Longrightarrow> piece_ok q \<Longrightarrow> piece_ok m"
  by (erule piece_mergedE) (auto simp: piece_ok_def)

lemma piece_merged_len: "piece_merged p q = Some m \<Longrightarrow> p_len m = p_len p + p_len q"
  by (erule piece_mergedE) auto

section \<open>\<open>push_piece\<close>\<close>

lemma push_piece_cases:
  obtains (empty) "p_len p = 0" "push_piece out p = out"
    | (merge) ys y m where "0 < p_len p" "out = ys @ [y]" "piece_merged y p = Some m"
        "push_piece out p = ys @ [m]"
    | (push) "0 < p_len p" "out \<noteq> [] \<longrightarrow> piece_merged (last out) p = None"
        "push_piece out p = out @ [p]"
  by (cases out rule: rev_cases; cases "p_len p = 0";
      cases "piece_merged (last out) p") (auto simp: push_piece_def)

lemma content_push_piece [simp]:
  "content rd z (push_piece out p) = content rd z out @ piece_content rd z p"
  by (cases rule: push_piece_cases [of p out]) (auto simp: piece_content_merged piece_content_empty)

lemma pieces_len_push_piece [simp]: "pieces_len (push_piece out p) = pieces_len out + p_len p"
  by (cases rule: push_piece_cases [of p out]) (auto simp: piece_merged_len)

lemma ok_push_piece [inv_intros]:
  "\<forall>q \<in> set out. piece_ok q \<Longrightarrow> piece_ok p \<Longrightarrow> \<forall>q \<in> set (push_piece out p). piece_ok q"
  by (cases rule: push_piece_cases [of p out]) (auto intro: piece_ok_merged)

lemma merged_None_mono:
  assumes "piece_merged x y = None" and "piece_merged y p = Some m"
  shows "piece_merged x m = None"
  using assms(2)
proof (cases rule: piece_mergedE)
  case (chunk c)
  with assms(1) show ?thesis
    by (auto simp: piece_merged_def split: source.splits if_splits option.splits)
next
  case silence
  with assms(1) show ?thesis
    by (auto simp: piece_merged_def split: source.splits option.splits)
qed

lemma canonical_push_piece [inv_intros]:
  assumes "canonical out"
  shows "canonical (push_piece out p)"
proof (cases rule: push_piece_cases [of p out])
  case empty
  with assms show ?thesis by simp
next
  case (merge ys y m)
  with assms show ?thesis
    by (auto simp: canonical_def successively_snoc piece_merged_len intro: merged_None_mono)
next
  case push
  with assms show ?thesis by (auto simp: canonical_def successively_snoc)
qed

lemma push_all_simps [simp]:
  "push_all out [] = out" "push_all out (p # ps) = push_all (push_piece out p) ps"
  by (simp_all add: push_all_def)

lemma content_push_all [simp]: "content rd z (push_all out ps) = content rd z out @ content rd z ps"
  by (induction ps arbitrary: out) auto

lemma pieces_len_push_all [simp]: "pieces_len (push_all out ps) = pieces_len out + pieces_len ps"
  by (induction ps arbitrary: out) auto

lemma canonical_push_all [inv_intros]: "canonical out \<Longrightarrow> canonical (push_all out ps)"
  by (induction ps arbitrary: out) (auto intro: canonical_push_piece)

lemma ok_push_all [inv_intros]:
  "\<forall>q \<in> set out. piece_ok q \<Longrightarrow> \<forall>q \<in> set ps. piece_ok q \<Longrightarrow>
   \<forall>q \<in> set (push_all out ps). piece_ok q"
  by (induction ps arbitrary: out) (auto dest: ok_push_piece)

lemma canonical_Nil [simp]: "canonical []"
  by (simp add: canonical_def)

text \<open>A canonical table is a fixed point of the normalisation in \<open>DocSnapshot::new\<close>.\<close>

lemma push_all_canonical_append: "canonical (out @ ps) \<Longrightarrow> push_all out ps = out @ ps"
proof (induction ps arbitrary: out)
  case Nil
  then show ?case by simp
next
  case (Cons p ps)
  then have "push_piece out p = out @ [p]"
    by (auto simp: canonical_def push_piece_def successively_append_iff)
  with Cons show ?case by simp
qed

lemma push_all_canonical: "canonical ps \<Longrightarrow> push_all [] ps = ps"
  using push_all_canonical_append [of "[]" ps] by simp

section \<open>\<open>locate\<close>\<close>

definition snap_ok :: "doc_snapshot \<Rightarrow> bool" where
  "snap_ok d \<longleftrightarrow>
     canonical (s_pieces d) \<and> (\<forall>p \<in> set (s_pieces d). piece_ok p) \<and>
     s_starts d = prefix_starts 0 (s_pieces d) \<and> s_len d = pieces_len (s_pieces d) \<and>
     sorted (map m_pos (s_markers d))"

lemma length_prefix_starts [simp]: "length (prefix_starts acc ps) = length ps"
  by (induction acc ps rule: prefix_starts.induct) auto

lemma nth_prefix_starts:
  "i < length ps \<Longrightarrow> prefix_starts acc ps ! i = acc + pieces_len (take i ps)"
proof (induction acc ps arbitrary: i rule: prefix_starts.induct)
  case (2 acc p ps)
  then show ?case by (cases i) auto
qed simp

lemma takeWhile_starts:
  assumes "acc \<le> pos" and "pos < acc + pieces_len ps"
  shows "\<exists>i off. length (takeWhile (\<lambda>s. s \<le> pos) (prefix_starts acc ps)) = Suc i \<and> i < length ps \<and>
    pos = acc + pieces_len (take i ps) + off \<and> off < p_len (ps ! i)"
  using assms
proof (induction acc ps rule: prefix_starts.induct)
  case (1 acc)
  then show ?case by simp
next
  case (2 acc p ps)
  show ?case
  proof (cases "acc + p_len p \<le> pos")
    case True
    with 2 obtain i off where
      "length (takeWhile (\<lambda>s. s \<le> pos) (prefix_starts (acc + p_len p) ps)) = Suc i" "i < length ps"
      "pos = acc + p_len p + pieces_len (take i ps) + off" "off < p_len (ps ! i)"
      by auto
    with "2.prems" show ?thesis
      by (intro exI [of _ "Suc i"] exI [of _ off]) auto
  next
    case False
    with "2.prems" have "takeWhile (\<lambda>s. s \<le> pos) (prefix_starts acc (p # ps)) = [acc]"
      by (cases ps) auto
    with False "2.prems" show ?thesis
      by (intro exI [of _ 0] exI [of _ "pos - acc"]) auto
  qed
qed

lemma locate_Some:
  assumes "snap_ok d" and "pos < s_len d"
  obtains i off where "locate d pos = Some (i, off)" "i < length (s_pieces d)"
    "off < p_len (s_pieces d ! i)" "pos = pieces_len (take i (s_pieces d)) + off"
proof -
  from assms have st: "s_starts d = prefix_starts 0 (s_pieces d)"
    and ln: "pos < 0 + pieces_len (s_pieces d)"
    by (auto simp: snap_ok_def)
  from takeWhile_starts [OF le0 ln] obtain i off where
    i: "length (takeWhile (\<lambda>s. s \<le> pos) (s_starts d)) = Suc i" "i < length (s_pieces d)"
    and pos: "pos = pieces_len (take i (s_pieces d)) + off" "off < p_len (s_pieces d ! i)"
    by (auto simp: st)
  have "s_starts d ! i = pieces_len (take i (s_pieces d))"
    using i by (simp add: st nth_prefix_starts)
  with assms(2) i pos have "locate d pos = Some (i, off)"
    by (simp add: locate_def Let_def)
  with i pos show thesis by (intro that) auto
qed

lemma locate_None: "s_len d \<le> pos \<Longrightarrow> locate d pos = None"
  by (simp add: locate_def)

section \<open>\<open>slice\<close> and \<open>replaced\<close>\<close>

lemma push_loop_content:
  assumes "\<forall>p \<in> set ps. piece_ok p" and "ps \<noteq> [] \<longrightarrow> off \<le> p_len (hd ps)"
  shows "content rd z (push_loop ps off rem out) =
     content rd z out @ take rem (drop off (content rd z ps))"
  using assms
proof (induction ps off rem out rule: push_loop.induct)
  case (1 off rem out)
  then show ?case by simp
next
  case (2 p ps off rem out)
  define n where "n = min (p_len p - off) rem"
  from 2 have ok: "piece_ok p" and off: "off \<le> p_len p" by auto
  have u: "off \<le> u32_max" "n \<le> u32_max"
    using piece_ok_len [OF ok] off by (auto simp: n_def)
  show ?case
  proof (cases "rem > 0")
    case True
    have IH: "content rd z (push_loop ps 0 (rem - n) (push_piece out (piece_sub p off n))) =
        content rd z (push_piece out (piece_sub p off n)) @
        take (rem - n) (drop 0 (content rd z ps))"
      using "2.IH" [OF True n_def] "2.prems" u by auto
    have "off + n \<le> p_len p" using off by (auto simp: n_def)
    with IH True u show ?thesis
      by (auto simp: Let_def n_def piece_content_sub off min_def)
  next
    case False
    then show ?thesis by simp
  qed
qed

lemma push_loop_canonical: "canonical out \<Longrightarrow> canonical (push_loop ps off rem out)"
  by (induction ps off rem out rule: push_loop.induct) (auto simp: Let_def canonical_push_piece)

lemma push_loop_ok:
  assumes "\<forall>p \<in> set ps. piece_ok p" and "ps \<noteq> [] \<longrightarrow> off \<le> p_len (hd ps)"
    and "\<forall>p \<in> set out. piece_ok p"
  shows "\<forall>p \<in> set (push_loop ps off rem out). piece_ok p"
  using assms
proof (induction ps off rem out rule: push_loop.induct)
  case (1 off rem out)
  then show ?case by simp
next
  case (2 p ps off rem out)
  define n where "n = min (p_len p - off) rem"
  from 2 have ok: "piece_ok p" and off: "off \<le> p_len p" by auto
  have u: "off \<le> u32_max" "n \<le> u32_max"
    using piece_ok_len [OF ok] off by (auto simp: n_def)
  have "piece_ok (piece_sub p off n)"
    using ok off by (intro piece_ok_sub) (auto simp: n_def)
  then have "\<forall>q \<in> set (push_piece out (piece_sub p off n)). piece_ok q"
    using "2.prems" by (intro ok_push_piece) auto
  with "2.IH" [OF _ n_def] "2.prems" u show ?case
    by (cases "rem > 0") (auto simp: Let_def n_def)
qed

lemma drop_content:
  assumes "i < length ps"
  shows "drop (pieces_len (take i ps)) (content rd z ps) = content rd z (drop i ps)"
proof -
  have "content rd z ps = content rd z (take i ps) @ content rd z (drop i ps)"
    by (metis append_take_drop_id content_append)
  then show ?thesis by simp
qed

lemma push_range_content:
  assumes "snap_ok d"
  shows "content rd z (push_range d out at e) =
    content rd z out @ take (e - at) (drop at (content rd z (s_pieces d)))"
proof (cases "at < s_len d")
  case True
  from locate_Some [OF assms True] obtain i off where l: "locate d at = Some (i, off)"
    and i: "i < length (s_pieces d)" and off: "off < p_len (s_pieces d ! i)"
    and at: "at = pieces_len (take i (s_pieces d)) + off" .
  have ok: "\<forall>p \<in> set (drop i (s_pieces d)). piece_ok p"
    using assms by (auto simp: snap_ok_def dest: in_set_dropD)
  have hd: "hd (drop i (s_pieces d)) = s_pieces d ! i"
    using i by (simp add: hd_drop_conv_nth)
  have "drop off (drop (pieces_len (take i (s_pieces d))) (content rd z (s_pieces d))) =
      drop off (content rd z (drop i (s_pieces d)))"
    by (simp only: drop_content [OF i])
  then have "drop at (content rd z (s_pieces d)) = drop off (content rd z (drop i (s_pieces d)))"
    by (simp add: at add.commute)
  then show ?thesis
    using push_loop_content [OF ok, of off rd z "e - at" out] off
    by (simp add: push_range_def l hd)
next
  case False
  with assms show ?thesis by (simp add: push_range_def locate_None snap_ok_def)
qed

lemma push_range_canonical: "canonical out \<Longrightarrow> canonical (push_range d out at e)"
  by (auto simp: push_range_def push_loop_canonical split: option.splits)

lemma push_range_ok:
  assumes "snap_ok d" and "\<forall>p \<in> set out. piece_ok p"
  shows "\<forall>p \<in> set (push_range d out at e). piece_ok p"
proof (cases "at < s_len d")
  case True
  from locate_Some [OF assms(1) True] obtain i off where l: "locate d at = Some (i, off)"
    and i: "i < length (s_pieces d)" and off: "off < p_len (s_pieces d ! i)" .
  have ok: "\<forall>p \<in> set (drop i (s_pieces d)). piece_ok p"
    using assms by (auto simp: snap_ok_def dest: in_set_dropD)
  have hd: "hd (drop i (s_pieces d)) = s_pieces d ! i"
    using i by (simp add: hd_drop_conv_nth)
  from push_loop_ok [OF ok, of off out "e - at"] off hd assms(2) show ?thesis
    by (simp add: push_range_def l)
next
  case False
  with assms show ?thesis by (simp add: push_range_def locate_None)
qed

lemma checked_end_Inr [simp]:
  "checked_end d at len = Inr e \<longleftrightarrow> e = at + len \<and> at + len \<le> s_len d \<and> at + len \<le> u64_max"
  by (auto simp: checked_end_def split: option.splits)

lemma slice_content:
  assumes "snap_ok d" and "slice d at len = Inr ps"
  shows "content rd z ps = take len (drop at (content rd z (s_pieces d)))"
  using assms push_range_content [OF assms(1), of rd z "[]" at "at + len"]
  by (auto simp: slice_def split: sum.splits)

lemma slice_canonical: "slice d at len = Inr ps \<Longrightarrow> canonical ps"
  by (auto simp: slice_def push_range_canonical split: sum.splits)

lemma slice_ok: "snap_ok d \<Longrightarrow> slice d at len = Inr ps \<Longrightarrow> \<forall>p \<in> set ps. piece_ok p"
  using push_range_ok [of d "[]"] by (auto simp: slice_def split: sum.splits)

lemma replaced_content:
  assumes "snap_ok d" and "replaced d at r ins = Inr ps"
  shows "content rd z ps =
    take at (content rd z (s_pieces d)) @ content rd z ins @ drop (at + r) (content rd z (s_pieces d))"
  using assms
  by (auto simp: replaced_def push_range_content [OF assms(1)] snap_ok_def split: sum.splits)

lemma replaced_canonical: "replaced d at r ins = Inr ps \<Longrightarrow> canonical ps"
  by (auto simp: replaced_def intro!: push_range_canonical canonical_push_all split: sum.splits)

lemma replaced_ok:
  assumes "snap_ok d" and "\<forall>p \<in> set ins. piece_ok p" and "replaced d at r ins = Inr ps"
  shows "\<forall>p \<in> set ps. piece_ok p"
proof -
  have "\<forall>p \<in> set (push_range d [] 0 at). piece_ok p"
    by (rule push_range_ok [OF assms(1)]) simp
  from push_range_ok [OF assms(1) ok_push_all [OF this assms(2)]] assms(3)
  show ?thesis by (auto simp: replaced_def split: sum.splits)
qed

lemma pieces_len_eq: "content (\<lambda>_ _. ()) () ps = xs \<Longrightarrow> pieces_len ps = length xs"
  by (metis length_content)

lemma replaced_len:
  assumes "snap_ok d" and "replaced d at r ins = Inr ps"
  shows "pieces_len ps = s_len d - r + pieces_len ins"
proof -
  have "at + r \<le> s_len d" using assms(2) by (auto simp: replaced_def split: sum.splits)
  then show ?thesis
    using pieces_len_eq [OF replaced_content [OF assms]] assms(1) by (simp add: snap_ok_def)
qed

lemma replaced_bounds: "replaced d at r ins = Inr ps \<Longrightarrow> at + r \<le> s_len d \<and> at + r \<le> u64_max"
  by (auto simp: replaced_def split: sum.splits)

section \<open>Canonical tables are determined by their content\<close>

text \<open>
  \<open>atoms\<close> is the content over the free source: sample \<open>i\<close> of chunk \<open>c\<close> is the pair itself.  Two
  canonical tables of at most \<open>u32::MAX\<close> samples with the same atoms are the same list.
\<close>

abbreviation atoms :: "piece list \<Rightarrow> (nat \<times> nat) option list" where
  "atoms \<equiv> content (\<lambda>c i. Some (c, i)) None"

definition atom_piece :: "(nat \<times> nat) option \<Rightarrow> piece" where
  "atom_piece a = (case a of None \<Rightarrow> piece_silence 1 | Some (c, i) \<Rightarrow> piece_chunk c i 1)"

lemma piece_sub_whole: "piece_ok p \<Longrightarrow> piece_sub p 0 (p_len p) = p"
  by (cases p) (auto simp: piece_sub_def piece_silence_def piece_ok_def split: source.splits)

lemma merged_halves:
  "piece_ok p \<Longrightarrow> p_len p = a + b \<Longrightarrow> piece_merged (piece_sub p 0 a) (piece_sub p a b) = Some p"
  by (cases p)
     (auto simp: piece_merged_def piece_sub_def piece_ok_def piece_silence_def checked_add32_def
       chunk_samples_def u32_max_def split: source.splits)

lemma merged_fits:
  assumes "piece_ok p" "p_len p = a + b" "p_len y + p_len p \<le> u32_max"
  shows "(piece_merged y (piece_sub p 0 a) = None) = (piece_merged y p = None)"
    and "piece_merged y p = Some m \<Longrightarrow>
      (case piece_merged y (piece_sub p 0 a) of None \<Rightarrow> None
       | Some m1 \<Rightarrow> piece_merged m1 (piece_sub p a b)) = Some m"
  using assms
  by (cases p; cases y;
      auto simp: piece_merged_def piece_sub_def piece_ok_def piece_silence_def checked_add32_def
        chunk_samples_def u32_max_def split: source.splits if_splits)+

lemma push_piece_split:
  assumes ok: "piece_ok p" and len: "p_len p = a + b" and fits: "pieces_len out + p_len p \<le> u32_max"
  shows "push_piece (push_piece out (piece_sub p 0 a)) (piece_sub p a b) = push_piece out p"
proof -
  consider "a = 0" | "b = 0" | "0 < a" "0 < b" by auto
  then show ?thesis
  proof cases
    case 1
    with len ok have "piece_sub p a b = p" using piece_sub_whole [OF ok] by simp
    with 1 show ?thesis by (simp add: push_piece_def)
  next
    case 2
    with len ok have "piece_sub p 0 a = p" using piece_sub_whole [OF ok] by simp
    with 2 show ?thesis by (simp add: push_piece_def)
  next
    case 3
    show ?thesis
    proof (cases out rule: rev_cases)
      case Nil
      with 3 len merged_halves [OF ok len] show ?thesis by (simp add: push_piece_def)
    next
      case (snoc ys y)
      with fits have "p_len y + p_len p \<le> u32_max" by simp
      note m = merged_fits [OF ok len this]
      show ?thesis
        using 3 len snoc m merged_halves [OF ok len]
        by (cases "piece_merged y p") (auto simp: push_piece_def butlast_append split: option.splits)
    qed
  qed
qed

lemma push_atoms_upto:
  assumes "piece_ok p" and "pieces_len out + p_len p \<le> u32_max" and "k \<le> p_len p"
  shows "push_all out (map atom_piece (take k (atoms [p]))) = push_piece out (piece_sub p 0 k)"
  using assms(3)
proof (induction k)
  case 0
  then show ?case by (simp add: push_piece_def)
next
  case (Suc k)
  have nth: "atoms [p] ! k = (case p_source p of Chunk c \<Rightarrow> Some (c, p_offset p + k) | Silence \<Rightarrow> None)"
    using Suc.prems by (auto simp: piece_content_def split: source.splits)
  have sub: "atom_piece (atoms [p] ! k) = piece_sub p k 1"
    unfolding nth by (cases p) (auto simp: atom_piece_def piece_sub_def piece_chunk_def split: source.splits)
  have ok: "piece_ok (piece_sub p 0 (Suc k))"
    using assms(1) Suc.prems by (intro piece_ok_sub) auto
  have nest: "piece_sub (piece_sub p 0 (Suc k)) 0 k = piece_sub p 0 k"
    "piece_sub (piece_sub p 0 (Suc k)) k 1 = piece_sub p k 1"
    by (auto simp: piece_sub_def piece_silence_def split: source.splits)
  have "take (Suc k) (atoms [p]) = take k (atoms [p]) @ [atoms [p] ! k]"
    using Suc.prems by (intro take_Suc_conv_app_nth) simp
  then have "push_all out (map atom_piece (take (Suc k) (atoms [p]))) =
      push_piece (push_all out (map atom_piece (take k (atoms [p])))) (piece_sub p k 1)"
    by (simp add: push_all_def sub [simplified])
  also have "\<dots> = push_piece (push_piece out (piece_sub p 0 k)) (piece_sub p k 1)"
    using Suc by simp
  also have "\<dots> = push_piece out (piece_sub p 0 (Suc k))"
    using push_piece_split [OF ok, of k 1 out] assms(2) Suc.prems by (simp add: nest [simplified])
  finally show ?case .
qed

lemma push_atoms:
  assumes "piece_ok p" and "pieces_len out + p_len p \<le> u32_max"
  shows "push_all out (map atom_piece (atoms [p])) = push_piece out p"
  using push_atoms_upto [OF assms, of "p_len p"] piece_sub_whole [OF assms(1)] by simp

lemma push_all_append: "push_all out (ps @ qs) = push_all (push_all out ps) qs"
  by (simp add: push_all_def)

lemma push_all_atoms:
  assumes "\<forall>p \<in> set ps. piece_ok p" and "pieces_len out + pieces_len ps \<le> u32_max"
  shows "push_all out (map atom_piece (atoms ps)) = push_all out ps"
  using assms
proof (induction ps arbitrary: out)
  case Nil
  then show ?case by simp
next
  case (Cons p ps)
  then have "push_all out (map atom_piece (atoms [p])) = push_piece out p"
    by (intro push_atoms) auto
  with Cons show ?case by (simp add: push_all_append)
qed

lemma canonical_unique:
  assumes "canonical ps" "canonical qs" "\<forall>p \<in> set ps. piece_ok p" "\<forall>p \<in> set qs. piece_ok p"
    and "pieces_len ps \<le> u32_max" and eq: "atoms ps = atoms qs"
  shows "ps = qs"
proof -
  have "pieces_len qs = pieces_len ps" using eq by (metis length_content)
  with assms have "push_all [] ps = push_all [] qs"
    using push_all_atoms [of ps "[]"] push_all_atoms [of qs "[]"] by simp
  then show ?thesis using assms(1,2) by (simp add: push_all_canonical)
qed

section \<open>The marker mapping\<close>

definition marker_in :: "nat \<Rightarrow> marker \<Rightarrow> bool" where
  "marker_in len m \<longleftrightarrow> m_pos m + m_len m \<le> len"

lemma map_start_le:
  "a + r \<le> len \<Longrightarrow> a + r \<le> u64_max \<Longrightarrow> p \<le> len \<Longrightarrow> map_start a r n p \<le> len - r + n"
  by (auto simp: map_start_def sat_add64_def)

lemma map_end_le:
  "a + r \<le> len \<Longrightarrow> a + r \<le> u64_max \<Longrightarrow> e \<le> len \<Longrightarrow> map_end a r n e \<le> len - r + n"
  by (auto simp: map_end_def sat_add64_def)

lemma shift_marker_in:
  assumes "a + r \<le> len" and "a + r \<le> u64_max" and "marker_in len m"
  shows "marker_in (len - r + n) (shift_marker a r n m)"
proof -
  have "marker_end m \<le> len"
    using assms(3) sat_add64_le [of "m_pos m" "m_len m"] by (simp add: marker_in_def marker_end_def)
  moreover have "m_pos m \<le> len" using assms(3) by (simp add: marker_in_def)
  ultimately show ?thesis
    using map_end_le [OF assms(1,2), of "marker_end m" n] map_start_le [OF assms(1,2), of "m_pos m" n]
    by (auto simp: shift_marker_def marker_in_def Let_def)
qed

lemma shift_marker_id [simp]: "m_id (shift_marker a r n m) = m_id m"
  by (simp add: shift_marker_def Let_def)

lemma set_sort_markers [simp]: "set (sort_markers ms) = set ms"
  by (simp add: sort_markers_def)

lemma sorted_sort_markers [simp]: "sorted (map m_pos (sort_markers ms))"
  by (simp add: sort_markers_def)

lemma sort_markers_sorted: "sorted (map m_pos ms) \<Longrightarrow> sort_markers ms = ms"
  by (simp add: sort_markers_def sort_key_id_if_sorted)

lemma distinct_sort_markers [simp]:
  "distinct (map m_id (sort_markers ms)) = distinct (map m_id ms)"
proof -
  have "mset (map m_id (sort_markers ms)) = mset (map m_id ms)" by (simp add: sort_markers_def)
  then show ?thesis by (rule mset_eq_imp_distinct_iff)
qed

lemma shift_markers_in:
  "a + r \<le> len \<Longrightarrow> a + r \<le> u64_max \<Longrightarrow> \<forall>m \<in> set ms. marker_in len m \<Longrightarrow>
   \<forall>m \<in> set (shift_markers ms a r n). marker_in (len - r + n) m"
  unfolding shift_markers_def set_sort_markers set_map by (blast intro: shift_marker_in)

lemma shift_markers_ids [simp]:
  "m_id ` set (shift_markers ms a r n) = m_id ` set ms"
  "distinct (map m_id (shift_markers ms a r n)) = distinct (map m_id ms)"
  by (auto simp: shift_markers_def image_image comp_def)

text \<open>A point outside the replaced range keeps naming the sample it named before.\<close>

lemma map_start_follows_audio:
  assumes new: "new = take a old @ ins @ drop (a + r) old" and "length ins = n"
    and "a + r \<le> length old" "a + r \<le> u64_max" "p < length old" "length old + n \<le> u64_max"
    and out: "p < a \<or> a + r \<le> p"
  shows "map_start a r n p < length new" and "new ! map_start a r n p = old ! p"
proof -
  have "map_start a r n p = (if p < a then p else p - r + n)"
    using assms by (auto simp: map_start_def sat_add64_def)
  then show "map_start a r n p < length new" and "new ! map_start a r n p = old ! p"
    using assms by (auto simp: nth_append)
qed

lemma kind_roundtrip: "k \<noteq> Other ''user'' \<Longrightarrow> k \<noteq> Other ''dropout'' \<Longrightarrow> kind_parse (kind_as_str k) = k"
  by (cases k) (auto simp: kind_parse_def kind_as_str_def)

lemma kind_parse_as_str: "kind_as_str (kind_parse s) = s"
  by (auto simp: kind_parse_def kind_as_str_def)

lemma silence_run_props:
  "content rd z (silence_run n) = replicate n z \<and> pieces_len (silence_run n) = n \<and>
   (\<forall>p \<in> set (silence_run n). piece_ok p \<and> 0 < p_len p \<and> p_source p = Silence)"
proof (induction n rule: silence_run.induct)
  case (1 n)
  show ?case
  proof (cases "n > 0")
    case True
    define k where "k = as_u32 (min n u32_max)"
    have k: "k = min n u32_max" by (simp add: k_def)
    with True have "0 < k" by (auto simp: u32_max_def)
    moreover from k have "replicate n z = replicate k z @ replicate (n - k) z"
      by (simp flip: replicate_add)
    moreover have "k \<le> u32_max" "k \<le> n" using k by auto
    ultimately show ?thesis
      using "1.IH" [OF True k_def] True
      by (auto simp: silence_run.simps [of n] Let_def k_def [symmetric] piece_ok_def)
  next
    case False
    then show ?thesis by (simp add: silence_run.simps)
  qed
qed

lemma snap_ok_from_normalized:
  "canonical ps \<Longrightarrow> \<forall>p \<in> set ps. piece_ok p \<Longrightarrow> snap_ok (from_normalized rate ps ms r ar)"
  by (simp add: snap_ok_def from_normalized_def)

lemma from_normalized_simps [simp]:
  "s_pieces (from_normalized rate ps ms r ar) = ps" "s_len (from_normalized rate ps ms r ar) = pieces_len ps"
  "s_starts (from_normalized rate ps ms r ar) = prefix_starts 0 ps"
  "s_markers (from_normalized rate ps ms r ar) = sort_markers ms"
  "s_rate (from_normalized rate ps ms r ar) = rate"
  "s_rev (from_normalized rate ps ms r ar) = r" "s_audio_rev (from_normalized rate ps ms r ar) = ar"
  by (simp_all add: from_normalized_def)

end
