(* ===== verification/History.thy ===== *)
theory History
  imports Snapshot
begin

text \<open>
  Edits and the undo/redo stacks: \<^verbatim>\<open>crates/project/src/history.rs\<close>.

  A vector used as a stack has its top at the end, as in the code (\<open>last\<close>, \<open>butlast\<close>, \<open>@ [x]\<close>).
  \<open>prepare\<close> validates an edit and builds the next snapshot, \<open>commit\<close> installs it; undo and redo
  move an entry between the stacks and stamp the snapshot they restore with fresh revisions.
\<close>

type_synonym label_params = "(string \<times> string) list"

datatype marker_mapping = Shift | Identity

datatype edit_op = Replace nat nat "piece list" marker_mapping

datatype marker_op =
    MAdd marker
  | MRemove nat
  | MRename nat string
  | MMove nat nat nat

record edit =
  e_label :: string
  e_params :: label_params
  e_ops :: "edit_op list"
  e_marker_ops :: "marker_op list"
  e_attachment :: "byte list option"

fun op_changes_audio :: "edit_op \<Rightarrow> bool" where
  "op_changes_audio (Replace at remove_len ps mp) \<longleftrightarrow> remove_len > 0 \<or> (\<exists>p \<in> set ps. p_len p > 0)"

fun op_at :: "edit_op \<Rightarrow> nat" where
  "op_at (Replace at remove_len ps mp) = at"

fun op_pieces :: "edit_op \<Rightarrow> piece list" where
  "op_pieces (Replace at remove_len ps mp) = ps"

definition edit_new :: "string \<Rightarrow> edit" where
  "edit_new label =
     \<lparr>e_label = label, e_params = [], e_ops = [], e_marker_ops = [], e_attachment = None\<rparr>"

definition edit_replace_with :: "edit \<Rightarrow> nat \<Rightarrow> nat \<Rightarrow> piece list \<Rightarrow> marker_mapping \<Rightarrow> edit" where
  "edit_replace_with e at remove_len ps mp = e\<lparr>e_ops := e_ops e @ [Replace at remove_len ps mp]\<rparr>"

definition edit_replace :: "edit \<Rightarrow> nat \<Rightarrow> nat \<Rightarrow> piece list \<Rightarrow> edit" where
  "edit_replace e at remove_len ps = edit_replace_with e at remove_len ps Shift"

definition edit_marker :: "edit \<Rightarrow> marker_op \<Rightarrow> edit" where
  "edit_marker e op = e\<lparr>e_marker_ops := e_marker_ops e @ [op]\<rparr>"

text \<open>The \<open>BTreeMap\<close> of placeholder values: an association list in key order.\<close>

fun params_insert :: "string \<Rightarrow> string \<Rightarrow> (string \<Rightarrow> string \<Rightarrow> bool) \<Rightarrow> label_params \<Rightarrow> label_params" where
  "params_insert k v lt [] = [(k, v)]"
| "params_insert k v lt ((k', v') # ps) =
     (if k = k' then (k, v) # ps
      else if lt k k' then (k, v) # (k', v') # ps
      else (k', v') # params_insert k v lt ps)"

definition char_lt :: "char \<Rightarrow> char \<Rightarrow> bool" where
  "char_lt a b \<longleftrightarrow> (of_char a :: nat) < of_char b"

definition string_lt :: "string \<Rightarrow> string \<Rightarrow> bool" where
  "string_lt a b \<longleftrightarrow> ord.lexordp char_lt a b"

definition edit_with_label_param :: "edit \<Rightarrow> string \<Rightarrow> string \<Rightarrow> edit" where
  "edit_with_label_param e k v = e\<lparr>e_params := params_insert k v string_lt (e_params e)\<rparr>"

definition edit_with_attachment :: "edit \<Rightarrow> byte list \<Rightarrow> edit" where
  "edit_with_attachment e a = e\<lparr>e_attachment := Some a\<rparr>"

definition edit_changes_audio :: "edit \<Rightarrow> bool" where
  "edit_changes_audio e \<longleftrightarrow> (\<exists>op \<in> set (e_ops e). op_changes_audio op)"

definition edit_first_at :: "edit \<Rightarrow> nat option" where
  "edit_first_at e = iter_min (map op_at (e_ops e))"

section \<open>The history\<close>

record entry =
  en_snapshot :: doc_snapshot
  en_seq :: nat
  en_label :: string
  en_params :: label_params
  en_attachment :: "byte list option"
  en_audio :: bool
  en_first_at :: "nat option"

record history_step =
  hs_snapshot :: doc_snapshot
  hs_seq :: nat
  hs_label :: string
  hs_params :: label_params
  hs_attachment :: "byte list option"
  hs_audio_changed :: bool
  hs_first_at :: "nat option"

record prepared_edit =
  pe_snapshot :: doc_snapshot
  pe_seq :: nat
  pe_label :: string
  pe_params :: label_params
  pe_attachment :: "byte list option"
  pe_audio :: bool
  pe_first_at :: "nat option"
  pe_next_marker_id :: nat
  pe_base_rev :: nat

record history =
  h_current :: doc_snapshot
  h_undo :: "entry list"
  h_redo :: "entry list"
  h_next_rev :: nat
  h_next_audio_rev :: nat
  h_next_seq :: nat
  h_saved_seq :: nat
  h_next_marker_id :: nat

definition floor_marker_id :: "marker list \<Rightarrow> nat" where
  "floor_marker_id ms = unwrap_or (iter_max (map (\<lambda>m. m_id m + 1) ms)) 1"

definition history_new :: "doc_snapshot \<Rightarrow> history" where
  "history_new flr =
     \<lparr>h_current = flr\<lparr>s_rev := 1, s_audio_rev := 1\<rparr>, h_undo = [], h_redo = [], h_next_rev = 2,
      h_next_audio_rev = 2, h_next_seq = 1, h_saved_seq = 0,
      h_next_marker_id = floor_marker_id (s_markers flr)\<rparr>"

definition rebased :: "history \<Rightarrow> doc_snapshot \<Rightarrow> history" where
  "rebased h flr =
     \<lparr>h_current = flr\<lparr>s_rev := h_next_rev h, s_audio_rev := h_next_audio_rev h\<rparr>,
      h_undo = [], h_redo = [], h_next_rev = h_next_rev h + 1,
      h_next_audio_rev = h_next_audio_rev h + 1, h_next_seq = h_next_seq h, h_saved_seq = 0,
      h_next_marker_id = max (h_next_marker_id h) (floor_marker_id (s_markers flr))\<rparr>"

definition peek_seq :: "entry list \<Rightarrow> nat option" where
  "peek_seq es = (if es = [] then None else Some (en_seq (last es)))"

text \<open>What the Edit menu and the history panel read.\<close>

definition undo_depth :: "history \<Rightarrow> nat" where
  "undo_depth h = length (h_undo h)"

definition redo_depth :: "history \<Rightarrow> nat" where
  "redo_depth h = length (h_redo h)"

definition top_entry :: "entry list \<Rightarrow> entry option" where
  "top_entry es = (if es = [] then None else Some (last es))"

definition undo_label :: "history \<Rightarrow> string option" where
  "undo_label h = map_option en_label (top_entry (h_undo h))"

definition redo_label :: "history \<Rightarrow> string option" where
  "redo_label h = map_option en_label (top_entry (h_redo h))"

definition undo_label_params :: "history \<Rightarrow> label_params option" where
  "undo_label_params h = map_option en_params (top_entry (h_undo h))"

definition redo_label_params :: "history \<Rightarrow> label_params option" where
  "redo_label_params h = map_option en_params (top_entry (h_redo h))"

definition undo_labels :: "history \<Rightarrow> (string \<times> label_params) list" where
  "undo_labels h = map (\<lambda>e. (en_label e, en_params e)) (h_undo h)"

definition redo_labels :: "history \<Rightarrow> (string \<times> label_params) list" where
  "redo_labels h = map (\<lambda>e. (en_label e, en_params e)) (h_redo h)"

definition current_seq :: "history \<Rightarrow> nat" where
  "current_seq h = unwrap_or (peek_seq (h_undo h)) 0"

definition is_dirty :: "history \<Rightarrow> bool" where
  "is_dirty h \<longleftrightarrow> current_seq h \<noteq> h_saved_seq h"

definition mark_saved_at :: "history \<Rightarrow> nat \<Rightarrow> history" where
  "mark_saved_at h seq = h\<lparr>h_saved_seq := seq\<rparr>"

definition mark_saved :: "history \<Rightarrow> history" where
  "mark_saved h = mark_saved_at h (current_seq h)"

definition allocate_marker_id :: "history \<Rightarrow> nat \<times> history" where
  "allocate_marker_id h =
     (h_next_marker_id h, h\<lparr>h_next_marker_id := h_next_marker_id h + 1\<rparr>)"

definition drop_oldest_undo :: "history \<Rightarrow> nat \<Rightarrow> nat \<times> history" where
  "drop_oldest_undo h cnt =
     (let n = min cnt (length (h_undo h)) in (n, h\<lparr>h_undo := drop n (h_undo h)\<rparr>))"

definition history_step_of :: "doc_snapshot \<Rightarrow> entry \<Rightarrow> history_step" where
  "history_step_of cur e =
     \<lparr>hs_snapshot = cur, hs_seq = en_seq e, hs_label = en_label e, hs_params = en_params e,
      hs_attachment = en_attachment e, hs_audio_changed = en_audio e, hs_first_at = en_first_at e\<rparr>"

definition restamp :: "history \<Rightarrow> doc_snapshot \<Rightarrow> bool \<Rightarrow> doc_snapshot \<times> history" where
  "restamp h target audio =
     (let r = h_next_rev h;
          h1 = h\<lparr>h_next_rev := h_next_rev h + 1\<rparr>
      in if audio then
           (target\<lparr>s_rev := r, s_audio_rev := h_next_audio_rev h1\<rparr>,
            h1\<lparr>h_next_audio_rev := h_next_audio_rev h1 + 1\<rparr>)
         else (target\<lparr>s_rev := r, s_audio_rev := s_audio_rev (h_current h1)\<rparr>, h1))"

definition history_undo :: "history \<Rightarrow> history_step option \<times> history" where
  "history_undo h =
     (if h_undo h = [] then (None, h)
      else let e = last (h_undo h);
               (restamped, h1) = restamp (h\<lparr>h_undo := butlast (h_undo h)\<rparr>) (en_snapshot e) (en_audio e);
               after = h_current h1;
               h2 = h1\<lparr>h_current := restamped\<rparr>
           in (Some (history_step_of (h_current h2) e),
               h2\<lparr>h_redo := h_redo h2 @ [e\<lparr>en_snapshot := after\<rparr>]\<rparr>))"

definition history_redo :: "history \<Rightarrow> history_step option \<times> history" where
  "history_redo h =
     (if h_redo h = [] then (None, h)
      else let e = last (h_redo h);
               (restamped, h1) = restamp (h\<lparr>h_redo := butlast (h_redo h)\<rparr>) (en_snapshot e) (en_audio e);
               before = h_current h1;
               h2 = h1\<lparr>h_current := restamped\<rparr>
           in (Some (history_step_of (h_current h2) e),
               h2\<lparr>h_undo := h_undo h2 @ [e\<lparr>en_snapshot := before\<rparr>]\<rparr>))"

definition from_parts ::
    "doc_snapshot \<Rightarrow> entry list \<Rightarrow> entry list \<Rightarrow> nat \<Rightarrow> nat \<Rightarrow> nat \<Rightarrow> nat \<Rightarrow> nat \<Rightarrow> history" where
  "from_parts current undo redo next_rev next_audio_rev next_seq saved_seq next_marker_id =
     (let snaps = current # map en_snapshot (undo @ redo);
          flr = unwrap_or (iter_max (map (\<lambda>m. m_id m + 1) (concat (map s_markers snaps)))) 1;
          (max_rev, max_arev) =
            foldl (\<lambda>(r, a) s. (max r (s_rev s), max a (s_audio_rev s))) (0, 0) snaps;
          max_seq = unwrap_or (iter_max (map en_seq (undo @ redo))) 0
      in \<lparr>h_current = current, h_undo = undo, h_redo = redo,
          h_next_rev = max next_rev (max_rev + 1),
          h_next_audio_rev = max next_audio_rev (max_arev + 1),
          h_next_seq = max next_seq (max_seq + 1),
          h_saved_seq = saved_seq,
          h_next_marker_id = max next_marker_id flr\<rparr>)"

section \<open>\<open>prepare\<close> and \<open>commit\<close>\<close>

definition piece_valid :: "piece \<Rightarrow> bool" where
  "piece_valid p \<longleftrightarrow>
     (case p_source p of
        Chunk _ \<Rightarrow> p_offset p + p_len p \<le> chunk_samples
      | Silence \<Rightarrow> p_offset p = 0)"

definition piece_fault :: "piece \<Rightarrow> project_error" where
  "piece_fault p =
     InvalidEdit (BadPiece (case p_source p of Chunk c \<Rightarrow> Some c | Silence \<Rightarrow> None)
       (p_offset p) (p_len p))"

fun validate_pieces :: "piece list \<Rightarrow> project_error + unit" where
  "validate_pieces [] = Inr ()"
| "validate_pieces (p # ps) = (if piece_valid p then validate_pieces ps else Inl (piece_fault p))"

definition check_marker_bounds :: "nat \<Rightarrow> nat \<Rightarrow> nat \<Rightarrow> project_error + unit" where
  "check_marker_bounds pos len doc_len =
     (case checked_add64 pos len of
        Some e \<Rightarrow> if e \<le> doc_len then Inr ()
                  else Inl (InvalidEdit (MarkerOutside pos len doc_len))
      | None \<Rightarrow> Inl (InvalidEdit (MarkerOutside pos len doc_len)))"

text \<open>One iteration of the loop over \<open>edit.ops\<close>: \<open>work\<close> is the snapshot built so far.\<close>

fun prepare_op ::
    "doc_snapshot \<Rightarrow> doc_snapshot option \<times> marker list \<Rightarrow> edit_op \<Rightarrow>
     project_error + doc_snapshot option \<times> marker list" where
  "prepare_op cur (work, ms) (Replace at remove_len ps mp) =
     (case validate_pieces ps of
        Inl err \<Rightarrow> Inl err
      | Inr _ \<Rightarrow>
          if \<not> op_changes_audio (Replace at remove_len ps mp) then Inr (work, ms)
          else
            let insert_len = pieces_len ps;
                base = unwrap_or work cur;
                grows_at_end =
                  (insert_len > remove_len \<and> sat_add64 at remove_len = s_len base)
            in if mp = Identity \<and> insert_len \<noteq> remove_len \<and> \<not> grows_at_end
               then Inl (InvalidEdit (IdentityNeedsLength remove_len insert_len))
               else
                 (case replaced base at remove_len ps of
                    Inl err \<Rightarrow> Inl err
                  | Inr new_pieces \<Rightarrow>
                      Inr (Some (from_normalized (s_rate cur) new_pieces [] 0 0),
                           (if mp = Shift then shift_markers ms at remove_len insert_len else ms))))"

fun prepare_ops ::
    "doc_snapshot \<Rightarrow> doc_snapshot option \<times> marker list \<Rightarrow> edit_op list \<Rightarrow>
     project_error + doc_snapshot option \<times> marker list" where
  "prepare_ops cur st [] = Inr st"
| "prepare_ops cur st (op # ops) =
     (case prepare_op cur st op of
        Inl err \<Rightarrow> Inl err
      | Inr st' \<Rightarrow> prepare_ops cur st' ops)"

definition find_marker_index :: "marker list \<Rightarrow> nat \<Rightarrow> project_error + nat" where
  "find_marker_index ms i =
     (case position (\<lambda>m. m_id m = i) ms of
        Some k \<Rightarrow> Inr k
      | None \<Rightarrow> Inl (InvalidEdit (NoMarker i)))"

fun apply_marker_op ::
    "nat \<Rightarrow> marker list \<times> nat \<Rightarrow> marker_op \<Rightarrow> project_error + marker list \<times> nat" where
  "apply_marker_op len (ms, nxt) (MAdd m) =
     (if \<exists>x \<in> set ms. m_id x = m_id m then Inl (InvalidEdit (MarkerExists (m_id m)))
      else case check_marker_bounds (m_pos m) (m_len m) len of
             Inl err \<Rightarrow> Inl err
           | Inr _ \<Rightarrow> Inr (ms @ [m], max nxt (sat_add64 (m_id m) 1)))"
| "apply_marker_op len (ms, nxt) (MRemove i) =
     (case find_marker_index ms i of
        Inl err \<Rightarrow> Inl err
      | Inr k \<Rightarrow> Inr (take k ms @ drop (Suc k) ms, nxt))"
| "apply_marker_op len (ms, nxt) (MRename i name) =
     (case find_marker_index ms i of
        Inl err \<Rightarrow> Inl err
      | Inr k \<Rightarrow> Inr (ms[k := (ms ! k)\<lparr>m_name := name\<rparr>], nxt))"
| "apply_marker_op len (ms, nxt) (MMove i pos mlen) =
     (case find_marker_index ms i of
        Inl err \<Rightarrow> Inl err
      | Inr k \<Rightarrow>
          (case check_marker_bounds pos mlen len of
             Inl err \<Rightarrow> Inl err
           | Inr _ \<Rightarrow> Inr (ms[k := (ms ! k)\<lparr>m_pos := pos, m_len := mlen\<rparr>], nxt)))"

fun apply_marker_ops ::
    "nat \<Rightarrow> marker list \<times> nat \<Rightarrow> marker_op list \<Rightarrow> project_error + marker list \<times> nat" where
  "apply_marker_ops len st [] = Inr st"
| "apply_marker_ops len st (op # ops) =
     (case apply_marker_op len st op of
        Inl err \<Rightarrow> Inl err
      | Inr st' \<Rightarrow> apply_marker_ops len st' ops)"

definition prepare :: "history \<Rightarrow> edit \<Rightarrow> project_error + prepared_edit" where
  "prepare h e =
     (let cur = h_current h in
      case prepare_ops cur (None, s_markers cur) (e_ops e) of
        Inl err \<Rightarrow> Inl err
      | Inr (work, ms) \<Rightarrow>
          let audio = (work \<noteq> None);
              len = (case work of Some w \<Rightarrow> s_len w | None \<Rightarrow> s_len cur)
          in (case apply_marker_ops len (ms, h_next_marker_id h) (e_marker_ops e) of
                Inl err \<Rightarrow> Inl err
              | Inr (ms', nxt) \<Rightarrow>
                  if \<not> audio \<and> e_marker_ops e = [] then Inl (InvalidEdit ChangesNothing)
                  else
                    let src = unwrap_or work cur
                    in Inr \<lparr>pe_snapshot =
                              \<lparr>s_rev = h_next_rev h,
                               s_audio_rev = (if audio then h_next_audio_rev h else s_audio_rev cur),
                               s_rate = s_rate cur, s_pieces = s_pieces src,
                               s_starts = s_starts src, s_len = s_len src,
                               s_markers = sort_markers ms'\<rparr>,
                            pe_seq = h_next_seq h, pe_label = e_label e, pe_params = e_params e,
                            pe_attachment = e_attachment e, pe_audio = audio,
                            pe_first_at = edit_first_at e, pe_next_marker_id = nxt,
                            pe_base_rev = s_rev cur\<rparr>))"

definition commit :: "history \<Rightarrow> prepared_edit \<Rightarrow> history_step \<times> history" where
  "commit h p =
     (\<lparr>hs_snapshot = pe_snapshot p, hs_seq = pe_seq p, hs_label = pe_label p, hs_params = pe_params p,
       hs_attachment = pe_attachment p, hs_audio_changed = pe_audio p, hs_first_at = pe_first_at p\<rparr>,
      \<lparr>h_current = pe_snapshot p,
       h_undo = h_undo h @
         [\<lparr>en_snapshot = h_current h, en_seq = pe_seq p, en_label = pe_label p,
           en_params = pe_params p, en_attachment = pe_attachment p, en_audio = pe_audio p,
           en_first_at = pe_first_at p\<rparr>],
       h_redo = [],
       h_next_rev = h_next_rev h + 1,
       h_next_audio_rev = (if pe_audio p then h_next_audio_rev h + 1 else h_next_audio_rev h),
       h_next_seq = h_next_seq h + 1,
       h_saved_seq = h_saved_seq h,
       h_next_marker_id = pe_next_marker_id p\<rparr>)"

definition history_apply :: "history \<Rightarrow> edit \<Rightarrow> project_error + history_step \<times> history" where
  "history_apply h e = (case prepare h e of Inl err \<Rightarrow> Inl err | Inr p \<Rightarrow> Inr (commit h p))"

section \<open>What an edit does to the document\<close>

text \<open>
  \<open>doc_ok\<close> is the invariant of a document revision.  \<open>edit_typed\<close> states the ranges Rust's
  types give the fields of an edit (\<open>u32\<close> piece lengths, \<open>u64\<close> marker ids below the maximum).
\<close>

definition doc_ok :: "doc_snapshot \<Rightarrow> bool" where
  "doc_ok d \<longleftrightarrow> snap_ok d \<and> (\<forall>m \<in> set (s_markers d). marker_in (s_len d) m) \<and>
     distinct (map m_id (s_markers d))"

definition op_typed :: "edit_op \<Rightarrow> bool" where
  "op_typed op \<longleftrightarrow> (\<forall>p \<in> set (op_pieces op). p_len p \<le> u32_max)"

fun marker_op_typed :: "marker_op \<Rightarrow> bool" where
  "marker_op_typed (MAdd m) \<longleftrightarrow> m_id m < u64_max"
| "marker_op_typed _ \<longleftrightarrow> True"

definition edit_typed :: "edit \<Rightarrow> bool" where
  "edit_typed e \<longleftrightarrow> (\<forall>op \<in> set (e_ops e). op_typed op) \<and> (\<forall>op \<in> set (e_marker_ops e). marker_op_typed op)"

text \<open>The specification of a piece-table operation on the samples.\<close>

fun op_spec :: "(nat \<Rightarrow> nat \<Rightarrow> 'a) \<Rightarrow> 'a \<Rightarrow> 'a list \<Rightarrow> edit_op \<Rightarrow> 'a list" where
  "op_spec rd z xs (Replace at r ps mp) = take at xs @ content rd z ps @ drop (at + r) xs"

definition markers_ok :: "nat \<Rightarrow> marker list \<Rightarrow> bool" where
  "markers_ok len ms \<longleftrightarrow> (\<forall>m \<in> set ms. marker_in len m) \<and> distinct (map m_id ms)"

lemma validate_pieces_Inr [simp]: "validate_pieces ps = Inr u \<longleftrightarrow> (\<forall>p \<in> set ps. piece_valid p)"
  by (induction ps) auto

lemma valid_typed_ok: "piece_valid p \<Longrightarrow> p_len p \<le> u32_max \<Longrightarrow> piece_ok p"
  by (auto simp: piece_valid_def piece_ok_def split: source.splits)

lemma unchanged_op:
  assumes "\<not> op_changes_audio op"
  shows "op_spec rd z xs op = xs"
proof (cases op)
  case (Replace at r ps mp)
  have "\<forall>p \<in> set ps. p_len p = 0 \<Longrightarrow> content rd z ps = []"
    by (induction ps) (auto simp: piece_content_empty)
  with Replace assms show ?thesis by auto
qed

lemma prepare_op_cases:
  assumes "prepare_op cur (work, ms) (Replace at r ps mp) = Inr (work', ms')"
  obtains (skip) "\<not> op_changes_audio (Replace at r ps mp)" "work' = work" "ms' = ms"
    | (change) qs where "op_changes_audio (Replace at r ps mp)" "\<forall>p \<in> set ps. piece_valid p"
        "replaced (unwrap_or work cur) at r ps = Inr qs"
        "work' = Some (from_normalized (s_rate cur) qs [] 0 0)"
        "ms' = (if mp = Shift then shift_markers ms at r (pieces_len ps) else ms)"
        "mp = Identity \<Longrightarrow> r \<le> pieces_len ps"
proof (cases "op_changes_audio (Replace at r ps mp)")
  case True
  with assms change show thesis
    by (cases mp) (auto simp: Let_def simp del: op_changes_audio.simps split: sum.splits if_splits)
next
  case False
  with assms skip show thesis
    by (auto simp del: op_changes_audio.simps split: sum.splits)
qed

lemma prepare_op_ok:
  assumes st: "snap_ok (unwrap_or work cur)" "markers_ok (s_len (unwrap_or work cur)) ms"
    and typed: "op_typed op" and res: "prepare_op cur (work, ms) op = Inr (work', ms')"
  shows "snap_ok (unwrap_or work' cur) \<and> markers_ok (s_len (unwrap_or work' cur)) ms' \<and>
    m_id ` set ms' = m_id ` set ms \<and>
    content rd z (s_pieces (unwrap_or work' cur)) =
      op_spec rd z (content rd z (s_pieces (unwrap_or work cur))) op \<and>
    (work' = None \<longrightarrow> work = None)"
proof -
  obtain at r ps mp where op: "op = Replace at r ps mp" by (cases op)
  from res [unfolded op] show ?thesis
  proof (cases rule: prepare_op_cases)
    case skip
    with st op unchanged_op [of op] show ?thesis by metis
  next
    case (change qs)
    define base where "base = unwrap_or work cur"
    note st = st [folded base_def]
    have ok: "\<forall>p \<in> set ps. piece_ok p"
      using typed change(2) op by (auto simp: op_typed_def intro: valid_typed_ok)
    note rep = change(3) [folded base_def]
    note c = replaced_canonical [OF rep] replaced_ok [OF st(1) ok rep]
    have len: "pieces_len qs = s_len base - r + pieces_len ps"
      by (rule replaced_len [OF st(1) rep])
    have b: "at + r \<le> s_len base" "at + r \<le> u64_max" using replaced_bounds [OF rep] by auto
    have "markers_ok (pieces_len qs) ms'"
    proof (cases mp)
      case Shift
      with change st b shift_markers_in [OF b] show ?thesis
        by (auto simp: markers_ok_def len)
    next
      case Identity
      with change have "s_len base \<le> pieces_len qs" using b len by auto
      with Identity change st show ?thesis by (auto simp: markers_ok_def marker_in_def)
    qed
    moreover have "m_id ` set ms' = m_id ` set ms" using change by (cases mp) auto
    ultimately show ?thesis
      using change c replaced_content [OF st(1) rep, of rd z]
      by (simp add: op base_def snap_ok_from_normalized)
  qed
qed

lemma prepare_ops_ok:
  assumes "snap_ok (unwrap_or work cur)" "markers_ok (s_len (unwrap_or work cur)) ms"
    and "\<forall>op \<in> set ops. op_typed op" and "prepare_ops cur (work, ms) ops = Inr (work', ms')"
  shows "snap_ok (unwrap_or work' cur) \<and> markers_ok (s_len (unwrap_or work' cur)) ms' \<and>
    m_id ` set ms' = m_id ` set ms \<and>
    content rd z (s_pieces (unwrap_or work' cur)) =
      foldl (op_spec rd z) (content rd z (s_pieces (unwrap_or work cur))) ops \<and>
    (work' = None \<longrightarrow> work = None)"
  using assms
proof (induction ops arbitrary: work ms)
  case Nil
  then show ?case by simp
next
  case (Cons op ops)
  from Cons.prems(4) obtain w1 m1 where
    s1: "prepare_op cur (work, ms) op = Inr (w1, m1)" and
    s2: "prepare_ops cur (w1, m1) ops = Inr (work', ms')"
    by (auto split: sum.splits)
  from Cons.prems have "op_typed op" by simp
  note a = prepare_op_ok [OF Cons.prems(1,2) this s1, of rd z]
  from Cons.prems have "\<forall>op \<in> set ops. op_typed op" by simp
  with a Cons.IH [OF _ _ _ s2] show ?case by simp
qed

section \<open>Marker operations\<close>

lemma check_marker_bounds_Inr [simp]:
  "check_marker_bounds pos len doc_len = Inr u \<longleftrightarrow> pos + len \<le> doc_len \<and> pos + len \<le> u64_max"
  by (auto simp: check_marker_bounds_def split: option.splits)

lemma find_marker_index_InrD: "find_marker_index ms i = Inr k \<Longrightarrow> k < length ms \<and> m_id (ms ! k) = i"
  by (auto simp: find_marker_index_def dest: position_SomeD split: option.splits)

lemma markers_ok_remove:
  assumes "markers_ok len ms" "k < length ms"
  shows "markers_ok len (take k ms @ drop (Suc k) ms)"
proof -
  define xs m ys where "xs = take k ms" and "m = ms ! k" and "ys = drop (Suc k) ms"
  have "ms = xs @ m # ys"
    using assms(2) unfolding xs_def m_def ys_def by (rule id_take_nth_drop)
  with assms(1) have "markers_ok len (xs @ ys)" by (auto simp: markers_ok_def)
  then show ?thesis by (simp add: xs_def ys_def)
qed

lemma map_id_update:
  "k < length ms \<Longrightarrow> m_id m = m_id (ms ! k) \<Longrightarrow> map m_id (ms[k := m]) = map m_id ms"
  by (metis list_update_id map_update nth_map)

lemma apply_marker_op_ok:
  assumes "markers_ok len ms" "\<forall>m \<in> set ms. m_id m < nxt" "marker_op_typed op"
    and "apply_marker_op len (ms, nxt) op = Inr (ms', nxt')"
  shows "markers_ok len ms' \<and> (\<forall>m \<in> set ms'. m_id m < nxt') \<and> nxt \<le> nxt'"
proof (cases op)
  case (MAdd m)
  with assms have "\<forall>x \<in> set ms. m_id x \<noteq> m_id m" "m_pos m + m_len m \<le> len"
    and "ms' = ms @ [m]" "nxt' = max nxt (m_id m + 1)"
    by (auto simp: sat_add64_def split: if_splits sum.splits)
  with assms(1,2) show ?thesis
    by (fastforce simp: markers_ok_def marker_in_def less_max_iff_disj)
next
  case (MRemove i)
  with assms obtain k where k: "k < length ms" and ms': "ms' = take k ms @ drop (Suc k) ms" "nxt' = nxt"
    by (auto dest: find_marker_index_InrD split: sum.splits)
  have "set ms' \<subseteq> set ms" using ms' by (auto dest: in_set_takeD in_set_dropD)
  with ms' markers_ok_remove [OF assms(1) k] assms(2) show ?thesis by blast
next
  case (MRename i name)
  with assms obtain k where k: "k < length ms" and ms': "ms' = ms[k := (ms ! k)\<lparr>m_name := name\<rparr>]" "nxt' = nxt"
    by (auto dest: find_marker_index_InrD split: sum.splits)
  then have "marker_in len ((ms ! k)\<lparr>m_name := name\<rparr>)" and "m_id (ms ! k) < nxt"
    using assms(1,2) by (auto simp: markers_ok_def marker_in_def)
  with ms' k assms(1,2) show ?thesis
    by (auto simp: markers_ok_def map_id_update dest!: set_update_subset_insert [THEN subsetD])
next
  case (MMove i pos mlen)
  with assms obtain k where k: "k < length ms" and ms': "ms' = ms[k := (ms ! k)\<lparr>m_pos := pos, m_len := mlen\<rparr>]"
    "nxt' = nxt" and b: "pos + mlen \<le> len"
    by (auto dest: find_marker_index_InrD split: sum.splits)
  then have "marker_in len ((ms ! k)\<lparr>m_pos := pos, m_len := mlen\<rparr>)" and "m_id (ms ! k) < nxt"
    using assms(1,2) by (auto simp: markers_ok_def marker_in_def)
  with ms' k assms(1,2) show ?thesis
    by (auto simp: markers_ok_def map_id_update dest!: set_update_subset_insert [THEN subsetD])
qed

lemma apply_marker_ops_ok:
  assumes "markers_ok len ms" "\<forall>m \<in> set ms. m_id m < nxt" "\<forall>op \<in> set ops. marker_op_typed op"
    and "apply_marker_ops len (ms, nxt) ops = Inr (ms', nxt')"
  shows "markers_ok len ms' \<and> (\<forall>m \<in> set ms'. m_id m < nxt') \<and> nxt \<le> nxt'"
  using assms
proof (induction ops arbitrary: ms nxt)
  case (Cons op ops)
  from Cons.prems(4) obtain m1 n1 where
    s1: "apply_marker_op len (ms, nxt) op = Inr (m1, n1)" and
    s2: "apply_marker_ops len (m1, n1) ops = Inr (ms', nxt')"
    by (auto split: sum.splits)
  from Cons.prems have "marker_op_typed op" by simp
  note a = apply_marker_op_ok [OF Cons.prems(1,2) this s1]
  with Cons.IH [OF _ _ _ s2] Cons.prems show ?case by force
qed simp

end
