(* ===== verification/Undo_Log.thy ===== *)
theory Undo_Log
  imports Main
begin

text \<open>
  The interface of an undoable document, as the session and the recovery code use it: a line of
  states, a cursor on it, and undo/redo that move the cursor.  The client lemmas are proved here
  once, from the laws; \<open>History_Props\<close> interprets the locale on the history's own operations.
\<close>

primrec iter_opt :: "('h \<Rightarrow> 'h option) \<Rightarrow> nat \<Rightarrow> 'h \<Rightarrow> 'h option" where
  "iter_opt f 0 h = Some h"
| "iter_opt f (Suc n) h = Option.bind (f h) (iter_opt f n)"

primrec fold_opt :: "('e \<Rightarrow> 'h \<Rightarrow> 'h option) \<Rightarrow> 'e list \<Rightarrow> 'h \<Rightarrow> 'h option" where
  "fold_opt f [] h = Some h"
| "fold_opt f (e # es) h = Option.bind (f e h) (fold_opt f es)"

locale linear_undo =
  fixes states :: "'h \<Rightarrow> 'v list"
    and cursor :: "'h \<Rightarrow> nat"
    and undo :: "'h \<Rightarrow> 'h option"
    and redo :: "'h \<Rightarrow> 'h option"
    and inv :: "'h \<Rightarrow> bool"
  assumes cursor_in: "inv h \<Longrightarrow> cursor h < length (states h)"
    and undo_step: "inv h \<Longrightarrow> undo h = Some h' \<Longrightarrow>
          cursor h = Suc (cursor h') \<and> states h' = states h \<and> inv h'"
    and undo_floor: "inv h \<Longrightarrow> undo h = None \<longleftrightarrow> cursor h = 0"
    and redo_step: "inv h \<Longrightarrow> redo h = Some h' \<Longrightarrow>
          cursor h' = Suc (cursor h) \<and> states h' = states h \<and> inv h'"
    and redo_top: "inv h \<Longrightarrow> redo h = None \<longleftrightarrow> Suc (cursor h) = length (states h)"
begin

lemma undo_n:
  assumes "inv h" and "n \<le> cursor h"
  shows "\<exists>h'. iter_opt undo n h = Some h' \<and> inv h' \<and> states h' = states h \<and> cursor h' = cursor h - n"
  using assms
proof (induction n arbitrary: h)
  case 0
  then show ?case by simp
next
  case (Suc n)
  then obtain h1 where h1: "undo h = Some h1" using undo_floor [of h] by fastforce
  from undo_step [OF Suc.prems(1) h1] have s: "cursor h = Suc (cursor h1)" "states h1 = states h" "inv h1"
    by auto
  with Suc obtain h' where "iter_opt undo n h1 = Some h'" "inv h'" "states h' = states h1"
    "cursor h' = cursor h1 - n" by force
  with h1 s show ?case by simp
qed

lemma redo_n:
  assumes "inv h" and "cursor h + n < length (states h)"
  shows "\<exists>h'. iter_opt redo n h = Some h' \<and> inv h' \<and> states h' = states h \<and> cursor h' = cursor h + n"
  using assms
proof (induction n arbitrary: h)
  case 0
  then show ?case by simp
next
  case (Suc n)
  then obtain h1 where h1: "redo h = Some h1" using redo_top [of h] by fastforce
  from redo_step [OF Suc.prems(1) h1] have s: "cursor h1 = Suc (cursor h)" "states h1 = states h" "inv h1"
    by auto
  with Suc obtain h' where "iter_opt redo n h1 = Some h'" "inv h'" "states h' = states h1"
    "cursor h' = cursor h1 + n" by force
  with h1 s show ?case by simp
qed

lemma undo_redo_n:
  assumes "inv h" and "n \<le> cursor h"
  shows "\<exists>h' h''. iter_opt undo n h = Some h' \<and> iter_opt redo n h' = Some h'' \<and>
    states h'' = states h \<and> cursor h'' = cursor h"
proof -
  from undo_n [OF assms] obtain h' where h': "iter_opt undo n h = Some h'" "inv h'"
    "states h' = states h" "cursor h' = cursor h - n" by blast
  with cursor_in [OF assms(1)] assms(2) have "cursor h' + n < length (states h')" by simp
  from redo_n [OF h'(2) this] h' assms(2) show ?thesis by force
qed

end

locale linear_history = linear_undo +
  fixes apply_edit :: "'e \<Rightarrow> 'h \<Rightarrow> 'h option"
    and typed :: "'e \<Rightarrow> bool"
  assumes apply_step: "inv h \<Longrightarrow> typed e \<Longrightarrow> apply_edit e h = Some h' \<Longrightarrow>
      inv h' \<and> cursor h' = Suc (cursor h) \<and> (\<exists>v. states h' = take (Suc (cursor h)) (states h) @ [v])"
begin

lemma apply_all:
  assumes "inv h" and "\<forall>e \<in> set es. typed e" and "fold_opt apply_edit es h = Some h'"
  shows "inv h' \<and> cursor h' = cursor h + length es \<and>
    take (Suc (cursor h)) (states h') = take (Suc (cursor h)) (states h)"
  using assms
proof (induction es arbitrary: h)
  case Nil
  then show ?case by simp
next
  case (Cons e es)
  then obtain h1 where h1: "apply_edit e h = Some h1" and r: "fold_opt apply_edit es h1 = Some h'"
    by (auto simp: bind_eq_Some_conv)
  from Cons.prems have "typed e" by simp
  from apply_step [OF Cons.prems(1) this h1] obtain v where
    s: "inv h1" "cursor h1 = Suc (cursor h)" "states h1 = take (Suc (cursor h)) (states h) @ [v]" by blast
  have c: "cursor h < length (states h)" by (rule cursor_in [OF Cons.prems(1)])
  from Cons.IH [OF s(1) _ r] Cons.prems s(2) have
    i: "inv h'" "cursor h' = cursor h1 + length es"
       "take (Suc (cursor h1)) (states h') = take (Suc (cursor h1)) (states h1)" by auto
  have "take (Suc (cursor h)) (states h') = take (Suc (cursor h)) (take (Suc (cursor h1)) (states h'))"
    by (simp add: s(2) min_def)
  also have "\<dots> = take (Suc (cursor h)) (take (Suc (cursor h1)) (states h1))" by (simp only: i(3))
  also have "\<dots> = take (Suc (cursor h)) (states h1)" by (simp add: s(2) min_def)
  also have "\<dots> = take (Suc (cursor h)) (states h)" using c by (simp add: s(3))
  finally show ?case using i s by simp
qed

lemma apply_all_undo_n:
  assumes "inv h" and "\<forall>e \<in> set es. typed e" and "fold_opt apply_edit es h = Some h'"
  shows "\<exists>h''. iter_opt undo (length es) h' = Some h'' \<and> cursor h'' = cursor h \<and>
    states h'' ! cursor h'' = states h ! cursor h"
proof -
  note a = apply_all [OF assms]
  then obtain h'' where h'': "iter_opt undo (length es) h' = Some h''" "states h'' = states h'"
    "cursor h'' = cursor h" using undo_n [of h' "length es"] by force
  have "states h' ! cursor h = take (Suc (cursor h)) (states h') ! cursor h" by simp
  also have "\<dots> = take (Suc (cursor h)) (states h) ! cursor h" using a by simp
  finally show ?thesis using h'' by simp
qed

end

end
