(* ===== verification/History_Props.thy ===== *)
theory History_Props
  imports History Undo_Log
begin

text \<open>
  The invariant of the history, kept by every operation, and the interpretation of the undo
  interface on it.  \<open>timeline h\<close> lists the document states from the undo floor to the top of the
  redo stack; undo and redo only move along it.
\<close>

definition timeline :: "history \<Rightarrow> doc_snapshot list" where
  "timeline h = map en_snapshot (h_undo h) @ [h_current h] @ map en_snapshot (rev (h_redo h))"

definition tl_entries :: "history \<Rightarrow> entry list" where
  "tl_entries h = h_undo h @ rev (h_redo h)"

definition snap_bounded :: "history \<Rightarrow> doc_snapshot \<Rightarrow> bool" where
  "snap_bounded h d \<longleftrightarrow> s_rev d < h_next_rev h \<and> s_audio_rev d < h_next_audio_rev h \<and>
     (\<forall>m \<in> set (s_markers d). m_id m < h_next_marker_id h)"

definition adjacent_ok :: "piece list list \<Rightarrow> bool list \<Rightarrow> bool" where
  "adjacent_ok ps au \<longleftrightarrow> (\<forall>i < length au. \<not> au ! i \<longrightarrow> ps ! i = ps ! Suc i)"

definition seqs_ok :: "nat \<Rightarrow> nat list \<Rightarrow> bool" where
  "seqs_ok nxt qs \<longleftrightarrow> sorted_wrt (<) qs \<and> (\<forall>q \<in> set qs. 0 < q \<and> q < nxt)"

definition hist_ok :: "history \<Rightarrow> bool" where
  "hist_ok h \<longleftrightarrow> (\<forall>d \<in> set (timeline h). doc_ok d \<and> snap_bounded h d) \<and>
     seqs_ok (h_next_seq h) (map en_seq (tl_entries h)) \<and>
     adjacent_ok (map s_pieces (timeline h)) (map en_audio (tl_entries h)) \<and>
     0 < h_next_seq h \<and> 0 < h_next_marker_id h"

definition doc_view :: "doc_snapshot \<Rightarrow> piece list \<times> marker list" where
  "doc_view d = (s_pieces d, s_markers d)"

definition hist_states :: "history \<Rightarrow> (piece list \<times> marker list) list" where
  "hist_states h = map doc_view (timeline h)"

definition hist_cursor :: "history \<Rightarrow> nat" where
  "hist_cursor h = length (h_undo h)"

definition undo_opt :: "history \<Rightarrow> history option" where
  "undo_opt h = (case history_undo h of (None, _) \<Rightarrow> None | (Some _, h') \<Rightarrow> Some h')"

definition redo_opt :: "history \<Rightarrow> history option" where
  "redo_opt h = (case history_redo h of (None, _) \<Rightarrow> None | (Some _, h') \<Rightarrow> Some h')"

definition apply_opt :: "edit \<Rightarrow> history \<Rightarrow> history option" where
  "apply_opt e h = (case history_apply h e of Inl _ \<Rightarrow> None | Inr (_, h') \<Rightarrow> Some h')"

lemma doc_ok_restamp [simp]: "doc_ok (d\<lparr>s_rev := r, s_audio_rev := a\<rparr>) = doc_ok d"
  by (simp add: doc_ok_def snap_ok_def)

lemma doc_view_restamp [simp]: "doc_view (d\<lparr>s_rev := r, s_audio_rev := a\<rparr>) = doc_view d"
  by (simp add: doc_view_def)

lemma doc_ok_marker_sorted: "doc_ok d \<Longrightarrow> sorted (map m_pos (s_markers d))"
  by (simp add: doc_ok_def snap_ok_def)

section \<open>Undo and redo\<close>

definition restored :: "history \<Rightarrow> entry \<Rightarrow> doc_snapshot" where
  "restored h e = (en_snapshot e)\<lparr>s_rev := h_next_rev h,
     s_audio_rev := (if en_audio e then h_next_audio_rev h else s_audio_rev (h_current h))\<rparr>"

lemma history_undo_eq:
  "h_undo h = us @ [e] \<Longrightarrow> history_undo h = (Some (history_step_of (restored h e) e),
     h\<lparr>h_current := restored h e, h_undo := us, h_redo := h_redo h @ [e\<lparr>en_snapshot := h_current h\<rparr>],
       h_next_rev := h_next_rev h + 1,
       h_next_audio_rev := (if en_audio e then h_next_audio_rev h + 1 else h_next_audio_rev h)\<rparr>)"
  by (cases h) (auto simp: history_undo_def restamp_def restored_def Let_def)

lemma history_redo_eq:
  "h_redo h = rs @ [e] \<Longrightarrow> history_redo h = (Some (history_step_of (restored h e) e),
     h\<lparr>h_current := restored h e, h_redo := rs, h_undo := h_undo h @ [e\<lparr>en_snapshot := h_current h\<rparr>],
       h_next_rev := h_next_rev h + 1,
       h_next_audio_rev := (if en_audio e then h_next_audio_rev h + 1 else h_next_audio_rev h)\<rparr>)"
  by (cases h) (auto simp: history_redo_def restamp_def restored_def Let_def)

lemma restored_simps [simp]:
  "s_pieces (restored h e) = s_pieces (en_snapshot e)" "s_markers (restored h e) = s_markers (en_snapshot e)"
  "doc_ok (restored h e) = doc_ok (en_snapshot e)" "doc_view (restored h e) = doc_view (en_snapshot e)"
  by (simp_all add: restored_def)

lemma snap_bounded_restored:
  assumes "snap_bounded h (en_snapshot e)" "snap_bounded h (h_current h)"
    "h_next_rev h' = h_next_rev h + 1" "h_next_marker_id h' = h_next_marker_id h"
    "h_next_audio_rev h' = (if en_audio e then h_next_audio_rev h + 1 else h_next_audio_rev h)"
  shows "snap_bounded h' (restored h e)"
  using assms by (auto simp: snap_bounded_def restored_def)

lemma snap_bounded_mono:
  assumes "snap_bounded h d" "h_next_rev h \<le> h_next_rev h'" "h_next_audio_rev h \<le> h_next_audio_rev h'"
    "h_next_marker_id h \<le> h_next_marker_id h'"
  shows "snap_bounded h' d"
  using assms by (auto simp: snap_bounded_def)

lemma undo_ok:
  assumes ok: "hist_ok h" and u: "h_undo h = us @ [e]"
  shows "hist_ok (snd (history_undo h)) \<and> hist_states (snd (history_undo h)) = hist_states h \<and>
    hist_cursor h = Suc (hist_cursor (snd (history_undo h)))"
proof -
  define h' where "h' = snd (history_undo h)"
  note h'' = h'_def [unfolded history_undo_eq [OF u]]
  have tl: "timeline h = map en_snapshot us @ [en_snapshot e, h_current h] @ map en_snapshot (rev (h_redo h))"
    "timeline h' = map en_snapshot us @ [restored h e, h_current h] @ map en_snapshot (rev (h_redo h))"
    "tl_entries h = us @ [e] @ rev (h_redo h)"
    "tl_entries h' = us @ [e\<lparr>en_snapshot := h_current h\<rparr>] @ rev (h_redo h)"
    by (simp_all add: timeline_def tl_entries_def h'' u)
  have nx: "h_next_rev h \<le> h_next_rev h'" "h_next_audio_rev h \<le> h_next_audio_rev h'"
    "h_next_marker_id h \<le> h_next_marker_id h'" by (auto simp: h'')
  from ok have b: "\<forall>d \<in> set (timeline h). doc_ok d \<and> snap_bounded h d" by (simp add: hist_ok_def)
  have "snap_bounded h' (restored h e)"
    using b by (intro snap_bounded_restored) (auto simp: tl h'')
  moreover have "\<forall>d \<in> set (timeline h). snap_bounded h' d"
    using b nx by (blast intro: snap_bounded_mono)
  ultimately have "\<forall>d \<in> set (timeline h'). doc_ok d \<and> snap_bounded h' d"
    using b by (auto simp: tl)
  with ok have "hist_ok h'" by (simp add: hist_ok_def tl) (simp add: h'')
  moreover have "hist_states h' = hist_states h" by (simp add: hist_states_def tl)
  moreover have "hist_cursor h = Suc (hist_cursor h')" by (simp add: hist_cursor_def h'' u)
  ultimately show ?thesis by (simp add: h'_def)
qed

lemma redo_ok:
  assumes ok: "hist_ok h" and u: "h_redo h = rs @ [e]"
  shows "hist_ok (snd (history_redo h)) \<and> hist_states (snd (history_redo h)) = hist_states h \<and>
    hist_cursor (snd (history_redo h)) = Suc (hist_cursor h)"
proof -
  define h' where "h' = snd (history_redo h)"
  note h'' = h'_def [unfolded history_redo_eq [OF u]]
  have tl: "timeline h = map en_snapshot (h_undo h) @ [h_current h, en_snapshot e] @ map en_snapshot (rev rs)"
    "timeline h' = map en_snapshot (h_undo h) @ [h_current h, restored h e] @ map en_snapshot (rev rs)"
    "tl_entries h = h_undo h @ [e] @ rev rs"
    "tl_entries h' = h_undo h @ [e\<lparr>en_snapshot := h_current h\<rparr>] @ rev rs"
    by (simp_all add: timeline_def tl_entries_def h'' u)
  have nx: "h_next_rev h \<le> h_next_rev h'" "h_next_audio_rev h \<le> h_next_audio_rev h'"
    "h_next_marker_id h \<le> h_next_marker_id h'" by (auto simp: h'')
  from ok have b: "\<forall>d \<in> set (timeline h). doc_ok d \<and> snap_bounded h d" by (simp add: hist_ok_def)
  have "snap_bounded h' (restored h e)"
    using b by (intro snap_bounded_restored) (auto simp: tl h'')
  moreover have "\<forall>d \<in> set (timeline h). snap_bounded h' d"
    using b nx by (blast intro: snap_bounded_mono)
  ultimately have "\<forall>d \<in> set (timeline h'). doc_ok d \<and> snap_bounded h' d"
    using b by (auto simp: tl)
  with ok have "hist_ok h'" by (simp add: hist_ok_def tl) (simp add: h'')
  moreover have "hist_states h' = hist_states h" by (simp add: hist_states_def tl)
  moreover have "hist_cursor h' = Suc (hist_cursor h)" by (simp add: hist_cursor_def h'' u)
  ultimately show ?thesis by (simp add: h'_def)
qed

section \<open>Applying an edit\<close>

lemma prepare_InrE:
  assumes "prepare h e = Inr p"
  obtains work ms ms' nxt where
    "prepare_ops (h_current h) (None, s_markers (h_current h)) (e_ops e) = Inr (work, ms)"
    "apply_marker_ops (s_len (unwrap_or work (h_current h))) (ms, h_next_marker_id h) (e_marker_ops e) =
       Inr (ms', nxt)"
    "p = \<lparr>pe_snapshot = \<lparr>s_rev = h_next_rev h,
            s_audio_rev = (if work \<noteq> None then h_next_audio_rev h else s_audio_rev (h_current h)),
            s_rate = s_rate (h_current h), s_pieces = s_pieces (unwrap_or work (h_current h)),
            s_starts = s_starts (unwrap_or work (h_current h)),
            s_len = s_len (unwrap_or work (h_current h)), s_markers = sort_markers ms'\<rparr>,
          pe_seq = h_next_seq h, pe_label = e_label e, pe_params = e_params e,
          pe_attachment = e_attachment e, pe_audio = (work \<noteq> None), pe_first_at = edit_first_at e,
          pe_next_marker_id = nxt, pe_base_rev = s_rev (h_current h)\<rparr>"
proof -
  from assms obtain work ms where
    1: "prepare_ops (h_current h) (None, s_markers (h_current h)) (e_ops e) = Inr (work, ms)"
    by (auto simp: prepare_def Let_def split: sum.splits)
  have len: "(case work of None \<Rightarrow> s_len (h_current h) | Some w \<Rightarrow> s_len w) =
      s_len (unwrap_or work (h_current h))"
    by (cases work) auto
  from assms 1 obtain ms' nxt where
    2: "apply_marker_ops (s_len (unwrap_or work (h_current h))) (ms, h_next_marker_id h)
         (e_marker_ops e) = Inr (ms', nxt)"
    by (auto simp: prepare_def Let_def len split: sum.splits)
  from assms 1 2 show thesis
    by (intro that [OF 1 2]) (auto simp: prepare_def Let_def len split: if_splits)
qed

lemma prepare_ok:
  assumes ok: "doc_ok (h_current h)" and ids: "\<forall>m \<in> set (s_markers (h_current h)). m_id m < h_next_marker_id h"
    and typed: "edit_typed e" and p: "prepare h e = Inr p"
  shows "doc_ok (pe_snapshot p) \<and> (\<forall>m \<in> set (s_markers (pe_snapshot p)). m_id m < pe_next_marker_id p) \<and>
    h_next_marker_id h \<le> pe_next_marker_id p \<and>
    content rd z (s_pieces (pe_snapshot p)) =
      foldl (op_spec rd z) (content rd z (s_pieces (h_current h))) (e_ops e) \<and>
    (\<not> pe_audio p \<longrightarrow> s_pieces (pe_snapshot p) = s_pieces (h_current h))"
  using p
proof (cases rule: prepare_InrE)
  case (1 work ms ms' nxt)
  from ok have c: "snap_ok (unwrap_or None (h_current h))"
    "markers_ok (s_len (unwrap_or None (h_current h))) (s_markers (h_current h))"
    by (simp_all add: doc_ok_def markers_ok_def)
  from typed have t: "\<forall>op \<in> set (e_ops e). op_typed op" "\<forall>op \<in> set (e_marker_ops e). marker_op_typed op"
    by (auto simp: edit_typed_def)
  note a = prepare_ops_ok [OF c t(1) 1(1), of rd z]
  have "\<forall>m \<in> set ms. m_id m < h_next_marker_id h"
    using a ids by (metis imageE imageI)
  from apply_marker_ops_ok [OF conjunct1 [OF conjunct2 [OF a]] this t(2) 1(2)]
  have b: "markers_ok (s_len (unwrap_or work (h_current h))) ms'" "\<forall>m \<in> set ms'. m_id m < nxt"
    "h_next_marker_id h \<le> nxt" by auto
  from a b show ?thesis
    by (cases work) (auto simp: 1 doc_ok_def snap_ok_def markers_ok_def)
qed

lemma seqs_ok_snoc: "seqs_ok nxt qs \<Longrightarrow> 0 < nxt \<Longrightarrow> seqs_ok (Suc nxt) (qs @ [nxt])"
  by (auto simp: seqs_ok_def sorted_wrt_append less_Suc_eq)

lemma seqs_ok_prefix: "seqs_ok nxt (qs @ rs) \<Longrightarrow> seqs_ok nxt qs"
  by (auto simp: seqs_ok_def sorted_wrt_append)

lemma adjacent_ok_commit:
  assumes "adjacent_ok (us @ [c] @ rs) (as @ bs)" and "length as = length us" and "\<not> a \<Longrightarrow> c = n"
  shows "adjacent_ok (us @ [c] @ [n]) (as @ [a])"
  unfolding adjacent_ok_def
proof (intro allI impI)
  fix i assume i: "i < length (as @ [a])" and n: "\<not> (as @ [a]) ! i"
  show "(us @ [c] @ [n]) ! i = (us @ [c] @ [n]) ! Suc i"
  proof (cases "i < length as")
    case True
    with n assms(1) have "(us @ [c] @ rs) ! i = (us @ [c] @ rs) ! Suc i"
      by (auto simp: adjacent_ok_def nth_append)
    with True assms(2) show ?thesis by (auto simp: nth_append)
  next
    case False
    with i n assms(2,3) show ?thesis by (auto simp: nth_append)
  qed
qed

lemma commit_ok:
  assumes ok: "hist_ok h" and typed: "edit_typed e" and p: "prepare h e = Inr p"
  shows "hist_ok (snd (commit h p)) \<and> hist_cursor (snd (commit h p)) = Suc (hist_cursor h) \<and>
    hist_states (snd (commit h p)) = take (Suc (hist_cursor h)) (hist_states h) @ [doc_view (pe_snapshot p)]"
proof -
  define h' where "h' = snd (commit h p)"
  from ok have all: "\<forall>d \<in> set (timeline h). doc_ok d \<and> snap_bounded h d" by (simp add: hist_ok_def)
  then have cur: "doc_ok (h_current h)" "snap_bounded h (h_current h)" by (auto simp: timeline_def)
  then have ids: "\<forall>m \<in> set (s_markers (h_current h)). m_id m < h_next_marker_id h"
    by (simp add: snap_bounded_def)
  note a = prepare_ok [OF cur(1) ids typed p, of "\<lambda>_ _. ()" "()"]
  from p have pe: "s_rev (pe_snapshot p) = h_next_rev h" "pe_seq p = h_next_seq h"
    "s_audio_rev (pe_snapshot p) = (if pe_audio p then h_next_audio_rev h else s_audio_rev (h_current h))"
    by (auto elim!: prepare_InrE)
  obtain en where tl: "timeline h' = map en_snapshot (h_undo h) @ [h_current h] @ [pe_snapshot p]"
    "tl_entries h' = h_undo h @ [en]" and en: "en_seq en = h_next_seq h" "en_audio en = pe_audio p"
    by (simp add: timeline_def tl_entries_def h'_def commit_def pe)
  have nx: "h_next_rev h' = h_next_rev h + 1" "h_next_seq h' = h_next_seq h + 1"
    "h_next_audio_rev h' = (if pe_audio p then h_next_audio_rev h + 1 else h_next_audio_rev h)"
    "h_next_marker_id h' = pe_next_marker_id p" "h_undo h' = h_undo h @ [en]"
    using tl by (auto simp: h'_def commit_def tl_entries_def)
  have "\<forall>d \<in> set (timeline h). snap_bounded h' d"
    using all a by (auto intro!: snap_bounded_mono [of h _ h'] simp: nx)
  moreover have "snap_bounded h' (pe_snapshot p)"
    using a cur by (auto simp: snap_bounded_def nx pe)
  moreover have "set (timeline h') \<subseteq> insert (pe_snapshot p) (set (timeline h))"
    unfolding tl(1) by (auto simp: timeline_def)
  ultimately have "\<forall>d \<in> set (timeline h'). doc_ok d \<and> snap_bounded h' d"
    using all a by blast
  moreover have "seqs_ok (h_next_seq h') (map en_seq (tl_entries h'))"
  proof -
    from ok have "seqs_ok (h_next_seq h) (map en_seq (h_undo h) @ map en_seq (rev (h_redo h)))"
      by (simp add: hist_ok_def tl_entries_def)
    from seqs_ok_snoc [OF seqs_ok_prefix [OF this]] ok
    show ?thesis unfolding tl(2) by (simp add: en nx hist_ok_def)
  qed
  moreover have "adjacent_ok (map s_pieces (timeline h')) (map en_audio (tl_entries h'))"
  proof -
    from ok have "adjacent_ok (map (s_pieces \<circ> en_snapshot) (h_undo h) @ [s_pieces (h_current h)] @
        map (s_pieces \<circ> en_snapshot) (rev (h_redo h)))
        (map en_audio (h_undo h) @ map en_audio (rev (h_redo h)))"
      by (simp add: hist_ok_def timeline_def tl_entries_def)
    from adjacent_ok_commit [OF this, of "pe_audio p" "s_pieces (pe_snapshot p)"] a
    show ?thesis unfolding tl by (simp add: en)
  qed
  ultimately have "hist_ok h'" using ok a by (auto simp: hist_ok_def nx)
  moreover have "hist_cursor h' = Suc (hist_cursor h)" by (simp add: hist_cursor_def nx)
  moreover have "hist_states h' = take (Suc (hist_cursor h)) (hist_states h) @ [doc_view (pe_snapshot p)]"
    unfolding hist_states_def tl by (simp add: hist_cursor_def timeline_def)
  ultimately show ?thesis by (simp add: h'_def)
qed

section \<open>The undo interface on the history\<close>

lemma undo_opt_cases:
  obtains "h_undo h = []" "undo_opt h = None"
    | us e where "h_undo h = us @ [e]" "undo_opt h = Some (snd (history_undo h))"
proof (cases "h_undo h" rule: rev_cases)
  case Nil
  then show thesis by (intro that(1)) (auto simp: undo_opt_def history_undo_def)
next
  case (snoc us e)
  then show thesis by (intro that(2)) (auto simp: undo_opt_def history_undo_eq)
qed

lemma redo_opt_cases:
  obtains "h_redo h = []" "redo_opt h = None"
    | rs e where "h_redo h = rs @ [e]" "redo_opt h = Some (snd (history_redo h))"
proof (cases "h_redo h" rule: rev_cases)
  case Nil
  then show thesis by (intro that(1)) (auto simp: redo_opt_def history_redo_def)
next
  case (snoc rs e)
  then show thesis by (intro that(2)) (auto simp: redo_opt_def history_redo_eq)
qed

lemma apply_opt_Some:
  "apply_opt e h = Some h' \<longleftrightarrow> (\<exists>p. prepare h e = Inr p \<and> h' = snd (commit h p))"
  by (auto simp: apply_opt_def history_apply_def split: sum.splits prod.splits)

interpretation hist: linear_history hist_states hist_cursor undo_opt redo_opt hist_ok apply_opt edit_typed
proof unfold_locales
  fix h :: history assume ok: "hist_ok h"
  show "hist_cursor h < length (hist_states h)"
    by (simp add: hist_cursor_def hist_states_def timeline_def)
  show "undo_opt h = None \<longleftrightarrow> hist_cursor h = 0"
    by (cases h rule: undo_opt_cases) (auto simp: hist_cursor_def)
  show "redo_opt h = None \<longleftrightarrow> Suc (hist_cursor h) = length (hist_states h)"
    by (cases h rule: redo_opt_cases) (auto simp: hist_cursor_def hist_states_def timeline_def)
  show "hist_cursor h = Suc (hist_cursor h') \<and> hist_states h' = hist_states h \<and> hist_ok h'"
    if "undo_opt h = Some h'" for h'
    using that undo_ok [OF ok] by (cases h rule: undo_opt_cases) auto
  show "hist_cursor h' = Suc (hist_cursor h) \<and> hist_states h' = hist_states h \<and> hist_ok h'"
    if "redo_opt h = Some h'" for h'
    using that redo_ok [OF ok] by (cases h rule: redo_opt_cases) auto
  show "hist_ok h' \<and> hist_cursor h' = Suc (hist_cursor h) \<and>
      (\<exists>v. hist_states h' = take (Suc (hist_cursor h)) (hist_states h) @ [v])"
    if "edit_typed e" "apply_opt e h = Some h'" for e h'
    using that commit_ok [OF ok] by (auto simp: apply_opt_Some)
qed


section \<open>The steps of a history\<close>

inductive hist_step :: "history \<Rightarrow> history \<Rightarrow> bool" where
  step_apply: "edit_typed e \<Longrightarrow> history_apply h e = Inr (st, h') \<Longrightarrow> hist_step h h'"
| step_undo: "history_undo h = (Some st, h') \<Longrightarrow> hist_step h h'"
| step_redo: "history_redo h = (Some st, h') \<Longrightarrow> hist_step h h'"
| step_drop: "drop_oldest_undo h n = (k, h') \<Longrightarrow> hist_step h h'"
| step_save: "hist_step h (mark_saved_at h q)"
| step_alloc: "allocate_marker_id h = (i, h') \<Longrightarrow> hist_step h h'"
| step_rebase: "doc_ok flr \<Longrightarrow> hist_step h (rebased h flr)"

inductive_cases hist_stepE: "hist_step h h'"

lemma floor_marker_id_gt: "m \<in> set ms \<Longrightarrow> m_id m < floor_marker_id ms"
proof -
  assume "m \<in> set ms"
  then have "m_id m + 1 \<le> floor_marker_id ms"
    unfolding floor_marker_id_def by (intro iter_max_ge) auto
  then show ?thesis by simp
qed

lemma floor_marker_id_pos: "0 < floor_marker_id ms"
proof (cases ms)
  case (Cons m ms')
  with floor_marker_id_gt [of m ms] show ?thesis by auto
qed (simp add: floor_marker_id_def iter_max_def)

lemma hist_ok_new: "doc_ok flr \<Longrightarrow> hist_ok (history_new flr)"
  using floor_marker_id_pos [of "s_markers flr"]
  by (auto simp: hist_ok_def history_new_def timeline_def tl_entries_def snap_bounded_def seqs_ok_def
      adjacent_ok_def floor_marker_id_gt)

lemma hist_ok_rebased: "hist_ok h \<Longrightarrow> doc_ok flr \<Longrightarrow> hist_ok (rebased h flr)"
  using floor_marker_id_gt [of _ "s_markers flr"] floor_marker_id_pos [of "s_markers flr"]
  by (auto simp: hist_ok_def rebased_def timeline_def tl_entries_def snap_bounded_def seqs_ok_def
      adjacent_ok_def less_max_iff_disj)

lemma hist_ok_congs [simp]:
  "hist_ok (mark_saved_at h q) = hist_ok h" "hist_ok (h\<lparr>h_saved_seq := q\<rparr>) = hist_ok h"
  by (simp_all add: hist_ok_def mark_saved_at_def timeline_def tl_entries_def snap_bounded_def)

lemma hist_ok_alloc: "hist_ok h \<Longrightarrow> hist_ok (snd (allocate_marker_id h))"
  by (auto simp: hist_ok_def allocate_marker_id_def timeline_def tl_entries_def snap_bounded_def less_SucI)

lemma adjacent_ok_drop:
  assumes "adjacent_ok ps au" "length ps = Suc (length au)"
  shows "adjacent_ok (drop n ps) (drop n au)"
  using assms by (auto simp: adjacent_ok_def)

lemma drop_timeline:
  assumes "n \<le> length (h_undo h)" "h' = h\<lparr>h_undo := drop n (h_undo h)\<rparr>"
  shows "timeline h' = drop n (timeline h)" "tl_entries h' = drop n (tl_entries h)"
  using assms by (auto simp: timeline_def tl_entries_def drop_map)

lemma length_timeline: "length (timeline h) = Suc (length (tl_entries h))"
  by (simp add: timeline_def tl_entries_def)

lemma hist_ok_drop:
  assumes ok: "hist_ok h" and d: "drop_oldest_undo h n = (k, h')"
  shows "hist_ok h'"
proof -
  from d have k: "k \<le> length (h_undo h)" and h': "h' = h\<lparr>h_undo := drop k (h_undo h)\<rparr>"
    by (auto simp: drop_oldest_undo_def Let_def)
  note tl = drop_timeline [OF k h']
  have "seqs_ok (h_next_seq h) (drop k (map en_seq (tl_entries h)))"
    using ok unfolding hist_ok_def seqs_ok_def by (blast intro: sorted_wrt_drop dest: in_set_dropD)
  then have "seqs_ok (h_next_seq h) (map en_seq (drop k (tl_entries h)))" by (simp add: drop_map)
  moreover have "adjacent_ok (map s_pieces (drop k (timeline h))) (map en_audio (drop k (tl_entries h)))"
    using ok adjacent_ok_drop [of "map s_pieces (timeline h)" "map en_audio (tl_entries h)" k]
    by (simp add: hist_ok_def length_timeline drop_map)
  moreover have "\<forall>d \<in> set (drop k (timeline h)). doc_ok d \<and> snap_bounded h d"
    using ok by (auto simp: hist_ok_def dest: in_set_dropD)
  moreover have "snap_bounded h' d = snap_bounded h d" for d by (simp add: snap_bounded_def h')
  ultimately show ?thesis using ok by (simp add: hist_ok_def tl) (simp add: h')
qed

lemma apply_cases:
  assumes "history_apply h e = Inr (st, h')"
  obtains p where "prepare h e = Inr p" "h' = snd (commit h p)"
  using assms by (auto simp: history_apply_def split: sum.splits)

lemma hist_step_ok: "hist_step h h' \<Longrightarrow> hist_ok h \<Longrightarrow> hist_ok h'"
proof (induction rule: hist_step.induct)
  case (step_apply e h st h')
  from step_apply(2) show ?case
    by (cases rule: apply_cases) (use commit_ok [OF step_apply(3,1)] in simp)
next
  case (step_undo h st h')
  then obtain us e where "h_undo h = us @ [e]"
    by (cases "h_undo h" rule: rev_cases) (auto simp: history_undo_def)
  from undo_ok [OF step_undo(2) this] step_undo(1) show ?case by simp
next
  case (step_redo h st h')
  then obtain us e where "h_redo h = us @ [e]"
    by (cases "h_redo h" rule: rev_cases) (auto simp: history_redo_def)
  from redo_ok [OF step_redo(2) this] step_redo(1) show ?case by simp
next
  case (step_drop h n k h')
  then show ?case by (blast intro: hist_ok_drop)
next
  case (step_alloc h i h')
  then show ?case using hist_ok_alloc [of h] by simp
qed (simp_all add: hist_ok_rebased)

text \<open>Audio revisions: a step keeps the piece table and its revision, or takes a fresh revision.\<close>

lemma audio_rev_step:
  assumes "hist_step h h'" "hist_ok h"
  shows "h_next_audio_rev h \<le> h_next_audio_rev h' \<and>
    (s_audio_rev (h_current h') = s_audio_rev (h_current h) \<and> s_pieces (h_current h') = s_pieces (h_current h) \<or>
     s_audio_rev (h_current h') = h_next_audio_rev h)"
  using assms
proof (induction rule: hist_step.induct)
  case (step_apply e h st h')
  from step_apply(2) obtain p where p: "prepare h e = Inr p" "h' = snd (commit h p)"
    by (rule apply_cases)
  from step_apply(3) have cur: "doc_ok (h_current h)" "snap_bounded h (h_current h)"
    by (auto simp: hist_ok_def timeline_def)
  then have "\<not> pe_audio p \<longrightarrow> s_pieces (pe_snapshot p) = s_pieces (h_current h)"
    using prepare_ok [OF _ _ step_apply(1) p(1), of "\<lambda>_ _. ()" "()"] by (simp add: snap_bounded_def)
  moreover have "s_audio_rev (pe_snapshot p) = (if pe_audio p then h_next_audio_rev h else s_audio_rev (h_current h))"
    using p(1) by (auto elim!: prepare_InrE)
  ultimately show ?case by (auto simp: p(2) commit_def)
next
  case (step_undo h st h')
  then obtain us e where u: "h_undo h = us @ [e]"
    by (cases "h_undo h" rule: rev_cases) (auto simp: history_undo_def)
  have "\<not> en_audio e \<Longrightarrow> s_pieces (en_snapshot e) = s_pieces (h_current h)"
    using step_undo(2) u
    by (auto simp: hist_ok_def timeline_def tl_entries_def adjacent_ok_def nth_append
        dest!: spec [of _ "length us"])
  then show ?case using step_undo(1) by (cases "en_audio e") (auto simp: history_undo_eq [OF u] restored_def)
next
  case (step_redo h st h')
  then obtain us e where u: "h_redo h = us @ [e]"
    by (cases "h_redo h" rule: rev_cases) (auto simp: history_redo_def)
  have "\<not> en_audio e \<Longrightarrow> s_pieces (en_snapshot e) = s_pieces (h_current h)"
    using step_redo(2) u
    by (auto simp: hist_ok_def timeline_def tl_entries_def adjacent_ok_def nth_append
        dest!: spec [of _ "length (h_undo h)"])
  then show ?case using step_redo(1) by (cases "en_audio e") (auto simp: history_redo_eq [OF u] restored_def)
qed (auto simp: drop_oldest_undo_def mark_saved_at_def allocate_marker_id_def rebased_def Let_def)

lemma steps_ok: "hist_step\<^sup>*\<^sup>* h h' \<Longrightarrow> hist_ok h \<Longrightarrow> hist_ok h'"
  by (induction rule: rtranclp_induct) (auto intro: hist_step_ok)

lemma audio_rev_steps:
  assumes "hist_step\<^sup>*\<^sup>* h h'" "hist_ok h"
  shows "h_next_audio_rev h \<le> h_next_audio_rev h' \<and>
    (s_audio_rev (h_current h') = s_audio_rev (h_current h) \<and> s_pieces (h_current h') = s_pieces (h_current h) \<or>
     h_next_audio_rev h \<le> s_audio_rev (h_current h'))"
  using assms
proof (induction rule: rtranclp_induct)
  case (step y z)
  from audio_rev_step [OF step(2) steps_ok [OF step(1,4)]] step show ?case by auto
qed simp

section \<open>Views of the current document\<close>

lemma view_at_cursor: "hist_states h ! hist_cursor h = doc_view (h_current h)"
  by (simp add: hist_states_def hist_cursor_def timeline_def nth_append)

lemma undo_n_stacks:
  "iter_opt undo_opt n h = Some h' \<Longrightarrow>
   n \<le> length (h_undo h) \<and> h_undo h' = take (length (h_undo h) - n) (h_undo h) \<and> h_saved_seq h' = h_saved_seq h"
proof (induction n arbitrary: h)
  case (Suc n)
  then obtain h1 where u: "undo_opt h = Some h1" and r: "iter_opt undo_opt n h1 = Some h'"
    by (auto simp: bind_eq_Some_conv)
  from u obtain us e where e: "h_undo h = us @ [e]" "h1 = snd (history_undo h)"
    by (cases h rule: undo_opt_cases) auto
  then have "h_undo h1 = us" "h_saved_seq h1 = h_saved_seq h" by (auto simp: history_undo_eq)
  with Suc.IH [OF r] e show ?case by auto
qed simp

lemma entry_seqs: "hist_ok h \<Longrightarrow> sorted_wrt (<) (map en_seq (h_undo h)) \<and> (\<forall>e \<in> set (h_undo h). 0 < en_seq e)"
  by (auto simp: hist_ok_def seqs_ok_def tl_entries_def sorted_wrt_append)

lemma current_seq_take:
  "0 < k \<Longrightarrow> k \<le> length us \<Longrightarrow> unwrap_or (peek_seq (take k us)) 0 = en_seq (us ! (k - 1))"
  by (auto simp: peek_seq_def last_conv_nth)

text \<open>A one-chunk document with one marker, for the concrete instances.\<close>

definition example_doc :: doc_snapshot where
  "example_doc = snapshot_new 48000 [piece_chunk 7 0 100, piece_silence 20]
     [\<lparr>m_id = 3, m_pos = 10, m_len = 5, m_name = ''intro'', m_kind = User\<rparr>]"

lemma example_simps [simp]:
  "s_len example_doc = 120" "s_rate example_doc = 48000"
  "s_pieces example_doc = [piece_chunk 7 0 100, piece_silence 20]"
  "s_markers example_doc = [\<lparr>m_id = 3, m_pos = 10, m_len = 5, m_name = ''intro'', m_kind = User\<rparr>]"
  by (simp_all add: example_doc_def snapshot_new_def push_piece_def piece_merged_def sort_markers_def)

lemma snapshot_new_ok:
  assumes "\<forall>p \<in> set ps. piece_ok p" "\<forall>m \<in> set ms. marker_in (pieces_len ps) m" "distinct (map m_id ms)"
  shows "doc_ok (snapshot_new rate ps ms)"
proof -
  have "canonical (push_all [] ps)" by (intro canonical_push_all) simp
  moreover have "\<forall>p \<in> set (push_all [] ps). piece_ok p" using assms by (intro ok_push_all) auto
  ultimately show ?thesis
    using assms by (simp add: doc_ok_def snapshot_new_def snap_ok_from_normalized)
qed

lemma example_doc_ok: "doc_ok example_doc"
  unfolding example_doc_def
  by (rule snapshot_new_ok) (auto simp: piece_ok_def chunk_samples_def u32_max_def marker_in_def)

definition example_edit :: edit where
  "example_edit = edit_marker (edit_replace (edit_new ''history.delete'') 10 30 []) (MRename 3 ''outro'')"

definition example_hist :: history where
  "example_hist = (case apply_opt example_edit (history_new example_doc) of Some h \<Rightarrow> h | None \<Rightarrow> history_new example_doc)"

lemma example_edit_typed: "edit_typed example_edit"
  by (simp add: example_edit_def edit_typed_def edit_new_def edit_replace_def edit_replace_with_def
      edit_marker_def op_typed_def)

lemma example_applies: "apply_opt example_edit (history_new example_doc) = Some example_hist"
proof -
  have "apply_opt example_edit (history_new example_doc) \<noteq> None"
    by (simp add: apply_opt_def history_apply_def prepare_def example_edit_def edit_new_def edit_replace_def
        edit_replace_with_def edit_marker_def history_new_def replaced_def checked_end_def checked_add64_def
        u64_max_def commit_def Let_def find_marker_index_def unwrap_or_def shift_markers_def
        sort_markers_def shift_marker_def)
  then show ?thesis by (auto simp: example_hist_def)
qed

lemma example_hist_ok: "hist_ok example_hist"
  using hist.apply_step [OF hist_ok_new [OF example_doc_ok] example_edit_typed example_applies] by blast

lemma example_hist_simps: "length (h_undo example_hist) = 1" "h_saved_seq example_hist = 0"
proof -
  show "length (h_undo example_hist) = 1"
    using hist.apply_step [OF hist_ok_new [OF example_doc_ok] example_edit_typed example_applies]
    by (auto simp: hist_cursor_def history_new_def)
  have "h_saved_seq (snd (commit h p)) = h_saved_seq h" for h p by (simp add: commit_def)
  then show "h_saved_seq example_hist = 0"
    using example_applies by (metis apply_opt_Some history.select_convs(7) history_new_def)
qed

section \<open>Properties\<close>

text \<open>C39: Whatever a session does to its history (edits, undo, redo, dropping old entries, saving,
  allocating marker ids, rebasing on a new floor), every snapshot on the undo and redo stacks stays a
  well-formed document with its markers inside it, sequence numbers stay increasing and unused, and
  no revision or marker id in use can be handed out again.\<close>

theorem reachable_history_ok:
  assumes "doc_ok flr" and "hist_step\<^sup>*\<^sup>* (history_new flr) h"
  shows "hist_ok h"
  using steps_ok [OF assms(2)] hist_ok_new [OF assms(1)] by blast

theorem reachable_history_ok_witness:
  "hist_ok (snd (allocate_marker_id (mark_saved_at (history_new example_doc) 0)))"
proof (rule reachable_history_ok [OF example_doc_ok])
  have "hist_step (history_new example_doc) (mark_saved_at (history_new example_doc) 0)"
    by (rule step_save)
  moreover have "hist_step (mark_saved_at (history_new example_doc) 0)
      (snd (allocate_marker_id (mark_saved_at (history_new example_doc) 0)))"
    by (rule step_alloc) (simp add: prod_eq_iff)
  ultimately show "hist_step\<^sup>*\<^sup>* (history_new example_doc)
      (snd (allocate_marker_id (mark_saved_at (history_new example_doc) 0)))"
    by (meson converse_rtranclp_into_rtranclp r_into_rtranclp)
qed

text \<open>C40: The audio revision identifies the audio: between any two moments of a history's life at
  which the current snapshot carries the same audio revision, the piece table is the same.\<close>

theorem audio_rev_identifies_audio:
  assumes "doc_ok flr" and "hist_step\<^sup>*\<^sup>* (history_new flr) h" and "hist_step\<^sup>*\<^sup>* h h'"
    and "s_audio_rev (h_current h') = s_audio_rev (h_current h)"
  shows "same_audio (h_current h') (h_current h)"
proof -
  have ok: "hist_ok h" using steps_ok [OF assms(2)] hist_ok_new [OF assms(1)] by blast
  then have "s_audio_rev (h_current h) < h_next_audio_rev h"
    by (simp add: hist_ok_def timeline_def snap_bounded_def)
  with audio_rev_steps [OF assms(3) ok] assms(4) show ?thesis by (auto simp: same_audio_def)
qed

theorem audio_rev_identifies_audio_witness:
  "same_audio (h_current (mark_saved_at (history_new example_doc) 4)) (h_current (history_new example_doc))"
proof (rule audio_rev_identifies_audio [OF example_doc_ok rtranclp.rtrancl_refl])
  show "hist_step\<^sup>*\<^sup>* (history_new example_doc) (mark_saved_at (history_new example_doc) 4)"
    by (rule r_into_rtranclp, rule step_save)
qed (simp add: mark_saved_at_def)

text \<open>Undoing up to as many edits as there are and redoing the same number never fails, visits the
  recorded states in order, and ends with the samples and the markers the document had.\<close>

theorem undo_then_redo_restores:
  assumes "hist_ok h" and "n \<le> length (h_undo h)"
  shows "\<exists>h' h''. iter_opt undo_opt n h = Some h' \<and> iter_opt redo_opt n h' = Some h'' \<and>
    doc_view (h_current h') = hist_states h ! (length (h_undo h) - n) \<and>
    doc_view (h_current h'') = doc_view (h_current h)"
proof -
  from assms have n: "n \<le> hist_cursor h" by (simp add: hist_cursor_def)
  from hist.undo_redo_n [OF assms(1) n] obtain h' h'' where
    u: "iter_opt undo_opt n h = Some h'" and r: "iter_opt redo_opt n h' = Some h''"
      "hist_states h'' = hist_states h" "hist_cursor h'' = hist_cursor h" by blast
  from hist.undo_n [OF assms(1) n] u have "hist_states h' = hist_states h" "hist_cursor h' = hist_cursor h - n"
    by auto
  with u r view_at_cursor [of h'] view_at_cursor [of h''] view_at_cursor [of h] show ?thesis
    by (auto simp: hist_cursor_def)
qed

theorem undo_then_redo_restores_witness:
  "\<exists>h' h''. iter_opt undo_opt 1 example_hist = Some h' \<and> iter_opt redo_opt 1 h' = Some h'' \<and>
    doc_view (h_current h') = hist_states example_hist ! 0 \<and>
    doc_view (h_current h'') = doc_view (h_current example_hist)"
  using undo_then_redo_restores [OF example_hist_ok, of 1] by (simp add: example_hist_simps)

text \<open>Undoing every one of a sequence of accepted edits gives back the samples and the markers the
  document had before the first of them.\<close>

theorem edits_undone_restore:
  assumes "hist_ok h" and "\<forall>e \<in> set es. edit_typed e" and "fold_opt apply_opt es h = Some h'"
  shows "\<exists>h''. iter_opt undo_opt (length es) h' = Some h'' \<and> doc_view (h_current h'') = doc_view (h_current h)"
  using hist.apply_all_undo_n [OF assms] view_at_cursor by metis

theorem edits_undone_restore_witness:
  "\<exists>h''. iter_opt undo_opt 1 example_hist = Some h'' \<and> doc_view (h_current h'') = doc_view example_doc"
  using edits_undone_restore [OF hist_ok_new [OF example_doc_ok], of "[example_edit]" example_hist]
    example_applies example_edit_typed
  by (simp add: history_new_def)

text \<open>Saving makes the document clean, and from there it reads dirty exactly when it has been
  undone away from the saved state.\<close>

theorem saved_then_undone_dirty:
  assumes "hist_ok h" and "iter_opt undo_opt n (mark_saved h) = Some h'"
  shows "is_dirty h' \<longleftrightarrow> n \<noteq> 0"
proof -
  let ?us = "h_undo h" and ?L = "length (h_undo h)"
  have m: "h_undo (mark_saved h) = ?us" "h_saved_seq (mark_saved h) = current_seq h"
    by (simp_all add: mark_saved_def mark_saved_at_def)
  from undo_n_stacks [OF assms(2)] have n: "n \<le> ?L" "h_undo h' = take (?L - n) ?us"
    "h_saved_seq h' = current_seq h" by (auto simp: m)
  have seq: "current_seq h = (if ?us = [] then 0 else en_seq (?us ! (?L - 1)))"
    using current_seq_take [of ?L ?us] by (auto simp: current_seq_def peek_seq_def)
  have seq': "current_seq h' = (if ?L = n then 0 else en_seq (?us ! (?L - n - 1)))"
    using current_seq_take [of "?L - n" ?us] n by (auto simp: current_seq_def peek_seq_def)
  note s = entry_seqs [OF assms(1)]
  have "en_seq (?us ! (?L - n - 1)) < en_seq (?us ! (?L - 1))" if "n \<noteq> 0" "n < ?L"
    using sorted_wrt_nth_less [of "(<)" "map en_seq ?us" "?L - n - 1" "?L - 1"] that s by simp
  moreover have "0 < en_seq (?us ! (?L - 1))" if "?us \<noteq> []"
    using s that by (metis last_conv_nth last_in_set)
  ultimately show ?thesis
    using n seq seq' unfolding is_dirty_def
    by (metis diff_zero le_neq_implies_less length_0_conv less_irrefl le_zero_eq)
qed

theorem saved_then_undone_dirty_witness:
  "\<exists>h'. iter_opt undo_opt 1 (mark_saved example_hist) = Some h' \<and> is_dirty h'"
proof -
  have "hist_ok (mark_saved example_hist)" "1 \<le> hist_cursor (mark_saved example_hist)"
    using example_hist_ok example_hist_simps by (simp_all add: mark_saved_def mark_saved_at_def hist_cursor_def)
  from hist.undo_n [OF this] obtain h' where h': "iter_opt undo_opt 1 (mark_saved example_hist) = Some h'"
    by blast
  with saved_then_undone_dirty [OF example_hist_ok h'] show ?thesis by auto
qed

text \<open>Dropping the whole undo stack of a document that was edited and never saved turns the dirty
  flag off, although the document on screen is untouched: sequence number 0 means both the floor the
  session opened with and the floor left by the drop.\<close>

theorem dropped_floor_reads_clean:
  assumes "hist_ok h" and "h_saved_seq h = 0" and "h_undo h \<noteq> []"
  shows "is_dirty h \<and> \<not> is_dirty (snd (drop_oldest_undo h (length (h_undo h)))) \<and>
    h_current (snd (drop_oldest_undo h (length (h_undo h)))) = h_current h"
proof -
  from entry_seqs [OF assms(1)] assms(3) have "0 < en_seq (last (h_undo h))" by simp
  with assms show ?thesis
    by (simp add: is_dirty_def current_seq_def peek_seq_def drop_oldest_undo_def Let_def)
qed

theorem dropped_floor_reads_clean_witness:
  "is_dirty example_hist \<and> \<not> is_dirty (snd (drop_oldest_undo example_hist 1))"
  using dropped_floor_reads_clean [OF example_hist_ok] example_hist_simps by fastforce

end
