(* ===== verification/Edits.thy ===== *)
theory Edits
  imports History_Props
begin

text \<open>
  Cut, copy, paste, delete, trim and silence: \<^verbatim>\<open>crates/project/src/edit.rs\<close>.

  The operations build edits; the lemmas run them through \<open>history_apply\<close> and state what becomes of
  the samples.  \<open>replace_applies\<close> is the one fact they share: a well-formed replacement succeeds and
  splices the content.
\<close>

section \<open>Ranges and targets\<close>

definition insert_silence_max_seconds :: nat where
  "insert_silence_max_seconds = 3600"

record doc_range =
  r_start :: nat
  r_end :: nat

definition range_len :: "doc_range \<Rightarrow> nat" where
  "range_len r = r_end r - r_start r"

datatype range_error = EmptyRange | RangeOutOfBounds

definition validate_range :: "nat \<Rightarrow> nat \<Rightarrow> nat \<Rightarrow> range_error + doc_range" where
  "validate_range start e len =
     (if start \<ge> e then Inl EmptyRange
      else if e > len then Inl RangeOutOfBounds
      else Inr \<lparr>r_start = start, r_end = e\<rparr>)"

datatype target = Cursor nat | TRange doc_range

record post_edit =
  post_selection :: "(nat \<times> nat) option"
  post_playhead :: nat

section \<open>The operations\<close>

definition cut :: "doc_snapshot \<Rightarrow> doc_range \<Rightarrow> project_error + edit \<times> piece list" where
  "cut d r =
     (case slice d (r_start r) (range_len r) of
        Inl err \<Rightarrow> Inl err
      | Inr clip \<Rightarrow>
          Inr (edit_replace (edit_new ''history.cut'') (r_start r) (range_len r) [], clip))"

definition copy :: "doc_snapshot \<Rightarrow> doc_range \<Rightarrow> project_error + piece list" where
  "copy d r = slice d (r_start r) (range_len r)"

definition delete :: "doc_range \<Rightarrow> edit" where
  "delete r = edit_replace (edit_new ''history.delete'') (r_start r) (range_len r) []"

definition trim :: "doc_range \<Rightarrow> nat \<Rightarrow> edit option" where
  "trim r len =
     (if r_start r = 0 \<and> r_end r = len then None
      else Some (edit_replace
             (edit_replace (edit_new ''history.trim'') (r_end r) (len - r_end r) [])
             0 (r_start r) []))"

definition silence :: "doc_range \<Rightarrow> edit" where
  "silence r = edit_replace_with (edit_new ''history.silence'') (r_start r) (range_len r)
     (silence_run (range_len r)) Identity"

definition paste :: "piece list \<Rightarrow> target \<Rightarrow> edit" where
  "paste clip t =
     (let (at, remove_len) = (case t of Cursor c \<Rightarrow> (c, 0) | TRange r \<Rightarrow> (r_start r, range_len r))
      in edit_replace (edit_new ''history.paste'') at remove_len clip)"

definition pieces_len_samples :: "piece list \<Rightarrow> nat" where
  "pieces_len_samples ps = sum_list (map p_len ps)"

definition validate_insert_silence_len :: "nat \<Rightarrow> nat \<Rightarrow> unit + nat" where
  "validate_insert_silence_len len rate =
     (let mx = sat_mul64 insert_silence_max_seconds rate
      in if len = 0 \<or> len > mx then Inl () else Inr len)"

definition target_at :: "target \<Rightarrow> nat" where
  "target_at t = (case t of Cursor c \<Rightarrow> c | TRange r \<Rightarrow> r_start r)"

definition insert_silence :: "target \<Rightarrow> nat \<Rightarrow> edit" where
  "insert_silence t len =
     edit_replace (edit_new ''history.insert_silence'') (target_at t) 0 (silence_run len)"

section \<open>Selection and playhead afterwards\<close>

definition post_cut_or_delete :: "doc_range \<Rightarrow> post_edit" where
  "post_cut_or_delete r = \<lparr>post_selection = None, post_playhead = r_start r\<rparr>"

definition post_paste :: "target \<Rightarrow> nat \<Rightarrow> post_edit" where
  "post_paste t inserted =
     \<lparr>post_selection = Some (target_at t, target_at t + inserted), post_playhead = target_at t\<rparr>"

definition post_insert_silence :: "target \<Rightarrow> nat \<Rightarrow> post_edit" where
  "post_insert_silence t len = post_paste t len"

definition post_trim :: post_edit where
  "post_trim = \<lparr>post_selection = None, post_playhead = 0\<rparr>"

definition post_silence :: "doc_range \<Rightarrow> post_edit" where
  "post_silence r = \<lparr>post_selection = Some (r_start r, r_end r), post_playhead = r_start r\<rparr>"

definition post_undo_redo :: "nat option \<Rightarrow> nat \<Rightarrow> post_edit" where
  "post_undo_redo first_at len = \<lparr>post_selection = None, post_playhead = min (unwrap_or first_at 0) len\<rparr>"

section \<open>Applying a replacement\<close>

lemma validate_range_Inr [simp]:
  "validate_range s e len = Inr r \<longleftrightarrow> s < e \<and> e \<le> len \<and> r = \<lparr>r_start = s, r_end = e\<rparr>"
  by (auto simp: validate_range_def)

lemma edit_builders [simp]:
  "e_ops (edit_replace_with e at r ps mp) = e_ops e @ [Replace at r ps mp]"
  "e_marker_ops (edit_replace_with e at r ps mp) = e_marker_ops e"
  "e_label (edit_replace_with e at r ps mp) = e_label e"
  "e_ops (edit_new l) = []" "e_marker_ops (edit_new l) = []" "e_label (edit_new l) = l"
  "edit_replace e at r ps = edit_replace_with e at r ps Shift"
  by (simp_all add: edit_replace_with_def edit_new_def edit_replace_def)

lemma piece_ok_valid: "piece_ok p \<Longrightarrow> piece_valid p"
  by (auto simp: piece_ok_def piece_valid_def split: source.splits)

lemma replaced_total:
  "at + r \<le> s_len d \<Longrightarrow> s_len d \<le> u64_max \<Longrightarrow> \<exists>qs. replaced d at r ps = Inr qs"
  by (auto simp: replaced_def checked_end_def split: sum.splits option.splits)

lemma slice_total:
  "at + r \<le> s_len d \<Longrightarrow> s_len d \<le> u64_max \<Longrightarrow> \<exists>qs. slice d at r = Inr qs"
  by (auto simp: slice_def checked_end_def split: sum.splits option.splits)

lemma validate_pieces_ok: "\<forall>p \<in> set ps. piece_ok p \<Longrightarrow> validate_pieces ps = Inr ()"
  by (simp add: piece_ok_valid)

lemma prepare_op_total:
  assumes "\<forall>p \<in> set ps. piece_ok p" "at + r \<le> s_len (unwrap_or work cur)"
    "s_len (unwrap_or work cur) \<le> u64_max" "mp = Identity \<Longrightarrow> pieces_len ps = r"
  shows "\<exists>work' ms'. prepare_op cur (work, ms) (Replace at r ps mp) = Inr (work', ms') \<and>
    (op_changes_audio (Replace at r ps mp) \<longrightarrow> work' \<noteq> None) \<and>
    (mp = Identity \<longrightarrow> ms' = ms) \<and> (work \<noteq> None \<longrightarrow> work' \<noteq> None)"
proof -
  obtain qs where "replaced (unwrap_or work cur) at r ps = Inr qs"
    using replaced_total [OF assms(2,3)] by blast
  then show ?thesis
    using assms(4)
    by (cases mp) (auto simp: Let_def validate_pieces_ok [OF assms(1)] simp del: op_changes_audio.simps)
qed

text \<open>An edit whose operations prepare, without marker operations, applies; its content is spliced.\<close>

lemma apply_prepared:
  assumes ok: "doc_ok (h_current h)" and ops: "\<forall>op \<in> set (e_ops e). op_typed op" "e_marker_ops e = []"
    and p: "prepare_ops (h_current h) (None, s_markers (h_current h)) (e_ops e) = Inr (Some w, ms)"
  shows "\<exists>step h'. history_apply h e = Inr (step, h') \<and>
    s_pieces (h_current h') = s_pieces w \<and> s_markers (h_current h') = sort_markers ms \<and>
    snap_ok (h_current h') \<and>
    content rd z (s_pieces (h_current h')) =
      foldl (op_spec rd z) (content rd z (s_pieces (h_current h))) (e_ops e)"
proof -
  from ok have c: "snap_ok (unwrap_or None (h_current h))"
    "markers_ok (s_len (unwrap_or None (h_current h))) (s_markers (h_current h))"
    by (simp_all add: doc_ok_def markers_ok_def)
  note a = prepare_ops_ok [OF c ops(1) p, of rd z]
  have "\<exists>pe. prepare h e = Inr pe \<and> s_pieces (pe_snapshot pe) = s_pieces w \<and>
      s_starts (pe_snapshot pe) = s_starts w \<and> s_len (pe_snapshot pe) = s_len w \<and>
      s_markers (pe_snapshot pe) = sort_markers ms"
    using p ops(2) by (simp add: prepare_def Let_def)
  then obtain pe where "prepare h e = Inr pe" "s_pieces (pe_snapshot pe) = s_pieces w"
      "s_starts (pe_snapshot pe) = s_starts w" "s_len (pe_snapshot pe) = s_len w"
      "s_markers (pe_snapshot pe) = sort_markers ms" by blast
  with a show ?thesis
    by (auto simp: history_apply_def commit_def snap_ok_def)
qed

lemma replace_applies:
  assumes ok: "doc_ok (h_current h)" and len: "s_len (h_current h) \<le> u64_max"
    and ps: "\<forall>p \<in> set ps. piece_ok p" and at: "at + r \<le> s_len (h_current h)"
    and ch: "op_changes_audio (Replace at r ps mp)" and mp: "mp = Identity \<Longrightarrow> pieces_len ps = r"
  shows "\<exists>step h'. history_apply h (edit_replace_with (edit_new l) at r ps mp) = Inr (step, h') \<and>
    content rd z (s_pieces (h_current h')) =
      take at (content rd z (s_pieces (h_current h))) @ content rd z ps @
      drop (at + r) (content rd z (s_pieces (h_current h))) \<and>
    (mp = Identity \<longrightarrow> s_markers (h_current h') = s_markers (h_current h)) \<and> snap_ok (h_current h')"
proof -
  let ?e = "edit_replace_with (edit_new l) at r ps mp"
  have t: "\<forall>op \<in> set (e_ops ?e). op_typed op"
    using ps by (auto simp: op_typed_def piece_ok_len)
  obtain w ms where p: "prepare_ops (h_current h) (None, s_markers (h_current h)) (e_ops ?e) = Inr (Some w, ms)"
    and ms: "mp = Identity \<longrightarrow> ms = s_markers (h_current h)"
    using prepare_op_total [of ps at r None "h_current h" mp "s_markers (h_current h)"] ps at len mp ch
    by auto
  have so: "sort_markers (s_markers (h_current h)) = s_markers (h_current h)"
    using ok by (intro sort_markers_sorted doc_ok_marker_sorted)
  from apply_prepared [OF ok t _ p, of rd z] ms so show ?thesis by force
qed

abbreviation cur_content :: "(nat \<Rightarrow> nat \<Rightarrow> 'a) \<Rightarrow> 'a \<Rightarrow> history \<Rightarrow> 'a list" where
  "cur_content rd z h \<equiv> content rd z (s_pieces (h_current h))"

lemma length_cur: "doc_ok (h_current h) \<Longrightarrow> length (cur_content rd z h) = s_len (h_current h)"
  by (simp add: doc_ok_def snap_ok_def)

lemma cut_applies:
  assumes ok: "doc_ok (h_current h)" and len: "s_len (h_current h) \<le> u64_max"
    and r: "validate_range a b (s_len (h_current h)) = Inr r"
  shows "\<exists>e clip step h'. cut (h_current h) r = Inr (e, clip) \<and> history_apply h e = Inr (step, h') \<and>
    content rd z clip = take (b - a) (drop a (cur_content rd z h)) \<and>
    cur_content rd z h' = take a (cur_content rd z h) @ drop b (cur_content rd z h) \<and>
    canonical clip \<and> (\<forall>p \<in> set clip. piece_ok p) \<and> snap_ok (h_current h')"
proof -
  from r have ab: "a < b" "b \<le> s_len (h_current h)" and r': "r = \<lparr>r_start = a, r_end = b\<rparr>" by auto
  from ok have s: "snap_ok (h_current h)" by (simp add: doc_ok_def)
  obtain clip where c: "slice (h_current h) a (b - a) = Inr clip"
    using slice_total [of a "b - a" "h_current h"] ab len by auto
  from replace_applies [OF ok len, of "[]" a "b - a" Shift "''history.cut''" rd z] ab
  obtain step h' where
    "history_apply h (edit_replace_with (edit_new ''history.cut'') a (b - a) [] Shift) = Inr (step, h')"
    "cur_content rd z h' = take a (cur_content rd z h) @ drop b (cur_content rd z h)" "snap_ok (h_current h')"
    by auto
  with c slice_content [OF s c] slice_canonical [OF c] slice_ok [OF s c] show ?thesis
    by (auto simp: cut_def r' range_len_def)
qed

lemma paste_applies:
  assumes ok: "doc_ok (h_current h)" and len: "s_len (h_current h) \<le> u64_max"
    and at: "a \<le> s_len (h_current h)" and clip: "\<forall>p \<in> set clip. piece_ok p" "0 < pieces_len clip"
  shows "\<exists>step h'. history_apply h (paste clip (Cursor a)) = Inr (step, h') \<and>
    cur_content rd z h' = take a (cur_content rd z h) @ content rd z clip @ drop a (cur_content rd z h) \<and>
    snap_ok (h_current h')"
proof -
  have "\<exists>p \<in> set clip. 0 < p_len p"
  proof (rule ccontr)
    assume "\<not> (\<exists>p \<in> set clip. 0 < p_len p)"
    then have "pieces_len clip = 0" by (induction clip) auto
    with clip(2) show False by simp
  qed
  with replace_applies [OF ok len clip(1), of a 0 Shift "''history.paste''" rd z] at show ?thesis
    by (auto simp: paste_def)
qed

section \<open>Properties\<close>

text \<open>C38: Cut, then paste at the point where the cut left the playhead, restores the document: both
  edits are accepted, the clipboard holds exactly the selected samples, the samples are back, and
  up to \<open>u32::MAX\<close> samples the piece table is the very same list of pieces.\<close>

theorem cut_paste_restores:
  assumes ok: "hist_ok h" and len: "s_len (h_current h) \<le> u64_max"
    and r: "validate_range a b (s_len (h_current h)) = Inr r"
  shows "\<exists>e clip s1 h1 s2 h2. cut (h_current h) r = Inr (e, clip) \<and>
    history_apply h e = Inr (s1, h1) \<and>
    history_apply h1 (paste clip (Cursor (post_playhead (post_cut_or_delete r)))) = Inr (s2, h2) \<and>
    content rd z clip = take (b - a) (drop a (cur_content rd z h)) \<and>
    cur_content rd z h1 = take a (cur_content rd z h) @ drop b (cur_content rd z h) \<and>
    cur_content rd z h2 = cur_content rd z h \<and>
    (s_len (h_current h) \<le> u32_max \<longrightarrow> s_pieces (h_current h2) = s_pieces (h_current h))"
proof -
  from ok have dok: "doc_ok (h_current h)" by (simp add: hist_ok_def timeline_def)
  then have sok: "snap_ok (h_current h)" by (simp add: doc_ok_def)
  from r have ab: "a < b" "b \<le> s_len (h_current h)" and r': "r = \<lparr>r_start = a, r_end = b\<rparr>" by auto
  from cut_applies [OF dok len r, of "\<lambda>c i. Inr (c, i)" "Inl ()"] obtain e clip s1 h1 where
    c: "cut (h_current h) r = Inr (e, clip)" "history_apply h e = Inr (s1, h1)"
    "canonical clip" "\<forall>p \<in> set clip. piece_ok p" by blast
  have gen: "content rd z clip = take (b - a) (drop a (cur_content rd z h)) \<and>
    cur_content rd z h1 = take a (cur_content rd z h) @ drop b (cur_content rd z h)"
    for rd :: "nat \<Rightarrow> nat \<Rightarrow> 'c" and z
    using cut_applies [OF dok len r, of rd z] c by auto
  from c(1) have e: "e = edit_replace_with (edit_new ''history.cut'') a (b - a) [] Shift"
    by (auto simp: cut_def r' range_len_def split: sum.splits)
  have "edit_typed e" by (simp add: e edit_typed_def op_typed_def)
  from commit_ok [OF ok this] c(2) have "hist_ok h1"
    by (auto simp: history_apply_def split: sum.splits)
  then have dok1: "doc_ok (h_current h1)" by (simp add: hist_ok_def timeline_def)
  have l1: "s_len (h_current h1) = s_len (h_current h) - (b - a)"
    using length_cur [OF dok1, of "\<lambda>_ _. ()" "()"] length_cur [OF dok, of "\<lambda>_ _. ()" "()"]
      gen [of "\<lambda>_ _. ()" "()"] ab by auto
  have clen: "0 < pieces_len clip"
    using arg_cong [OF conjunct1 [OF gen [of "\<lambda>_ _. ()" "()"]], of length] ab sok by (simp add: snap_ok_def)
  have b1: "s_len (h_current h1) \<le> u64_max" "a \<le> s_len (h_current h1)" using l1 ab len by auto
  from paste_applies [OF dok1 b1 c(4) clen, of "\<lambda>_ _. ()" "()"] obtain s2 h2 where
    p: "history_apply h1 (paste clip (Cursor a)) = Inr (s2, h2)" "snap_ok (h_current h2)" by auto
  have join: "take a xs @ take (b - a) (drop a xs) @ drop b xs = xs" for xs :: "'c list"
    using ab by (metis append.assoc append_take_drop_id le_add_diff_inverse less_imp_le_nat take_add)
  have restored: "cur_content rd z h2 = cur_content rd z h" for rd :: "nat \<Rightarrow> nat \<Rightarrow> 'c" and z
  proof -
    from paste_applies [OF dok1 b1 c(4) clen, of rd z] p have "cur_content rd z h2 =
        take a (cur_content rd z h1) @ content rd z clip @ drop a (cur_content rd z h1)" by auto
    also have "\<dots> = take a (cur_content rd z h) @ take (b - a) (drop a (cur_content rd z h)) @
        drop b (cur_content rd z h)"
      using gen [of rd z] length_cur [OF dok, of rd z] ab by simp
    finally show ?thesis by (simp only: join)
  qed
  have "s_pieces (h_current h2) = s_pieces (h_current h)" if "s_len (h_current h) \<le> u32_max"
    using canonical_unique [of "s_pieces (h_current h)" "s_pieces (h_current h2)"] that sok p(2)
      restored [of "\<lambda>c i. Some (c, i)" None]
    by (simp add: snap_ok_def)
  with c(1,2) p gen [of rd z] restored [of rd z] show ?thesis
    by (auto simp: post_cut_or_delete_def r')
qed

lemma new_example: "h_current (history_new d) = d\<lparr>s_rev := 1, s_audio_rev := 1\<rparr>"
  by (simp add: history_new_def)

theorem cut_paste_restores_witness:
  "\<exists>e clip s1 h1 s2 h2. cut (h_current (history_new example_doc)) \<lparr>r_start = 10, r_end = 110\<rparr> = Inr (e, clip) \<and>
    history_apply (history_new example_doc) e = Inr (s1, h1) \<and>
    history_apply h1 (paste clip (Cursor 10)) = Inr (s2, h2) \<and>
    s_pieces (h_current h2) = [piece_chunk 7 0 100, piece_silence 20]"
  using cut_paste_restores [OF hist_ok_new [OF example_doc_ok], of 10 110 "\<lparr>r_start = 10, r_end = 110\<rparr>"]
  by (fastforce simp: new_example u64_max_def u32_max_def post_cut_or_delete_def)

text \<open>Trim is accepted for every selection short of the whole document, keeps exactly the selected
  samples, and is no edit at all when the selection spans the document.\<close>

theorem trim_keeps_selection:
  assumes ok: "doc_ok (h_current h)" and len: "s_len (h_current h) \<le> u64_max"
    and r: "validate_range a b (s_len (h_current h)) = Inr r"
  shows "case trim r (s_len (h_current h)) of
      None \<Rightarrow> a = 0 \<and> b = s_len (h_current h)
    | Some e \<Rightarrow> (\<exists>step h'. history_apply h e = Inr (step, h') \<and>
        cur_content rd z h' = take (b - a) (drop a (cur_content rd z h)))"
proof (cases "trim r (s_len (h_current h))")
  case None
  with r show ?thesis by (auto simp: trim_def split: if_splits)
next
  case (Some e)
  let ?L = "s_len (h_current h)" and ?X = "cur_content rd z h"
  from r have ab: "a < b" "b \<le> ?L" by auto
  from Some r have ne: "a \<noteq> 0 \<or> b \<noteq> ?L" and ops: "e_ops e = [Replace b (?L - b) [] Shift, Replace 0 a [] Shift]"
    and mops: "e_marker_ops e = []"
    by (auto simp: trim_def split: if_splits)
  from ok have c: "snap_ok (h_current h)" "markers_ok ?L (s_markers (h_current h))"
    by (simp_all add: doc_ok_def markers_ok_def)
  have t: "\<forall>op \<in> set (e_ops e). op_typed op" by (simp add: ops op_typed_def)
  obtain w1 m1 where p1: "prepare_op (h_current h) (None, s_markers (h_current h)) (Replace b (?L - b) [] Shift) =
      Inr (w1, m1)" and w1: "op_changes_audio (Replace b (?L - b) [] Shift) \<longrightarrow> w1 \<noteq> None"
    using prepare_op_total [of "[]" b "?L - b" None "h_current h" Shift "s_markers (h_current h)"] ab len
    by (auto simp del: prepare_op.simps)
  have "op_typed (Replace b (?L - b) [] Shift)" by (simp add: op_typed_def)
  from prepare_op_ok [OF _ _ this p1, of "\<lambda>_ _. ()" "()"] c
  have s1: "snap_ok (unwrap_or w1 (h_current h))" and
    "content (\<lambda>_ _. ()) () (s_pieces (unwrap_or w1 (h_current h))) =
       take b (cur_content (\<lambda>_ _. ()) () h) @ drop (b + (?L - b)) (cur_content (\<lambda>_ _. ()) () h)"
    by simp_all
  from arg_cong [OF this(2), of length] s1 c(1) ab have l1: "s_len (unwrap_or w1 (h_current h)) = b"
    by (simp add: snap_ok_def)
  obtain w2 m2 where p2: "prepare_op (h_current h) (w1, m1) (Replace 0 a [] Shift) = Inr (w2, m2)"
    and w2: "op_changes_audio (Replace 0 a [] Shift) \<longrightarrow> w2 \<noteq> None" "w1 \<noteq> None \<longrightarrow> w2 \<noteq> None"
    using prepare_op_total [of "[]" 0 a w1 "h_current h" Shift m1] ab len l1
    by (auto simp del: prepare_op.simps)
  have "w2 \<noteq> None" using w1 w2 ne ab by auto
  then obtain w where "prepare_ops (h_current h) (None, s_markers (h_current h)) (e_ops e) = Inr (Some w, m2)"
    using p1 p2 by (auto simp: ops)
  from apply_prepared [OF ok t mops this, of rd z] obtain step h' where
    h': "history_apply h e = Inr (step, h')" "cur_content rd z h' = drop a (take b ?X @ drop (b + (?L - b)) ?X)"
    by (auto simp: ops)
  have "length ?X = ?L" using length_cur [OF ok] .
  with h' ab have "cur_content rd z h' = take (b - a) (drop a ?X)" by (simp add: drop_take)
  with h'(1) Some show ?thesis by auto
qed

theorem trim_keeps_selection_witness:
  "case trim \<lparr>r_start = 10, r_end = 40\<rparr> 120 of None \<Rightarrow> False
    | Some e \<Rightarrow> (\<exists>step h'. history_apply (history_new example_doc) e = Inr (step, h') \<and>
        cur_content (\<lambda>c i. c + i) 0 h' = [17 ..< 47])"
  using trim_keeps_selection [of "history_new example_doc" 10 40 "\<lparr>r_start = 10, r_end = 40\<rparr>" "\<lambda>c i. c + i" 0]
    example_doc_ok
  by (simp add: new_example u64_max_def trim_def piece_content_def take_map drop_map)

text \<open>Silencing a selection is always accepted; it writes exact silence over the selection, changes
  no other sample, not the length and not a single marker.\<close>

theorem silence_overwrites:
  assumes "doc_ok (h_current h)" and "s_len (h_current h) \<le> u64_max"
    and r: "validate_range a b (s_len (h_current h)) = Inr r"
  shows "\<exists>step h'. history_apply h (silence r) = Inr (step, h') \<and>
    cur_content rd z h' = take a (cur_content rd z h) @ replicate (b - a) z @ drop b (cur_content rd z h) \<and>
    s_markers (h_current h') = s_markers (h_current h)"
proof -
  from r have ab: "a < b" "b \<le> s_len (h_current h)" and r': "r = \<lparr>r_start = a, r_end = b\<rparr>" by auto
  have s: "\<forall>p \<in> set (silence_run (b - a)). piece_ok p" "pieces_len (silence_run (b - a)) = b - a"
    "content rd z (silence_run (b - a)) = replicate (b - a) z"
    using silence_run_props [of rd z "b - a"] by auto
  from replace_applies [OF assms(1,2) s(1), of a "b - a" Identity "''history.silence''" rd z] ab s
  show ?thesis by (auto simp: silence_def r' range_len_def)
qed

theorem silence_overwrites_witness:
  "\<exists>step h'. history_apply (history_new example_doc) (silence \<lparr>r_start = 98, r_end = 101\<rparr>) = Inr (step, h') \<and>
    s_markers (h_current h') = s_markers example_doc"
  using silence_overwrites [of "history_new example_doc" 98 101 "\<lparr>r_start = 98, r_end = 101\<rparr>" "\<lambda>_ _. ()" "()"]
    example_doc_ok
  by (auto simp: new_example u64_max_def)

text \<open>Pasting a clip over a selection or at the cursor is accepted, and the selection it leaves is
  exactly the pasted audio.\<close>

theorem paste_selects_clip:
  assumes ok: "doc_ok (h_current h)" and len: "s_len (h_current h) \<le> u64_max"
    and clip: "\<forall>p \<in> set clip. piece_ok p" "0 < pieces_len_samples clip"
    and t: "case t of Cursor c \<Rightarrow> c \<le> s_len (h_current h)
      | TRange r \<Rightarrow> validate_range (r_start r) (r_end r) (s_len (h_current h)) = Inr r"
  shows "\<exists>step h' s e. history_apply h (paste clip t) = Inr (step, h') \<and>
    post_selection (post_paste t (pieces_len_samples clip)) = Some (s, e) \<and>
    take (e - s) (drop s (cur_content rd z h')) = content rd z clip \<and>
    take s (cur_content rd z h') = take s (cur_content rd z h)"
proof -
  define at r where "at = target_at t" and "r = (case t of Cursor _ \<Rightarrow> 0 | TRange r \<Rightarrow> range_len r)"
  have p: "paste clip t = edit_replace_with (edit_new ''history.paste'') at r clip Shift"
    by (simp add: paste_def at_def r_def target_at_def split: target.splits)
  have b: "at + r \<le> s_len (h_current h)"
    using t by (auto simp: at_def r_def target_at_def range_len_def split: target.splits)
  have "pieces_len_samples clip = pieces_len clip" by (simp add: pieces_len_samples_def pieces_len_def)
  moreover have "op_changes_audio (Replace at r clip Shift)"
  proof (rule ccontr)
    assume "\<not> op_changes_audio (Replace at r clip Shift)"
    then have "\<forall>p \<in> set clip. p_len p = 0" by auto
    then have "pieces_len clip = 0" by (induction clip) auto
    with clip(2) \<open>pieces_len_samples clip = _\<close> show False by simp
  qed
  from replace_applies [OF ok len clip(1) b this, of "''history.paste''" rd z] obtain step h' where
    "history_apply h (paste clip t) = Inr (step, h')"
    "cur_content rd z h' = take at (cur_content rd z h) @ content rd z clip @ drop (at + r) (cur_content rd z h)"
    by (auto simp: p)
  ultimately show ?thesis
    using b length_cur [OF ok, of rd z] by (simp add: post_paste_def at_def)
qed

theorem paste_selects_clip_witness:
  "\<exists>step h' s e. history_apply (history_new example_doc)
      (paste [piece_chunk 9 5 4] (TRange \<lparr>r_start = 3, r_end = 8\<rparr>)) = Inr (step, h') \<and>
    post_selection (post_paste (TRange \<lparr>r_start = 3, r_end = 8\<rparr>) 4) = Some (s, e) \<and>
    take (e - s) (drop s (cur_content (\<lambda>c i. i) 0 h')) = [5, 6, 7, 8]"
  using paste_selects_clip [of "history_new example_doc" "[piece_chunk 9 5 4]"
      "TRange \<lparr>r_start = 3, r_end = 8\<rparr>" "\<lambda>c i. i" 0] example_doc_ok
  by (auto simp: new_example u64_max_def piece_ok_def chunk_samples_def pieces_len_samples_def
      piece_content_def upt_rec)

end
