(* ===== verification/Chunk_Store.thy ===== *)
theory Chunk_Store
  imports Snapshot
begin

text \<open>
  The chunk store: \<^verbatim>\<open>crates/project/src/store/mod.rs\<close>.

  \<open>st_file\<close> is the chunk file as every mapping sees it, \<open>st_disk\<close> what of it survives a crash: a
  \<open>sync\<close> brings the segments marked dirty to disk.  A segment slot counts the references to its
  mapping (\<open>Arc::strong_count\<close>): 1 is the table's own.  The operating system's answers are a record
  of functions, an argument of the operations that ask it.  \<open>crc\<close> stands for \<open>crc32fast::hash\<close>.
  The operations run one at a time, which is what the alloc, segment and index locks give.
\<close>

type_synonym f32 = "32 word"

section \<open>Samples and bytes\<close>

definition segment_bytes :: nat where
  "segment_bytes = 67108864"

definition chunk_align_bytes :: nat where
  "chunk_align_bytes = 4096"


definition is_finite :: "f32 \<Rightarrow> bool" where
  "is_finite w \<longleftrightarrow> w AND 0x7F800000 \<noteq> 0x7F800000"

definition f32_le :: "f32 \<Rightarrow> byte list" where
  "f32_le w = [ucast w, ucast (drop_bit 8 w), ucast (drop_bit 16 w), ucast (drop_bit 24 w)]"

definition f32_of_le :: "byte list \<Rightarrow> f32" where
  "f32_of_le bs = ucast (bs ! 0) OR push_bit 8 (ucast (bs ! 1)) OR push_bit 16 (ucast (bs ! 2)) OR
     push_bit 24 (ucast (bs ! 3))"

text \<open>\<open>u32::to_le_bytes\<close>.\<close>

definition u32_le :: "nat \<Rightarrow> byte list" where
  "u32_le n = f32_le (word_of_nat n)"

definition le_bytes :: "f32 list \<Rightarrow> byte list" where
  "le_bytes samples = concat (map f32_le samples)"

definition copy_le_f32 :: "byte list \<Rightarrow> nat \<Rightarrow> f32 list" where
  "copy_le_f32 src n = map (\<lambda>i. f32_of_le (take 4 (drop (4 * i) src))) [0 ..< n]"

section \<open>The store\<close>

record chunk_location =
  loc_id :: nat
  loc_offset :: nat
  loc_len :: nat
  loc_crc :: "32 word"

datatype chunk_state = Unverified | Verified | Corrupt

record chunk_entry =
  ce_loc :: chunk_location
  ce_state :: chunk_state

definition chunk_hole :: "nat \<Rightarrow> chunk_entry" where
  "chunk_hole i = \<lparr>ce_loc = \<lparr>loc_id = i, loc_offset = 0, loc_len = 0, loc_crc = 0\<rparr>, ce_state = Corrupt\<rparr>"

definition is_hole :: "chunk_entry \<Rightarrow> bool" where
  "is_hole e \<longleftrightarrow> loc_len (ce_loc e) = 0"

record segment_slot =
  sg_map :: "nat option"
  sg_last_use :: nat
  sg_dirty :: bool

definition fresh_slot :: segment_slot where
  "fresh_slot = \<lparr>sg_map = None, sg_last_use = 0, sg_dirty = False\<rparr>"

record store =
  st_file :: "nat \<Rightarrow> byte"
  st_disk :: "nat \<Rightarrow> byte"
  st_next_offset :: nat
  st_segments :: nat
  st_slots :: "segment_slot list"
  st_tick :: nat
  st_tail :: "nat option"
  st_index :: "chunk_entry list"
  st_budget :: nat
  st_mapped :: nat
  st_external :: nat
  st_peak :: nat
  st_unreserved :: nat

text \<open>What the operating system answers; \<open>env_prealloc\<close> follows \<open>store::prealloc::Reservation\<close>.\<close>

datatype reservation = Reserved | Unreserved

record store_env =
  env_hook :: "nat \<Rightarrow> io_error option"
  env_prealloc :: "nat \<Rightarrow> io_error + reservation"
  env_mmap :: "nat \<Rightarrow> io_error option"
  env_flush :: "nat \<Rightarrow> io_error option"
  env_fdatasync :: "io_error option"

definition store_create :: "nat \<Rightarrow> store" where
  "store_create budget =
     \<lparr>st_file = (\<lambda>_. 0), st_disk = (\<lambda>_. 0), st_next_offset = 0, st_segments = 0, st_slots = [],
      st_tick = 0, st_tail = None, st_index = [], st_budget = budget, st_mapped = 0,
      st_external = 0, st_peak = 0, st_unreserved = 0\<rparr>"

definition default_memory_budget :: "nat option \<Rightarrow> nat" where
  "default_memory_budget ram =
     (case ram of
        None \<Rightarrow> 536870912
      | Some r \<Rightarrow> clamp (r div 4) 536870912 4294967296)"

definition resident :: "store \<Rightarrow> nat" where
  "resident st = st_mapped st + st_external st"

definition note_peak :: "store \<Rightarrow> store" where
  "note_peak st = st\<lparr>st_peak := max (st_peak st) (resident st)\<rparr>"

section \<open>Eviction and mapping\<close>

definition evictable :: "store \<Rightarrow> nat \<Rightarrow> bool" where
  "evictable st i \<longleftrightarrow> Some i \<noteq> st_tail st \<and> sg_map (st_slots st ! i) = Some 1"

definition min_by_last_use :: "store \<Rightarrow> nat list \<Rightarrow> nat option" where
  "min_by_last_use st is =
     (case is of [] \<Rightarrow> None
      | i # js \<Rightarrow> Some (foldl (\<lambda>b j. if sg_last_use (st_slots st ! j) < sg_last_use (st_slots st ! b)
                                   then j else b) i js))"

definition victim :: "store \<Rightarrow> nat option" where
  "victim st = min_by_last_use st (filter (evictable st) [0 ..< length (st_slots st)])"

definition unmap_slot :: "store \<Rightarrow> nat \<Rightarrow> store" where
  "unmap_slot st i =
     st\<lparr>st_slots := (st_slots st)[i := (st_slots st ! i)\<lparr>sg_map := None\<rparr>],
        st_mapped := st_mapped st - segment_bytes\<rparr>"

definition mapped_count :: "store \<Rightarrow> nat" where
  "mapped_count st = length (filter (\<lambda>s. sg_map s \<noteq> None) (st_slots st))"

lemma victim_evictable: "victim st = Some i \<Longrightarrow> i < length (st_slots st) \<and> evictable st i"
proof -
  assume v: "victim st = Some i"
  have "foldl (\<lambda>b j. if sg_last_use (st_slots st ! j) < sg_last_use (st_slots st ! b) then j else b) i js
      \<in> set (i # js)" for i js
    by (induction js arbitrary: i) auto
  with v have "i \<in> set (filter (evictable st) [0 ..< length (st_slots st)])"
    by (auto simp: victim_def min_by_last_use_def simp del: set_filter split: list.splits)
  then show ?thesis by auto
qed

lemma mapped_count_unmap:
  assumes "i < length (st_slots st)" "sg_map (st_slots st ! i) \<noteq> None"
  shows "mapped_count st = Suc (mapped_count (unmap_slot st i))"
proof -
  define xs y ys where "xs = take i (st_slots st)" and "y = st_slots st ! i" and "ys = drop (Suc i) (st_slots st)"
  have s: "st_slots st = xs @ y # ys"
    using assms(1) unfolding xs_def y_def ys_def by (rule id_take_nth_drop)
  have i: "i = length xs" using assms(1) by (simp add: xs_def)
  have "sg_map y \<noteq> None" using assms(2) by (simp add: y_def)
  then show ?thesis by (auto simp: mapped_count_def unmap_slot_def s i)
qed

function evict_locked :: "nat \<Rightarrow> store \<Rightarrow> store" where
  "evict_locked incoming st =
     (if resident st + incoming > st_budget st then
        (case victim st of None \<Rightarrow> st | Some i \<Rightarrow> evict_locked incoming (unmap_slot st i))
      else st)"
  by pat_completeness auto
termination
proof (relation "measure (mapped_count \<circ> snd)")
  fix incoming st i assume "victim st = Some i"
  from victim_evictable [OF this] mapped_count_unmap [of i st]
  show "((incoming, unmap_slot st i), (incoming, st)) \<in> measure (mapped_count \<circ> snd)"
    by (simp add: evictable_def)
qed simp

declare evict_locked.simps [simp del]

definition acquire_segment :: "store_env \<Rightarrow> nat \<Rightarrow> (store, unit) op" where
  "acquire_segment env seg st =
     (let st = st\<lparr>st_tick := st_tick st + 1\<rparr>;
          tick = st_tick st
      in if seg \<ge> length (st_slots st) then (Inl (InvalidArgument ''segment does not exist''), st)
         else case sg_map (st_slots st ! seg) of
             Some n \<Rightarrow>
               (Inr (), st\<lparr>st_slots := (st_slots st)[seg :=
                  (st_slots st ! seg)\<lparr>sg_map := Some (n + 1), sg_last_use := tick\<rparr>]\<rparr>)
           | None \<Rightarrow>
               (let st = evict_locked segment_bytes st
                in case env_mmap env seg of
                     Some e \<Rightarrow> (Inl (from_io ''mapping a store segment'' e), st)
                   | None \<Rightarrow>
                       (Inr (), note_peak (st\<lparr>st_slots := (st_slots st)[seg :=
                            (st_slots st ! seg)\<lparr>sg_map := Some 2, sg_last_use := tick\<rparr>],
                          st_mapped := st_mapped st + segment_bytes\<rparr>))))"

text \<open>Dropping a \<open>SegmentGuard\<close>: one reference less.\<close>

definition drop_guard :: "nat \<Rightarrow> store \<Rightarrow> store" where
  "drop_guard seg st =
     st\<lparr>st_slots := (st_slots st)[seg := (st_slots st ! seg)\<lparr>sg_map :=
        map_option (\<lambda>n. n - 1) (sg_map (st_slots st ! seg))\<rparr>]\<rparr>"

section \<open>Allocation\<close>

definition create_segment :: "store_env \<Rightarrow> nat \<Rightarrow> (store, unit) op" where
  "create_segment env i st =
     (case env_hook env i of
        Some e \<Rightarrow> (Inl (from_io ''creating a store segment'' e), st)
      | None \<Rightarrow>
          (case env_prealloc env i of
             Inl e \<Rightarrow> (Inl (from_io ''creating a store segment'' e), st)
           | Inr res \<Rightarrow>
               (Inr (), st\<lparr>st_unreserved := (if res = Unreserved then st_unreserved st + 1 else st_unreserved st),
                           st_slots := st_slots st @ [fresh_slot]\<rparr>)))"

function create_segments :: "store_env \<Rightarrow> nat \<Rightarrow> (store, unit) op" where
  "create_segments env seg st =
     (if st_segments st \<le> seg then
        (case create_segment env (st_segments st) st of
           (Inl e, st') \<Rightarrow> (Inl e, st')
         | (Inr _, st') \<Rightarrow> create_segments env seg (st'\<lparr>st_segments := st_segments st' + 1\<rparr>))
      else (Inr (), st))"
  by pat_completeness auto
termination
  by (relation "measure (\<lambda>(env, seg, st). Suc seg - st_segments st)")
     (auto simp: create_segment_def split: option.splits sum.splits)

declare create_segments.simps [simp del]

definition reserve :: "store_env \<Rightarrow> nat \<Rightarrow> (store, nat \<times> nat) op" where
  "reserve env byte_len st =
     (let offset0 = next_multiple_of (st_next_offset st) chunk_align_bytes;
          seg0 = offset0 div segment_bytes;
          (seg, offset) = (if offset0 + byte_len > (seg0 + 1) * segment_bytes
                           then (seg0 + 1, (seg0 + 1) * segment_bytes) else (seg0, offset0))
      in if seg > u32_max then (Inl (InvalidArgument ''store segment space exhausted''), st)
         else case create_segments env seg st of
                (Inl e, st') \<Rightarrow> (Inl e, st')
              | (Inr _, st') \<Rightarrow>
                  (Inr (offset, seg),
                   st'\<lparr>st_next_offset := offset + byte_len, st_tail := Some seg\<rparr>))"

section \<open>Committing a chunk\<close>

definition validate_chunk_len :: "f32 list \<Rightarrow> project_error + unit" where
  "validate_chunk_len samples =
     (if samples = [] \<or> length samples > chunk_samples
      then Inl (InvalidArgument ''a chunk holds 1 ..= 65 536 samples'') else Inr ())"

definition write_bytes :: "(nat \<Rightarrow> byte) \<Rightarrow> nat \<Rightarrow> byte list \<Rightarrow> nat \<Rightarrow> byte" where
  "write_bytes f off bs = (\<lambda>a. if off \<le> a \<and> a < off + length bs then bs ! (a - off) else f a)"

definition read_bytes :: "(nat \<Rightarrow> byte) \<Rightarrow> nat \<Rightarrow> nat \<Rightarrow> byte list" where
  "read_bytes f off n = map f [off ..< off + n]"

definition pad_index :: "chunk_entry list \<Rightarrow> nat \<Rightarrow> chunk_entry list" where
  "pad_index idx n = idx @ map chunk_hole [length idx ..< n]"

definition publish :: "nat option \<Rightarrow> (nat \<Rightarrow> chunk_location) \<Rightarrow> (store, chunk_location) op" where
  "publish fixed_id mk st =
     (case fixed_id of
        Some i \<Rightarrow>
          (let idx = pad_index (st_index st) (Suc i)
           in if \<not> is_hole (idx ! i)
              then (Inl (InvalidArgument ''chunk id already in use''), st\<lparr>st_index := idx\<rparr>)
              else (Inr (mk i), st\<lparr>st_index := idx[i := \<lparr>ce_loc = mk i, ce_state = Unverified\<rparr>]\<rparr>))
      | None \<Rightarrow>
          (let i = length (st_index st)
           in if i > u32_max then (Inl (InvalidArgument ''chunk id space exhausted''), st)
              else (Inr (mk i), st\<lparr>st_index := st_index st @ [\<lparr>ce_loc = mk i, ce_state = Unverified\<rparr>]\<rparr>)))"

definition commit_chunk_bytes ::
    "(byte list \<Rightarrow> 32 word) \<Rightarrow> store_env \<Rightarrow> f32 list \<Rightarrow> nat option \<Rightarrow> (store, chunk_location) op" where
  "commit_chunk_bytes crc env samples fixed_id st =
     (let bytes = le_bytes samples;
          byte_len = length samples * 4
      in case reserve env byte_len st of
           (Inl e, st1) \<Rightarrow> (Inl e, st1)
         | (Inr (offset, seg), st1) \<Rightarrow>
             (case acquire_segment env seg st1 of
                (Inl e, st2) \<Rightarrow> (Inl e, st2)
              | (Inr _, st2) \<Rightarrow>
                  (let st3 = st2\<lparr>st_file := write_bytes (st_file st2) offset bytes\<rparr>;
                       st4 = st3\<lparr>st_slots := (st_slots st3)[seg := (st_slots st3 ! seg)\<lparr>sg_dirty := True\<rparr>]\<rparr>;
                       st5 = drop_guard seg st4
                   in publish fixed_id (\<lambda>i. \<lparr>loc_id = i, loc_offset = offset, loc_len = length samples,
                        loc_crc = crc bytes\<rparr>) st5)))"

definition sanitize :: "f32 list \<Rightarrow> f32 list" where
  "sanitize samples =
     (if \<exists>s \<in> set samples. \<not> is_finite s then map (\<lambda>s. if is_finite s then s else 0) samples else samples)"

definition commit_chunk_as ::
    "(byte list \<Rightarrow> 32 word) \<Rightarrow> store_env \<Rightarrow> f32 list \<Rightarrow> nat option \<Rightarrow> (store, chunk_location) op" where
  "commit_chunk_as crc env samples fixed_id st =
     (case validate_chunk_len samples of
        Inl e \<Rightarrow> (Inl e, st)
      | Inr _ \<Rightarrow> commit_chunk_bytes crc env (sanitize samples) fixed_id st)"

definition commit_chunk :: "(byte list \<Rightarrow> 32 word) \<Rightarrow> store_env \<Rightarrow> f32 list \<Rightarrow> (store, chunk_location) op" where
  "commit_chunk crc env samples = commit_chunk_as crc env samples None"

definition commit_chunk_with_id ::
    "(byte list \<Rightarrow> 32 word) \<Rightarrow> store_env \<Rightarrow> nat \<Rightarrow> f32 list \<Rightarrow> (store, chunk_location) op" where
  "commit_chunk_with_id crc env i samples = commit_chunk_as crc env samples (Some i)"

section \<open>Durability\<close>

fun first_error :: "io_error option list \<Rightarrow> io_error option" where
  "first_error [] = None"
| "first_error (None # es) = first_error es"
| "first_error (Some e # es) = Some e"

definition sync_store :: "store_env \<Rightarrow> (store, unit) op" where
  "sync_store env st =
     (let dirty = filter (\<lambda>i. sg_dirty (st_slots st ! i)) [0 ..< length (st_slots st)];
          cleaned = st\<lparr>st_slots := map (\<lambda>s. s\<lparr>sg_dirty := False\<rparr>) (st_slots st)\<rparr>;
          flushes = map (\<lambda>i. if sg_map (st_slots st ! i) = None then None else env_flush env i) dirty
      in case first_error (flushes @ [env_fdatasync env]) of
           Some e \<Rightarrow> (Inl (from_io ''syncing the chunk store'' e), st)
         | None \<Rightarrow>
             (Inr (), cleaned\<lparr>st_disk := (\<lambda>a. if a div segment_bytes \<in> set dirty then st_file st a
                                         else st_disk st a)\<rparr>))"

section \<open>Reading\<close>

definition chunk_count :: "store \<Rightarrow> nat" where
  "chunk_count st = min (length (st_index st)) u32_max"

definition lookup_entry :: "store \<Rightarrow> nat \<Rightarrow> chunk_entry option" where
  "lookup_entry st i =
     (if i < length (st_index st) \<and> \<not> is_hole (st_index st ! i) then Some (st_index st ! i) else None)"

definition location :: "store \<Rightarrow> nat \<Rightarrow> chunk_location option" where
  "location st i = map_option ce_loc (lookup_entry st i)"

definition locations :: "store \<Rightarrow> chunk_location list" where
  "locations st = map ce_loc (filter (\<lambda>e. \<not> is_hole e) (st_index st))"

definition reserve_ids_below :: "nat \<Rightarrow> store \<Rightarrow> store" where
  "reserve_ids_below next_id st = st\<lparr>st_index := pad_index (st_index st) next_id\<rparr>"

definition set_chunk_state :: "nat \<Rightarrow> chunk_state \<Rightarrow> store \<Rightarrow> store" where
  "set_chunk_state i s st = st\<lparr>st_index := (st_index st)[i := (st_index st ! i)\<lparr>ce_state := s\<rparr>]\<rparr>"

text \<open>
  \<open>cache\<close> is the segment whose guard the reader keeps.  \<open>switch_guard\<close> is the branch that drops it
  and acquires the chunk's segment.
\<close>

definition switch_guard ::
    "store_env \<Rightarrow> nat \<Rightarrow> nat option \<Rightarrow> store \<Rightarrow> (project_error + unit) \<times> nat option \<times> store" where
  "switch_guard env seg cache st =
     (if cache = Some seg then (Inr (), cache, st)
      else let st1 = (case cache of None \<Rightarrow> st | Some g \<Rightarrow> drop_guard g st)
           in case acquire_segment env seg st1 of
                (Inl e, st2) \<Rightarrow> (Inl e, None, st2)
              | (Inr _, st2) \<Rightarrow> (Inr (), Some seg, st2))"

definition read_chunk_into ::
    "(byte list \<Rightarrow> 32 word) \<Rightarrow> store_env \<Rightarrow> nat \<Rightarrow> nat \<Rightarrow> nat \<Rightarrow> nat option \<Rightarrow> store \<Rightarrow>
     (project_error + f32 list) \<times> nat option \<times> store" where
  "read_chunk_into crc env i offset n cache st =
     (case lookup_entry st i of
        None \<Rightarrow> (Inl (UnknownChunk i), cache, st)
      | Some entry \<Rightarrow>
          let loc = ce_loc entry; state = ce_state entry
          in if offset + n > loc_len loc then (Inl (OutOfBounds i offset (min n u32_max)), cache, st)
             else if state = Corrupt then (Inl (ChecksumMismatch i), cache, st)
             else
               let seg = loc_offset loc div segment_bytes
               in case switch_guard env seg cache st of
                    (Inl e, cache', st1) \<Rightarrow> (Inl e, cache', st1)
                  | (Inr _, cache', st1) \<Rightarrow>
                      if state \<noteq> Verified \<and>
                         crc (read_bytes (st_file st1) (loc_offset loc) (loc_len loc * 4)) \<noteq> loc_crc loc
                      then (Inl (ChecksumMismatch i), cache', set_chunk_state i Corrupt st1)
                      else
                        (Inr (copy_le_f32 (read_bytes (st_file st1) (loc_offset loc + offset * 4) (n * 4)) n),
                         cache', (if state \<noteq> Verified then set_chunk_state i Verified st1 else st1)))"

definition drop_cache :: "nat option \<Rightarrow> store \<Rightarrow> store" where
  "drop_cache cache st = (case cache of None \<Rightarrow> st | Some g \<Rightarrow> drop_guard g st)"

definition read_chunk ::
    "(byte list \<Rightarrow> 32 word) \<Rightarrow> store_env \<Rightarrow> nat \<Rightarrow> nat \<Rightarrow> nat \<Rightarrow> (store, f32 list) op" where
  "read_chunk crc env i offset n st =
     (case read_chunk_into crc env i offset n None st of (r, cache, st') \<Rightarrow> (r, drop_cache cache st'))"

definition verify_chunk :: "(byte list \<Rightarrow> 32 word) \<Rightarrow> store_env \<Rightarrow> nat \<Rightarrow> (store, unit) op" where
  "verify_chunk crc env i st =
     (case lookup_entry st i of
        None \<Rightarrow> (Inl (UnknownChunk i), st)
      | Some _ \<Rightarrow>
          (case read_chunk crc env i 0 0 (set_chunk_state i Unverified st) of
             (Inl e, st') \<Rightarrow> (Inl e, st')
           | (Inr _, st') \<Rightarrow> (Inr (), st')))"

section \<open>The memory budget\<close>

definition evict_to_budget :: "store \<Rightarrow> store" where
  "evict_to_budget st = note_peak (evict_locked 0 st)"

definition set_memory_budget :: "nat \<Rightarrow> store \<Rightarrow> store" where
  "set_memory_budget bytes st = evict_to_budget (st\<lparr>st_budget := bytes\<rparr>)"

definition reserve_external :: "nat \<Rightarrow> store \<Rightarrow> store" where
  "reserve_external bytes st = evict_to_budget (st\<lparr>st_external := st_external st + bytes\<rparr>)"

definition release_external :: "nat \<Rightarrow> store \<Rightarrow> store" where
  "release_external bytes st = st\<lparr>st_external := st_external st - bytes\<rparr>"

definition reset_peak_resident :: "store \<Rightarrow> store" where
  "reset_peak_resident st = st\<lparr>st_peak := resident st\<rparr>"

definition unsynced_segments :: "store \<Rightarrow> nat" where
  "unsynced_segments st = length (filter sg_dirty (st_slots st))"

definition chunk_file_bytes :: "store \<Rightarrow> nat" where
  "chunk_file_bytes st = st_segments st * segment_bytes"

section \<open>Reopening after a crash\<close>

text \<open>\<open>file\<close> and \<open>file_len\<close> are the chunk file found on disk; a partial last segment is completed.\<close>

definition loc_fits :: "nat \<Rightarrow> chunk_location \<Rightarrow> bool" where
  "loc_fits file_len loc \<longleftrightarrow>
     (let e = loc_offset loc + loc_len loc * 4
      in loc_len loc \<ge> 1 \<and> loc_len loc \<le> chunk_samples \<and> e \<le> file_len \<and>
         loc_offset loc div segment_bytes = (e - 1) div segment_bytes)"

definition reopen_entry :: "nat \<Rightarrow> chunk_location \<Rightarrow> chunk_entry" where
  "reopen_entry file_len loc = \<lparr>ce_loc = loc, ce_state = (if loc_fits file_len loc then Unverified else Corrupt)\<rparr>"

definition reopen_locs ::
    "nat \<Rightarrow> chunk_entry list \<times> nat \<Rightarrow> chunk_location list \<Rightarrow> chunk_entry list \<times> nat" where
  "reopen_locs file_len =
     foldl (\<lambda>(idx, nxt) loc.
       (idx[loc_id loc := reopen_entry file_len loc],
        if loc_fits file_len loc then max nxt (loc_offset loc + loc_len loc * 4) else nxt))"

definition open_existing ::
    "(nat \<Rightarrow> byte) \<Rightarrow> nat \<Rightarrow> nat \<Rightarrow> chunk_location list \<Rightarrow> project_error + store" where
  "open_existing file file_len0 budget locs =
     (let file_len = (if file_len0 mod segment_bytes \<noteq> 0 then next_multiple_of file_len0 segment_bytes
                      else file_len0);
          segments = file_len div segment_bytes
      in if segments > u32_max then Inl (InvalidArgument ''store segment space exhausted'')
         else
           let n = unwrap_or (iter_max (map (\<lambda>l. loc_id l + 1) locs)) 0;
               (idx, nxt) = reopen_locs file_len (map chunk_hole [0 ..< n], 0) locs
           in Inr \<lparr>st_file = file, st_disk = file, st_next_offset = nxt, st_segments = segments,
                   st_slots = replicate segments fresh_slot, st_tick = 0, st_tail = None,
                   st_index = idx, st_budget = budget, st_mapped = 0, st_external = 0, st_peak = 0,
                   st_unreserved = 0\<rparr>)"

end
