(* ===== verification/Store_Memory.thy ===== *)
theory Store_Memory
  imports Chunk_Store
begin

text \<open>
  The resident side of the chunk store: which segments are mapped, what eviction may unmap, and that
  nothing about mappings touches the data.  \<open>frame\<close> relates two stores with the same data;
  \<open>guards_ok\<close> says that the reference counts of the slots are the guards that are out.
\<close>

definition frame :: "store \<Rightarrow> store \<Rightarrow> bool" where
  "frame st st' \<longleftrightarrow> st_file st' = st_file st \<and> st_disk st' = st_disk st \<and>
     st_next_offset st' = st_next_offset st \<and> st_segments st' = st_segments st \<and>
     st_tail st' = st_tail st \<and> st_index st' = st_index st \<and>
     map sg_dirty (st_slots st') = map sg_dirty (st_slots st)"

definition mem_ok :: "store \<Rightarrow> bool" where
  "mem_ok st \<longleftrightarrow> st_mapped st = segment_bytes * mapped_count st"

definition guards_ok :: "nat multiset \<Rightarrow> store \<Rightarrow> bool" where
  "guards_ok G st \<longleftrightarrow>
     (\<forall>i < length (st_slots st). sg_map (st_slots st ! i) = Some (Suc (count G i)) \<or>
        sg_map (st_slots st ! i) = None \<and> count G i = 0) \<and>
     (\<forall>i \<in># G. i < length (st_slots st))"

lemma frame_refl [simp]: "frame st st"
  by (simp add: frame_def)

lemma frame_trans [trans]: "frame a b \<Longrightarrow> frame b c \<Longrightarrow> frame a c"
  by (simp add: frame_def)

lemma frame_length: "frame a b \<Longrightarrow> length (st_slots b) = length (st_slots a)"
  by (metis frame_def length_map)

lemma frame_dirty: "frame a b \<Longrightarrow> i < length (st_slots a) \<Longrightarrow> sg_dirty (st_slots b ! i) = sg_dirty (st_slots a ! i)"
  by (metis frame_def frame_length nth_map)

lemma frame_index: "frame a b \<Longrightarrow> st_index b = st_index a" "frame a b \<Longrightarrow> st_file b = st_file a"
  by (simp_all add: frame_def)

lemma frame_slot:
  assumes "sg_dirty s = sg_dirty (st_slots st ! i)"
  shows "frame st (st\<lparr>st_slots := (st_slots st)[i := s]\<rparr>)"
proof -
  have "map sg_dirty ((st_slots st)[i := s]) = map sg_dirty (st_slots st)"
    unfolding map_update assms by (metis length_map list_update_beyond list_update_id not_le nth_map)
  then show ?thesis by (simp add: frame_def)
qed

lemma frame_updates [simp]:
  "frame st (st'\<lparr>st_tick := t\<rparr>) = frame st st'" "frame st (st'\<lparr>st_mapped := m\<rparr>) = frame st st'"
  "frame st (st'\<lparr>st_peak := p\<rparr>) = frame st st'" "frame st (st'\<lparr>st_budget := b\<rparr>) = frame st st'"
  "frame st (st'\<lparr>st_external := e\<rparr>) = frame st st'"
  by (simp_all add: frame_def)

lemma frame_note_peak [simp]: "frame st (note_peak st') = frame st st'"
  by (simp add: note_peak_def)

lemma mem_ok_note_peak [simp]: "mem_ok (note_peak st) = mem_ok st" "guards_ok G (note_peak st) = guards_ok G st"
  by (simp_all add: mem_ok_def note_peak_def mapped_count_def guards_ok_def)

lemma note_peak_simps [simp]:
  "st_mapped (note_peak st) = st_mapped st" "st_slots (note_peak st) = st_slots st"
  "mapped_count (note_peak st) = mapped_count st"
  by (simp_all add: note_peak_def mapped_count_def)

lemma mapped_count_set:
  assumes "i < length (st_slots st)" "sg_map (st_slots st ! i) = None" "sg_map s \<noteq> None"
  shows "length (filter (\<lambda>s. sg_map s \<noteq> None) ((st_slots st)[i := s])) = Suc (mapped_count st)"
proof -
  define xs y ys where "xs = take i (st_slots st)" and "y = st_slots st ! i" and "ys = drop (Suc i) (st_slots st)"
  have s: "st_slots st = xs @ y # ys"
    using assms(1) unfolding xs_def y_def ys_def by (rule id_take_nth_drop)
  have i: "i = length xs" using assms(1) by (simp add: xs_def)
  have "sg_map y = None" using assms(2) by (simp add: y_def)
  with assms(3) show ?thesis by (auto simp: mapped_count_def s i)
qed

lemma mapped_count_keep:
  assumes "i < length (st_slots st)" "sg_map (st_slots st ! i) \<noteq> None" "sg_map s \<noteq> None"
  shows "length (filter (\<lambda>s. sg_map s \<noteq> None) ((st_slots st)[i := s])) = mapped_count st"
proof -
  define xs y ys where "xs = take i (st_slots st)" and "y = st_slots st ! i" and "ys = drop (Suc i) (st_slots st)"
  have s: "st_slots st = xs @ y # ys"
    using assms(1) unfolding xs_def y_def ys_def by (rule id_take_nth_drop)
  have i: "i = length xs" using assms(1) by (simp add: xs_def)
  have "sg_map y \<noteq> None" using assms(2) by (simp add: y_def)
  with assms(3) show ?thesis by (auto simp: mapped_count_def s i)
qed

section \<open>Eviction\<close>

lemma unmap_slot_frame: "frame st (unmap_slot st i)"
  using frame_slot [of "(st_slots st ! i)\<lparr>sg_map := None\<rparr>" st i] by (simp add: unmap_slot_def)

lemma unmap_slot_mem: "victim st = Some i \<Longrightarrow> mem_ok st \<Longrightarrow> mem_ok (unmap_slot st i)"
  using victim_evictable [of st i] mapped_count_unmap [of i st]
  by (simp add: mem_ok_def evictable_def) (simp add: unmap_slot_def)

lemma unmap_slot_guards: "victim st = Some i \<Longrightarrow> guards_ok G st \<Longrightarrow> guards_ok G (unmap_slot st i)"
  using victim_evictable [of st i]
  by (auto simp: guards_ok_def unmap_slot_def evictable_def nth_list_update)

lemma evict_locked_spec:
  "frame st (evict_locked k st) \<and> (mem_ok st \<longrightarrow> mem_ok (evict_locked k st)) \<and>
   (guards_ok G st \<longrightarrow> guards_ok G (evict_locked k st)) \<and>
   st_tick (evict_locked k st) = st_tick st \<and> st_budget (evict_locked k st) = st_budget st \<and>
   (\<forall>i < length (st_slots st). \<not> evictable st i \<longrightarrow> st_slots (evict_locked k st) ! i = st_slots st ! i) \<and>
   (resident (evict_locked k st) + k \<le> st_budget st \<or> victim (evict_locked k st) = None)"
proof (induction k st rule: evict_locked.induct)
  case (1 k st)
  show ?case
  proof (cases "resident st + k > st_budget st \<and> victim st \<noteq> None")
    case True
    then obtain i where v: "victim st = Some i" by auto
    have e: "evict_locked k st = evict_locked k (unmap_slot st i)"
      using True v by (subst evict_locked.simps) simp
    note ih = "1.IH" [OF conjunct1 [OF True] v]
    have keep: "\<not> evictable st j \<longrightarrow> \<not> evictable (unmap_slot st i) j \<and> st_slots (unmap_slot st i) ! j = st_slots st ! j"
      if "j < length (st_slots st)" for j
      using that victim_evictable [OF v] by (auto simp: evictable_def unmap_slot_def nth_list_update)
    have t: "st_tick (unmap_slot st i) = st_tick st" "st_budget (unmap_slot st i) = st_budget st"
      "length (st_slots (unmap_slot st i)) = length (st_slots st)" by (simp_all add: unmap_slot_def)
    have "frame st (evict_locked k (unmap_slot st i))"
      by (rule frame_trans [OF unmap_slot_frame conjunct1 [OF ih]])
    with ih keep t unmap_slot_mem [OF v] unmap_slot_guards [OF v] show ?thesis unfolding e by simp
  next
    case False
    then have "evict_locked k st = st"
      by (subst evict_locked.simps) auto
    with False show ?thesis by auto
  qed
qed

lemmas evict_frame = conjunct1 [OF evict_locked_spec]

lemma evict_unmapped:
  "i < length (st_slots st) \<Longrightarrow> sg_map (st_slots st ! i) = None \<Longrightarrow> st_slots (evict_locked k st) ! i = st_slots st ! i"
  using evict_locked_spec [of st k "{#}"] by (simp add: evictable_def)

lemma evict_keeps:
  "mem_ok st \<Longrightarrow> mem_ok (evict_locked k st)" "guards_ok G st \<Longrightarrow> guards_ok G (evict_locked k st)"
  using evict_locked_spec [of st k G] by simp_all

section \<open>Guards\<close>

lemma tick_simps [simp]:
  "mem_ok (st\<lparr>st_tick := t\<rparr>) = mem_ok st" "guards_ok G (st\<lparr>st_tick := t\<rparr>) = guards_ok G st"
  "mem_ok (st\<lparr>st_budget := b\<rparr>) = mem_ok st" "guards_ok G (st\<lparr>st_budget := b\<rparr>) = guards_ok G st"
  "mem_ok (st\<lparr>st_external := x\<rparr>) = mem_ok st" "guards_ok G (st\<lparr>st_external := x\<rparr>) = guards_ok G st"
  "mem_ok (st\<lparr>st_index := ix\<rparr>) = mem_ok st" "guards_ok G (st\<lparr>st_index := ix\<rparr>) = guards_ok G st"
  "mem_ok (st\<lparr>st_file := fl\<rparr>) = mem_ok st" "guards_ok G (st\<lparr>st_file := fl\<rparr>) = guards_ok G st"
  by (simp_all add: mem_ok_def mapped_count_def guards_ok_def)

lemma acquire_spec:
  assumes a: "acquire_segment env seg st = (r, st')" and m: "mem_ok st"
  shows "frame st st' \<and> mem_ok st' \<and>
    (\<forall>u. r = Inr u \<longrightarrow> seg < length (st_slots st) \<and> sg_map (st_slots st' ! seg) \<noteq> None) \<and>
    (guards_ok G st \<longrightarrow> guards_ok (if r = Inr () then add_mset seg G else G) st') \<and>
    (seg < length (st_slots st) \<and> env_mmap env seg = None \<longrightarrow> r = Inr ())"
proof -
  define s1 where "s1 = st\<lparr>st_tick := st_tick st + 1\<rparr>"
  have s1: "frame st s1" "mem_ok s1" "guards_ok G s1 = guards_ok G st" "st_slots s1 = st_slots st"
    using m by (simp_all add: s1_def)
  consider (bad) "seg \<ge> length (st_slots st)" "r \<noteq> Inr ()" "st' = s1"
    | (hit) n where "seg < length (st_slots st)" "sg_map (st_slots st ! seg) = Some n" "r = Inr ()"
        "st' = s1\<lparr>st_slots := (st_slots s1)[seg :=
           (st_slots s1 ! seg)\<lparr>sg_map := Some (n + 1), sg_last_use := st_tick s1\<rparr>]\<rparr>"
    | (fail) e where "seg < length (st_slots st)" "sg_map (st_slots st ! seg) = None" "env_mmap env seg = Some e"
        "r \<noteq> Inr ()" "st' = evict_locked segment_bytes s1"
    | (map) s2 where "seg < length (st_slots st)" "sg_map (st_slots st ! seg) = None" "r = Inr ()"
        "s2 = evict_locked segment_bytes s1"
        "st' = note_peak (s2\<lparr>st_slots := (st_slots s2)[seg :=
           (st_slots s2 ! seg)\<lparr>sg_map := Some 2, sg_last_use := st_tick s1\<rparr>],
           st_mapped := st_mapped s2 + segment_bytes\<rparr>)"
  proof (cases "seg < length (st_slots st)")
    case False
    with a show thesis by (intro bad) (auto simp: acquire_segment_def Let_def s1_def)
  next
    case len: True
    show thesis
    proof (cases "sg_map (st_slots st ! seg)")
      case None
      show thesis
      proof (cases "env_mmap env seg")
        case mm: None
        with a len None show thesis
          by (intro map [OF len None _ refl]) (auto simp: acquire_segment_def Let_def s1_def)
      next
        case (Some e)
        with a len None show thesis
          by (intro fail [OF len None]) (auto simp: acquire_segment_def Let_def s1_def)
      qed
    next
      case (Some n)
      with a len show thesis by (intro hit [OF len Some]) (auto simp: acquire_segment_def Let_def s1_def)
    qed
  qed
  then show ?thesis
  proof cases
    case bad
    with s1 show ?thesis by auto
  next
    case hit
    have "frame s1 st'" unfolding hit by (rule frame_slot) simp
    from frame_trans [OF s1(1) this] have "frame st st'" .
    moreover have "mem_ok st'"
      using hit s1 mapped_count_keep [of seg s1] by (simp add: mem_ok_def mapped_count_def)
    moreover have "guards_ok (add_mset seg G) st'" if "guards_ok G st"
      using that hit s1 by (auto simp: guards_ok_def nth_list_update)
    moreover have "sg_map (st_slots st' ! seg) \<noteq> None" using hit s1 by simp
    ultimately show ?thesis using hit(1,3) by simp
  next
    case fail
    have "frame st st'" using frame_trans [OF s1(1) evict_frame] by (simp add: fail)
    moreover have "mem_ok st'" "guards_ok G st \<longrightarrow> guards_ok G st'"
      using evict_keeps s1 by (simp_all add: fail(5))
    ultimately show ?thesis using fail(1,3,4) by auto
  next
    case map
    have f2: "frame s1 s2" "mem_ok s2" "guards_ok G st \<longrightarrow> guards_ok G s2"
      using evict_frame evict_keeps s1 by (simp_all add: map(4))
    have l2: "seg < length (st_slots s2)" "sg_map (st_slots s2 ! seg) = None"
      using frame_length [OF f2(1)] evict_unmapped [of seg s1] map(1,2,4) s1(4) by simp_all
    have "frame s2 st'" unfolding map(5) using frame_slot [of _ s2 seg] by simp
    from frame_trans [OF s1(1) frame_trans [OF f2(1) this]] have "frame st st'" .
    moreover have "mem_ok st'"
      using f2 l2 mapped_count_set [of seg s2] by (simp add: map(5) mem_ok_def mapped_count_def)
    moreover have "guards_ok (add_mset seg G) st'" if "guards_ok G st"
      using that f2(3) l2 by (auto simp: map(5) guards_ok_def nth_list_update)
    moreover have "sg_map (st_slots st' ! seg) \<noteq> None" using l2 by (simp add: map(5))
    ultimately show ?thesis using map(1,3) by simp
  qed
qed

lemma drop_guard_spec:
  assumes "mem_ok st"
  shows "frame st (drop_guard seg st)" "mem_ok (drop_guard seg st)"
    "guards_ok G st \<Longrightarrow> seg \<in># G \<Longrightarrow> guards_ok (G - {#seg#}) (drop_guard seg st)"
proof -
  show "frame st (drop_guard seg st)" unfolding drop_guard_def by (rule frame_slot) simp
  show "mem_ok (drop_guard seg st)"
  proof (cases "seg < length (st_slots st) \<and> sg_map (st_slots st ! seg) \<noteq> None")
    case True
    then show ?thesis
      using assms mapped_count_keep [of seg st] by (simp add: mem_ok_def drop_guard_def mapped_count_def)
  next
    case False
    then have "drop_guard seg st = st"
      by (auto simp: drop_guard_def list_update_beyond not_less)
         (metis (no_types, lifting) list_update_id segment_slot.surjective segment_slot.update_convs(1) store.surjective store.update_convs(5))
    with assms show ?thesis by simp
  qed
  show "guards_ok (G - {#seg#}) (drop_guard seg st)" if "guards_ok G st" "seg \<in># G"
    unfolding guards_ok_def
  proof (intro conjI allI impI)
    fix i assume i: "i < length (st_slots (drop_guard seg st))"
    then have l: "i < length (st_slots st)" by (simp add: drop_guard_def)
    with that have "sg_map (st_slots st ! i) = Some (Suc (count G i)) \<or>
        sg_map (st_slots st ! i) = None \<and> count G i = 0" by (simp add: guards_ok_def)
    with that(2) l show "sg_map (st_slots (drop_guard seg st) ! i) = Some (Suc (count (G - {#seg#}) i)) \<or>
        sg_map (st_slots (drop_guard seg st) ! i) = None \<and> count (G - {#seg#}) i = 0"
      by (auto simp: drop_guard_def nth_list_update)
  next
    show "\<forall>i\<in>#G - {#seg#}. i < length (st_slots (drop_guard seg st))"
      using that by (auto simp: guards_ok_def drop_guard_def dest: in_diffD)
  qed
qed

end
