(* ===== verification/Store_Data.thy ===== *)
theory Store_Data
  imports Store_Memory
begin

text \<open>
  The data side of the chunk store: layout of the committed chunks in the file, what a read returns,
  and what is on disk.  \<open>chunk_data\<close> is the abstract store, a partial map from chunk ids to samples;
  commits extend it, reads return slices of it and nothing else changes it.
\<close>

section \<open>Samples as bytes\<close>

lemma f32_roundtrip [simp]: "f32_of_le (f32_le w) = w"
proof (rule bit_word_eqI)
  fix n assume "n < LENGTH(32)"
  then have n: "n < 32" by simp
  consider "n < 8" | "8 \<le> n" "n < 16" | "16 \<le> n" "n < 24" | "24 \<le> n" by linarith
  then show "bit (f32_of_le (f32_le w)) n = bit w n"
    using n by cases (auto simp: f32_of_le_def f32_le_def bit_simps)
qed

lemma length_f32_le [simp]: "length (f32_le w) = 4"
  by (simp add: f32_le_def)

lemma length_u32_le [simp]: "length (u32_le n) = 4"
  by (simp add: u32_le_def)

text \<open>\<open>u32::from_le_bytes\<close>.\<close>

definition u32_of_le :: "byte list \<Rightarrow> nat" where
  "u32_of_le bs = unat (f32_of_le bs)"

lemma u32_of_le_u32_le: "n < 2 ^ 32 \<Longrightarrow> u32_of_le (u32_le n) = n"
  by (simp add: u32_of_le_def u32_le_def unat_of_nat take_bit_nat_eq_self)

lemma length_le_bytes [simp]: "length (le_bytes xs) = 4 * length xs"
  by (induction xs) (auto simp: le_bytes_def)

lemma le_bytes_Cons: "le_bytes (x # xs) = f32_le x @ le_bytes xs"
  by (simp add: le_bytes_def)

lemma le_bytes_nth: "i < length xs \<Longrightarrow> take 4 (drop (4 * i) (le_bytes xs)) = f32_le (xs ! i)"
proof (induction xs arbitrary: i)
  case (Cons x xs)
  show ?case
  proof (cases i)
    case (Suc j)
    with Cons show ?thesis by (simp add: le_bytes_Cons)
  qed (simp add: le_bytes_Cons)
qed simp

lemma copy_le_bytes: "n + k \<le> length xs \<Longrightarrow> copy_le_f32 (drop (4 * k) (le_bytes xs)) n = take n (drop k xs)"
proof (rule nth_equalityI)
  fix i assume a: "n + k \<le> length xs" "i < length (copy_le_f32 (drop (4 * k) (le_bytes xs)) n)"
  then have i: "i < n" by (simp add: copy_le_f32_def)
  have "take 4 (drop (4 * i) (drop (4 * k) (le_bytes xs))) = f32_le (xs ! (i + k))"
    using le_bytes_nth [of "i + k" xs] a i by (simp add: algebra_simps)
  with a i show "copy_le_f32 (drop (4 * k) (le_bytes xs)) n ! i = take n (drop k xs) ! i"
    by (simp add: copy_le_f32_def add.commute)
qed (simp add: copy_le_f32_def)

lemma copy_le_take: "4 * n \<le> m \<Longrightarrow> copy_le_f32 (take m bs) n = copy_le_f32 bs n"
proof -
  assume m: "4 * n \<le> m"
  have "take 4 (drop (4 * i) (take m bs)) = take 4 (drop (4 * i) bs)" if "i < n" for i
    using that m by (simp add: drop_take min_def)
  then show ?thesis by (simp add: copy_le_f32_def)
qed

lemma length_read_bytes [simp]: "length (read_bytes f off n) = n"
  by (simp add: read_bytes_def)

lemma read_write_same: "read_bytes (write_bytes f off bs) off (length bs) = bs"
  by (rule nth_equalityI) (auto simp: read_bytes_def write_bytes_def)

lemma read_write_other:
  "o' + n \<le> off \<or> off + length bs \<le> o' \<Longrightarrow> read_bytes (write_bytes f off bs) o' n = read_bytes f o' n"
  by (auto simp: read_bytes_def write_bytes_def)

lemma read_bytes_sub: "k + n \<le> m \<Longrightarrow> read_bytes f (off + k) n = take n (drop k (read_bytes f off m))"
  by (simp add: read_bytes_def drop_map take_map add.assoc)

section \<open>The invariant\<close>

definition chunk_end :: "chunk_location \<Rightarrow> nat" where
  "chunk_end loc = loc_offset loc + loc_len loc * 4"

definition entry_ok :: "(byte list \<Rightarrow> 32 word) \<Rightarrow> store \<Rightarrow> nat \<Rightarrow> chunk_entry \<Rightarrow> bool" where
  "entry_ok crc st i e \<longleftrightarrow>
     (let loc = ce_loc e
      in loc_id loc = i \<and> 1 \<le> loc_len loc \<and> loc_len loc \<le> chunk_samples \<and>
         chunk_align_bytes dvd loc_offset loc \<and> chunk_end loc \<le> st_next_offset st \<and>
         loc_offset loc div segment_bytes = (chunk_end loc - 1) div segment_bytes \<and>
         crc (read_bytes (st_file st) (loc_offset loc) (loc_len loc * 4)) = loc_crc loc \<and>
         ce_state e \<noteq> Corrupt)"

definition disjoint_locs :: "chunk_location \<Rightarrow> chunk_location \<Rightarrow> bool" where
  "disjoint_locs a b \<longleftrightarrow> chunk_end a \<le> loc_offset b \<or> chunk_end b \<le> loc_offset a"

definition durable_ok :: "store \<Rightarrow> bool" where
  "durable_ok st \<longleftrightarrow> (\<forall>a. st_disk st a = st_file st a \<or>
     a div segment_bytes < length (st_slots st) \<and> sg_dirty (st_slots st ! (a div segment_bytes)))"

definition index_ok :: "(byte list \<Rightarrow> 32 word) \<Rightarrow> store \<Rightarrow> bool" where
  "index_ok crc st \<longleftrightarrow>
     (\<forall>i e. lookup_entry st i = Some e \<longrightarrow> entry_ok crc st i e) \<and>
     (\<forall>i j d e. lookup_entry st i = Some d \<and> lookup_entry st j = Some e \<and> i \<noteq> j \<longrightarrow>
        disjoint_locs (ce_loc d) (ce_loc e))"

definition alloc_ok :: "store \<Rightarrow> bool" where
  "alloc_ok st \<longleftrightarrow> length (st_slots st) = st_segments st \<and>
     st_next_offset st \<le> st_segments st * segment_bytes \<and>
     (\<forall>t. st_tail st = Some t \<longrightarrow> t < st_segments st)"

definition store_ok :: "(byte list \<Rightarrow> 32 word) \<Rightarrow> store \<Rightarrow> bool" where
  "store_ok crc st \<longleftrightarrow> mem_ok st \<and> alloc_ok st \<and> index_ok crc st \<and> durable_ok st"

definition chunk_data :: "store \<Rightarrow> nat \<Rightarrow> f32 list option" where
  "chunk_data st i = map_option (\<lambda>e. copy_le_f32
     (read_bytes (st_file st) (loc_offset (ce_loc e)) (loc_len (ce_loc e) * 4)) (loc_len (ce_loc e)))
     (lookup_entry st i)"

lemma segment_bytes_pos [simp]: "0 < segment_bytes" "segment_bytes \<noteq> 0"
  by (simp_all add: segment_bytes_def)

lemma frame_lookup: "frame st st' \<Longrightarrow> lookup_entry st' i = lookup_entry st i"
  by (simp add: lookup_entry_def frame_def)

lemma frame_chunk_data: "frame st st' \<Longrightarrow> chunk_data st' = chunk_data st"
  by (rule ext) (simp add: chunk_data_def frame_lookup frame_index(2))

lemma frame_entry_ok: "frame st st' \<Longrightarrow> entry_ok crc st' i e = entry_ok crc st i e"
  by (simp add: entry_ok_def frame_def)

lemma frame_oks:
  assumes "frame st st'"
  shows "alloc_ok st' = alloc_ok st" "index_ok crc st' = index_ok crc st" "durable_ok st' = durable_ok st"
  using assms frame_length [OF assms] frame_dirty [OF assms]
  by (auto simp: alloc_ok_def index_ok_def durable_ok_def frame_lookup frame_entry_ok)
     (auto simp: frame_def)

lemma frame_store_ok: "frame st st' \<Longrightarrow> mem_ok st' \<Longrightarrow> store_ok crc st \<Longrightarrow> store_ok crc st'"
  by (simp add: store_ok_def frame_oks)

lemma store_ok_create: "store_ok crc (store_create budget)"
  by (simp add: store_ok_def store_create_def mem_ok_def mapped_count_def alloc_ok_def index_ok_def
      lookup_entry_def durable_ok_def)

section \<open>Allocation\<close>

lemma create_segment_spec:
  assumes "create_segment env i st = (r, st')"
  shows "(r = Inr () \<and> st_slots st' = st_slots st @ [fresh_slot] \<or> r \<noteq> Inr () \<and> st' = st) \<and>
    st_file st' = st_file st \<and> st_disk st' = st_disk st \<and> st_next_offset st' = st_next_offset st \<and>
    st_segments st' = st_segments st \<and> st_tail st' = st_tail st \<and> st_index st' = st_index st \<and>
    st_mapped st' = st_mapped st \<and> st_external st' = st_external st \<and> st_budget st' = st_budget st"
  using assms by (auto simp: create_segment_def split: option.splits sum.splits)

lemma create_segments_spec:
  assumes "create_segments env seg st = (r, st')"
  shows "\<exists>k. st_slots st' = st_slots st @ replicate k fresh_slot \<and> st_segments st' = st_segments st + k \<and>
    (\<forall>u. r = Inr u \<longrightarrow> seg < st_segments st') \<and>
    st_file st' = st_file st \<and> st_disk st' = st_disk st \<and> st_next_offset st' = st_next_offset st \<and>
    st_tail st' = st_tail st \<and> st_index st' = st_index st \<and> st_mapped st' = st_mapped st"
  using assms
proof (induction env seg st rule: create_segments.induct)
  case (1 env seg st)
  show ?case
  proof (cases "st_segments st \<le> seg")
    case le: True
    obtain r1 s1 where c: "create_segment env (st_segments st) st = (r1, s1)" by fastforce
    note s = create_segment_spec [OF c]
    show ?thesis
    proof (cases r1)
      case (Inl e)
      with "1.prems" le c s show ?thesis by (auto simp: create_segments.simps [of env seg st] intro: exI [of _ 0])
    next
      case (Inr u)
      then have "create_segments env seg (s1\<lparr>st_segments := st_segments s1 + 1\<rparr>) = (r, st')"
        using "1.prems" le c by (simp add: create_segments.simps [of env seg st])
      from "1.IH" [OF le c [symmetric] Inr this] obtain k where
        k: "st_slots st' = st_slots s1 @ replicate k fresh_slot" "st_segments st' = st_segments s1 + 1 + k"
          "\<forall>u. r = Inr u \<longrightarrow> seg < st_segments st'" "st_file st' = st_file s1" "st_disk st' = st_disk s1"
          "st_next_offset st' = st_next_offset s1" "st_tail st' = st_tail s1" "st_index st' = st_index s1"
          "st_mapped st' = st_mapped s1" by auto
      with s Inr show ?thesis by (intro exI [of _ "Suc k"]) auto
    qed
  next
    case False
    with "1.prems" show ?thesis
      by (auto simp: create_segments.simps [of env seg st] intro: exI [of _ 0])
  qed
qed

lemma fresh_slot_simps [simp]: "sg_map fresh_slot = None" "sg_dirty fresh_slot = False"
  by (simp_all add: fresh_slot_def)

lemma mapped_count_append [simp]:
  "length (filter (\<lambda>s. \<exists>y. sg_map s = Some y) (replicate k fresh_slot)) = 0"
  by (induction k) auto

text \<open>Appending fresh segments and moving the allocation cursor up keeps every invariant.\<close>

lemma grow_ok:
  assumes ok: "store_ok crc st" and slots: "st_slots st' = st_slots st @ replicate k fresh_slot"
    and segs: "st_segments st' = st_segments st + k"
    and same: "st_file st' = st_file st" "st_disk st' = st_disk st" "st_index st' = st_index st"
      "st_mapped st' = st_mapped st"
    and nxt: "st_next_offset st \<le> st_next_offset st'" "st_next_offset st' \<le> st_segments st' * segment_bytes"
    and tail: "\<forall>t. st_tail st' = Some t \<longrightarrow> t < st_segments st'"
  shows "store_ok crc st'" "chunk_data st' = chunk_data st" "guards_ok G st \<Longrightarrow> guards_ok G st'"
proof -
  have l: "lookup_entry st' i = lookup_entry st i" for i by (simp add: lookup_entry_def same)
  have "mem_ok st'" using ok by (simp add: store_ok_def mem_ok_def mapped_count_def slots same)
  moreover have "alloc_ok st'" using ok nxt tail by (simp add: store_ok_def alloc_ok_def slots segs)
  moreover have "index_ok crc st'"
    using ok nxt by (fastforce simp: store_ok_def index_ok_def entry_ok_def l same Let_def)
  moreover have "durable_ok st'"
    using ok by (auto simp: store_ok_def durable_ok_def slots same nth_append)
  ultimately show "store_ok crc st'" by (simp add: store_ok_def)
  show "chunk_data st' = chunk_data st" by (rule ext) (simp add: chunk_data_def l same)
  show "guards_ok G st'" if "guards_ok G st"
  proof -
    have "count G i = 0" if "length (st_slots st) \<le> i" for i
      using that \<open>guards_ok G st\<close> by (metis count_inI guards_ok_def not_le)
    with that show ?thesis by (auto simp: guards_ok_def slots nth_append)
  qed
qed

lemma reserve_spec:
  assumes ok: "store_ok crc st" and b: "0 < b" "b \<le> segment_bytes" and r: "reserve env b st = (r, st')"
  shows "store_ok crc st' \<and> chunk_data st' = chunk_data st \<and> (guards_ok G st \<longrightarrow> guards_ok G st') \<and>
    st_index st' = st_index st \<and>
    (\<forall>off seg. r = Inr (off, seg) \<longrightarrow> st_next_offset st \<le> off \<and> chunk_align_bytes dvd off \<and>
       st_next_offset st' = off + b \<and> off div segment_bytes = seg \<and> (off + b - 1) div segment_bytes = seg \<and>
       seg < st_segments st' \<and> st_tail st' = Some seg)"
proof -
  define o0 where "o0 = next_multiple_of (st_next_offset st) chunk_align_bytes"
  define s0 where "s0 = o0 div segment_bytes"
  define fits where "fits = (o0 + b \<le> (s0 + 1) * segment_bytes)"
  define seg off where "seg = (if fits then s0 else s0 + 1)" and "off = (if fits then o0 else (s0 + 1) * segment_bytes)"
  have al: "chunk_align_bytes dvd segment_bytes" by (simp add: chunk_align_bytes_def segment_bytes_def)
  have o0: "st_next_offset st \<le> o0" "chunk_align_bytes dvd o0"
    by (simp_all add: o0_def next_multiple_of_ge next_multiple_of_dvd chunk_align_bytes_def)
  have o1: "o0 < (s0 + 1) * segment_bytes" "s0 * segment_bytes \<le> o0"
    using dividend_less_div_times [of segment_bytes o0] by (simp_all add: s0_def)
  have off: "st_next_offset st \<le> off" "chunk_align_bytes dvd off" "seg * segment_bytes \<le> off"
    "off + b \<le> (seg + 1) * segment_bytes"
    using o0 o1 b al by (auto simp: off_def seg_def fits_def intro: dvd_mult)
  then have div: "off div segment_bytes = seg" "(off + b - 1) div segment_bytes = seg"
    using b by (auto intro!: div_nat_eqI simp: algebra_simps)
  have eq: "reserve env b st = (if seg > u32_max then (Inl (InvalidArgument ''store segment space exhausted''), st)
      else case create_segments env seg st of (Inl e, st1) \<Rightarrow> (Inl e, st1)
         | (Inr _, st1) \<Rightarrow> (Inr (off, seg), st1\<lparr>st_next_offset := off + b, st_tail := Some seg\<rparr>))"
  proof -
    have "(if o0 + b > (s0 + 1) * segment_bytes then (s0 + 1, (s0 + 1) * segment_bytes) else (s0, o0)) = (seg, off)"
      by (simp add: seg_def off_def fits_def)
    then show ?thesis unfolding reserve_def Let_def o0_def [symmetric] s0_def [symmetric] by simp
  qed
  show ?thesis
  proof (cases "seg > u32_max")
    case True
    with r ok show ?thesis by (auto simp: eq)
  next
    case False
    obtain r1 s1 where c: "create_segments env seg st = (r1, s1)" by fastforce
    from create_segments_spec [OF c] obtain k where
      k: "st_slots s1 = st_slots st @ replicate k fresh_slot" "st_segments s1 = st_segments st + k"
        "\<forall>u. r1 = Inr u \<longrightarrow> seg < st_segments s1" "st_file s1 = st_file st" "st_disk s1 = st_disk st"
        "st_next_offset s1 = st_next_offset st" "st_tail s1 = st_tail st" "st_index s1 = st_index st"
        "st_mapped s1 = st_mapped st" by auto
    have a: "st_next_offset st \<le> st_segments st * segment_bytes" "\<forall>t. st_tail st = Some t \<longrightarrow> t < st_segments st"
      using ok by (simp_all add: store_ok_def alloc_ok_def)
    show ?thesis
    proof (cases r1)
      case (Inl e)
      have "st_next_offset s1 \<le> st_segments s1 * segment_bytes"
        using a k by (simp add: add_mult_distrib)
      moreover have "\<forall>t. st_tail s1 = Some t \<longrightarrow> t < st_segments s1" using a k by auto
      ultimately show ?thesis
        using grow_ok [OF ok k(1,2,4,5,8,9)] k r c False Inl by (auto simp: eq)
    next
      case (Inr u)
      define s2 where "s2 = s1\<lparr>st_next_offset := off + b, st_tail := Some seg\<rparr>"
      have "seg < st_segments s1" using k Inr by simp
      then have "(seg + 1) * segment_bytes \<le> st_segments s1 * segment_bytes" by (intro mult_le_mono1) simp
      with off have n: "st_next_offset st \<le> st_next_offset s2" "st_next_offset s2 \<le> st_segments s2 * segment_bytes"
        "\<forall>t. st_tail s2 = Some t \<longrightarrow> t < st_segments s2"
        using \<open>seg < st_segments s1\<close> by (simp_all add: s2_def)
      have k2: "st_slots s2 = st_slots st @ replicate k fresh_slot" "st_segments s2 = st_segments st + k"
        "st_file s2 = st_file st" "st_disk s2 = st_disk st" "st_index s2 = st_index st" "st_mapped s2 = st_mapped st"
        using k by (simp_all add: s2_def)
      have "r = Inr (off, seg)" "st' = s2" using r c False Inr by (simp_all add: eq s2_def)
      with grow_ok [OF ok k2 n] k2(5) off div \<open>seg < st_segments s1\<close> show ?thesis
        by (auto simp: s2_def)
    qed
  qed
qed

end
