(* ===== verification/Store_Ops.thy ===== *)
theory Store_Ops
  imports Store_Data
begin

text \<open>
  Every operation of the chunk store keeps the invariant; what each does to the abstract store
  \<open>chunk_data\<close>, to the guards and to the disk.
\<close>

section \<open>Publishing an index entry\<close>

lemma chunk_hole_is_hole [simp]: "is_hole (chunk_hole i)"
  by (simp add: chunk_hole_def is_hole_def)

lemma lookup_pad [simp]:
  "lookup_entry (st\<lparr>st_index := pad_index (st_index st) n\<rparr>) i = lookup_entry st i"
  by (auto simp: lookup_entry_def pad_index_def nth_append)

lemma lookup_update:
  "i < length idx \<Longrightarrow> lookup_entry (st\<lparr>st_index := idx[i := e]\<rparr>) j =
     (if j = i then (if is_hole e then None else Some e) else lookup_entry (st\<lparr>st_index := idx\<rparr>) j)"
  by (auto simp: lookup_entry_def)

lemma lookup_snoc:
  "lookup_entry (st\<lparr>st_index := idx @ [e]\<rparr>) j =
     (if j = length idx then (if is_hole e then None else Some e) else lookup_entry (st\<lparr>st_index := idx\<rparr>) j)"
  by (auto simp: lookup_entry_def nth_append)

lemma index_oks [simp]:
  "alloc_ok (st\<lparr>st_index := idx\<rparr>) = alloc_ok st" "durable_ok (st\<lparr>st_index := idx\<rparr>) = durable_ok st"
  "entry_ok crc (st\<lparr>st_index := idx\<rparr>) i e = entry_ok crc st i e"
  by (simp_all add: alloc_ok_def durable_ok_def entry_ok_def)

lemma publish_cases:
  assumes "publish fid mk st = (r, st')" and "\<And>i. loc_len (mk i) \<noteq> 0"
  obtains (err) e ix where "r = Inl e" "\<And>i. lookup_entry st' i = lookup_entry st i"
      "st' = st\<lparr>st_index := ix\<rparr>"
    | (new) i ix where "r = Inr (mk i)" "lookup_entry st i = None" "fid = None \<Longrightarrow> i = length (st_index st)"
      "\<And>k. fid = Some k \<Longrightarrow> i = k" "st' = st\<lparr>st_index := ix\<rparr>"
      "\<And>j. lookup_entry st' j = (if j = i then Some \<lparr>ce_loc = mk i, ce_state = Unverified\<rparr> else lookup_entry st j)"
proof (cases fid)
  case None
  show thesis
  proof (cases "length (st_index st) > u32_max")
    case True
    with assms None show thesis by (intro err [of _ "st_index st"]) (auto simp: publish_def Let_def)
  next
    case False
    with assms None show thesis
      by (intro new [of "length (st_index st)" "st_index st @ [\<lparr>ce_loc = mk (length (st_index st)), ce_state = Unverified\<rparr>]"])
         (auto simp: publish_def Let_def lookup_snoc is_hole_def, simp add: lookup_entry_def)
  qed
next
  case (Some i)
  let ?idx = "pad_index (st_index st) (Suc i)"
  have i: "i < length ?idx" by (simp add: pad_index_def)
  show thesis
  proof (cases "is_hole (?idx ! i)")
    case False
    with assms Some show thesis by (intro err [of _ ?idx]) (auto simp: publish_def Let_def)
  next
    case True
    have "lookup_entry (st\<lparr>st_index := ?idx\<rparr>) i = None" using True by (simp add: lookup_entry_def)
    then have "lookup_entry st i = None" by simp
    with assms Some True i show thesis
      by (intro new [of i "?idx[i := \<lparr>ce_loc = mk i, ce_state = Unverified\<rparr>]"])
         (auto simp: publish_def Let_def lookup_update is_hole_def)
  qed
qed

section \<open>Commit\<close>

definition below :: "store \<Rightarrow> nat \<Rightarrow> bool" where
  "below st off \<longleftrightarrow> (\<forall>i e. lookup_entry st i = Some e \<longrightarrow> chunk_end (ce_loc e) \<le> off)"

definition write_chunk :: "nat \<Rightarrow> nat \<Rightarrow> byte list \<Rightarrow> store \<Rightarrow> store" where
  "write_chunk seg off bytes st =
     (let st3 = st\<lparr>st_file := write_bytes (st_file st) off bytes\<rparr>
      in st3\<lparr>st_slots := (st_slots st3)[seg := (st_slots st3 ! seg)\<lparr>sg_dirty := True\<rparr>]\<rparr>)"

lemma in_segment:
  assumes "off div segment_bytes = seg" "(off + b - 1) div segment_bytes = seg" "off \<le> a" "a < off + b"
  shows "a div segment_bytes = seg"
proof -
  have "off div segment_bytes \<le> a div segment_bytes" "a div segment_bytes \<le> (off + b - 1) div segment_bytes"
    using assms(3,4) by (auto intro: div_le_mono)
  with assms show ?thesis by simp
qed

lemma mapped_count_maps: "mapped_count st = length (filter (\<lambda>m. m \<noteq> None) (map sg_map (st_slots st)))"
  by (simp add: mapped_count_def filter_map comp_def)

lemma write_chunk_ok:
  assumes ok: "store_ok crc st" and b: "below st off" and seg: "seg < length (st_slots st)"
    and d: "off div segment_bytes = seg" "(off + length bytes - 1) div segment_bytes = seg"
  shows "store_ok crc (write_chunk seg off bytes st)" "chunk_data (write_chunk seg off bytes st) = chunk_data st"
    "guards_ok G st \<Longrightarrow> guards_ok G (write_chunk seg off bytes st)"
    "lookup_entry (write_chunk seg off bytes st) i = lookup_entry st i"
    "read_bytes (st_file (write_chunk seg off bytes st)) off (length bytes) = bytes"
    "below (write_chunk seg off bytes st) off"
    "st_next_offset (write_chunk seg off bytes st) = st_next_offset st"
    "st_index (write_chunk seg off bytes st) = st_index st"
proof -
  let ?w = "write_chunk seg off bytes st"
  show l: "lookup_entry ?w i = lookup_entry st i" for i by (simp add: write_chunk_def lookup_entry_def Let_def)
  show "read_bytes (st_file ?w) off (length bytes) = bytes"
    by (simp add: write_chunk_def Let_def read_write_same)
  show "below ?w off" using b by (simp add: below_def l)
  show "st_next_offset ?w = st_next_offset st" "st_index ?w = st_index st"
    by (simp_all add: write_chunk_def Let_def)
  have rd: "read_bytes (st_file ?w) (loc_offset (ce_loc e)) (loc_len (ce_loc e) * 4) =
      read_bytes (st_file st) (loc_offset (ce_loc e)) (loc_len (ce_loc e) * 4)"
    if "lookup_entry st j = Some e" for j e
    using b that by (simp add: write_chunk_def Let_def read_write_other below_def chunk_end_def)
  show "chunk_data ?w = chunk_data st" by (rule ext) (auto simp: chunk_data_def l rd split: option.splits intro: map_option_cong)
  have mp: "sg_map ((st_slots ?w) ! j) = sg_map (st_slots st ! j)" if "j < length (st_slots st)" for j
    using that by (cases "j = seg") (simp_all add: write_chunk_def Let_def)
  have lw: "length (st_slots ?w) = length (st_slots st)" by (simp add: write_chunk_def Let_def)
  show "guards_ok G ?w" if "guards_ok G st"
    using that by (simp add: guards_ok_def mp lw)
  have "map sg_map (st_slots ?w) = map sg_map (st_slots st)"
    by (rule nth_equalityI) (simp_all add: lw mp)
  then have "mapped_count ?w = mapped_count st"
    by (simp only: mapped_count_maps)
  then have "mem_ok ?w" using ok by (simp add: store_ok_def mem_ok_def) (simp add: write_chunk_def Let_def)
  moreover have "alloc_ok ?w" using ok by (simp add: store_ok_def alloc_ok_def write_chunk_def Let_def)
  moreover have "index_ok crc ?w"
    using ok rd by (simp add: store_ok_def index_ok_def l entry_ok_def Let_def) (simp add: write_chunk_def Let_def)
  moreover have "durable_ok ?w"
    unfolding durable_ok_def
  proof
    fix a
    show "st_disk ?w a = st_file ?w a \<or>
        a div segment_bytes < length (st_slots ?w) \<and> sg_dirty (st_slots ?w ! (a div segment_bytes))"
    proof (cases "off \<le> a \<and> a < off + length bytes")
      case True
      then have "a div segment_bytes = seg" using in_segment [OF d] by auto
      with seg show ?thesis by (simp add: write_chunk_def Let_def)
    next
      case False
      then have "st_file ?w a = st_file st a" by (auto simp: write_chunk_def Let_def write_bytes_def)
      with ok seg show ?thesis
        by (cases "a div segment_bytes = seg") (simp_all add: store_ok_def durable_ok_def write_chunk_def Let_def)
    qed
  qed
  ultimately show "store_ok crc ?w" by (simp add: store_ok_def)
qed

lemma commit_eq:
  "commit_chunk_bytes crc env xs fid st =
     (case reserve env (length xs * 4) st of
        (Inl e, st1) \<Rightarrow> (Inl e, st1)
      | (Inr (off, seg), st1) \<Rightarrow>
          (case acquire_segment env seg st1 of
             (Inl e, st2) \<Rightarrow> (Inl e, st2)
           | (Inr _, st2) \<Rightarrow>
               publish fid (\<lambda>i. \<lparr>loc_id = i, loc_offset = off, loc_len = length xs, loc_crc = crc (le_bytes xs)\<rparr>)
                 (drop_guard seg (write_chunk seg off (le_bytes xs) st2))))"
  unfolding commit_chunk_bytes_def write_chunk_def Let_def ..

lemma publish_ok:
  assumes ok: "store_ok crc st" and b: "below st off"
    and mk: "mk = (\<lambda>i. \<lparr>loc_id = i, loc_offset = off, loc_len = n, loc_crc = c\<rparr>)"
    and n: "1 \<le> n" "n \<le> chunk_samples" "chunk_align_bytes dvd off" "off + n * 4 \<le> st_next_offset st"
      "off div segment_bytes = (off + n * 4 - 1) div segment_bytes" "crc (read_bytes (st_file st) off (n * 4)) = c"
    and p: "publish fid mk st = (r, st')"
  shows "store_ok crc st' \<and> (guards_ok G st \<longrightarrow> guards_ok G st') \<and>
    (\<forall>e. r = Inl e \<longrightarrow> chunk_data st' = chunk_data st) \<and>
    (\<forall>loc. r = Inr loc \<longrightarrow> chunk_data st (loc_id loc) = None \<and> loc_len loc = n \<and>
       (fid = None \<longrightarrow> loc_id loc = length (st_index st)) \<and> (\<forall>k. fid = Some k \<longrightarrow> loc_id loc = k) \<and>
       chunk_data st' = (chunk_data st)(loc_id loc \<mapsto> copy_le_f32 (read_bytes (st_file st) off (n * 4)) n) \<and>
       lookup_entry st' (loc_id loc) = Some \<lparr>ce_loc = loc, ce_state = Unverified\<rparr>)"
proof -
  have nz: "loc_len (mk i) \<noteq> 0" for i using n by (simp add: mk)
  from p nz show ?thesis
  proof (cases rule: publish_cases)
    case (err e ix)
    have f: "st_file st' = st_file st" "st_next_offset st' = st_next_offset st" by (simp_all add: err(3))
    have "index_ok crc st'"
      using ok by (simp add: store_ok_def index_ok_def err(2) entry_ok_def f)
    moreover have "mem_ok st'" "alloc_ok st'" "durable_ok st'" using ok by (simp_all add: err(3) store_ok_def)
    moreover have "guards_ok G st \<longrightarrow> guards_ok G st'" by (simp add: err(3))
    moreover have "chunk_data st' = chunk_data st" by (rule ext) (simp add: chunk_data_def err(2) f)
    ultimately show ?thesis using err(1) by (simp add: store_ok_def)
  next
    case (new i ix)
    define e where "e = \<lparr>ce_loc = mk i, ce_state = Unverified\<rparr>"
    have f: "st_file st' = st_file st" "st_next_offset st' = st_next_offset st" by (simp_all add: new(5))
    have l: "lookup_entry st' j = (if j = i then Some e else lookup_entry st j)" for j
      by (simp add: new(6) e_def)
    have eok: "entry_ok crc st' i e" using n by (simp add: entry_ok_def e_def mk chunk_end_def f)
    have old: "entry_ok crc st' j d" if "lookup_entry st j = Some d" for j d
      using ok that by (simp add: store_ok_def index_ok_def entry_ok_def f)
    have dis: "disjoint_locs (ce_loc d) (ce_loc e) \<and> disjoint_locs (ce_loc e) (ce_loc d)"
      if "lookup_entry st j = Some d" for j d
      using b that by (auto simp: below_def disjoint_locs_def e_def mk)
    have "index_ok crc st'"
      unfolding index_ok_def l
      using eok old dis ok by (auto simp: store_ok_def index_ok_def split: if_splits)
    moreover have "mem_ok st' \<and> alloc_ok st' \<and> durable_ok st'"
      using ok by (simp add: new(5) store_ok_def)
    ultimately have "store_ok crc st'" by (simp add: store_ok_def)
    moreover have "guards_ok G st \<longrightarrow> guards_ok G st'" by (simp add: new(5))
    moreover have "chunk_data st' = (chunk_data st)(i \<mapsto> copy_le_f32 (read_bytes (st_file st) off (n * 4)) n)"
      by (rule ext) (simp add: chunk_data_def l f, simp add: e_def mk)
    moreover have "chunk_data st i = None" using new(2) by (simp add: chunk_data_def)
    ultimately show ?thesis using new(1,3,4) l by (auto simp: e_def mk)
  qed
qed

lemma commit_bytes_spec:
  assumes ok: "store_ok crc st" and xs: "1 \<le> length xs" "length xs \<le> chunk_samples"
    and c: "commit_chunk_bytes crc env xs fid st = (r, st')"
  shows "store_ok crc st' \<and> (guards_ok G st \<longrightarrow> guards_ok G st') \<and>
    (\<forall>e. r = Inl e \<longrightarrow> chunk_data st' = chunk_data st) \<and>
    (\<forall>loc. r = Inr loc \<longrightarrow> chunk_data st (loc_id loc) = None \<and> loc_len loc = length xs \<and>
       (fid = None \<longrightarrow> loc_id loc = length (st_index st)) \<and> (\<forall>k. fid = Some k \<longrightarrow> loc_id loc = k) \<and>
       chunk_data st' = (chunk_data st)(loc_id loc \<mapsto> xs) \<and> location st' (loc_id loc) = Some loc)"
proof -
  have len: "0 < length xs * 4" "length xs * 4 \<le> segment_bytes"
    using xs by (auto simp: chunk_samples_def segment_bytes_def)
  obtain r1 st1 where r1: "reserve env (length xs * 4) st = (r1, st1)" by fastforce
  note s1 = reserve_spec [OF ok len r1, of G]
  show ?thesis
  proof (cases r1)
    case (Inl e)
    with c r1 have "r = Inl e" "st' = st1" by (auto simp: commit_eq)
    with s1 show ?thesis by simp
  next
    case (Inr x)
    obtain off seg where x: "x = (off, seg)" by fastforce
    with s1 Inr have off: "st_next_offset st \<le> off" "chunk_align_bytes dvd off"
      "st_next_offset st1 = off + length xs * 4" "off div segment_bytes = seg"
      "(off + length xs * 4 - 1) div segment_bytes = seg" "seg < st_segments st1" by auto
    obtain r2 st2 where a: "acquire_segment env seg st1 = (r2, st2)" by fastforce
    have m1: "mem_ok st1" using s1 by (simp add: store_ok_def)
    note s2 = acquire_spec [OF a m1, of G]
    have f2: "frame st1 st2" and ok2: "store_ok crc st2" using s2 s1 frame_store_ok by blast+
    have data2: "chunk_data st2 = chunk_data st" using frame_chunk_data [OF f2] s1 by simp
    show ?thesis
    proof (cases r2)
      case (Inl e)
      with c r1 \<open>r1 = Inr x\<close> x a have "r = Inl e" "st' = st2" by (auto simp: commit_eq)
      with s1 s2 ok2 data2 Inl show ?thesis by auto
    next
      case (Inr u)
      let ?bs = "le_bytes xs"
      define w where "w = write_chunk seg off ?bs st2"
      define st5 where "st5 = drop_guard seg w"
      have seg2: "seg < length (st_slots st2)"
        using off(6) s1 frame_length [OF f2] by (simp add: store_ok_def alloc_ok_def)
      have idx2: "st_index st2 = st_index st" using frame_index(1) [OF f2] s1 by simp
      have "below st2 off"
        unfolding below_def
      proof (intro allI impI)
        fix i e assume "lookup_entry st2 i = Some e"
        then have "lookup_entry st i = Some e" by (auto simp: lookup_entry_def idx2 split: if_splits)
        with ok have "entry_ok crc st i e" by (simp add: store_ok_def index_ok_def)
        with off(1) show "chunk_end (ce_loc e) \<le> off" by (simp add: entry_ok_def Let_def)
      qed
      then have below2: "below st2 off" .
      have d: "(off + length ?bs - 1) div segment_bytes = seg" using off(5) by (simp add: mult.commute)
      note w = write_chunk_ok [OF ok2 below2 seg2 off(4) d, folded w_def]
      have mw: "mem_ok w" using w(1) by (simp add: store_ok_def)
      note dg = drop_guard_spec [OF mw, where seg = seg, folded st5_def]
      have ok5: "store_ok crc st5" using frame_store_ok [OF dg(1,2) w(1)] .
      have g5: "guards_ok G st \<longrightarrow> guards_ok G st5"
        using s1 s2 Inr w(3) [of "add_mset seg G"] dg(3) [of "add_mset seg G"] by auto
      have below5: "below st5 off" using w(6) frame_lookup [OF dg(1)] by (simp add: below_def)
      have n5: "off + length xs * 4 \<le> st_next_offset st5"
        using dg(1) w(7) f2 off(3) by (simp add: frame_def)
      have rd5: "read_bytes (st_file st5) off (length xs * 4) = ?bs"
        using w(5) frame_index(2) [OF dg(1)] by (simp add: mult.commute)
      have idx5: "st_index st5 = st_index st" using frame_index(1) [OF dg(1)] w(8) idx2 by simp
      have data5: "chunk_data st5 = chunk_data st" using frame_chunk_data [OF dg(1)] w(2) data2 by simp
      have "publish fid (\<lambda>i. \<lparr>loc_id = i, loc_offset = off, loc_len = length xs, loc_crc = crc ?bs\<rparr>) st5 = (r, st')"
        using c r1 \<open>r1 = Inr x\<close> x a Inr by (simp add: commit_eq st5_def w_def)
      note pub = publish_ok [OF ok5 below5 refl xs off(2) n5 _ _ this, of G]
      have "copy_le_f32 ?bs (length xs) = xs" using copy_le_bytes [of "length xs" 0 xs] by simp
      with pub g5 off(4,5) rd5 data5 idx5 show ?thesis
        by (cases r) (simp_all add: location_def)
    qed
  qed
qed

lemma sanitize_eq: "sanitize xs = map (\<lambda>s. if is_finite s then s else 0) xs"
  by (auto simp: sanitize_def intro: map_idI [symmetric])

lemma length_sanitize [simp]: "length (sanitize xs) = length xs"
  by (simp add: sanitize_eq)

lemma zero_finite [simp]: "is_finite 0"
  by (simp add: is_finite_def)

lemma sanitize_finite: "s \<in> set (sanitize xs) \<Longrightarrow> is_finite s"
  by (auto simp: sanitize_eq)

lemma commit_as_spec:
  assumes ok: "store_ok crc st" and c: "commit_chunk_as crc env xs fid st = (r, st')"
  shows "store_ok crc st' \<and> (guards_ok G st \<longrightarrow> guards_ok G st') \<and>
    (\<forall>e. r = Inl e \<longrightarrow> chunk_data st' = chunk_data st) \<and>
    (\<forall>loc. r = Inr loc \<longrightarrow> chunk_data st (loc_id loc) = None \<and> loc_len loc = length xs \<and>
       (fid = None \<longrightarrow> loc_id loc = length (st_index st)) \<and> (\<forall>k. fid = Some k \<longrightarrow> loc_id loc = k) \<and>
       chunk_data st' = (chunk_data st)(loc_id loc \<mapsto> sanitize xs) \<and> location st' (loc_id loc) = Some loc)"
proof (cases "xs = [] \<or> length xs > chunk_samples")
  case True
  with c ok show ?thesis by (auto simp: commit_chunk_as_def validate_chunk_len_def)
next
  case False
  then have l: "1 \<le> length (sanitize xs)" "length (sanitize xs) \<le> chunk_samples"
    by (auto simp: Suc_le_eq)
  have "commit_chunk_bytes crc env (sanitize xs) fid st = (r, st')"
    using c False by (simp add: commit_chunk_as_def validate_chunk_len_def)
  from commit_bytes_spec [OF ok l this, of G, unfolded length_sanitize] show ?thesis .
qed

section \<open>Reads\<close>

lemma length_copy_le [simp]: "length (copy_le_f32 bs n) = n"
  by (simp add: copy_le_f32_def)

definition cache_ms :: "nat option \<Rightarrow> nat multiset" where
  "cache_ms cache = (case cache of None \<Rightarrow> {#} | Some g \<Rightarrow> {#g#})"

lemma cache_ms_simps [simp]: "cache_ms None = {#}" "cache_ms (Some g) = {#g#}"
  by (simp_all add: cache_ms_def)

lemma lookup_set_state:
  "lookup_entry (set_chunk_state i s st) j =
     (if j = i then map_option (\<lambda>e. e\<lparr>ce_state := s\<rparr>) (lookup_entry st i) else lookup_entry st j)"
proof (cases "i < length (st_index st)")
  case True
  then show ?thesis by (auto simp: set_chunk_state_def lookup_entry_def is_hole_def nth_list_update)
next
  case False
  then show ?thesis by (simp add: set_chunk_state_def lookup_entry_def list_update_beyond)
qed

lemma set_chunk_state_ok:
  assumes "store_ok crc st" "s \<noteq> Corrupt"
  shows "store_ok crc (set_chunk_state i s st)"
proof -
  have e: "entry_ok crc (set_chunk_state i s st) j d = entry_ok crc st j d" for j d
    by (simp add: entry_ok_def set_chunk_state_def)
  have o1: "mem_ok (set_chunk_state i s st) = mem_ok st" "alloc_ok (set_chunk_state i s st) = alloc_ok st"
    "durable_ok (set_chunk_state i s st) = durable_ok st" by (simp_all add: set_chunk_state_def)
  have d: "entry_ok crc st j (d\<lparr>ce_state := s\<rparr>)" if "entry_ok crc st j d" for j d
    using that assms(2) by (simp add: entry_ok_def Let_def)
  have l: "\<exists>d. lookup_entry st j = Some d \<and> ce_loc d' = ce_loc d \<and> (entry_ok crc st j d \<longrightarrow> entry_ok crc st j d')"
    if "lookup_entry (set_chunk_state i s st) j = Some d'" for j d'
    using that d by (auto simp: lookup_set_state split: if_splits)
  have "index_ok crc st" using assms by (simp add: store_ok_def)
  then have "index_ok crc (set_chunk_state i s st)" unfolding index_ok_def e by (meson l) (metis l)
  then show ?thesis using assms by (simp add: store_ok_def o1)
qed

lemma set_chunk_state_data [simp]: "chunk_data (set_chunk_state i s st) = chunk_data st"
proof
  fix j
  have "st_file (set_chunk_state i s st) = st_file st" by (simp add: set_chunk_state_def)
  then show "chunk_data (set_chunk_state i s st) j = chunk_data st j"
    by (cases "lookup_entry st i") (auto simp: chunk_data_def lookup_set_state)
qed

lemma set_chunk_state_guards [simp]: "guards_ok G (set_chunk_state i s st) = guards_ok G st"
  by (simp add: set_chunk_state_def)

lemma drop_guard_last:
  "mem_ok st \<Longrightarrow> guards_ok (add_mset seg G) st \<Longrightarrow> guards_ok G (drop_guard seg st)"
  using drop_guard_spec(3) [of st "add_mset seg G" seg] by simp

lemma switch_guard_spec:
  assumes s: "switch_guard env seg cache st = (r, cache', st')" and ok: "store_ok crc st"
  shows "frame st st' \<and> store_ok crc st' \<and>
    (guards_ok (G + cache_ms cache) st \<longrightarrow> guards_ok (G + cache_ms cache') st') \<and>
    (\<forall>u. r = Inr u \<longrightarrow> cache' = Some seg) \<and>
    (seg < length (st_slots st) \<and> env_mmap env seg = None \<longrightarrow> r = Inr ())"
proof (cases "cache = Some seg")
  case True
  with s ok show ?thesis by (auto simp: switch_guard_def)
next
  case False
  define s1 where "s1 = (case cache of None \<Rightarrow> st | Some g \<Rightarrow> drop_guard g st)"
  have m: "mem_ok st" using ok by (simp add: store_ok_def)
  have 1: "frame st s1" "mem_ok s1" "guards_ok (G + cache_ms cache) st \<longrightarrow> guards_ok G s1"
    using drop_guard_spec(1,2) [OF m] m drop_guard_last [OF m]
    by (auto simp: s1_def split: option.splits)
  obtain r2 s2 where a: "acquire_segment env seg s1 = (r2, s2)" by fastforce
  note 2 = acquire_spec [OF a 1(2), of G]
  have f: "frame st s2" using frame_trans [OF 1(1)] 2 by blast
  have "store_ok crc s2" using frame_store_ok [OF f _ ok] 2 by blast
  moreover have "r = r2" "st' = s2" "cache' = (case r2 of Inl _ \<Rightarrow> None | Inr _ \<Rightarrow> Some seg)"
    using s False a by (auto simp: switch_guard_def s1_def Let_def split: sum.splits)
  moreover have "length (st_slots s1) = length (st_slots st)" by (rule frame_length [OF 1(1)])
  ultimately show ?thesis using 1(3) 2 f by (cases r2) auto
qed

lemma read_into_spec:
  assumes ok: "store_ok crc st" and rd: "read_chunk_into crc env i off n cache st = (r, cache', st')"
  shows "store_ok crc st' \<and> chunk_data st' = chunk_data st \<and>
    (guards_ok (G + cache_ms cache) st \<longrightarrow> guards_ok (G + cache_ms cache') st') \<and>
    (\<forall>xs. r = Inr xs \<longrightarrow> (\<exists>d. chunk_data st i = Some d \<and> off + n \<le> length d \<and> xs = take n (drop off d))) \<and>
    ((\<exists>d. chunk_data st i = Some d \<and> off + n \<le> length d) \<and> (\<forall>seg. env_mmap env seg = None) \<longrightarrow>
       (\<exists>xs. r = Inr xs))"
proof (cases "lookup_entry st i")
  case None
  with rd ok show ?thesis by (auto simp: read_chunk_into_def chunk_data_def)
next
  case (Some e)
  let ?loc = "ce_loc e"
  define bs where "bs = read_bytes (st_file st) (loc_offset ?loc) (loc_len ?loc * 4)"
  from ok Some have e: "entry_ok crc st i e" by (simp add: store_ok_def index_ok_def)
  have data: "chunk_data st i = Some (copy_le_f32 bs (loc_len ?loc))"
    by (simp add: chunk_data_def Some bs_def)
  show ?thesis
  proof (cases "off + n > loc_len ?loc")
    case True
    with rd Some ok data show ?thesis by (auto simp: read_chunk_into_def Let_def)
  next
    case False
    then have fits: "off + n \<le> loc_len ?loc" by simp
    let ?seg = "loc_offset ?loc div segment_bytes"
    obtain r1 c1 s1 where sw: "switch_guard env ?seg cache st = (r1, c1, s1)" by (metis prod_cases3)
    note sw1 = switch_guard_spec [OF sw ok, of G]
    have segl: "?seg < length (st_slots st)"
    proof -
      have "loc_offset ?loc < chunk_end ?loc" using e by (simp add: entry_ok_def chunk_end_def Let_def)
      also have "chunk_end ?loc \<le> st_next_offset st" using e by (simp add: entry_ok_def Let_def)
      also have "st_next_offset st \<le> st_segments st * segment_bytes" using ok by (simp add: store_ok_def alloc_ok_def)
      finally show ?thesis using ok by (simp add: store_ok_def alloc_ok_def less_mult_imp_div_less)
    qed
    have d1: "chunk_data s1 = chunk_data st" and f1: "st_file s1 = st_file st"
      using sw1 frame_chunk_data frame_index(2) by blast+
    have sub: "copy_le_f32 (read_bytes (st_file st) (loc_offset ?loc + off * 4) (n * 4)) n =
        take n (drop off (copy_le_f32 bs (loc_len ?loc)))"
    proof (rule nth_equalityI)
      fix k assume "k < length (copy_le_f32 (read_bytes (st_file st) (loc_offset ?loc + off * 4) (n * 4)) n)"
      then have k: "k < n" by simp
      have "read_bytes (st_file st) (loc_offset ?loc + off * 4) (n * 4) = take (n * 4) (drop (off * 4) bs)"
        unfolding bs_def using fits by (intro read_bytes_sub) simp
      moreover have "take 4 (drop (4 * k) (take (n * 4) (drop (off * 4) bs))) = take 4 (drop (4 * (off + k)) bs)"
        using k by (simp add: drop_take min_def algebra_simps)
      ultimately show "copy_le_f32 (read_bytes (st_file st) (loc_offset ?loc + off * 4) (n * 4)) n ! k =
          take n (drop off (copy_le_f32 bs (loc_len ?loc))) ! k"
        using k fits by (simp add: copy_le_f32_def)
    qed (use fits in simp)
    show ?thesis
    proof (cases r1)
      case (Inl err)
      with rd Some e fits sw have "r = Inl err" "cache' = c1" "st' = s1"
        by (auto simp: read_chunk_into_def Let_def entry_ok_def)
      with sw1 d1 segl Inl show ?thesis by auto
    next
      case (Inr u)
      have "crc bs = loc_crc ?loc" using e by (simp add: entry_ok_def Let_def bs_def)
      with rd Some e fits sw Inr have
        "r = Inr (take n (drop off (copy_le_f32 bs (loc_len ?loc))))" "cache' = c1"
        "st' = (if ce_state e \<noteq> Verified then set_chunk_state i Verified s1 else s1)"
        by (auto simp: read_chunk_into_def Let_def entry_ok_def f1 bs_def sub)
      moreover have "store_ok crc (set_chunk_state i Verified s1)"
        using sw1 by (intro set_chunk_state_ok) auto
      ultimately show ?thesis using sw1 d1 data fits by auto
    qed
  qed
qed

lemma read_chunk_spec:
  assumes ok: "store_ok crc st" and rd: "read_chunk crc env i off n st = (r, st')"
  shows "store_ok crc st' \<and> chunk_data st' = chunk_data st \<and> (guards_ok G st \<longrightarrow> guards_ok G st') \<and>
    (\<forall>xs. r = Inr xs \<longrightarrow> (\<exists>d. chunk_data st i = Some d \<and> off + n \<le> length d \<and> xs = take n (drop off d))) \<and>
    ((\<exists>d. chunk_data st i = Some d \<and> off + n \<le> length d) \<and> (\<forall>seg. env_mmap env seg = None) \<longrightarrow>
       (\<exists>xs. r = Inr xs))"
proof -
  obtain r1 c1 s1 where r1: "read_chunk_into crc env i off n None st = (r1, c1, s1)" by (metis prod_cases3)
  note s = read_into_spec [OF ok r1, of G]
  have e: "r = r1" "st' = drop_cache c1 s1" using rd r1 by (simp_all add: read_chunk_def)
  have m: "mem_ok s1" using s by (simp add: store_ok_def)
  have "frame s1 st' \<and> mem_ok st'" using drop_guard_spec [OF m] m
    by (auto simp: e drop_cache_def split: option.splits)
  then have "store_ok crc st' \<and> chunk_data st' = chunk_data s1"
    using s frame_store_ok frame_chunk_data by blast
  moreover have "guards_ok G st \<longrightarrow> guards_ok G st'"
    using s drop_guard_last [OF m] by (auto simp: e drop_cache_def split: option.splits)
  ultimately show ?thesis using s e by simp
qed

section \<open>Sync\<close>

lemma first_error_None: "first_error es = None \<longleftrightarrow> (\<forall>e \<in> set es. e = None)"
  by (induction es rule: first_error.induct) auto

lemma sync_spec:
  assumes ok: "store_ok crc st" and s: "sync_store env st = (r, st')"
  shows "store_ok crc st' \<and> chunk_data st' = chunk_data st \<and> (guards_ok G st \<longrightarrow> guards_ok G st') \<and>
    st_file st' = st_file st \<and> st_index st' = st_index st \<and> st_segments st' = st_segments st \<and>
    (\<forall>a. st_disk st a = st_file st a \<longrightarrow> st_disk st' a = st_file st' a) \<and>
    (\<forall>u. r = Inr u \<longrightarrow> st_disk st' = st_file st')"
proof (cases r)
  case (Inl e)
  with s have "st' = st" by (auto simp: sync_store_def Let_def split: option.splits)
  with ok Inl show ?thesis by simp
next
  case (Inr u)
  define D where "D = set (filter (\<lambda>i. sg_dirty (st_slots st ! i)) [0 ..< length (st_slots st)])"
  have st': "st' = st\<lparr>st_slots := map (\<lambda>s. s\<lparr>sg_dirty := False\<rparr>) (st_slots st),
      st_disk := (\<lambda>a. if a div segment_bytes \<in> D then st_file st a else st_disk st a)\<rparr>"
    using s Inr by (auto simp: sync_store_def Let_def D_def split: option.splits)
  have disk: "st_disk st' = st_file st"
  proof
    fix a
    from ok have "st_disk st a = st_file st a \<or> a div segment_bytes \<in> D"
      by (auto simp: store_ok_def durable_ok_def D_def)
    then show "st_disk st' a = st_file st a" by (auto simp: st')
  qed
  have l: "lookup_entry st' i = lookup_entry st i" for i by (simp add: st' lookup_entry_def)
  have "map sg_map (st_slots st') = map sg_map (st_slots st)" by (simp add: st')
  then have "mapped_count st' = mapped_count st" by (simp only: mapped_count_maps)
  then have "mem_ok st'" using ok by (simp add: store_ok_def mem_ok_def) (simp add: st')
  moreover have "alloc_ok st'" using ok by (simp add: store_ok_def alloc_ok_def st')
  moreover have "entry_ok crc st' i e = entry_ok crc st i e" for i e by (simp add: entry_ok_def st')
  then have "index_ok crc st'" using ok by (simp add: store_ok_def index_ok_def l)
  moreover have "durable_ok st'" by (simp add: durable_ok_def disk) (simp add: st')
  moreover have "chunk_data st' = chunk_data st" by (rule ext) (simp add: chunk_data_def l, simp add: st')
  moreover have "guards_ok G st \<longrightarrow> guards_ok G st'" by (simp add: guards_ok_def st')
  moreover have "st_file st' = st_file st" by (simp add: st')
  ultimately show ?thesis by (simp add: store_ok_def disk) (simp add: st')
qed

end
