(* ===== verification/Store_Props.thy ===== *)
theory Store_Props
  imports Store_Ops
begin

text \<open>
  The store as a system: the steps readers, writers and the session can take on it, with the multiset
  of segment guards that are out; reopening after a crash; and the properties.
\<close>

section \<open>Steps\<close>

inductive store_step ::
    "(byte list \<Rightarrow> 32 word) \<Rightarrow> store \<times> nat multiset \<Rightarrow> store \<times> nat multiset \<Rightarrow> bool" for crc where
  s_commit: "commit_chunk_as crc env xs fid st = (r, st') \<Longrightarrow> store_step crc (st, G) (st', G)"
| s_sync: "sync_store env st = (r, st') \<Longrightarrow> store_step crc (st, G) (st', G)"
| s_acquire: "acquire_segment env seg st = (Inr (), st') \<Longrightarrow> store_step crc (st, G) (st', add_mset seg G)"
| s_acquire_fails: "acquire_segment env seg st = (Inl e, st') \<Longrightarrow> store_step crc (st, G) (st', G)"
| s_release: "store_step crc (st, add_mset seg G) (drop_guard seg st, G)"
| s_read: "read_chunk_into crc env i off n cache st = (r, cache', st') \<Longrightarrow>
    store_step crc (st, G + cache_ms cache) (st', G + cache_ms cache')"
| s_verify: "verify_chunk crc env i st = (r, st') \<Longrightarrow> store_step crc (st, G) (st', G)"
| s_reserve_ids: "store_step crc (st, G) (reserve_ids_below n st, G)"
| s_budget: "store_step crc (st, G) (set_memory_budget b st, G)"
| s_external: "store_step crc (st, G) (reserve_external b st, G)"
| s_release_external: "store_step crc (st, G) (release_external b st, G)"

definition sys_ok :: "(byte list \<Rightarrow> 32 word) \<Rightarrow> store \<times> nat multiset \<Rightarrow> bool" where
  "sys_ok crc s \<longleftrightarrow> store_ok crc (fst s) \<and> guards_ok (snd s) (fst s)"

definition extends :: "store \<Rightarrow> store \<Rightarrow> bool" where
  "extends st st' \<longleftrightarrow> (\<forall>i d. chunk_data st i = Some d \<longrightarrow> chunk_data st' i = Some d)"

definition grows :: "store \<Rightarrow> store \<Rightarrow> bool" where
  "grows st st' \<longleftrightarrow> chunk_data st' = chunk_data st \<or>
     (\<exists>i xs. chunk_data st i = None \<and> chunk_data st' = (chunk_data st)(i \<mapsto> sanitize xs))"

lemma grows_extends: "grows st st' \<Longrightarrow> extends st st'"
  by (auto simp: grows_def extends_def)

lemma reserve_ids_ok:
  "store_ok crc st \<Longrightarrow> store_ok crc (reserve_ids_below n st) \<and>
   chunk_data (reserve_ids_below n st) = chunk_data st"
  by (auto simp: store_ok_def reserve_ids_below_def index_ok_def chunk_data_def fun_eq_iff)

lemma evict_to_budget_ok:
  assumes ok: "store_ok crc st"
  shows "store_ok crc (evict_to_budget st)" "chunk_data (evict_to_budget st) = chunk_data st"
    "guards_ok G st \<Longrightarrow> guards_ok G (evict_to_budget st)"
proof -
  have f: "frame st (evict_to_budget st)" by (simp add: evict_to_budget_def evict_frame)
  have "mem_ok (evict_to_budget st)"
    using ok evict_keeps(1) [of st 0] by (simp add: evict_to_budget_def store_ok_def)
  then show "store_ok crc (evict_to_budget st)" using frame_store_ok [OF f _ ok] by simp
  show "chunk_data (evict_to_budget st) = chunk_data st" by (rule frame_chunk_data [OF f])
  show "guards_ok G st \<Longrightarrow> guards_ok G (evict_to_budget st)" by (simp add: evict_to_budget_def evict_keeps)
qed

lemma knobs [simp]:
  "store_ok crc (st\<lparr>st_budget := b\<rparr>) = store_ok crc st" "store_ok crc (st\<lparr>st_external := x\<rparr>) = store_ok crc st"
  "chunk_data (st\<lparr>st_budget := b\<rparr>) = chunk_data st" "chunk_data (st\<lparr>st_external := x\<rparr>) = chunk_data st"
proof -
  have f: "frame st (st\<lparr>st_budget := b\<rparr>)" "frame st (st\<lparr>st_external := x\<rparr>)" by simp_all
  show "store_ok crc (st\<lparr>st_budget := b\<rparr>) = store_ok crc st" "store_ok crc (st\<lparr>st_external := x\<rparr>) = store_ok crc st"
    by (simp_all add: store_ok_def frame_oks [OF f(1)] frame_oks [OF f(2)])
  show "chunk_data (st\<lparr>st_budget := b\<rparr>) = chunk_data st" "chunk_data (st\<lparr>st_external := x\<rparr>) = chunk_data st"
    by (rule frame_chunk_data [OF f(1)], rule frame_chunk_data [OF f(2)])
qed

lemma verify_spec:
  assumes ok: "store_ok crc st" and v: "verify_chunk crc env i st = (r, st')"
  shows "store_ok crc st' \<and> chunk_data st' = chunk_data st \<and> (guards_ok G st \<longrightarrow> guards_ok G st')"
proof (cases "lookup_entry st i")
  case None
  with v ok show ?thesis by (simp add: verify_chunk_def)
next
  case (Some e)
  obtain r1 s1 where rd: "read_chunk crc env i 0 0 (set_chunk_state i Unverified st) = (r1, s1)" by fastforce
  with v Some have "st' = s1" by (auto simp: verify_chunk_def split: sum.splits)
  with read_chunk_spec [OF set_chunk_state_ok [OF ok, of Unverified i] rd, of G] show ?thesis by simp
qed

lemma store_step_spec:
  assumes "store_step crc s s'" "sys_ok crc s"
  shows "sys_ok crc s' \<and> grows (fst s) (fst s')"
  using assms
proof (induction rule: store_step.induct)
  case (s_commit env xs fid st r st' G)
  note a = commit_as_spec [OF _ s_commit(1), of G]
  from s_commit(2) have ok: "store_ok crc st" "guards_ok G st" by (simp_all add: sys_ok_def)
  note a = a [OF ok(1)]
  show ?case
  proof (cases r)
    case (Inl e)
    with a ok show ?thesis by (simp add: sys_ok_def grows_def)
  next
    case (Inr loc)
    with a ok show ?thesis by (auto simp: sys_ok_def grows_def)
  qed
next
  case (s_sync env st r st' G)
  then show ?case using sync_spec [OF _ s_sync(1), of crc G] by (simp add: sys_ok_def grows_def)
next
  case (s_acquire env seg st st' G)
  then have ok: "store_ok crc st" "mem_ok st" "guards_ok G st" by (simp_all add: sys_ok_def store_ok_def)
  note a = acquire_spec [OF s_acquire(1) ok(2), of G]
  then have "store_ok crc st'" "chunk_data st' = chunk_data st"
    using frame_store_ok [OF _ _ ok(1)] frame_chunk_data by blast+
  with a ok show ?case by (simp add: sys_ok_def grows_def)
next
  case (s_acquire_fails env seg st e st' G)
  then have ok: "store_ok crc st" "mem_ok st" "guards_ok G st" by (simp_all add: sys_ok_def store_ok_def)
  note a = acquire_spec [OF s_acquire_fails(1) ok(2), of G]
  then have "store_ok crc st'" "chunk_data st' = chunk_data st"
    using frame_store_ok [OF _ _ ok(1)] frame_chunk_data by blast+
  with a ok show ?case by (simp add: sys_ok_def grows_def)
next
  case (s_release st seg G)
  then have ok: "store_ok crc st" "mem_ok st" "guards_ok (add_mset seg G) st" by (simp_all add: sys_ok_def store_ok_def)
  note d = drop_guard_spec(1,2) [OF ok(2), of seg]
  have "store_ok crc (drop_guard seg st)" "chunk_data (drop_guard seg st) = chunk_data st"
    using frame_store_ok [OF d ok(1)] frame_chunk_data [OF d(1)] by blast+
  with drop_guard_last [OF ok(2,3)] show ?case by (simp add: sys_ok_def grows_def)
next
  case (s_read env i off n cache st r cache' st' G)
  then show ?case using read_into_spec [OF _ s_read(1), of G] by (simp add: sys_ok_def grows_def)
next
  case (s_verify env i st r st' G)
  then show ?case using verify_spec [OF _ s_verify(1), of G] by (simp add: sys_ok_def grows_def)
next
  case (s_reserve_ids st G n)
  then show ?case using reserve_ids_ok [of crc st n] by (simp add: sys_ok_def grows_def) (simp add: reserve_ids_below_def)
next
  case (s_budget st G b)
  then show ?case
    using evict_to_budget_ok [of crc "st\<lparr>st_budget := b\<rparr>"] by (simp add: sys_ok_def grows_def set_memory_budget_def)
next
  case (s_external st G b)
  then show ?case
    using evict_to_budget_ok [of crc "st\<lparr>st_external := st_external st + b\<rparr>"]
    by (simp add: sys_ok_def grows_def reserve_external_def)
next
  case (s_release_external st G b)
  then show ?case by (simp add: sys_ok_def grows_def release_external_def)
qed

lemma store_steps_spec:
  "(store_step crc)\<^sup>*\<^sup>* s s' \<Longrightarrow> sys_ok crc s \<Longrightarrow> sys_ok crc s' \<and> extends (fst s) (fst s')"
proof (induction rule: rtranclp_induct)
  case base
  then show ?case by (simp add: extends_def)
next
  case (step y z)
  then show ?case using store_step_spec [OF step(2)] grows_extends by (fastforce simp: extends_def)
qed

definition all_finite :: "store \<Rightarrow> bool" where
  "all_finite st \<longleftrightarrow> (\<forall>i d. chunk_data st i = Some d \<longrightarrow> (\<forall>s \<in> set d. is_finite s))"

lemma store_steps_finite:
  "(store_step crc)\<^sup>*\<^sup>* s s' \<Longrightarrow> sys_ok crc s \<Longrightarrow> all_finite (fst s) \<Longrightarrow> all_finite (fst s')"
proof (induction rule: rtranclp_induct)
  case (step y z)
  then have "sys_ok crc y" using store_steps_spec by blast
  from store_step_spec [OF step(2) this] have "grows (fst y) (fst z)" by blast
  moreover have "all_finite (fst y)" using step by blast
  ultimately show ?case by (auto simp: grows_def all_finite_def dest: sanitize_finite split: if_splits)
qed simp

section \<open>Reopening\<close>

lemma reopen_locs_snoc:
  "reopen_locs fl x (ls @ [l]) = (case reopen_locs fl x ls of (idx, nxt) \<Rightarrow>
     (idx[loc_id l := reopen_entry fl l],
      if loc_fits fl l then max nxt (loc_offset l + loc_len l * 4) else nxt))"
  by (simp add: reopen_locs_def split: prod.splits)

lemma reopen_locs_spec:
  assumes "reopen_locs fl (idx, nxt) ls = (idx', nxt')" "\<forall>l \<in> set ls. loc_id l < length idx"
  shows "length idx' = length idx \<and>
    (\<forall>i < length idx. (\<exists>l \<in> set ls. loc_id l = i \<and> idx' ! i = reopen_entry fl l) \<or>
       (\<forall>l \<in> set ls. loc_id l \<noteq> i) \<and> idx' ! i = idx ! i) \<and>
    (\<forall>l \<in> set ls. loc_fits fl l \<longrightarrow> chunk_end l \<le> nxt') \<and>
    (\<forall>b. nxt \<le> b \<and> (\<forall>l \<in> set ls. chunk_end l \<le> b) \<longrightarrow> nxt' \<le> b)"
  using assms
proof (induction ls arbitrary: idx' nxt' rule: rev_induct)
  case Nil
  then show ?case by (simp add: reopen_locs_def)
next
  case (snoc l ls)
  obtain i1 n1 where r: "reopen_locs fl (idx, nxt) ls = (i1, n1)" by fastforce
  with snoc.prems have e: "idx' = i1[loc_id l := reopen_entry fl l]"
    "nxt' = (if loc_fits fl l then max n1 (chunk_end l) else n1)"
    by (auto simp: reopen_locs_snoc chunk_end_def)
  have ih: "length i1 = length idx"
    "\<And>i. i < length idx \<Longrightarrow> (\<exists>l \<in> set ls. loc_id l = i \<and> i1 ! i = reopen_entry fl l) \<or>
       (\<forall>l \<in> set ls. loc_id l \<noteq> i) \<and> i1 ! i = idx ! i"
    "\<And>l. l \<in> set ls \<Longrightarrow> loc_fits fl l \<Longrightarrow> chunk_end l \<le> n1"
    "\<And>b. nxt \<le> b \<Longrightarrow> \<forall>l \<in> set ls. chunk_end l \<le> b \<Longrightarrow> n1 \<le> b"
    using snoc.IH [OF r] snoc.prems(2) by auto
  show ?case
  proof (intro conjI allI impI)
    show "length idx' = length idx" using ih(1) by (simp add: e)
    fix i assume i: "i < length idx"
    show "(\<exists>l' \<in> set (ls @ [l]). loc_id l' = i \<and> idx' ! i = reopen_entry fl l') \<or>
       (\<forall>l' \<in> set (ls @ [l]). loc_id l' \<noteq> i) \<and> idx' ! i = idx ! i"
      using ih(1) ih(2) [OF i] i by (cases "loc_id l = i") (auto simp: e)
  next
    show "\<forall>l' \<in> set (ls @ [l]). loc_fits fl l' \<longrightarrow> chunk_end l' \<le> nxt'"
      using ih(3) by (fastforce simp: e)
  next
    fix b assume "nxt \<le> b \<and> (\<forall>l' \<in> set (ls @ [l]). chunk_end l' \<le> b)"
    then show "nxt' \<le> b" using ih(4) by (simp add: e)
  qed
qed

definition journaled_in :: "store \<Rightarrow> chunk_location list \<Rightarrow> bool" where
  "journaled_in st ls \<longleftrightarrow> (\<forall>l \<in> set ls. location st (loc_id l) = Some l)"

definition agrees :: "(nat \<Rightarrow> byte) \<Rightarrow> (nat \<Rightarrow> byte) \<Rightarrow> chunk_location \<Rightarrow> bool" where
  "agrees f g l \<longleftrightarrow> (\<forall>a. loc_offset l \<le> a \<and> a < chunk_end l \<longrightarrow> f a = g a)"

lemma agrees_read: "agrees f g l \<Longrightarrow> read_bytes f (loc_offset l) (loc_len l * 4) = read_bytes g (loc_offset l) (loc_len l * 4)"
  by (auto simp: agrees_def read_bytes_def chunk_end_def)

lemma entry_fits:
  assumes "store_ok crc st" "location st i = Some l"
  shows "loc_fits (st_segments st * segment_bytes) l \<and> loc_id l = i \<and> chunk_end l \<le> st_segments st * segment_bytes"
proof -
  from assms(2) obtain e where e: "lookup_entry st i = Some e" "l = ce_loc e" by (auto simp: location_def)
  with assms(1) have ok: "entry_ok crc st i e" by (simp add: store_ok_def index_ok_def)
  have "st_next_offset st \<le> st_segments st * segment_bytes" using assms(1) by (simp add: store_ok_def alloc_ok_def)
  with ok e show ?thesis by (auto simp: entry_ok_def loc_fits_def Let_def chunk_end_def)
qed

lemma reopen_spec:
  assumes ok: "store_ok crc st" and ls: "journaled_in st ls" and img: "\<forall>l \<in> set ls. agrees img (st_file st) l"
    and segs: "st_segments st \<le> u32_max"
  shows "\<exists>st'. open_existing img (st_segments st * segment_bytes) budget ls = Inr st' \<and> store_ok crc st' \<and>
    (\<forall>i. chunk_data st' i = (if i \<in> loc_id ` set ls then chunk_data st i else None)) \<and>
    (\<forall>i. location st' i = (if i \<in> loc_id ` set ls then location st i else None))"
proof -
  define fl where "fl = st_segments st * segment_bytes"
  define n where "n = unwrap_or (iter_max (map (\<lambda>l. loc_id l + 1) ls)) 0"
  obtain idx nxt where r: "reopen_locs fl (map chunk_hole [0 ..< n], 0) ls = (idx, nxt)" by fastforce
  define st' where "st' = \<lparr>st_file = img, st_disk = img, st_next_offset = nxt, st_segments = st_segments st,
      st_slots = replicate (st_segments st) fresh_slot, st_tick = 0, st_tail = None,
      st_index = idx, st_budget = budget, st_mapped = 0, st_external = 0, st_peak = 0, st_unreserved = 0\<rparr>"
  have op: "open_existing img (st_segments st * segment_bytes) budget ls = Inr st'"
    using segs r by (simp add: open_existing_def Let_def fl_def n_def st'_def)
  have n: "loc_id l < n" if "l \<in> set ls" for l
    using that iter_max_ge [of "loc_id l + 1" "map (\<lambda>l. loc_id l + 1) ls" 0] by (simp add: n_def)
  have "\<forall>l \<in> set ls. loc_id l < length (map chunk_hole [0 ..< n])" using n by simp
  note a = reopen_locs_spec [OF r this]
  have fit: "loc_fits fl l" "location st (loc_id l) = Some l" if "l \<in> set ls" for l
    using that ls entry_fits [OF ok] by (auto simp: journaled_in_def fl_def)
  have s1: "length idx = n" using a by simp
  have s2: "(\<exists>l \<in> set ls. loc_id l = i \<and> idx ! i = reopen_entry fl l) \<or>
       (\<forall>l \<in> set ls. loc_id l \<noteq> i) \<and> idx ! i = chunk_hole i" if "i < n" for i
    using a that by simp
  have s3: "chunk_end l \<le> nxt" if "l \<in> set ls" for l using a fit(1) that by blast
  have "\<forall>l \<in> set ls. chunk_end l \<le> fl"
    using ls entry_fits [OF ok] unfolding journaled_in_def fl_def by blast
  then have s4: "nxt \<le> fl" using a by blast
  have look: "lookup_entry st' i = (if i \<in> loc_id ` set ls
      then map_option (\<lambda>e. e\<lparr>ce_state := Unverified\<rparr>) (lookup_entry st i) else None)" for i
  proof (cases "i \<in> loc_id ` set ls")
    case True
    then obtain l0 where l0: "l0 \<in> set ls" "loc_id l0 = i" by auto
    with s2 n obtain l where l: "l \<in> set ls" "loc_id l = i" "idx ! i = reopen_entry fl l" by fastforce
    from fit [OF l(1)] l(2) obtain e where e: "lookup_entry st i = Some e" "l = ce_loc e"
      by (auto simp: location_def)
    have "loc_len l \<noteq> 0" using fit [OF l(1)] by (auto simp: loc_fits_def Let_def)
    moreover have "i < length idx" using n [OF l(1)] l(2) s1 by simp
    ultimately have "lookup_entry st' i = Some \<lparr>ce_loc = l, ce_state = Unverified\<rparr>"
      using l(3) fit(1) [OF l(1)] by (simp add: lookup_entry_def st'_def reopen_entry_def is_hole_def)
    with e True show ?thesis by simp
  next
    case False
    have "is_hole (idx ! i)" if "i < n" using s2 [OF that] False by auto
    with False s1 show ?thesis by (auto simp: lookup_entry_def st'_def)
  qed
  have rd: "read_bytes img (loc_offset (ce_loc e)) (loc_len (ce_loc e) * 4) =
      read_bytes (st_file st) (loc_offset (ce_loc e)) (loc_len (ce_loc e) * 4)"
    and en: "chunk_end (ce_loc e) \<le> nxt"
    if "lookup_entry st i = Some e" "i \<in> loc_id ` set ls" for i e
  proof -
    from that(2) obtain x where x: "x \<in> set ls" "i = loc_id x" by auto
    with fit(2) [OF x(1)] that(1) have "ce_loc e \<in> set ls" by (auto simp: location_def)
    with img s3 show "read_bytes img (loc_offset (ce_loc e)) (loc_len (ce_loc e) * 4) =
      read_bytes (st_file st) (loc_offset (ce_loc e)) (loc_len (ce_loc e) * 4)" "chunk_end (ce_loc e) \<le> nxt"
      by (auto intro: agrees_read)
  qed
  have f: "st_file st' = img" by (simp add: st'_def)
  have "entry_ok crc st' i (e\<lparr>ce_state := Unverified\<rparr>)"
    if "lookup_entry st i = Some e" "i \<in> loc_id ` set ls" for i e
  proof -
    have "entry_ok crc st i e" using ok that by (simp add: store_ok_def index_ok_def)
    then show ?thesis using rd [OF that] en [OF that] by (simp add: entry_ok_def Let_def st'_def)
  qed
  then have "index_ok crc st'"
    using ok by (auto simp: index_ok_def look store_ok_def split: if_splits)
  moreover have "mem_ok st'" by (simp add: mem_ok_def st'_def mapped_count_def)
  moreover have "alloc_ok st'" using s4 by (simp add: alloc_ok_def st'_def fl_def)
  moreover have "durable_ok st'" by (simp add: durable_ok_def st'_def)
  ultimately have "store_ok crc st'" by (simp add: store_ok_def)
  moreover have "chunk_data st' i = (if i \<in> loc_id ` set ls then chunk_data st i else None)" for i
    using rd by (cases "lookup_entry st i") (auto simp: chunk_data_def look f)
  moreover have "location st' i = (if i \<in> loc_id ` set ls then location st i else None)" for i
    by (cases "lookup_entry st i") (auto simp: location_def look)
  ultimately show ?thesis using op by blast
qed

section \<open>Committed bytes are never touched\<close>

definition keeps :: "store \<Rightarrow> store \<Rightarrow> bool" where
  "keeps st st' \<longleftrightarrow> (\<forall>i l. location st i = Some l \<longrightarrow> location st' i = Some l) \<and>
     (\<forall>a < st_next_offset st. st_file st' a = st_file st a) \<and>
     (\<forall>a < st_next_offset st. st_disk st a = st_file st a \<longrightarrow> st_disk st' a = st_file st' a) \<and>
     st_next_offset st \<le> st_next_offset st'"

lemma keeps_refl [simp]: "keeps st st"
  by (simp add: keeps_def)

lemma keeps_trans: "keeps a b \<Longrightarrow> keeps b c \<Longrightarrow> keeps a c"
  unfolding keeps_def by (metis order_less_le_trans order_trans)

lemma frame_keeps: "frame st st' \<Longrightarrow> keeps st st'"
  by (simp add: keeps_def location_def frame_lookup) (simp add: frame_def)

lemma reserve_same:
  assumes "reserve env b st = (r, st')"
  shows "st_file st' = st_file st \<and> st_disk st' = st_disk st \<and> st_index st' = st_index st"
proof -
  have "\<exists>seg r1 s1. create_segments env seg st = (r1, s1) \<and> st_file st' = st_file s1 \<and> st_disk st' = st_disk s1 \<and>
      st_index st' = st_index s1 \<or> st' = st"
    using assms by (force simp: reserve_def Let_def split: if_splits prod.splits sum.splits)
  then show ?thesis using create_segments_spec by fastforce
qed

lemma commit_keeps:
  assumes ok: "store_ok crc st" and c: "commit_chunk_as crc env xs fid st = (r, st')"
  shows "keeps st st'"
proof (cases "xs = [] \<or> length xs > chunk_samples")
  case True
  with c show ?thesis by (auto simp: commit_chunk_as_def validate_chunk_len_def)
next
  case False
  define ys where "ys = sanitize xs"
  have len: "0 < length ys * 4" "length ys * 4 \<le> segment_bytes"
    using False by (auto simp: ys_def chunk_samples_def segment_bytes_def)
  have c: "commit_chunk_bytes crc env ys fid st = (r, st')"
    using c False by (simp add: commit_chunk_as_def validate_chunk_len_def ys_def)
  obtain r1 st1 where r1: "reserve env (length ys * 4) st = (r1, st1)" by fastforce
  note s1 = reserve_spec [OF ok len r1] and f1 = reserve_same [OF r1]
  show ?thesis
  proof (cases r1)
    case (Inl e)
    with c r1 have "st' = st1" by (auto simp: commit_eq)
    moreover have "st_next_offset st1 = st_next_offset st"
      using r1 Inl create_segments_spec
      by (force simp: reserve_def Let_def split: if_splits prod.splits sum.splits)
    ultimately show ?thesis using f1 by (simp add: keeps_def location_def lookup_entry_def)
  next
    case (Inr x)
    obtain off seg where x: "x = (off, seg)" by fastforce
    with s1 Inr have off: "st_next_offset st \<le> off" "st_next_offset st1 = off + length ys * 4" by auto
    have k1: "location st1 i = location st i" for i using f1 by (simp add: location_def lookup_entry_def)
    obtain r2 st2 where a: "acquire_segment env seg st1 = (r2, st2)" by fastforce
    have m1: "mem_ok st1" using s1 by (simp add: store_ok_def)
    have fr: "frame st1 st2" using acquire_spec [OF a m1] by blast
    have k2: "location st2 i = location st i" "st_file st2 = st_file st" "st_disk st2 = st_disk st"
      "st_next_offset st2 = off + length ys * 4" for i
      using fr k1 [of i] f1 off by (simp_all add: location_def frame_lookup) (simp_all add: frame_def)
    show ?thesis
    proof (cases r2)
      case (Inl e)
      with c r1 \<open>r1 = Inr x\<close> x a have "st' = st2" by (auto simp: commit_eq)
      then show ?thesis using k2 off by (simp add: keeps_def)
    next
      case (Inr u)
      define st5 where "st5 = drop_guard seg (write_chunk seg off (le_bytes ys) st2)"
      have l5: "lookup_entry st5 i = lookup_entry st2 i" for i
        by (simp add: st5_def drop_guard_def write_chunk_def Let_def lookup_entry_def)
      have k5: "location st5 i = location st i" "st_file st5 = write_bytes (st_file st) off (le_bytes ys)"
        "st_disk st5 = st_disk st" "st_next_offset st5 = off + length ys * 4" for i
        using k2 by (simp_all add: location_def l5) (simp_all add: st5_def drop_guard_def write_chunk_def Let_def)
      have "keeps st st5" using k5 off by (auto simp: keeps_def write_bytes_def)
      moreover have p: "publish fid (\<lambda>i. \<lparr>loc_id = i, loc_offset = off, loc_len = length ys, loc_crc = crc (le_bytes ys)\<rparr>) st5 = (r, st')"
        using c r1 \<open>r1 = Inr x\<close> x a Inr by (simp add: commit_eq st5_def)
      have "keeps st5 st'"
      proof (cases rule: publish_cases [OF p])
        case 1
        then show ?case using len by simp
      next
        case (2 e ix)
        then show ?thesis by (simp add: keeps_def location_def) 
      next
        case (3 i ix)
        then show ?thesis by (auto simp: keeps_def location_def)
      qed
      ultimately show ?thesis by (rule keeps_trans)
    qed
  qed
qed

lemma evict_to_budget_frame: "frame st (evict_to_budget st)"
  by (simp add: evict_to_budget_def evict_frame)

lemma location_set_state [simp]: "location (set_chunk_state i s st) j = location st j"
  by (cases "lookup_entry st i") (auto simp: location_def lookup_set_state)

lemma set_state_keeps: "keeps st (set_chunk_state i s st)"
  by (simp add: keeps_def) (simp add: set_chunk_state_def)

lemma read_into_keeps:
  assumes ok: "store_ok crc st" and rd: "read_chunk_into crc env i off n cache st = (r, cache', st')"
  shows "keeps st st'"
proof (cases "lookup_entry st i")
  case None
  with rd show ?thesis by (simp add: read_chunk_into_def)
next
  case (Some e)
  let ?seg = "loc_offset (ce_loc e) div segment_bytes"
  obtain r1 c1 s1 where sw: "switch_guard env ?seg cache st = (r1, c1, s1)" by (metis prod_cases3)
  have k: "keeps st s1" using switch_guard_spec [OF sw ok] frame_keeps by blast
  have "st' \<in> {st, s1, set_chunk_state i Corrupt s1, set_chunk_state i Verified s1}"
    using rd Some sw by (auto simp: read_chunk_into_def Let_def split: if_splits sum.splits)
  with k keeps_trans [OF k set_state_keeps] show ?thesis by auto
qed

lemma verify_keeps:
  assumes ok: "store_ok crc st" and v: "verify_chunk crc env i st = (r, st')"
  shows "keeps st st'"
proof (cases "lookup_entry st i")
  case None
  with v show ?thesis by (simp add: verify_chunk_def)
next
  case (Some e)
  define s0 where "s0 = set_chunk_state i Unverified st"
  have ok0: "store_ok crc s0" unfolding s0_def by (rule set_chunk_state_ok [OF ok]) simp
  obtain r1 c1 s1 where rd: "read_chunk_into crc env i 0 0 None s0 = (r1, c1, s1)" by (metis prod_cases3)
  have ok1: "mem_ok s1" using read_into_spec [OF ok0 rd] by (simp add: store_ok_def)
  have "st' = drop_cache c1 s1"
    using v Some rd by (auto simp: verify_chunk_def read_chunk_def s0_def split: sum.splits)
  moreover have "keeps s1 (drop_cache c1 s1)"
    using drop_guard_spec(1) [OF ok1] by (auto simp: drop_cache_def intro: frame_keeps split: option.splits)
  ultimately show ?thesis
    using keeps_trans [OF read_into_keeps [OF ok0 rd]] keeps_trans [OF set_state_keeps [of st i Unverified]]
    by (simp add: s0_def)
qed

lemma store_step_keeps:
  assumes "store_step crc s s'" "sys_ok crc s"
  shows "keeps (fst s) (fst s')"
  using assms
proof (induction rule: store_step.induct)
  case (s_commit env xs fid st r st' G)
  then show ?case using commit_keeps [OF _ s_commit(1)] by (simp add: sys_ok_def)
next
  case (s_sync env st r st' G)
  have ok: "store_ok crc st" using s_sync(2) by (simp add: sys_ok_def)
  from sync_spec [OF ok s_sync(1)] show ?case
    using s_sync(1) by (auto simp: keeps_def location_def lookup_entry_def sync_store_def Let_def split: option.splits)
next
  case (s_acquire env seg st st' G)
  then show ?case using acquire_spec [OF s_acquire(1)] frame_keeps by (auto simp: sys_ok_def store_ok_def)
next
  case (s_acquire_fails env seg st e st' G)
  then show ?case using acquire_spec [OF s_acquire_fails(1)] frame_keeps by (auto simp: sys_ok_def store_ok_def)
next
  case (s_release st seg G)
  then show ?case using drop_guard_spec(1) [of st seg] frame_keeps by (simp add: sys_ok_def store_ok_def)
next
  case (s_read env i off n cache st r cache' st' G)
  then show ?case using read_into_keeps [OF _ s_read(1)] by (simp add: sys_ok_def)
next
  case (s_verify env i st r st' G)
  then show ?case using verify_keeps [OF _ s_verify(1)] by (simp add: sys_ok_def)
next
  case (s_reserve_ids st G n)
  have "lookup_entry (reserve_ids_below n st) i = lookup_entry st i" for i by (simp add: reserve_ids_below_def)
  then show ?case by (simp add: keeps_def location_def) (simp add: reserve_ids_below_def)
next
  case (s_budget st G b)
  have "frame st (set_memory_budget b st)"
    using evict_to_budget_frame [of "st\<lparr>st_budget := b\<rparr>"] by (simp add: set_memory_budget_def frame_def)
  then show ?case by (simp add: frame_keeps)
next
  case (s_external st G b)
  have "frame st (reserve_external b st)"
    using evict_to_budget_frame [of "st\<lparr>st_external := st_external st + b\<rparr>"]
    by (simp add: reserve_external_def frame_def)
  then show ?case by (simp add: frame_keeps)
next
  case (s_release_external st G b)
  have "frame st (release_external b st)" by (simp add: release_external_def)
  then show ?case by (simp add: frame_keeps)
qed

lemma store_steps_keep:
  "(store_step crc)\<^sup>*\<^sup>* s s' \<Longrightarrow> sys_ok crc s \<Longrightarrow> keeps (fst s) (fst s')"
proof (induction rule: rtranclp_induct)
  case (step y z)
  with store_steps_spec [OF step(1)] show ?case by (blast intro: keeps_trans store_step_keeps)
qed simp

lemma sys_ok_create: "sys_ok crc (store_create budget, {#})"
  using store_ok_create [of crc budget] by (simp add: sys_ok_def guards_ok_def) (simp add: store_create_def)

section \<open>A concrete run\<close>

definition calm_env :: store_env where
  "calm_env = \<lparr>env_hook = (\<lambda>_. None), env_prealloc = (\<lambda>_. Inr Reserved), env_mmap = (\<lambda>_. None),
     env_flush = (\<lambda>_. None), env_fdatasync = None\<rparr>"

definition sum_crc :: "byte list \<Rightarrow> 32 word" where
  "sum_crc bs = sum_list (map ucast bs)"

definition example_samples :: "f32 list" where
  "example_samples = [0x3F800000, 0x7FC00000]"

definition example_commit :: "(project_error + chunk_location) \<times> store" where
  "example_commit = commit_chunk sum_crc calm_env example_samples (store_create 0)"

lemma example_commit_eval:
  "fst example_commit = Inr \<lparr>loc_id = 0, loc_offset = 0, loc_len = 2, loc_crc = 191\<rparr> \<and>
   st_index (snd example_commit) =
     [\<lparr>ce_loc = \<lparr>loc_id = 0, loc_offset = 0, loc_len = 2, loc_crc = 191\<rparr>, ce_state = Unverified\<rparr>] \<and>
   st_segments (snd example_commit) = 1 \<and> st_tail (snd example_commit) = Some 0 \<and>
   length (st_slots (snd example_commit)) = 1"
proof -
  have fin: "is_finite 0x3F800000" "\<not> is_finite 0x7FC00000" by (simp_all add: is_finite_def)
  then have s: "sanitize example_samples = [0x3F800000, 0]" by (simp add: sanitize_def example_samples_def)
  have b: "le_bytes [0x3F800000, 0] = [0, 0, 0x80, 0x3F, 0, 0, 0, 0]"
    by (simp add: le_bytes_def f32_le_def ucast_drop_bit_eq)
  have v: "validate_chunk_len example_samples = Inr ()"
    by (simp add: validate_chunk_len_def example_samples_def chunk_samples_def)
  show ?thesis
    by (simp add: example_commit_def commit_chunk_def commit_chunk_as_def v s commit_chunk_bytes_def b
        reserve_def Let_def store_create_def next_multiple_of_def u32_max_def segment_bytes_def
        create_segments.simps create_segment_def calm_env_def acquire_segment_def
        evict_locked.simps resident_def victim_def min_by_last_use_def evictable_def publish_def sum_crc_def
        drop_guard_def note_peak_def)
qed

abbreviation example_store :: store where
  "example_store \<equiv> snd example_commit"

lemma example_commit_eq:
  "commit_chunk sum_crc calm_env example_samples (store_create 0) =
     (Inr \<lparr>loc_id = 0, loc_offset = 0, loc_len = 2, loc_crc = 191\<rparr>, example_store)"
  using example_commit_eval by (simp add: prod_eq_iff flip: example_commit_def)

lemma example_reach: "(store_step sum_crc)\<^sup>*\<^sup>* (store_create 0, {#}) (example_store, {#})"
  by (rule r_into_rtranclp, rule s_commit)
     (rule example_commit_eq [unfolded commit_chunk_def])

lemma example_sys: "sys_ok sum_crc (example_store, {#})"
  using store_steps_spec [OF example_reach sys_ok_create] by blast

lemma example_location: "location example_store 0 = Some \<lparr>loc_id = 0, loc_offset = 0, loc_len = 2, loc_crc = 191\<rparr>"
  by (simp add: location_def lookup_entry_def example_commit_eval is_hole_def)

lemma example_read: "fst (read_chunk sum_crc calm_env 0 0 2 example_store) = Inr [0x3F800000, 0]"
proof -
  have "chunk_data example_store 0 = Some (sanitize example_samples)"
    using commit_as_spec [OF store_ok_create example_commit_eq [unfolded commit_chunk_def]] by simp
  moreover have "sanitize example_samples = [0x3F800000, 0]"
    by (simp add: sanitize_def example_samples_def is_finite_def)
  moreover have "store_ok sum_crc example_store" using example_sys by (simp add: sys_ok_def)
  ultimately show ?thesis
    using read_chunk_spec [of sum_crc example_store calm_env 0 0 2] by (fastforce simp: calm_env_def prod_eq_iff)
qed

section \<open>Properties\<close>

text \<open>C10: In every state the store can reach, a segment some guard is held on is mapped, the resident
  counter is exact, every committed chunk starts 4 KiB-aligned inside one segment of the preallocated
  file, no two chunks overlap, and each chunk's bytes still match its checksum.\<close>

theorem reachable_store_ok:
  assumes "(store_step crc)\<^sup>*\<^sup>* (store_create budget, {#}) (st, G)"
  shows "(\<forall>g \<in># G. g < length (st_slots st) \<and> sg_map (st_slots st ! g) = Some (Suc (count G g))) \<and>
    st_mapped st = segment_bytes * length (filter (\<lambda>s. sg_map s \<noteq> None) (st_slots st)) \<and>
    (\<forall>i loc. location st i = Some loc \<longrightarrow> loc_id loc = i \<and> 4096 dvd loc_offset loc \<and>
       1 \<le> loc_len loc \<and> loc_len loc \<le> chunk_samples \<and>
       loc_offset loc + loc_len loc * 4 \<le> st_segments st * segment_bytes \<and>
       loc_offset loc div segment_bytes = (loc_offset loc + loc_len loc * 4 - 1) div segment_bytes \<and>
       crc (read_bytes (st_file st) (loc_offset loc) (loc_len loc * 4)) = loc_crc loc) \<and>
    (\<forall>i j k l. location st i = Some k \<and> location st j = Some l \<and> i \<noteq> j \<longrightarrow>
       loc_offset k + loc_len k * 4 \<le> loc_offset l \<or> loc_offset l + loc_len l * 4 \<le> loc_offset k)"
proof -
  have s: "sys_ok crc (st, G)" using store_steps_spec [OF assms sys_ok_create] by blast
  then have ok: "store_ok crc st" and g: "guards_ok G st" by (simp_all add: sys_ok_def)
  have "\<forall>g \<in># G. g < length (st_slots st) \<and> sg_map (st_slots st ! g) = Some (Suc (count G g))"
  proof
    fix x assume x: "x \<in># G"
    with g have l: "x < length (st_slots st)" by (simp add: guards_ok_def)
    moreover have "count G x \<noteq> 0" using x by simp
    ultimately show "x < length (st_slots st) \<and> sg_map (st_slots st ! x) = Some (Suc (count G x))"
      using g unfolding guards_ok_def by metis
  qed
  moreover have "st_mapped st = segment_bytes * length (filter (\<lambda>s. sg_map s \<noteq> None) (st_slots st))"
    using ok by (simp add: store_ok_def mem_ok_def mapped_count_def)
  moreover have "loc_id loc = i \<and> 4096 dvd loc_offset loc \<and> 1 \<le> loc_len loc \<and> loc_len loc \<le> chunk_samples \<and>
       loc_offset loc + loc_len loc * 4 \<le> st_segments st * segment_bytes \<and>
       loc_offset loc div segment_bytes = (loc_offset loc + loc_len loc * 4 - 1) div segment_bytes \<and>
       crc (read_bytes (st_file st) (loc_offset loc) (loc_len loc * 4)) = loc_crc loc"
    if "location st i = Some loc" for i loc
  proof -
    from that obtain e where e: "lookup_entry st i = Some e" "loc = ce_loc e" by (auto simp: location_def)
    with ok have "entry_ok crc st i e" by (simp add: store_ok_def index_ok_def)
    moreover have "chunk_end loc \<le> st_segments st * segment_bytes" using entry_fits [OF ok that] by blast
    ultimately show ?thesis using e by (simp add: entry_ok_def chunk_end_def chunk_align_bytes_def Let_def)
  qed
  moreover have "loc_offset k + loc_len k * 4 \<le> loc_offset l \<or> loc_offset l + loc_len l * 4 \<le> loc_offset k"
    if "location st i = Some k" "location st j = Some l" "i \<noteq> j" for i j k l
  proof -
    from that obtain d e where "lookup_entry st i = Some d" "k = ce_loc d" "lookup_entry st j = Some e" "l = ce_loc e"
      by (auto simp: location_def)
    with ok \<open>i \<noteq> j\<close> have "disjoint_locs k l" unfolding store_ok_def index_ok_def by blast
    then show ?thesis by (simp add: disjoint_locs_def chunk_end_def)
  qed
  ultimately show ?thesis by blast
qed


theorem reachable_store_ok_witness:
  "4096 dvd loc_offset (the (location example_store 0)) \<and>
   st_mapped example_store = segment_bytes * length (filter (\<lambda>s. sg_map s \<noteq> None) (st_slots example_store))"
  using reachable_store_ok [OF example_reach] example_location by simp

text \<open>C9: A committed chunk reads back, from any later state of the store, as the samples that were
  committed with every NaN and infinity replaced by silence.\<close>

theorem committed_chunk_reads_back:
  assumes "(store_step crc)\<^sup>*\<^sup>* (store_create budget, {#}) (st, G)"
    and "commit_chunk crc env xs st = (Inr loc, st1)" and "(store_step crc)\<^sup>*\<^sup>* (st1, G) (st2, G2)"
    and "\<forall>seg. env_mmap env2 seg = None" and "off + n \<le> length xs"
    and "read_chunk crc env2 (loc_id loc) off n st2 = (r, st3)"
  shows "r = Inr (take n (drop off (map (\<lambda>s. if is_finite s then s else 0) xs)))"
proof -
  have s: "sys_ok crc (st, G)" using store_steps_spec [OF assms(1) sys_ok_create] by blast
  then have ok: "store_ok crc st" by (simp add: sys_ok_def)
  have c: "commit_chunk_as crc env xs None st = (Inr loc, st1)" using assms(2) by (simp add: commit_chunk_def)
  note cs = commit_as_spec [OF ok c, of G]
  then have s1: "sys_ok crc (st1, G)" using s by (simp add: sys_ok_def)
  from store_steps_spec [OF assms(3) s1] have "store_ok crc st2" "extends st1 st2" by (auto simp: sys_ok_def)
  moreover have "chunk_data st1 (loc_id loc) = Some (sanitize xs)" using cs by simp
  ultimately have d: "chunk_data st2 (loc_id loc) = Some (sanitize xs)" and ok2: "store_ok crc st2"
    by (auto simp: extends_def)
  from read_chunk_spec [OF ok2 assms(6)] d assms(4,5) show ?thesis by (auto simp: sanitize_eq)
qed

theorem committed_chunk_reads_back_witness:
  "fst (read_chunk sum_crc calm_env 0 1 1 example_store) = Inr [0]"
  using committed_chunk_reads_back [OF rtranclp.rtrancl_refl example_commit_eq rtranclp.rtrancl_refl,
      of calm_env 1 1 "fst (read_chunk sum_crc calm_env 0 1 1 example_store)"
        "snd (read_chunk sum_crc calm_env 0 1 1 example_store)"]
  by (simp add: calm_env_def example_samples_def is_finite_def)

text \<open>No sample of the store is NaN or infinite, whatever the writers handed in.\<close>

theorem stored_samples_finite:
  assumes "(store_step crc)\<^sup>*\<^sup>* (store_create budget, {#}) (st, G)"
    and "read_chunk crc env i off n st = (Inr xs, st')"
  shows "\<forall>s \<in> set xs. is_finite s"
proof -
  have "all_finite (store_create budget)" by (simp add: all_finite_def chunk_data_def lookup_entry_def store_create_def)
  then have f: "all_finite st" using store_steps_finite [OF assms(1) sys_ok_create] by simp
  have "store_ok crc st" using store_steps_spec [OF assms(1) sys_ok_create] by (simp add: sys_ok_def)
  from read_chunk_spec [OF this assms(2)] obtain d where "chunk_data st i = Some d" "xs = take n (drop off d)" by blast
  with f show ?thesis by (auto simp: all_finite_def dest!: in_set_takeD in_set_dropD)
qed

theorem stored_samples_finite_witness:
  "is_finite 0x3F800000 \<and> fst (read_chunk sum_crc calm_env 0 0 2 example_store) = Inr [0x3F800000, 0]"
  using stored_samples_finite [OF example_reach, of calm_env 0 0 2 "[0x3F800000, 0]"
      "snd (read_chunk sum_crc calm_env 0 0 2 example_store)"] example_read
  by (simp add: prod_eq_iff)

text \<open>C8: A chunk committed before a successful \<open>sync\<close> survives a crash at any later moment, even if the
  operating system had written back any part of the pages dirtied since: reopening the chunk file
  with the journaled location gives back exactly its samples.\<close>

theorem synced_chunk_survives_crash:
  assumes "(store_step crc)\<^sup>*\<^sup>* (store_create budget, {#}) (st, G)"
    and "sync_store env st = (Inr (), st1)" and "(store_step crc)\<^sup>*\<^sup>* (st1, G) (st2, G2)"
    and "\<forall>a. img a = st_disk st2 a \<or> img a = st_file st2 a"
    and "\<forall>l \<in> set ls. location st (loc_id l) = Some l" and "st_segments st2 \<le> u32_max"
  shows "\<exists>st3. open_existing img (st_segments st2 * segment_bytes) budget2 ls = Inr st3 \<and>
    (\<forall>l \<in> set ls. location st3 (loc_id l) = Some l \<and> chunk_data st (loc_id l) \<noteq> None \<and>
       chunk_data st3 (loc_id l) = chunk_data st (loc_id l))"
proof -
  have s: "sys_ok crc (st, G)" using store_steps_spec [OF assms(1) sys_ok_create] by blast
  then have ok: "store_ok crc st" by (simp add: sys_ok_def)
  note sy = sync_spec [OF ok assms(2), of G]
  have s1: "sys_ok crc (st1, G)" using s sy by (simp add: sys_ok_def)
  then have ok1: "store_ok crc st1" by (simp add: sys_ok_def)
  have loc1: "location st1 i = location st i" for i using sy by (simp add: location_def lookup_entry_def)
  have k: "keeps st1 st2" and e: "extends st1 st2" and ok2: "store_ok crc st2"
    using store_steps_keep [OF assms(3) s1] store_steps_spec [OF assms(3) s1] by (auto simp: sys_ok_def)
  have j: "journaled_in st2 ls" using assms(5) k by (auto simp: journaled_in_def keeps_def loc1)
  have "agrees img (st_file st2) l" if "l \<in> set ls" for l
  proof -
    from that assms(5) have "location st1 (loc_id l) = Some l" by (simp add: loc1)
    then obtain d where "lookup_entry st1 (loc_id l) = Some d" "l = ce_loc d"
      unfolding location_def by blast
    moreover have "\<forall>i d. lookup_entry st1 i = Some d \<longrightarrow> entry_ok crc st1 i d"
      using ok1 by (simp add: store_ok_def index_ok_def)
    ultimately have "entry_ok crc st1 (loc_id l) d" by blast
    then have "chunk_end l \<le> st_next_offset st1" by (simp add: entry_ok_def Let_def \<open>l = ce_loc d\<close>)
    then have "img a = st_file st2 a" if "a < chunk_end l" for a
    proof -
      have "a < st_next_offset st1" using that \<open>chunk_end l \<le> _\<close> by simp
      moreover have "st_disk st1 a = st_file st1 a" using sy by simp
      ultimately have "st_disk st2 a = st_file st2 a" using k by (simp add: keeps_def)
      with assms(4) show ?thesis by metis
    qed
    then show ?thesis by (simp add: agrees_def)
  qed
  from reopen_spec [OF ok2 j _ assms(6), of img budget2] this obtain st3 where
    r: "open_existing img (st_segments st2 * segment_bytes) budget2 ls = Inr st3"
      "\<forall>i. chunk_data st3 i = (if i \<in> loc_id ` set ls then chunk_data st2 i else None)"
      "\<forall>i. location st3 i = (if i \<in> loc_id ` set ls then location st2 i else None)" by blast
  have "chunk_data st (loc_id l) \<noteq> None" if "l \<in> set ls" for l
    using that assms(5) by (auto simp: chunk_data_def location_def)
  moreover have "chunk_data st2 i = chunk_data st i" if "chunk_data st i \<noteq> None" for i
    using that e sy by (auto simp: extends_def)
  ultimately show ?thesis using r j by (auto simp: journaled_in_def)
qed

theorem synced_chunk_survives_crash_witness:
  "\<exists>st3. open_existing (st_disk (snd (sync_store calm_env example_store))) segment_bytes 0
      [the (location example_store 0)] = Inr st3 \<and> chunk_data st3 0 = chunk_data example_store 0"
proof -
  have "fst (sync_store calm_env example_store) = Inr ()"
    by (auto simp: sync_store_def calm_env_def Let_def first_error_None split: option.splits)
  then have sy: "sync_store calm_env example_store = (Inr (), snd (sync_store calm_env example_store))"
    by (simp add: prod_eq_iff)
  have "st_segments (snd (sync_store calm_env example_store)) = 1"
    using sync_spec [OF _ sy, of sum_crc "{#}"] example_sys example_commit_eval by (simp add: sys_ok_def)
  then show ?thesis
    using synced_chunk_survives_crash [OF example_reach sy rtranclp.rtrancl_refl,
        of "st_disk (snd (sync_store calm_env example_store))" "[the (location example_store 0)]" 0]
      example_location
    by (auto simp: u32_max_def)
qed

text \<open>C13: Eviction stops only when the resident memory fits the budget or every mapped segment is the
  tail or held by a guard; it never unmaps the tail or a guarded segment.\<close>

theorem eviction_respects_budget:
  "let st' = evict_to_budget st
   in (resident st' \<le> st_budget st \<or>
       (\<forall>i < length (st_slots st). sg_map (st_slots st' ! i) = Some 1 \<longrightarrow> st_tail st = Some i)) \<and>
      (\<forall>i < length (st_slots st). st_tail st = Some i \<or> sg_map (st_slots st ! i) \<noteq> Some 1 \<longrightarrow>
         st_slots st' ! i = st_slots st ! i)"
proof -
  have v: "victim s = None \<Longrightarrow> i < length (st_slots s) \<Longrightarrow> \<not> evictable s i" for s i
    by (auto simp: victim_def min_by_last_use_def filter_empty_conv split: list.splits)
  have f: "frame st (evict_locked 0 st)" by (rule evict_frame)
  have t: "st_tail (evict_locked 0 st) = st_tail st" using f by (simp add: frame_def)
  note e = evict_locked_spec [of st 0 "{#}"]
  show ?thesis
  proof -
    have sl: "st_slots (evict_to_budget st) = st_slots (evict_locked 0 st)"
      "resident (evict_to_budget st) = resident (evict_locked 0 st)"
      by (simp_all add: evict_to_budget_def resident_def) (simp add: note_peak_def)
    have "resident (evict_locked 0 st) \<le> st_budget st \<or> victim (evict_locked 0 st) = None"
      using e by simp
    moreover have "st_tail st = Some i" if "victim (evict_locked 0 st) = None" "i < length (st_slots st)"
        "sg_map (st_slots (evict_locked 0 st) ! i) = Some 1" for i
      using v [OF that(1), of i] that(2,3) frame_length [OF f] t by (simp add: evictable_def)
    moreover have "st_slots (evict_locked 0 st) ! i = st_slots st ! i"
      if "i < length (st_slots st)" "st_tail st = Some i \<or> sg_map (st_slots st ! i) \<noteq> Some 1" for i
    proof -
      from that(2) have "\<not> evictable st i" by (auto simp: evictable_def)
      with e that(1) show ?thesis by blast
    qed
    ultimately show ?thesis unfolding Let_def sl by blast
  qed
qed

theorem eviction_respects_budget_witness:
  "st_slots (evict_to_budget example_store) ! 0 = st_slots example_store ! 0"
  using eviction_respects_budget [of example_store] by (simp add: Let_def example_commit_eval)



end
