(* ===== verification/Reader.thy ===== *)
theory Reader
  imports Store_Props
begin

text \<open>
  Reading a snapshot: \<^verbatim>\<open>crates/project/src/reader.rs\<close>.

  The loop of \<open>read_range\<close> takes the chunk reader as an argument; \<open>chunk_source\<close> states what it relies
  on, proves the loop against the abstract content, and is interpreted on the chunk store.
\<close>

text \<open>
  The \<open>while\<close> loop: \<open>ps\<close> are the pieces from index \<open>i\<close> on, \<open>n\<close> the samples still to fill.  The result
  is the filled part of the caller's buffer.
\<close>

fun read_loop ::
    "(nat \<Rightarrow> nat \<Rightarrow> nat \<Rightarrow> ('s, f32 list) op) \<Rightarrow> piece list \<Rightarrow> nat \<Rightarrow> nat \<Rightarrow> ('s, f32 list) op" where
  "read_loop rc [] in_piece n s = (Inr [], s)"
| "read_loop rc (p # ps) in_piece n s =
     (if n = 0 then (Inr [], s)
      else
        let k = min (p_len p - in_piece) n
        in case (case p_source p of
                   Silence \<Rightarrow> (Inr (replicate k 0), s)
                 | Chunk c \<Rightarrow> rc c (p_offset p + as_u32 in_piece) k s) of
             (Inl e, s1) \<Rightarrow> (Inl e, s1)
           | (Inr xs, s1) \<Rightarrow>
               (case read_loop rc ps 0 (n - k) s1 of
                  (Inl e, s2) \<Rightarrow> (Inl e, s2)
                | (Inr ys, s2) \<Rightarrow> (Inr (xs @ ys), s2)))"

definition read_range ::
    "(nat \<Rightarrow> nat \<Rightarrow> nat \<Rightarrow> ('s, f32 list) op) \<Rightarrow> doc_snapshot \<Rightarrow> nat \<Rightarrow> nat \<Rightarrow> ('s, f32 list) op" where
  "read_range rc d pos out_len s =
     (case locate d pos of
        None \<Rightarrow> (Inr [], s)
      | Some (i, in_piece) \<Rightarrow>
          read_loop rc (drop i (s_pieces d)) in_piece (min out_len (s_len d - pos)) s)"

text \<open>The store's chunk reader, with the reader's cached guard next to the store.\<close>

definition store_reader ::
    "(byte list \<Rightarrow> 32 word) \<Rightarrow> store_env \<Rightarrow> nat \<Rightarrow> nat \<Rightarrow> nat \<Rightarrow> (nat option \<times> store, f32 list) op" where
  "store_reader crc env i off n s =
     (case read_chunk_into crc env i off n (fst s) (snd s) of (r, cache, st) \<Rightarrow> (r, (cache, st)))"

record snapshot_reader =
  sr_snapshot :: doc_snapshot
  sr_cache :: "nat option"

definition reader_new :: "doc_snapshot \<Rightarrow> snapshot_reader" where
  "reader_new d = \<lparr>sr_snapshot = d, sr_cache = None\<rparr>"

definition set_snapshot :: "doc_snapshot \<Rightarrow> snapshot_reader \<Rightarrow> doc_snapshot \<times> snapshot_reader" where
  "set_snapshot d r = (sr_snapshot r, r\<lparr>sr_snapshot := d\<rparr>)"

definition reader_len :: "snapshot_reader \<Rightarrow> nat" where
  "reader_len r = s_len (sr_snapshot r)"

definition reader_read ::
    "(byte list \<Rightarrow> 32 word) \<Rightarrow> store_env \<Rightarrow> nat \<Rightarrow> nat \<Rightarrow> (snapshot_reader \<times> store, f32 list) op" where
  "reader_read crc env pos n s =
     (case s of (rdr, st) \<Rightarrow>
        (case read_range (store_reader crc env) (sr_snapshot rdr) pos n (sr_cache rdr, st) of
           (r, (cache, st')) \<Rightarrow> (r, (rdr\<lparr>sr_cache := cache\<rparr>, st'))))"

definition release_segments :: "snapshot_reader \<times> store \<Rightarrow> snapshot_reader \<times> store" where
  "release_segments s = (case s of (rdr, st) \<Rightarrow> (rdr\<lparr>sr_cache := None\<rparr>, drop_cache (sr_cache rdr) st))"

definition store_read ::
    "(byte list \<Rightarrow> 32 word) \<Rightarrow> store_env \<Rightarrow> doc_snapshot \<Rightarrow> nat \<Rightarrow> nat \<Rightarrow> (store, f32 list) op" where
  "store_read crc env d pos n st =
     (case read_range (store_reader crc env) d pos n (None, st) of
        (r, (cache, st')) \<Rightarrow> (r, drop_cache cache st'))"

section \<open>The interface\<close>

text \<open>A piece is backed when its chunk holds all the samples it names.\<close>

definition backed :: "(nat \<Rightarrow> f32 list option) \<Rightarrow> piece \<Rightarrow> bool" where
  "backed cd p \<longleftrightarrow>
     (case p_source p of
        Silence \<Rightarrow> True
      | Chunk c \<Rightarrow> (case cd c of None \<Rightarrow> False | Some d \<Rightarrow> p_offset p + p_len p \<le> length d))"

definition sample_of :: "(nat \<Rightarrow> f32 list option) \<Rightarrow> nat \<Rightarrow> nat \<Rightarrow> f32" where
  "sample_of cd c i = (case cd c of None \<Rightarrow> 0 | Some d \<Rightarrow> d ! i)"

abbreviation audio :: "(nat \<Rightarrow> f32 list option) \<Rightarrow> piece list \<Rightarrow> f32 list" where
  "audio cd \<equiv> content (sample_of cd) 0"

lemma piece_content_chunk:
  assumes "p_source p = Chunk c" "cd c = Some d" "p_offset p + p_len p \<le> length d"
  shows "piece_content (sample_of cd) 0 p = take (p_len p) (drop (p_offset p) d)"
  using assms
  by (auto simp: piece_content_def sample_of_def intro!: nth_equalityI)

locale chunk_source =
  fixes rc :: "nat \<Rightarrow> nat \<Rightarrow> nat \<Rightarrow> ('s, f32 list) op"
    and cdata :: "'s \<Rightarrow> nat \<Rightarrow> f32 list option"
    and inv :: "'s \<Rightarrow> bool"
    and ready :: bool
  assumes rc_ok: "inv s \<Longrightarrow> rc i off n s = (r, s') \<Longrightarrow> inv s' \<and> cdata s' = cdata s"
    and rc_data: "inv s \<Longrightarrow> rc i off n s = (Inr xs, s') \<Longrightarrow> cdata s i = Some d \<Longrightarrow> xs = take n (drop off d)"
    and rc_total: "inv s \<Longrightarrow> ready \<Longrightarrow> cdata s i = Some d \<Longrightarrow> off + n \<le> length d \<Longrightarrow>
      \<exists>xs s'. rc i off n s = (Inr xs, s')"
begin

lemma read_loop_ok:
  assumes "inv s" "\<forall>p \<in> set ps. backed (cdata s) p \<and> piece_ok p" "ps \<noteq> [] \<Longrightarrow> in_piece \<le> p_len (hd ps)"
    "in_piece + n \<le> pieces_len ps" "read_loop rc ps in_piece n s = (r, s')"
  shows "inv s' \<and> cdata s' = cdata s \<and>
    (\<forall>xs. r = Inr xs \<longrightarrow> xs = take n (drop in_piece (audio (cdata s) ps))) \<and> (ready \<longrightarrow> (\<exists>xs. r = Inr xs))"
  using assms
proof (induction ps arbitrary: in_piece n s r s')
  case Nil
  then show ?case by auto
next
  case (Cons p ps)
  show ?case
  proof (cases "n = 0")
    case True
    with Cons.prems show ?thesis by auto
  next
    case False
    define k where "k = min (p_len p - in_piece) n"
    define first where "first = (case p_source p of Silence \<Rightarrow> (Inr (replicate k 0), s)
      | Chunk c \<Rightarrow> rc c (p_offset p + as_u32 in_piece) k s)"
    have k: "in_piece + k \<le> p_len p" "k \<le> n" using Cons.prems(3) by (auto simp: k_def)
    have u: "as_u32 in_piece = in_piece"
      using Cons.prems(2,3) piece_ok_len [of p] by simp
    obtain r1 s1 where f: "first = (r1, s1)" by fastforce
    have 1: "inv s1" "cdata s1 = cdata s" "\<And>xs. r1 = Inr xs \<Longrightarrow>
        xs = take k (drop in_piece (piece_content (sample_of (cdata s)) 0 p))" "ready \<Longrightarrow> \<exists>xs. r1 = Inr xs"
    proof -
      show "inv s1" "cdata s1 = cdata s"
        using f Cons.prems(1) rc_ok by (auto simp: first_def split: source.splits)
      show "xs = take k (drop in_piece (piece_content (sample_of (cdata s)) 0 p))" if r1: "r1 = Inr xs" for xs
      proof (cases "p_source p")
        case (Chunk c)
        with Cons.prems(2) obtain d where d: "cdata s c = Some d" "p_offset p + p_len p \<le> length d"
          by (auto simp: backed_def split: option.splits)
        have "xs = take k (drop (p_offset p + in_piece) d)"
          using f r1 Chunk rc_data [OF Cons.prems(1) _ d(1)] by (simp add: first_def u)
        with piece_content_chunk [of p c "cdata s" d] Chunk d k show ?thesis
          by (simp add: drop_take min_def add.commute)
      next
        case Silence
        with f r1 k show ?thesis by (auto simp: first_def piece_content_def min_def)
      qed
      show "\<exists>xs. r1 = Inr xs" if "ready"
      proof (cases "p_source p")
        case (Chunk c)
        with Cons.prems(2) obtain d where d: "cdata s c = Some d" "p_offset p + p_len p \<le> length d"
          by (auto simp: backed_def split: option.splits)
        with rc_total [OF Cons.prems(1) that d(1), of "p_offset p + in_piece" k] k f Chunk show ?thesis
          by (auto simp: first_def u)
      next
        case Silence
        with f show ?thesis by (auto simp: first_def)
      qed
    qed
    have eq: "read_loop rc (p # ps) in_piece n s = (case first of (Inl e, s1) \<Rightarrow> (Inl e, s1)
           | (Inr xs, s1) \<Rightarrow> (case read_loop rc ps 0 (n - k) s1 of
                  (Inl e, s2) \<Rightarrow> (Inl e, s2) | (Inr ys, s2) \<Rightarrow> (Inr (xs @ ys), s2)))"
      unfolding first_def k_def read_loop.simps Let_def using False by simp
    show ?thesis
    proof (cases r1)
      case (Inl e)
      with Cons.prems(5) eq f 1 show ?thesis by auto
    next
      case (Inr xs)
      obtain r2 s2 where l: "read_loop rc ps 0 (n - k) s1 = (r2, s2)" by fastforce
      have "0 + (n - k) \<le> pieces_len ps" using Cons.prems(4) by (auto simp: k_def)
      from Cons.IH [OF 1(1) _ _ this l] Cons.prems(2) 1(2) have
        2: "inv s2" "cdata s2 = cdata s" "\<And>ys. r2 = Inr ys \<Longrightarrow> ys = take (n - k) (audio (cdata s) ps)"
          "ready \<Longrightarrow> \<exists>ys. r2 = Inr ys" by auto
      have r: "r = (case r2 of Inl e \<Rightarrow> Inl e | Inr ys \<Rightarrow> Inr (xs @ ys))" "s' = s2"
        using Cons.prems(5) eq f Inr l by (auto split: sum.splits)
      have "take n (drop in_piece (audio (cdata s) (p # ps))) =
          take k (drop in_piece (piece_content (sample_of (cdata s)) 0 p)) @ take (n - k) (audio (cdata s) ps)"
      proof (cases "n \<le> p_len p - in_piece")
        case True
        then have "k = n" by (simp add: k_def)
        with True show ?thesis by simp
      next
        case False
        then have "k = p_len p - in_piece" by (simp add: k_def)
        with False k show ?thesis by simp
      qed
      with 1(3) [OF Inr] 2 r show ?thesis by (auto split: sum.splits)
    qed
  qed
qed

lemma read_range_ok:
  assumes "inv s" "snap_ok d" "\<forall>p \<in> set (s_pieces d). backed (cdata s) p"
    "read_range rc d pos n s = (r, s')"
  shows "inv s' \<and> cdata s' = cdata s \<and>
    (\<forall>xs. r = Inr xs \<longrightarrow> xs = take n (drop pos (audio (cdata s) (s_pieces d)))) \<and> (ready \<longrightarrow> (\<exists>xs. r = Inr xs))"
proof (cases "pos < s_len d")
  case False
  with assms show ?thesis by (auto simp: read_range_def locate_None snap_ok_def)
next
  case True
  from locate_Some [OF assms(2) True] obtain i off where l: "locate d pos = Some (i, off)"
    and i: "i < length (s_pieces d)" and off: "off < p_len (s_pieces d ! i)"
    and pos: "pos = pieces_len (take i (s_pieces d)) + off" .
  define m where "m = min n (s_len d - pos)"
  have split: "pieces_len (take i (s_pieces d)) + pieces_len (drop i (s_pieces d)) = s_len d"
    using assms(2) by (metis append_take_drop_id pieces_len_simps(3) snap_ok_def)
  have hd: "hd (drop i (s_pieces d)) = s_pieces d ! i" using i by (simp add: hd_drop_conv_nth)
  have "read_loop rc (drop i (s_pieces d)) off m s = (r, s')"
    using assms(4) l by (simp add: read_range_def m_def)
  moreover have "off + m \<le> pieces_len (drop i (s_pieces d))" using split pos True unfolding m_def by linarith
  moreover have "\<forall>p \<in> set (drop i (s_pieces d)). backed (cdata s) p \<and> piece_ok p"
    using assms(2,3) by (auto simp: snap_ok_def dest: in_set_dropD)
  ultimately have a: "inv s' \<and> cdata s' = cdata s \<and>
    (\<forall>xs. r = Inr xs \<longrightarrow> xs = take m (drop off (audio (cdata s) (drop i (s_pieces d))))) \<and>
    (ready \<longrightarrow> (\<exists>xs. r = Inr xs))"
    using off hd by (intro read_loop_ok [OF assms(1)]) auto
  have "drop pos (audio (cdata s) (s_pieces d)) = drop off (audio (cdata s) (drop i (s_pieces d)))"
    using drop_content [OF i, of "sample_of (cdata s)" 0] by (simp add: pos add.commute flip: drop_drop)
  moreover have "length (drop pos (audio (cdata s) (s_pieces d))) = s_len d - pos"
    using assms(2) by (simp add: snap_ok_def)
  then have "take m (drop pos (audio (cdata s) (s_pieces d))) = take n (drop pos (audio (cdata s) (s_pieces d)))"
    by (simp add: m_def min_def)
  ultimately show ?thesis using a by simp
qed

end

interpretation reader: chunk_source "store_reader crc env" "\<lambda>s. chunk_data (snd s)" "\<lambda>s. store_ok crc (snd s)"
  "\<forall>seg. env_mmap env seg = None"
proof unfold_locales
  fix s i off n r s' assume ok: "store_ok crc (snd s)" and rd: "store_reader crc env i off n s = (r, s')"
  obtain c st where e: "read_chunk_into crc env i off n (fst s) (snd s) = (r, c, st)" "s' = (c, st)"
    using rd by (cases s') (auto simp: store_reader_def split: prod.splits)
  from read_into_spec [OF ok e(1)] e(2) show "store_ok crc (snd s') \<and> chunk_data (snd s') = chunk_data (snd s)"
    by simp
next
  fix s i off n xs s' d
  assume ok: "store_ok crc (snd s)" and rd: "store_reader crc env i off n s = (Inr xs, s')"
    and d: "chunk_data (snd s) i = Some d"
  obtain c st where e: "read_chunk_into crc env i off n (fst s) (snd s) = (Inr xs, c, st)"
    using rd by (cases s') (auto simp: store_reader_def split: prod.splits)
  from read_into_spec [OF ok e] d show "xs = take n (drop off d)" by simp
next
  fix s :: "nat option \<times> store" and i d off n
  assume ok: "store_ok crc (snd s)" "\<forall>seg. env_mmap env seg = None" "chunk_data (snd s) i = Some d" "off + n \<le> length d"
  obtain r c st where e: "read_chunk_into crc env i off n (fst s) (snd s) = (r, c, st)" by (metis prod_cases3)
  from read_into_spec [OF ok(1) e] ok(2-4) obtain xs where "r = Inr xs" by auto
  with e show "\<exists>xs s'. store_reader crc env i off n s = (Inr xs, s')" by (simp add: store_reader_def)
qed

end
