(* ===== verification/Writer.thy ===== *)
theory Writer
  imports Reader
begin

text \<open>
  Streaming audio into the store: \<^verbatim>\<open>crates/project/src/store/writer.rs\<close>.

  The writer takes the store's \<open>commit_chunk\<close> as an argument; \<open>chunk_sink\<close> states what it relies on and
  proves that the pieces it hands out hold exactly the samples appended, however they were blocked.
\<close>

record written_audio =
  wa_pieces :: "piece list"
  wa_chunks :: "nat list"
  wa_len :: nat

record chunk_writer =
  w_buf :: "f32 list"
  w_audio :: written_audio
  w_progress :: nat
  w_cancelled :: bool
  w_live :: "written_audio option"

definition written_default :: written_audio where
  "written_default = \<lparr>wa_pieces = [], wa_chunks = [], wa_len = 0\<rparr>"

definition record_commit :: "written_audio \<Rightarrow> nat \<Rightarrow> nat \<Rightarrow> written_audio" where
  "record_commit a cid len =
     a\<lparr>wa_pieces := push_piece (wa_pieces a) (piece_chunk cid 0 len),
       wa_chunks := wa_chunks a @ [cid], wa_len := wa_len a + len\<rparr>"

definition live_snapshot :: "written_audio \<Rightarrow> nat \<Rightarrow> doc_snapshot" where
  "live_snapshot a rate = snapshot_new rate (wa_pieces a) []"

definition writer_with_cancel :: "bool \<Rightarrow> chunk_writer" where
  "writer_with_cancel cancelled =
     \<lparr>w_buf = [], w_audio = written_default, w_progress = 0, w_cancelled = cancelled, w_live = None\<rparr>"

definition writer_new :: chunk_writer where
  "writer_new = writer_with_cancel False"

definition commit_buffer :: "(f32 list \<Rightarrow> ('s, chunk_location) op) \<Rightarrow> (chunk_writer \<times> 's, unit) op" where
  "commit_buffer cm ws =
     (case ws of (w, s) \<Rightarrow>
        if w_buf w = [] then (Inr (), (w, s))
        else
          (case cm (w_buf w) s of
             (Inl e, s') \<Rightarrow> (Inl e, (w, s'))
           | (Inr loc, s') \<Rightarrow>
               (Inr (), (w\<lparr>w_audio := record_commit (w_audio w) (loc_id loc) (loc_len loc),
                          w_live := map_option (\<lambda>l. record_commit l (loc_id loc) (loc_len loc)) (w_live w),
                          w_buf := []\<rparr>, s'))))"

text \<open>
  The loop of \<open>append\<close>.  The buffer never exceeds \<open>CHUNK_SAMPLES\<close>, so the subtraction is exact; the
  second guard is there for the recursion only.
\<close>

function append_loop :: "(f32 list \<Rightarrow> ('s, chunk_location) op) \<Rightarrow> f32 list \<Rightarrow> (chunk_writer \<times> 's, unit) op" where
  "append_loop cm rest ws =
     (if rest = [] \<or> length (w_buf (fst ws)) > chunk_samples then (Inr (), ws)
      else
        let w = fst ws;
            n = min (chunk_samples - length (w_buf w)) (length rest);
            w1 = w\<lparr>w_buf := w_buf w @ take n rest, w_progress := w_progress w + n\<rparr>;
            rest1 = drop n rest
        in if length (w_buf w1) = chunk_samples
           then (case commit_buffer cm (w1, snd ws) of
                   (Inl e, ws') \<Rightarrow> (Inl e, ws')
                 | (Inr _, ws') \<Rightarrow> append_loop cm rest1 ws')
           else append_loop cm rest1 (w1, snd ws))"
  by pat_completeness auto
termination
proof (relation "measure (\<lambda>(cm, rest, ws). 2 * length rest + (if length (w_buf (fst ws)) = chunk_samples then 1 else 0))",
    goal_cases)
  case 1
  show ?case by simp
next
  case (2 cm rest ws w n w1 rest1 r ws' u)
  have "w_buf (fst ws') = []"
    using 2 by (auto simp: commit_buffer_def split: if_splits sum.splits prod.splits)
  moreover have "0 < chunk_samples" by (simp add: chunk_samples_def)
  moreover have "n = 0 \<Longrightarrow> length (w_buf (fst ws)) = chunk_samples" using 2 by auto
  moreover have "length rest1 = length rest - n" "n \<le> length rest" using 2 by auto
  ultimately show ?case by (cases "n = 0") auto
next
  case (3 cm rest ws w n w1 rest1)
  have "n \<noteq> 0" using 3 by (auto simp: min_def split: if_splits)
  moreover have "length rest1 = length rest - n" "n \<le> length rest" using 3 by auto
  ultimately show ?case using 3 by auto
qed

declare append_loop.simps [simp del]

definition writer_append :: "(f32 list \<Rightarrow> ('s, chunk_location) op) \<Rightarrow> f32 list \<Rightarrow> (chunk_writer \<times> 's, unit) op" where
  "writer_append cm samples ws =
     (if w_cancelled (fst ws) then (Inl Cancelled, ws) else append_loop cm samples ws)"

definition samples_written :: "chunk_writer \<Rightarrow> nat" where
  "samples_written w = wa_len (w_audio w) + length (w_buf w)"

definition track_live :: "chunk_writer \<Rightarrow> written_audio \<times> chunk_writer" where
  "track_live w =
     (case w_live w of
        Some l \<Rightarrow> (l, w)
      | None \<Rightarrow> (w_audio w, w\<lparr>w_live := Some (w_audio w)\<rparr>))"

definition writer_finish :: "(f32 list \<Rightarrow> ('s, chunk_location) op) \<Rightarrow> (chunk_writer \<times> 's, written_audio) op" where
  "writer_finish cm ws =
     (if w_cancelled (fst ws) then (Inl Cancelled, ws)
      else case commit_buffer cm ws of
             (Inl e, ws') \<Rightarrow> (Inl e, ws')
           | (Inr _, (w', s')) \<Rightarrow> (Inr (w_audio w'), (w'\<lparr>w_audio := written_default\<rparr>, s')))"

definition finish_lossy ::
    "(f32 list \<Rightarrow> ('s, chunk_location) op) \<Rightarrow> chunk_writer \<times> 's \<Rightarrow>
     (written_audio \<times> project_error option) \<times> (chunk_writer \<times> 's)" where
  "finish_lossy cm ws =
     (case commit_buffer cm ws of
        (r, (w', s')) \<Rightarrow>
          ((w_audio w', (case r of Inl e \<Rightarrow> Some e | Inr _ \<Rightarrow> None)), (w'\<lparr>w_audio := written_default\<rparr>, s')))"

section \<open>The interface\<close>

text \<open>\<open>scrub\<close> is what the sink does to samples on the way in.\<close>

locale chunk_sink =
  fixes cm :: "f32 list \<Rightarrow> ('s, chunk_location) op"
    and cdata :: "'s \<Rightarrow> nat \<Rightarrow> f32 list option"
    and inv :: "'s \<Rightarrow> bool"
    and scrub :: "f32 \<Rightarrow> f32"
  assumes cm_ok: "inv s \<Longrightarrow> cm xs s = (r, s') \<Longrightarrow> inv s'"
    and cm_err: "inv s \<Longrightarrow> cm xs s = (Inl e, s') \<Longrightarrow> cdata s' = cdata s"
    and cm_new: "inv s \<Longrightarrow> cm xs s = (Inr loc, s') \<Longrightarrow> cdata s (loc_id loc) = None \<and> loc_len loc = length xs \<and>
      length xs \<le> chunk_samples \<and> cdata s' = (cdata s)(loc_id loc \<mapsto> map scrub xs)"
begin

definition writer_ok :: "chunk_writer \<times> 's \<Rightarrow> f32 list \<Rightarrow> bool" where
  "writer_ok ws xs \<longleftrightarrow> inv (snd ws) \<and> length (w_buf (fst ws)) \<le> chunk_samples \<and>
     (\<forall>p \<in> set (wa_pieces (w_audio (fst ws))). backed (cdata (snd ws)) p \<and> piece_ok p) \<and>
     canonical (wa_pieces (w_audio (fst ws))) \<and>
     wa_len (w_audio (fst ws)) = pieces_len (wa_pieces (w_audio (fst ws))) \<and>
     (\<forall>c \<in> set (wa_chunks (w_audio (fst ws))). cdata (snd ws) c \<noteq> None) \<and>
     (\<exists>ys. xs = ys @ w_buf (fst ws) \<and> audio (cdata (snd ws)) (wa_pieces (w_audio (fst ws))) = map scrub ys)"

lemma audio_grow:
  assumes "\<forall>p \<in> set ps. backed cd p" "cd c = None"
  shows "audio (cd(c \<mapsto> d)) ps = audio cd ps \<and> (\<forall>p \<in> set ps. backed (cd(c \<mapsto> d)) p)"
proof -
  have "piece_content (sample_of (cd(c \<mapsto> d))) 0 p = piece_content (sample_of cd) 0 p \<and> backed (cd(c \<mapsto> d)) p"
    if "p \<in> set ps" for p
  proof (cases "p_source p")
    case (Chunk c')
    with that assms have "c' \<noteq> c" by (auto simp: backed_def)
    with Chunk that assms(1) show ?thesis by (auto simp: piece_content_def sample_of_def backed_def)
  next
    case Silence
    then show ?thesis by (simp add: piece_content_def backed_def)
  qed
  then show ?thesis by (auto simp: content_def intro!: arg_cong [where f = concat])
qed

lemma commit_buffer_ok:
  assumes ok: "writer_ok ws xs" and c: "commit_buffer cm ws = (r, ws')"
  shows "writer_ok ws' xs \<and> (\<forall>u. r = Inr u \<longrightarrow> w_buf (fst ws') = [])"
proof (cases ws)
  case (Pair w s)
  show ?thesis
  proof (cases "w_buf w = []")
    case True
    with c ok Pair show ?thesis by (auto simp: commit_buffer_def)
  next
    case False
    obtain r1 s1 where cm1: "cm (w_buf w) s = (r1, s1)" by fastforce
    have i: "inv s" using ok Pair by (simp add: writer_ok_def)
    note i1 = cm_ok [OF i cm1]
    show ?thesis
    proof (cases r1)
      case (Inl e)
      with cm1 i have "cdata s1 = cdata s" using cm_err by blast
      moreover have "ws' = (w, s1)" "r = Inl e" using c Pair False cm1 Inl by (simp_all add: commit_buffer_def)
      ultimately show ?thesis using ok Pair i1 by (simp add: writer_ok_def)
    next
      case (Inr loc)
      from cm_new [OF i, of "w_buf w" loc s1] cm1 Inr have n: "cdata s (loc_id loc) = None"
        "loc_len loc = length (w_buf w)" "length (w_buf w) \<le> chunk_samples"
        "cdata s1 = (cdata s)(loc_id loc \<mapsto> map scrub (w_buf w))" by auto
      define p where "p = piece_chunk (loc_id loc) 0 (loc_len loc)"
      let ?ps = "wa_pieces (w_audio w)"
      from ok Pair have o: "\<forall>p \<in> set ?ps. backed (cdata s) p" "\<forall>p \<in> set ?ps. piece_ok p" "canonical ?ps"
        "wa_len (w_audio w) = pieces_len ?ps" "\<forall>c \<in> set (wa_chunks (w_audio w)). cdata s c \<noteq> None"
        by (auto simp: writer_ok_def)
      from ok Pair obtain ys where ys: "xs = ys @ w_buf w" "audio (cdata s) ?ps = map scrub ys"
        by (auto simp: writer_ok_def)
      note g = audio_grow [OF o(1) n(1), of "map scrub (w_buf w)", folded n(4)]
      have pk: "piece_ok p" "backed (cdata s1) p" using n by (simp_all add: p_def piece_ok_def backed_def)
      have pc: "piece_content (sample_of (cdata s1)) 0 p = map scrub (w_buf w)"
        using n by (subst piece_content_chunk [of p "loc_id loc" _ "map scrub (w_buf w)"]) (simp_all add: p_def)
      have "\<forall>q \<in> set (push_piece ?ps p). backed (cdata s1) q"
        using g pk(2)
      proof (cases rule: push_piece_cases [of p ?ps])
        case (merge zs y m)
        from merge(3) show ?thesis
        proof (cases rule: piece_mergedE)
          case (chunk c)
          with o(1) merge(2) n(1) have False by (auto simp: backed_def p_def)
          then show ?thesis ..
        next
          case silence
          then show ?thesis by (simp add: p_def)
        qed
      qed auto
      moreover have "\<forall>q \<in> set (push_piece ?ps p). piece_ok q" by (rule ok_push_piece [OF o(2) pk(1)])
      moreover have "canonical (push_piece ?ps p)" by (rule canonical_push_piece [OF o(3)])
      moreover have "ws' = (w\<lparr>w_audio := record_commit (w_audio w) (loc_id loc) (loc_len loc),
          w_live := map_option (\<lambda>l. record_commit l (loc_id loc) (loc_len loc)) (w_live w), w_buf := []\<rparr>, s1)"
        "r = Inr ()"
        using c Pair False cm1 Inr by (simp_all add: commit_buffer_def)
      moreover have "\<forall>c \<in> set (wa_chunks (w_audio w)). cdata s1 c \<noteq> None" using o(5) n(4) by simp
      ultimately show ?thesis
        using i1 g pc ys o(4) n by (auto simp: writer_ok_def record_commit_def simp flip: p_def)
           (auto simp: p_def)
    qed
  qed
qed

lemma append_loop_aux:
  assumes "cm' = cm" "writer_ok ws xs" "append_loop cm' rest ws = (Inr (), ws')"
  shows "writer_ok ws' (xs @ rest)"
  using assms
proof (induction cm' rest ws arbitrary: xs rule: append_loop.induct)
  case (1 cm' rest ws)
  show ?case
  proof (cases "rest = []")
    case True
    with "1.prems" show ?thesis by (simp add: append_loop.simps)
  next
    case False
    let ?w = "fst ws"
    define n where "n = min (chunk_samples - length (w_buf ?w)) (length rest)"
    define w1 where "w1 = ?w\<lparr>w_buf := w_buf ?w @ take n rest, w_progress := w_progress ?w + n\<rparr>"
    have b: "length (w_buf ?w) \<le> chunk_samples" using "1.prems"(2) by (simp add: writer_ok_def)
    with False have g: "\<not> (rest = [] \<or> chunk_samples < length (w_buf ?w))" by simp
    have w1: "writer_ok (w1, snd ws) (xs @ take n rest)"
      using "1.prems"(2) b by (auto simp: writer_ok_def w1_def n_def)
    have split: "(xs @ take n rest) @ drop n rest = xs @ rest" by simp
    have eq: "append_loop cm' rest ws = (if length (w_buf w1) = chunk_samples
         then (case commit_buffer cm' (w1, snd ws) of (Inl e, ws') \<Rightarrow> (Inl e, ws')
             | (Inr _, ws') \<Rightarrow> append_loop cm' (drop n rest) ws')
         else append_loop cm' (drop n rest) (w1, snd ws))"
      using g unfolding append_loop.simps [of cm' rest ws] Let_def n_def w1_def
      by (simp only: if_False)
    show ?thesis
    proof (cases "length (w_buf w1) = chunk_samples")
      case True
      obtain r2 ws2 where c: "commit_buffer cm' (w1, snd ws) = (r2, ws2)" by (metis surj_pair)
      from eq True c "1.prems"(3) obtain u where u: "r2 = Inr u" and l: "append_loop cm' (drop n rest) ws2 = (Inr (), ws')"
        by (cases r2) auto
      from commit_buffer_ok [OF w1, of r2 ws2] c "1.prems"(1) have "writer_ok ws2 (xs @ take n rest)" by simp
      from "1.IH"(1) [OF g refl n_def w1_def refl True c [symmetric] u "1.prems"(1) this l] show ?thesis
        by (simp only: split)
    next
      case not: False
      from eq not "1.prems"(3) have l: "append_loop cm' (drop n rest) (w1, snd ws) = (Inr (), ws')" by simp
      from "1.IH"(2) [OF g refl n_def w1_def refl not "1.prems"(1) w1 l] show ?thesis
        by (simp only: split)
    qed
  qed
qed

lemma append_ok: "writer_ok ws xs \<Longrightarrow> writer_append cm rest ws = (Inr (), ws') \<Longrightarrow> writer_ok ws' (xs @ rest)"
  by (rule append_loop_aux [OF refl]) (auto simp: writer_append_def split: if_splits)

lemma finish_ok:
  assumes "writer_ok ws xs" "writer_finish cm ws = (Inr a, ws')"
  shows "audio (cdata (snd ws')) (wa_pieces a) = map scrub xs \<and> canonical (wa_pieces a) \<and>
    (\<forall>p \<in> set (wa_pieces a). backed (cdata (snd ws')) p \<and> piece_ok p) \<and> wa_len a = length xs \<and>
    (\<forall>c \<in> set (wa_chunks a). cdata (snd ws') c \<noteq> None) \<and> inv (snd ws')"
proof -
  obtain r w1 s1 where c: "commit_buffer cm ws = (r, (w1, s1))" by (metis prod_cases3)
  with assms(2) obtain u where r: "r = Inr u" and e: "a = w_audio w1" "snd ws' = s1"
    by (auto simp: writer_finish_def split: if_splits sum.splits)
  from commit_buffer_ok [OF assms(1) c] r have ok: "writer_ok (w1, s1) xs" and b: "w_buf w1 = []" by auto
  from ok b have au: "audio (cdata s1) (wa_pieces a) = map scrub xs" by (auto simp: writer_ok_def e)
  from arg_cong [OF this, of length] ok have "wa_len a = length xs" by (simp add: writer_ok_def e)
  with au ok show ?thesis by (auto simp: writer_ok_def e)
qed

end

interpretation store_sink: chunk_sink "commit_chunk crc env" chunk_data "store_ok crc"
  "\<lambda>s. if is_finite s then s else 0"
proof unfold_locales
  fix s xs r s' assume a: "store_ok crc s" "commit_chunk crc env xs s = (r, s')"
  from commit_as_spec [OF a(1) a(2) [unfolded commit_chunk_def]] show "store_ok crc s'" by blast
next
  fix s xs e s' assume a: "store_ok crc s" "commit_chunk crc env xs s = (Inl e, s')"
  from commit_as_spec [OF a(1) a(2) [unfolded commit_chunk_def]] show "chunk_data s' = chunk_data s" by simp
next
  fix s xs loc s' assume a: "store_ok crc s" "commit_chunk crc env xs s = (Inr loc, s')"
  have "length xs \<le> chunk_samples"
    using a(2) by (auto simp: commit_chunk_def commit_chunk_as_def validate_chunk_len_def split: if_splits)
  with commit_as_spec [OF a(1) a(2) [unfolded commit_chunk_def], unfolded sanitize_eq]
  show "chunk_data s (loc_id loc) = None \<and> loc_len loc = length xs \<and> length xs \<le> chunk_samples \<and>
    chunk_data s' = (chunk_data s)(loc_id loc \<mapsto> map (\<lambda>s. if is_finite s then s else 0) xs)"
    by blast
qed

section \<open>Properties\<close>

primrec append_all :: "(f32 list \<Rightarrow> ('s, chunk_location) op) \<Rightarrow> f32 list list \<Rightarrow> (chunk_writer \<times> 's, unit) op" where
  "append_all cm [] ws = (Inr (), ws)"
| "append_all cm (b # bs) ws =
     (case writer_append cm b ws of
        (Inl e, ws') \<Rightarrow> (Inl e, ws')
      | (Inr _, ws') \<Rightarrow> append_all cm bs ws')"

lemma append_all_ok:
  assumes "store_sink.writer_ok crc ws xs" "append_all (commit_chunk crc env) bs ws = (Inr (), ws')"
  shows "store_sink.writer_ok crc ws' (xs @ concat bs)"
  using assms
proof (induction bs arbitrary: ws xs)
  case (Cons b bs)
  then obtain ws1 where a: "writer_append (commit_chunk crc env) b ws = (Inr (), ws1)"
    and r: "append_all (commit_chunk crc env) bs ws1 = (Inr (), ws')" by (auto split: sum.splits prod.splits)
  from Cons.IH [OF store_sink.append_ok [OF Cons.prems(1) a] r] show ?case by simp
qed simp

lemma writer_new_ok: "store_ok crc st \<Longrightarrow> store_sink.writer_ok crc (writer_new, st) []"
  by (simp add: store_sink.writer_ok_def writer_new_def writer_with_cancel_def written_default_def)

text \<open>C11: Audio streamed into the store through a writer, in blocks of any sizes, is read back by a
  snapshot of the pieces the writer returned: sample for sample what was appended, NaN and infinities
  replaced by silence, clipped at the end.\<close>

theorem streamed_audio_reads_back:
  assumes "store_ok crc st"
    and "append_all (commit_chunk crc env) blocks (writer_new, st) = (Inr (), ws)"
    and "writer_finish (commit_chunk crc env) ws = (Inr a, (w2, st2))"
    and "\<forall>seg. env_mmap env2 seg = None"
    and "store_read crc env2 (snapshot_new rate (wa_pieces a) []) pos n st2 = (r, st3)"
  shows "r = Inr (take n (drop pos (map (\<lambda>s. if is_finite s then s else 0) (concat blocks)))) \<and>
    wa_len a = length (concat blocks)"
proof -
  from append_all_ok [OF writer_new_ok [OF assms(1)] assms(2)]
  have "store_sink.writer_ok crc ws (concat blocks)" by simp
  note f = store_sink.finish_ok [OF this assms(3)]
  define d where "d = snapshot_new rate (wa_pieces a) []"
  have sp: "s_pieces d = wa_pieces a" using f by (simp add: d_def snapshot_new_def push_all_canonical)
  have "snap_ok d"
    using f by (auto simp: d_def snapshot_new_def push_all_canonical intro!: snap_ok_from_normalized)
  moreover obtain c s3 where rr: "read_range (store_reader crc env2) d pos n (None, st2) = (r, (c, s3))"
    using assms(5) by (auto simp: store_read_def d_def split: prod.splits)
  ultimately show ?thesis
    using reader.read_range_ok [of crc "(None, st2)" d env2 pos n r "(c, s3)"] f sp assms(4) by auto
qed

definition example_writer :: chunk_writer where
  "example_writer = \<lparr>w_buf = example_samples, w_audio = written_default, w_progress = 2,
     w_cancelled = False, w_live = None\<rparr>"

lemma example_append:
  "append_all (commit_chunk sum_crc calm_env) [[0x3F800000], [0x7FC00000]] (writer_new, store_create 0) =
     (Inr (), (example_writer, store_create 0))"
  by (simp add: writer_append_def append_loop.simps writer_new_def writer_with_cancel_def chunk_samples_def
      Let_def example_writer_def example_samples_def)

lemma example_finish:
  "\<exists>w2. writer_finish (commit_chunk sum_crc calm_env) (example_writer, store_create 0) =
     (Inr \<lparr>wa_pieces = [piece_chunk 0 0 2], wa_chunks = [0], wa_len = 2\<rparr>, (w2, example_store))"
  by (simp add: writer_finish_def commit_buffer_def example_writer_def example_commit_eq record_commit_def
      written_default_def push_piece_def) (simp add: example_samples_def)

theorem streamed_audio_reads_back_witness:
  "fst (store_read sum_crc calm_env (snapshot_new 48000 [piece_chunk 0 0 2] []) 0 9 example_store) =
     Inr [0x3F800000, 0]"
proof -
  obtain w2 where "writer_finish (commit_chunk sum_crc calm_env) (example_writer, store_create 0) =
     (Inr \<lparr>wa_pieces = [piece_chunk 0 0 2], wa_chunks = [0], wa_len = 2\<rparr>, (w2, example_store))"
    using example_finish by blast
  from streamed_audio_reads_back [OF store_ok_create example_append this, of calm_env 48000 0 9]
  show ?thesis by (fastforce simp: calm_env_def is_finite_def prod_eq_iff)
qed

text \<open>A writer whose store fails keeps what it has: \<open>finish_lossy\<close> returns pieces that hold exactly a
  prefix of the samples appended, and the error.\<close>

theorem lossy_finish_keeps_prefix:
  assumes "store_ok crc st"
    and "append_all (commit_chunk crc env) blocks (writer_new, st) = (Inr (), ws)"
    and "finish_lossy (commit_chunk crc env2) ws = ((a, err), (w2, st2))"
  shows "(\<exists>k. audio (chunk_data st2) (wa_pieces a) =
      map (\<lambda>s. if is_finite s then s else 0) (take k (concat blocks)) \<and> wa_len a = length (take k (concat blocks)) \<and>
      (err = None \<longrightarrow> length (concat blocks) \<le> k)) \<and> store_ok crc st2"
proof -
  from append_all_ok [OF writer_new_ok [OF assms(1)] assms(2)]
  have ok: "store_sink.writer_ok crc ws (concat blocks)" by simp
  obtain r w1 s1 where c: "commit_buffer (commit_chunk crc env2) ws = (r, (w1, s1))" by (metis prod_cases3)
  with assms(3) have e: "a = w_audio w1" "st2 = s1" "err = (case r of Inl e \<Rightarrow> Some e | Inr _ \<Rightarrow> None)"
    by (auto simp: finish_lossy_def)
  note b = store_sink.commit_buffer_ok [OF ok c]
  then obtain ys where ys: "concat blocks = ys @ w_buf w1"
    "audio (chunk_data s1) (wa_pieces (w_audio w1)) = map (\<lambda>s. if is_finite s then s else 0) ys"
    by (auto simp: store_sink.writer_ok_def)
  have "wa_len a = length ys"
    using arg_cong [OF ys(2), of length] b by (simp add: store_sink.writer_ok_def e)
  moreover have "err = None \<Longrightarrow> w_buf w1 = []" using b by (auto simp: e split: sum.splits)
  ultimately show ?thesis
    using ys b by (auto simp: e store_sink.writer_ok_def intro!: exI [of _ "length ys"])
qed


theorem lossy_finish_keeps_prefix_witness:
  "store_ok sum_crc (snd (snd (finish_lossy (commit_chunk sum_crc calm_env) (example_writer, store_create 0))))"
  using lossy_finish_keeps_prefix [OF store_ok_create example_append, of calm_env]
  by (metis prod.collapse)

end
