(* ===== verification/Fs_Util.thy ===== *)
theory Fs_Util
  imports Prelude
begin

text \<open>
  Files as byte lists and hex strings: \<^verbatim>\<open>crates/project/src/fs_util.rs\<close>.

  A positional write past the end fills the gap with zeros; \<open>set_len\<close> cuts or extends.  A write that
  fails has written some prefix: the callers pass \<open>take k\<close> of the buffer.
\<close>

section \<open>Files\<close>

definition write_at :: "byte list \<Rightarrow> nat \<Rightarrow> byte list \<Rightarrow> byte list" where
  "write_at f off buf = take off (f @ replicate (off - length f) 0) @ buf @ drop (off + length buf) f"

definition set_len :: "byte list \<Rightarrow> nat \<Rightarrow> byte list" where
  "set_len f n = take n (f @ replicate (n - length f) 0)"

lemma write_at_end: "write_at (buf @ rest) (length buf) new = buf @ new @ drop (length new) rest"
  by (simp add: write_at_def)

lemma length_write_at: "length (write_at f off buf) = max (length f) (off + length buf)"
  by (auto simp: write_at_def max_def)

lemma write_at_inside:
  "off = length a \<Longrightarrow> length new = length old \<Longrightarrow> write_at (a @ old @ c) off new = a @ new @ c"
  by (simp add: write_at_def)

lemma set_len_append: "n = length a \<Longrightarrow> set_len (a @ b) n = a"
  by (simp add: set_len_def)

section \<open>Hex strings\<close>

definition hex_digit :: "nat \<Rightarrow> char" where
  "hex_digit n = ''0123456789abcdef'' ! n"

definition to_hex :: "byte list \<Rightarrow> string" where
  "to_hex bytes = concat (map (\<lambda>b. [hex_digit (unat (drop_bit 4 b)), hex_digit (unat (b AND 0x0f))]) bytes)"

definition nibble :: "char \<Rightarrow> byte option" where
  "nibble c =
     (let n = of_char c :: nat
      in if 48 \<le> n \<and> n \<le> 57 then Some (of_nat (n - 48))
         else if 97 \<le> n \<and> n \<le> 102 then Some (of_nat (n - 97 + 10))
         else if 65 \<le> n \<and> n \<le> 70 then Some (of_nat (n - 65 + 10))
         else None)"

fun hex_pairs :: "string \<Rightarrow> byte list option" where
  "hex_pairs (h # l # s) =
     (case (nibble h, nibble l) of
        (Some a, Some b) \<Rightarrow> map_option ((#) (push_bit 4 a OR b)) (hex_pairs s)
      | _ \<Rightarrow> None)"
| "hex_pairs _ = Some []"

definition from_hex :: "string \<Rightarrow> byte list option" where
  "from_hex s = (if length s mod 2 \<noteq> 0 then None else hex_pairs s)"

end
