(* ===== verification/Take.thy ===== *)
theory Take
  imports Fs_Util Writer
begin

text \<open>
  Crash-safe take files: \<^verbatim>\<open>crates/project/src/take.rs\<close>.

  The part files of a take are the list \<open>files\<close>, in part order; a writer refers to parts by their
  index.  \<open>take_env\<close> says how each system call ends: a write fails after \<open>k\<close> bytes, a part cannot be
  created, a sync fails.  Times are natural numbers of nanoseconds.
\<close>

section \<open>The header\<close>

definition take_header_bytes :: nat where
  "take_header_bytes = 44"

definition max_take_data_bytes :: nat where
  "max_take_data_bytes = (u32_max - 36) div 4 * 4"

definition max_header_scan_bytes :: nat where
  "max_header_scan_bytes = 4096"

datatype take_sync_mode = Background | Inline

record take_writer_options =
  to_interval :: nat
  to_max_data :: nat
  to_mode :: take_sync_mode

definition take_options_default :: take_writer_options where
  "take_options_default =
     \<lparr>to_interval = 1000000000, to_max_data = max_take_data_bytes, to_mode = Background\<rparr>"

fun decimal :: "nat \<Rightarrow> string" where
  "decimal n = (if n < 10 then [char_of (48 + n)] else decimal (n div 10) @ [char_of (48 + n mod 10)])"

declare decimal.simps [simp del]

definition take_part_path :: "string \<Rightarrow> nat \<Rightarrow> nat \<Rightarrow> string" where
  "take_part_path dir tk part =
     (let num = decimal tk; stem = dir @ ''/take-'' @ replicate (4 - length num) (CHR ''0'') @ num
      in if part = 0 then stem @ ''.wav'' else stem @ ''-'' @ decimal (part + 1) @ ''.wav'')"

definition u16_le :: "nat \<Rightarrow> byte list" where
  "u16_le n = take 2 (u32_le n)"

definition ascii :: "string \<Rightarrow> byte list" where
  "ascii s = map (of_nat \<circ> of_char) s"

definition take_header :: "nat \<Rightarrow> nat \<Rightarrow> byte list" where
  "take_header rate data_bytes =
     ascii ''RIFF'' @ u32_le (min (data_bytes + 36) u32_max) @ ascii ''WAVE'' @ ascii ''fmt '' @
     u32_le 16 @ u16_le 3 @ u16_le 1 @ u32_le rate @ u32_le (min (rate * 4) u32_max) @ u16_le 4 @
     u16_le 32 @ ascii ''data'' @ u32_le data_bytes"

section \<open>Writing a take\<close>

record take_env =
  te_write :: "nat \<Rightarrow> (nat \<times> io_error) option"
  te_patch :: "nat \<Rightarrow> (nat \<times> io_error) option"
  te_sync :: "nat \<Rightarrow> io_error option"
  te_open :: "nat \<Rightarrow> io_error option"
  te_header :: "nat \<Rightarrow> (nat \<times> io_error) option"
  te_dir :: "nat \<Rightarrow> io_error option"
  te_clone :: "nat \<Rightarrow> io_error option"

record take_writer =
  tw_rate :: nat
  tw_max :: nat
  tw_interval :: nat
  tw_mode :: take_sync_mode
  tw_file :: nat
  tw_target :: nat
  tw_data_bytes :: nat
  tw_part_bytes :: nat
  tw_total :: nat
  tw_last_sync :: nat
  tw_parts :: nat

definition create_part :: "take_env \<Rightarrow> nat \<Rightarrow> nat \<Rightarrow> (byte list list, unit) op" where
  "create_part env i rate files =
     (let ctx = ''creating the take file''
      in if i < length files then (Inl (from_io ctx OtherIo), files)
         else case te_open env i of
             Some e \<Rightarrow> (Inl (from_io ctx e), files)
           | None \<Rightarrow>
               (case te_header env i of
                  Some (k, e) \<Rightarrow> (Inl (from_io ctx e), files @ [take k (take_header rate 0)])
                | None \<Rightarrow>
                    (let files' = files @ [take_header rate 0]
                     in case te_sync env i of
                          Some e \<Rightarrow> (Inl (from_io ctx e), files')
                        | None \<Rightarrow>
                            (case te_dir env i of
                               Some e \<Rightarrow> (Inl (from_io ctx e), files')
                             | None \<Rightarrow> (Inr (), files')))))"

definition take_create ::
    "take_env \<Rightarrow> nat \<Rightarrow> take_writer_options \<Rightarrow> nat \<Rightarrow> (byte list list, take_writer) op" where
  "take_create env rate options now files =
     (if rate = 0 then (Inl (InvalidArgument ''sample rate must be > 0''), files)
      else
        let max_data = min (to_max_data options) max_take_data_bytes div 4 * 4
        in if max_data = 0 then (Inl (InvalidArgument ''max_data_bytes must hold at least one sample''), files)
           else case create_part env 0 rate files of
               (Inl e, files') \<Rightarrow> (Inl e, files')
             | (Inr _, files') \<Rightarrow>
                 (case te_clone env 0 of
                    Some e \<Rightarrow> (Inl (from_io ''creating the take file'' e), files')
                  | None \<Rightarrow>
                      (Inr \<lparr>tw_rate = rate, tw_max = max_data, tw_interval = to_interval options,
                            tw_mode = to_mode options, tw_file = 0, tw_target = 0, tw_data_bytes = 0,
                            tw_part_bytes = 0, tw_total = 0, tw_last_sync = now, tw_parts = 1\<rparr>, files')))"

definition patch_and_sync :: "take_env \<Rightarrow> (take_writer \<times> byte list list, unit) op" where
  "patch_and_sync env ws =
     (case ws of (w, files) \<Rightarrow>
        let i = tw_target w;
            header = take_header (tw_rate w) (min (tw_data_bytes w) u32_max);
            put = (\<lambda>buf. files[i := write_at (files ! i) 0 buf])
        in case te_patch env i of
             Some (k, e) \<Rightarrow> (Inl (from_io ''syncing the take file'' e), (w, put (take k header)))
           | None \<Rightarrow>
               (case te_sync env i of
                  Some e \<Rightarrow> (Inl (from_io ''syncing the take file'' e), (w, put header))
                | None \<Rightarrow> (Inr (), (w, put header))))"

definition sync_at :: "take_env \<Rightarrow> nat \<Rightarrow> (take_writer \<times> byte list list, unit) op" where
  "sync_at env now ws =
     (case patch_and_sync env ws of
        (Inl e, ws') \<Rightarrow> (Inl e, ws')
      | (Inr _, (w, files)) \<Rightarrow> (Inr (), (w\<lparr>tw_last_sync := now\<rparr>, files)))"

definition maybe_sync :: "take_env \<Rightarrow> nat \<Rightarrow> (take_writer \<times> byte list list, bool) op" where
  "maybe_sync env now ws =
     (if now - tw_last_sync (fst ws) < tw_interval (fst ws) then (Inr False, ws)
      else case sync_at env now ws of
             (Inl e, ws') \<Rightarrow> (Inl e, ws')
           | (Inr _, ws') \<Rightarrow> (Inr True, ws'))"

definition roll_over :: "take_env \<Rightarrow> (take_writer \<times> byte list list, unit) op" where
  "roll_over env ws =
     (let part = tw_parts (fst ws)
      in if part > u32_max then (Inl (InvalidArgument ''too many take parts''), ws)
         else case patch_and_sync env ws of
             (Inl e, ws') \<Rightarrow> (Inl e, ws')
           | (Inr _, (w, files)) \<Rightarrow>
               (case create_part env part (tw_rate w) files of
                  (Inl e, files') \<Rightarrow> (Inl e, (w, files'))
                | (Inr _, files') \<Rightarrow>
                    (case te_clone env part of
                       Some e \<Rightarrow> (Inl (from_io ''creating the take file'' e), (w, files'))
                     | None \<Rightarrow>
                         (Inr (), (w\<lparr>tw_target := part, tw_data_bytes := 0, tw_file := part,
                                     tw_parts := part + 1, tw_part_bytes := 0\<rparr>, files')))))"

text \<open>
  The loop of \<open>append_at\<close>.  A part holds at least one sample, so a roll-over is followed by a write;
  the second guard is there for the recursion only.
\<close>

function take_append_loop :: "take_env \<Rightarrow> f32 list \<Rightarrow> (take_writer \<times> byte list list, unit) op" where
  "take_append_loop env rest ws =
     (if rest = [] \<or> tw_max (fst ws) < 4 then (Inr (), ws)
      else
        let w = fst ws;
            files = snd ws;
            room = (tw_max w - tw_part_bytes w) div 4
        in if room = 0
           then (case roll_over env ws of
                   (Inl e, ws') \<Rightarrow> (Inl e, ws')
                 | (Inr _, ws') \<Rightarrow> take_append_loop env rest ws')
           else
             let n = min room (length rest);
                 buf = le_bytes (take n rest);
                 put = (\<lambda>b. files[tw_file w := write_at (files ! tw_file w) (take_header_bytes + tw_part_bytes w) b])
             in case te_write env (tw_file w) of
                  Some (k, e) \<Rightarrow> (Inl (from_io ''writing the take file'' e), (w, put (take k buf)))
                | None \<Rightarrow>
                    take_append_loop env (drop n rest)
                      (w\<lparr>tw_part_bytes := tw_part_bytes w + n * 4, tw_data_bytes := tw_part_bytes w + n * 4,
                         tw_total := tw_total w + n\<rparr>, put buf))"
  by pat_completeness auto
termination
proof (relation "measure (\<lambda>(env, rest, ws). 2 * length rest +
    (if (tw_max (fst ws) - tw_part_bytes (fst ws)) div 4 = 0 then 1 else 0))", goal_cases)
  case 1
  show ?case by simp
next
  case (2 env rest ws w files room x ws' u)
  then show ?case
    by (auto simp: roll_over_def Let_def patch_and_sync_def split: if_splits sum.splits option.splits prod.splits)
next
  case (3 env rest ws w files room n buf put)
  then have "0 < n" "n \<le> length rest" by auto
  then have "2 * length (drop n rest) + 1 < 2 * length rest" by simp
  then show ?case by (auto simp del: length_drop)
qed

declare take_append_loop.simps [simp del]

definition take_append :: "take_env \<Rightarrow> f32 list \<Rightarrow> nat \<Rightarrow> (take_writer \<times> byte list list, unit) op" where
  "take_append env samples now ws =
     (case take_append_loop env samples ws of
        (Inl e, ws') \<Rightarrow> (Inl e, ws')
      | (Inr _, ws') \<Rightarrow>
          if tw_mode (fst ws') = Inline
          then (case maybe_sync env now ws' of
                  (Inl e, ws2) \<Rightarrow> (Inl e, ws2)
                | (Inr _, ws2) \<Rightarrow> (Inr (), ws2))
          else (Inr (), ws'))"

record take_files =
  tf_parts :: nat
  tf_samples :: nat
  tf_rate :: nat

definition take_finish :: "take_env \<Rightarrow> nat \<Rightarrow> (take_writer \<times> byte list list, take_files) op" where
  "take_finish env now ws =
     (case sync_at env now ws of
        (Inl e, ws') \<Rightarrow> (Inl e, ws')
      | (Inr _, (w, files)) \<Rightarrow>
          (Inr \<lparr>tf_parts = tw_parts w, tf_samples = tw_total w, tf_rate = tw_rate w\<rparr>, (w, files)))"

section \<open>Recovering a take\<close>

record recovered_take =
  rt_file :: "byte list"
  rt_rate :: nat
  rt_offset :: nat
  rt_samples :: nat
  rt_header_samples :: nat

definition header_stale :: "recovered_take \<Rightarrow> bool" where
  "header_stale t \<longleftrightarrow> rt_header_samples t \<noteq> rt_samples t"

text \<open>\<open>get(at..at + n)\<close>: \<open>None\<close> when the range leaves the slice.\<close>

definition get_bytes :: "byte list \<Rightarrow> nat \<Rightarrow> nat \<Rightarrow> byte list option" where
  "get_bytes head at n = (if at + n \<le> length head then Some (take n (drop at head)) else None)"

definition u16_at :: "byte list \<Rightarrow> nat \<Rightarrow> nat option" where
  "u16_at head at = map_option (\<lambda>bs. unat (bs ! 0) + 256 * unat (bs ! 1)) (get_bytes head at 2)"

definition u32_at :: "byte list \<Rightarrow> nat \<Rightarrow> nat option" where
  "u32_at head at = map_option (\<lambda>bs. unat (f32_of_le bs)) (get_bytes head at 4)"

definition parse_fmt :: "byte list \<Rightarrow> nat \<Rightarrow> nat \<Rightarrow> project_error + nat \<times> nat \<times> nat \<times> nat" where
  "parse_fmt head body siz =
     (if siz < 16 then Inl (InvalidTakeFile ''fmt chunk too short'')
      else case (u16_at head body, u16_at head (body + 2), u32_at head (body + 4), u16_at head (body + 14)) of
             (Some tag, Some ch, Some rate, Some bits) \<Rightarrow> Inr (tag, ch, rate, bits)
           | _ \<Rightarrow> Inl (InvalidTakeFile ''truncated header''))"

function parse_chunks ::
    "byte list \<Rightarrow> nat \<Rightarrow> nat \<Rightarrow> (nat \<times> nat \<times> nat \<times> nat) option \<Rightarrow> project_error + nat \<times> nat \<times> nat \<times> nat" where
  "parse_chunks head file_len pos fmt =
     (case (get_bytes head pos 4, u32_at head (pos + 4)) of
        (Some cid, Some siz) \<Rightarrow>
          (let body = pos + 8
           in if cid = ascii ''data'' then
                (case fmt of
                   None \<Rightarrow> Inl (InvalidTakeFile ''data chunk before fmt chunk'')
                 | Some (tag, channels, rate, bits) \<Rightarrow>
                     if tag \<noteq> 3 \<or> channels \<noteq> 1 \<or> bits \<noteq> 32 \<or> rate = 0
                     then Inl (InvalidTakeFile ''not a mono 32-bit float WAV'')
                     else if file_len < body then Inl (InvalidTakeFile ''truncated header'')
                     else Inr (rate, body, (file_len - body) div 4, siz div 4))
              else
                (case (if cid = ascii ''fmt '' then map_sum id Some (parse_fmt head body siz) else Inr fmt) of
                   Inl e \<Rightarrow> Inl e
                 | Inr fmt' \<Rightarrow>
                     (let nxt = body + siz + siz mod 2
                      in if nxt \<ge> max_header_scan_bytes
                         then Inl (InvalidTakeFile ''no data chunk in the first 4 KiB'')
                         else parse_chunks head file_len nxt fmt')))
      | _ \<Rightarrow> Inl (InvalidTakeFile ''truncated header''))"
  by pat_completeness auto
termination
  by (relation "measure (\<lambda>(head, file_len, pos, fmt). max_header_scan_bytes - pos)") auto

declare parse_chunks.simps [simp del]

definition parse_take_header :: "byte list \<Rightarrow> nat \<Rightarrow> project_error + nat \<times> nat \<times> nat \<times> nat" where
  "parse_take_header head file_len =
     (if length head < 12 then Inl (InvalidTakeFile ''truncated header'')
      else if take 4 head \<noteq> ascii ''RIFF'' \<or> take 4 (drop 8 head) \<noteq> ascii ''WAVE''
      then Inl (InvalidTakeFile ''not a RIFF/WAVE file'')
      else parse_chunks head file_len 12 None)"

text \<open>\<open>fail\<close> is the error of opening or reading the file, with its context; \<open>rd\<close> gives it by part.\<close>

definition recover_take_file :: "(string \<times> io_error) option \<Rightarrow> byte list \<Rightarrow> project_error + recovered_take" where
  "recover_take_file fail file =
     (case fail of
        Some (ctx, e) \<Rightarrow> Inl (from_io ctx e)
      | None \<Rightarrow>
          (case parse_take_header (take max_header_scan_bytes file) (length file) of
             Inl e \<Rightarrow> Inl e
           | Inr (rate, off, samples, hdr) \<Rightarrow>
               Inr \<lparr>rt_file = file, rt_rate = rate, rt_offset = off, rt_samples = samples, rt_header_samples = hdr\<rparr>))"

fun recover_take ::
    "(nat \<Rightarrow> (string \<times> io_error) option) \<Rightarrow> nat \<Rightarrow> byte list list \<Rightarrow> project_error + recovered_take list" where
  "recover_take rd part [] = Inr []"
| "recover_take rd part (f # fs) =
     (case recover_take_file (rd part) f of
        Inr t \<Rightarrow> map_sum id ((#) t) (recover_take rd (part + 1) fs)
      | Inl e \<Rightarrow> if fs = [] \<and> length f \<le> take_header_bytes then Inr [] else Inl e)"

definition read_take_samples :: "recovered_take \<Rightarrow> nat \<Rightarrow> nat \<Rightarrow> f32 list" where
  "read_take_samples t start out_len =
     (if start \<ge> rt_samples t then []
      else let n = min out_len (rt_samples t - start)
           in copy_le_f32 (take (n * 4) (drop (rt_offset t + start * 4) (rt_file t))) n)"

text \<open>\<open>copy_take_into\<close> streams every part through a buffer of \<open>CHUNK_SAMPLES\<close>.\<close>

function copy_part ::
    "(f32 list \<Rightarrow> ('s, chunk_location) op) \<Rightarrow> recovered_take \<Rightarrow> nat \<Rightarrow> (chunk_writer \<times> 's, unit) op" where
  "copy_part cm t pos ws =
     (if pos < rt_samples t then
        let buf = read_take_samples t pos chunk_samples
        in if buf = [] then (Inr (), ws)
           else case writer_append cm buf ws of
                  (Inl e, ws') \<Rightarrow> (Inl e, ws')
                | (Inr _, ws') \<Rightarrow> copy_part cm t (pos + length buf) ws'
      else (Inr (), ws))"
  by pat_completeness auto
termination
  by (relation "measure (\<lambda>(cm, t, pos, ws). rt_samples t - pos)") (auto simp: diff_less_mono2 length_greater_0_conv [symmetric] simp del: length_greater_0_conv)

declare copy_part.simps [simp del]

fun copy_take_into ::
    "(f32 list \<Rightarrow> ('s, chunk_location) op) \<Rightarrow> recovered_take list \<Rightarrow> (chunk_writer \<times> 's, unit) op" where
  "copy_take_into cm [] ws = (Inr (), ws)"
| "copy_take_into cm (t # ts) ws =
     (case copy_part cm t 0 ws of
        (Inl e, ws') \<Rightarrow> (Inl e, ws')
      | (Inr _, ws') \<Rightarrow> copy_take_into cm ts ws')"

text \<open>
  \<open>repair_take_header\<close> on the bytes of the file: \<open>set_len\<close>, the header write and the sync may fail.
\<close>

definition repair_take_header :: "io_error option \<Rightarrow> take_env \<Rightarrow> recovered_take \<Rightarrow> (byte list, unit) op" where
  "repair_take_header set_len_err env t file =
     (let ctx = ''repairing a take file''; header = take_header (rt_rate t) (rt_samples t * 4) in
      if rt_offset t \<noteq> take_header_bytes
      then (Inl (InvalidTakeFile ''only canonical 44-byte take headers can be repaired''), file)
      else if rt_samples t * 4 > u32_max
      then (Inl (InvalidTakeFile ''take part exceeds the RIFF limit''), file)
      else case set_len_err of
             Some e \<Rightarrow> (Inl (from_io ctx e), file)
           | None \<Rightarrow>
               (let f1 = set_len file (rt_offset t + rt_samples t * 4)
                in case te_patch env 0 of
                     Some (k, e) \<Rightarrow> (Inl (from_io ctx e), write_at f1 0 (take k header))
                   | None \<Rightarrow>
                       ((case te_sync env 0 of Some e \<Rightarrow> Inl (from_io ctx e) | None \<Rightarrow> Inr ()),
                        write_at f1 0 header)))"

end
