(* ===== verification/Take_Props.thy ===== *)
theory Take_Props
  imports Take
begin

text \<open>
  What survives of a take: after any appends, syncs and failures, reading the part files back gives
  the samples captured, whatever their headers say.
\<close>

section \<open>Canonical headers\<close>

definition header_mid :: "nat \<Rightarrow> byte list" where
  "header_mid rate =
     ascii ''WAVE'' @ ascii ''fmt '' @ u32_le 16 @ u16_le 3 @ u16_le (Suc 0) @ u32_le rate @
     u32_le (min (rate * 4) u32_max) @ u16_le 4 @ u16_le 32 @ ascii ''data''"

definition canon_header :: "nat \<Rightarrow> byte list \<Rightarrow> bool" where
  "canon_header rate h \<longleftrightarrow>
     (\<exists>a b. length a = 4 \<and> length b = 4 \<and> h = ascii ''RIFF'' @ a @ header_mid rate @ b)"

lemma length_u16_le [simp]: "length (u16_le n) = 2"
  by (simp add: u16_le_def)

lemma length_ascii [simp]: "length (ascii s) = length s"
  by (simp add: ascii_def)

lemma length_header_mid [simp]: "length (header_mid rate) = 32"
  by (simp add: header_mid_def)

lemma canon_length: "canon_header rate h \<Longrightarrow> length h = 44"
  by (auto simp: canon_header_def)

lemma canon_take_header: "canon_header rate (take_header rate d)"
  unfolding canon_header_def
  by (intro exI [of _ "u32_le (min (d + 36) u32_max)"] exI [of _ "u32_le d"]) (simp add: take_header_def header_mid_def)

lemma drop_take_header: "drop 40 (take_header rate d) = u32_le d"
proof -
  have "take_header rate d = (ascii ''RIFF'' @ u32_le (min (d + 36) u32_max) @ header_mid rate) @ u32_le d"
    by (simp add: take_header_def header_mid_def)
  then show ?thesis by simp
qed

lemma mix_append:
  "length x = length y \<Longrightarrow>
   take k (x @ x') @ drop k (y @ y') = (take k x @ drop k y) @ (take (k - length x) x' @ drop (k - length x) y')"
  by (cases "k \<le> length x") auto

lemma canon_mix:
  assumes "canon_header rate h" "canon_header rate h'"
  shows "canon_header rate (take k h' @ drop k h)"
proof -
  let ?R = "ascii ''RIFF''" and ?M = "header_mid rate"
  from assms obtain a b a' b' where
    e: "length a = 4" "length b = 4" "h = ?R @ a @ ?M @ b" "length a' = 4" "length b' = 4" "h' = ?R @ a' @ ?M @ b'"
    by (auto simp: canon_header_def)
  let ?k = "k - 4"
  have "take k h' @ drop k h = ?R @ (take ?k (a' @ ?M @ b') @ drop ?k (a @ ?M @ b))"
    unfolding e(3,6) by (subst mix_append) (simp_all add: numeral_eq_Suc del: append_assoc)
  also have "\<dots> = ?R @ (take ?k a' @ drop ?k a) @ take (?k - 4) (?M @ b') @ drop (?k - 4) (?M @ b)"
    by (subst mix_append) (simp_all add: e)
  also have "\<dots> = ?R @ (take ?k a' @ drop ?k a) @ ?M @ take (?k - 36) b' @ drop (?k - 36) b"
    by (subst mix_append) simp_all
  finally have eq: "take k h' @ drop k h = ?R @ (take ?k a' @ drop ?k a) @ ?M @ take (?k - 36) b' @ drop (?k - 36) b" .
  show ?thesis
    unfolding canon_header_def eq using e(1,2,4,5)
    by (intro exI [of _ "take ?k a' @ drop ?k a"] exI [of _ "take (?k - 36) b' @ drop (?k - 36) b"] conjI refl) simp_all
qed

lemma patch_canon:
  assumes "canon_header rate h" "canon_header rate h'"
  shows "\<exists>h2. canon_header rate h2 \<and> write_at (h @ bs) 0 (take k h') = h2 @ bs"
proof (intro exI conjI)
  show "canon_header rate (take k h' @ drop k h)" by (rule canon_mix [OF assms])
  have "length h = 44" "length h' = 44" using assms by (simp_all add: canon_length)
  then show "write_at (h @ bs) 0 (take k h') = (take k h' @ drop k h) @ bs"
    by (cases "k \<le> 44") (simp_all add: write_at_def)
qed

lemma list4: "length xs = 4 \<Longrightarrow> \<exists>a b c d. xs = [a, b, c, d]"
  by (auto simp: length_Suc_conv numeral_eq_Suc)

lemma u32_le_value: "n \<le> u32_max \<Longrightarrow> unat (f32_of_le (u32_le n)) = n"
  by (simp add: u32_le_def u32_max_def unsigned_of_nat take_bit_nat_eq_self)

lemma ascii_values:
  "ascii ''RIFF'' = [82, 73, 70, 70]" "ascii ''WAVE'' = [87, 65, 86, 69]" "ascii ''fmt '' = [102, 109, 116, 32]"
  "ascii ''data'' = [100, 97, 116, 97]"
  by (simp_all add: ascii_def)

lemma le_values: "u32_le 16 = [16, 0, 0, 0]" "u16_le 3 = [3, 0]" "u16_le (Suc 0) = [1, 0]" "u16_le 4 = [4, 0]" "u16_le 32 = [32, 0]"
  by (simp_all add: u32_le_def u16_le_def f32_le_def drop_bit_numeral_bit0)

lemma parse_canon:
  assumes h: "canon_header rate h" and r: "0 < rate" "rate \<le> u32_max"
  shows "parse_take_header (take max_header_scan_bytes (h @ bs)) (length (h @ bs)) =
    Inr (rate, 44, length bs div 4, unat (f32_of_le (drop 40 h)) div 4)"
proof -
  from h obtain a b where ab: "length a = 4" "length b = 4" "h = ascii ''RIFF'' @ a @ header_mid rate @ b"
    by (auto simp: canon_header_def)
  obtain a0 a1 a2 a3 b0 b1 b2 b3 where ab': "a = [a0, a1, a2, a3]" "b = [b0, b1, b2, b3]"
    using list4 [OF ab(1)] list4 [OF ab(2)] by blast
  obtain r0 r1 r2 r3 where rt: "u32_le rate = [r0, r1, r2, r3]" using list4 [of "u32_le rate"] by auto
  obtain q0 q1 q2 q3 where q: "u32_le (min (rate * 4) u32_max) = [q0, q1, q2, q3]"
    using list4 [of "u32_le (min (rate * 4) u32_max)"] by auto
  have rv: "unat (f32_of_le [r0, r1, r2, r3]) = rate" using u32_le_value [OF r(2)] by (simp add: rt)
  have s16: "unat (f32_of_le [16, 0, 0, 0]) = 16" using u32_le_value [of 16] by (simp add: le_values u32_max_def)
  let ?x = "take (max_header_scan_bytes - 44) bs"
  have x: "take max_header_scan_bytes (h @ bs) = [82, 73, 70, 70, a0, a1, a2, a3, 87, 65, 86, 69, 102, 109, 116, 32,
      16, 0, 0, 0, 3, 0, 1, 0, r0, r1, r2, r3, q0, q1, q2, q3, 4, 0, 32, 0, 100, 97, 116, 97, b0, b1, b2, b3] @ ?x"
    by (simp add: ab ab' header_mid_def rt q le_values ascii_values max_header_scan_bytes_def)
  have hl: "length h = 44" by (rule canon_length [OF h])
  have hb: "drop 40 h = [b0, b1, b2, b3]" by (simp add: ab ab')
  show ?thesis
    unfolding x hb parse_take_header_def
    by (simp add: ascii_values hl parse_chunks.simps [of _ _ 12] parse_chunks.simps [of _ _ 36] get_bytes_def u32_at_def
        u16_at_def parse_fmt_def Let_def s16 rv r max_header_scan_bytes_def)
qed

section \<open>The shape of the part files\<close>

text \<open>
  \<open>fs\<close> are the finished parts holding the samples \<open>zs\<close>; the current part holds \<open>ys\<close> under the header
  \<open>h\<close>, then \<open>junk\<close> that a failed write left; \<open>nx\<close> is a next part whose creation failed.
\<close>

definition full_part :: "nat \<Rightarrow> byte list \<Rightarrow> f32 list \<Rightarrow> bool" where
  "full_part rate f z \<longleftrightarrow> (\<exists>h. canon_header rate h \<and> f = h @ le_bytes z)"

definition torn_part :: "nat \<Rightarrow> byte list list \<Rightarrow> bool" where
  "torn_part rate nx \<longleftrightarrow> nx = [] \<or> (\<exists>k. nx = [take k (take_header rate 0)])"

definition take_shape ::
    "nat \<Rightarrow> take_writer \<times> byte list list \<Rightarrow> byte list list \<Rightarrow> f32 list list \<Rightarrow> f32 list \<Rightarrow> byte list \<Rightarrow> byte list \<Rightarrow>
     byte list list \<Rightarrow> bool" where
  "take_shape rate ws fs zs ys h junk nx \<longleftrightarrow>
     (case ws of (w, files) \<Rightarrow>
        files = fs @ (h @ le_bytes ys @ junk) # nx \<and> list_all2 (full_part rate) fs zs \<and> canon_header rate h \<and>
        torn_part rate nx \<and> tw_rate w = rate \<and> 4 \<le> tw_max w \<and> 4 dvd tw_max w \<and> tw_file w = length fs \<and>
        tw_target w = length fs \<and> tw_parts w = Suc (length fs) \<and> tw_part_bytes w = 4 * length ys \<and>
        4 * length ys + length junk \<le> tw_max w \<and> tw_total w = length (concat zs @ ys))"

definition take_ok :: "bool \<Rightarrow> nat \<Rightarrow> take_writer \<times> byte list list \<Rightarrow> f32 list \<Rightarrow> bool" where
  "take_ok clean rate ws xs \<longleftrightarrow>
     (\<exists>fs zs ys h junk nx. take_shape rate ws fs zs ys h junk nx \<and> xs = concat zs @ ys \<and>
        (clean \<longrightarrow> junk = [] \<and> nx = []))"

lemma take_okI:
  "take_shape rate ws fs zs ys h junk nx \<Longrightarrow> xs = concat zs @ ys \<Longrightarrow> (c \<Longrightarrow> junk = [] \<and> nx = []) \<Longrightarrow>
   take_ok c rate ws xs"
  unfolding take_ok_def by blast

lemma le_bytes_append: "le_bytes (xs @ ys) = le_bytes xs @ le_bytes ys"
  by (simp add: le_bytes_def)

lemma le_bytes_Nil [simp]: "le_bytes [] = []"
  by (simp add: le_bytes_def)

lemma patch_shape:
  assumes "take_shape rate ws fs zs ys h junk nx" "patch_and_sync env ws = (r, ws')"
  shows "\<exists>h'. take_shape rate ws' fs zs ys h' junk nx \<and> fst ws' = fst ws"
proof -
  obtain w files where ws: "ws = (w, files)" by fastforce
  let ?hdr = "take_header rate (min (tw_data_bytes w) u32_max)"
  from assms(1) have s: "files = fs @ (h @ le_bytes ys @ junk) # nx" "canon_header rate h" "tw_target w = length fs"
    "tw_rate w = rate" by (auto simp: take_shape_def ws)
  obtain k where k: "ws' = (w, files[tw_target w := write_at (files ! tw_target w) 0 (take k ?hdr)])"
  proof -
    have "?hdr = take 44 ?hdr" using canon_length [OF canon_take_header] by simp
    then show thesis using assms(2) that that [of 44]
      by (auto simp: patch_and_sync_def ws Let_def s(4) split: option.splits prod.splits)
  qed
  obtain h' where h': "canon_header rate h'" "write_at (h @ le_bytes ys @ junk) 0 (take k ?hdr) = h' @ le_bytes ys @ junk"
    using patch_canon [OF s(2) canon_take_header, of "le_bytes ys @ junk" k "min (tw_data_bytes w) u32_max"] by auto
  have "ws' = (w, fs @ (h' @ le_bytes ys @ junk) # nx)" by (simp add: k s(1,3) h'(2))
  with assms(1) h'(1) show ?thesis by (intro exI [of _ h']) (auto simp: take_shape_def ws)
qed

lemma create_part_cases:
  assumes "create_part env i rate files = (r, files')" "i \<le> length files" "length files \<le> Suc i"
  obtains (ok) "r = Inr ()" "i = length files" "files' = files @ [take_header rate 0]"
    | (err) e nx where "r = Inl e" "torn_part rate nx" "files' = files @ nx" "i < length files \<Longrightarrow> nx = []"
proof -
  have k: "\<exists>k. files' = files @ [take k (take_header rate 0)]" if "files' = files @ [take_header rate 0]"
    using that by (intro exI [of _ "length (take_header rate 0)"]) simp
  have "r = Inr () \<and> i = length files \<and> files' = files @ [take_header rate 0] \<or>
    (\<exists>e. r = Inl e) \<and> (files' = files \<or> i = length files \<and> (\<exists>k. files' = files @ [take k (take_header rate 0)]))"
    using assms k by (auto simp: create_part_def Let_def split: if_splits option.splits)
  then consider "r = Inr ()" "i = length files" "files' = files @ [take_header rate 0]"
    | e where "r = Inl e" "files' = files"
    | e k where "r = Inl e" "i = length files" "files' = files @ [take k (take_header rate 0)]" by auto
  then show thesis
  proof cases
    case 3
    then show thesis by (intro err [of _ "[take k (take_header rate 0)]"]) (auto simp: torn_part_def)
  qed (auto simp: torn_part_def intro: ok err)
qed

lemma roll_over_shape:
  assumes s: "take_shape rate ws fs zs ys h junk nx" and full: "(tw_max (fst ws) - tw_part_bytes (fst ws)) div 4 = 0"
    and r: "roll_over env ws = (r, ws')"
  shows "\<exists>fs' zs' ys' h' junk' nx'. take_shape rate ws' fs' zs' ys' h' junk' nx' \<and> concat zs' @ ys' = concat zs @ ys \<and>
    (r = Inr () \<longrightarrow> junk' = [] \<and> nx' = []) \<and> tw_max (fst ws') = tw_max (fst ws)"
proof -
  let ?goal = "\<lambda>r ws'. \<exists>fs' zs' ys' h' junk' nx'. take_shape rate ws' fs' zs' ys' h' junk' nx' \<and>
    concat zs' @ ys' = concat zs @ ys \<and> (r = Inr () \<longrightarrow> junk' = [] \<and> nx' = []) \<and> tw_max (fst ws') = tw_max (fst ws)"
  have same: "?goal (Inl e) ws1" if "take_shape rate ws1 fs zs ys h1 junk nx1" "tw_max (fst ws1) = tw_max (fst ws)"
    for e ws1 h1 nx1 using that by blast
  obtain w0 files0 where ws: "ws = (w0, files0)" by fastforce
  obtain m where m: "tw_max w0 = 4 * m" using s by (auto simp: take_shape_def ws)
  have sh: "tw_part_bytes w0 = 4 * length ys" "4 * length ys + length junk \<le> 4 * m"
    using s m by (auto simp: take_shape_def ws)
  have "(4 * m - 4 * length ys) div 4 = m - length ys" by (simp flip: diff_mult_distrib2)
  with full sh m have "m \<le> length ys" by (simp add: ws)
  with sh m have "4 * length ys = tw_max w0 \<and> length junk = 0" by linarith
  then have full': "4 * length ys = tw_max w0" "junk = []" by simp_all
  obtain r1 w files where p: "patch_and_sync env ws = (r1, (w, files))" by (metis prod.exhaust)
  from patch_shape [OF s p] obtain h1 where h1: "take_shape rate (w, files) fs zs ys h1 junk nx" "w = w0"
    by (auto simp: ws)
  show ?thesis
  proof (cases "tw_parts w0 > u32_max \<or> (\<exists>e. r1 = Inl e)")
    case True
    with r p s h1 same show ?thesis by (auto simp: roll_over_def ws Let_def split: if_splits)
  next
    case False
    then have r1: "r1 = Inr ()" "\<not> tw_parts w0 > u32_max" by (cases r1; simp)+
    obtain r2 files2 where c: "create_part env (tw_parts w) (tw_rate w) files = (r2, files2)" by fastforce
    from h1 have f: "files = fs @ (h1 @ le_bytes ys @ junk) # nx" "tw_parts w = Suc (length fs)" "tw_rate w = rate"
      "torn_part rate nx" by (auto simp: take_shape_def)
    then have "tw_parts w \<le> length files" "length files \<le> Suc (tw_parts w)" by (auto simp: torn_part_def)
    from c [unfolded f(3)] this show ?thesis
    proof (cases rule: create_part_cases)
      case (err e nx2)
      have "take_shape rate (w, files2) fs zs ys h1 junk (nx @ nx2)"
        using h1 err f by (cases nx) (auto simp: take_shape_def torn_part_def)
      with r p r1 c err same [of "(w, files2)"] h1(2) show ?thesis by (auto simp: roll_over_def ws Let_def)
    next
      case ok
      then have nx: "nx = []" using f by simp
      show ?thesis
      proof (cases "te_clone env (tw_parts w)")
        case (Some e)
        have "take_shape rate (w, files2) fs zs ys h1 junk [take_header rate 0]"
        proof -
          have "\<exists>k. take_header rate 0 = take k (take_header rate 0)"
            by (rule exI [of _ "length (take_header rate 0)"]) simp
          then show ?thesis using h1 ok f nx by (auto simp: take_shape_def torn_part_def)
        qed
        with r p r1 c ok same [of "(w, files2)"] h1(2) Some show ?thesis by (auto simp: roll_over_def ws Let_def)
      next
        case None
        have e: "ws' = (w\<lparr>tw_target := tw_parts w, tw_data_bytes := 0, tw_file := tw_parts w,
            tw_parts := tw_parts w + 1, tw_part_bytes := 0\<rparr>, files2)" "r = Inr ()"
          using r p r1 c ok None h1(2) by (auto simp: roll_over_def ws Let_def)
        have "take_shape rate ws' (fs @ [h1 @ le_bytes ys]) (zs @ [ys]) [] (take_header rate 0) [] []"
          using h1 f ok nx full' unfolding take_shape_def e(1)
          by (auto simp: full_part_def canon_take_header torn_part_def intro: list_all2_appendI)
        then show ?thesis using e h1(2) by (intro exI conjI) (assumption | simp add: ws)+
      qed
    qed
  qed
qed

lemma overlay_length:
  "4 * l + length junk \<le> mx \<Longrightarrow> length b \<le> n \<Longrightarrow> 4 * l + n \<le> mx \<Longrightarrow> length (b @ drop (length b) junk) + 4 * l \<le> mx"
  by auto

lemma shape_new_junk:
  "take_shape rate (w, files) fs zs ys h junk nx \<Longrightarrow> length j + 4 * length ys \<le> tw_max w \<Longrightarrow>
   take_shape rate (w, fs @ (h @ le_bytes ys @ j) # nx) fs zs ys h j nx"
  by (auto simp: take_shape_def)

lemma shape_write:
  assumes "take_shape rate (w, files) fs zs ys h junk nx" "length z = n" "4 * length ys + 4 * n \<le> tw_max w"
  shows "take_shape rate (w\<lparr>tw_part_bytes := tw_part_bytes w + n * 4, tw_data_bytes := tw_part_bytes w + n * 4,
      tw_total := tw_total w + n\<rparr>, fs @ (h @ le_bytes ys @ le_bytes z @ drop (length (le_bytes z)) junk) # nx)
    fs zs (ys @ z) h (drop (length (le_bytes z)) junk) nx"
  using assms by (auto simp: take_shape_def le_bytes_append)

lemma append_loop_ok:
  "take_ok c rate ws xs \<Longrightarrow> take_append_loop env rest ws = (r, ws') \<Longrightarrow>
   \<exists>m \<le> length rest. take_ok (c \<and> r = Inr ()) rate ws' (xs @ take m rest) \<and> (r = Inr () \<longrightarrow> m = length rest)"
proof (induction env rest ws arbitrary: c xs rule: take_append_loop.induct)
  case (1 env rest ws)
  from "1.prems"(1) obtain fs zs ys h junk nx where
    s: "take_shape rate ws fs zs ys h junk nx" "xs = concat zs @ ys" "c \<longrightarrow> junk = [] \<and> nx = []"
    by (auto simp: take_ok_def)
  obtain w files where ws: "ws = (w, files)" by fastforce
  have mx: "\<not> tw_max (fst ws) < 4" using s by (auto simp: take_shape_def)
  have fin: "?case" if "take_ok (c \<and> r = Inr ()) rate ws' xs" "r = Inr () \<longrightarrow> rest = []"
    using that by (intro exI [of _ 0]) auto
  let ?room = "(tw_max (fst ws) - tw_part_bytes (fst ws)) div 4"
  show ?case
  proof (cases "rest = []")
    case True
    with "1.prems" show ?thesis by (intro fin) (auto simp: take_append_loop.simps)
  next
    case ne: False
    show ?thesis
    proof (cases "?room = 0")
      case True
      obtain r1 ws1 where ro: "roll_over env ws = (r1, ws1)" by (metis prod.exhaust)
      from roll_over_shape [OF s(1) True ro] s(2) have ok1: "take_ok (c \<and> r1 = Inr ()) rate ws1 xs"
        unfolding take_ok_def by (elim exE conjE) (intro exI conjI, assumption, simp_all)
      show ?thesis
      proof (cases r1)
        case (Inl e)
        with "1.prems" ne mx True ro ok1 show ?thesis
          by (intro fin) (auto simp: take_append_loop.simps [of env rest ws])
      next
        case (Inr u)
        with "1.prems"(2) ne mx True ro have l: "take_append_loop env rest ws1 = (r, ws')"
          by (simp add: take_append_loop.simps [of env rest ws])
        from ok1 have "take_ok c rate ws1 xs" by (simp add: Inr)
        from "1.IH"(1) [OF _ refl refl refl True ro [symmetric] Inr this l] ne mx show ?thesis by simp
      qed
    next
      case room: False
      let ?n = "min ?room (length rest)"
      let ?buf = "le_bytes (take ?n rest)"
      from s(1) have f: "files = fs @ (h @ le_bytes ys @ junk) # nx" "tw_file w = length fs" "canon_header rate h"
        "tw_part_bytes w = 4 * length ys" by (auto simp: take_shape_def ws)
      have put: "files[tw_file w := write_at (files ! tw_file w) (take_header_bytes + tw_part_bytes w) b] =
        fs @ (h @ le_bytes ys @ b @ drop (length b) junk) # nx" for b
        using write_at_end [of "h @ le_bytes ys" junk b] f by (simp add: take_header_bytes_def canon_length)
      have lb: "length ?buf = 4 * ?n" by simp
      obtain m where m: "tw_max w = 4 * m" using s(1) by (auto simp: take_shape_def ws)
      have "(4 * m - 4 * length ys) div 4 = m - length ys" by (simp flip: diff_mult_distrib2)
      then have fit: "4 * length ys + 4 * ?n \<le> tw_max w" using m f s(1) by (auto simp: take_shape_def ws)
      have jk: "4 * length ys + length junk \<le> tw_max w" using s(1) by (auto simp: take_shape_def ws)
      show ?thesis
      proof (cases "te_write env (tw_file w)")
        case (Some ke)
        obtain k e where ke: "ke = (k, e)" by fastforce
        with "1.prems"(2) ne mx room Some have r: "r = Inl e'" "ws' = (w, fs @ (h @ le_bytes ys @ take k ?buf @
            drop (length (take k ?buf)) junk) # nx)" if "e' = from_io ''writing the take file'' e" for e'
          using that by (auto simp: take_append_loop.simps [of env rest "(w, files)"] ws put Let_def)
        have "length (take k ?buf @ drop (length (take k ?buf)) junk) + 4 * length ys \<le> tw_max w"
          by (rule overlay_length [OF jk _ fit]) (simp only: length_take lb min.cobounded1)
        from shape_new_junk [OF s(1) [unfolded ws] this]
        have "take_shape rate ws' fs zs ys h (take k ?buf @ drop (length (take k ?buf)) junk) nx"
          by (simp only: r(2) [OF refl])
        then have "take_ok False rate ws' xs" unfolding take_ok_def s(2) by blast
        with r(1) [OF refl] show ?thesis by (intro fin) simp_all
      next
        case None
        let ?w1 = "w\<lparr>tw_part_bytes := tw_part_bytes w + ?n * 4, tw_data_bytes := tw_part_bytes w + ?n * 4,
          tw_total := tw_total w + ?n\<rparr>"
        let ?ws1 = "(?w1, fs @ (h @ le_bytes ys @ ?buf @ drop (length ?buf) junk) # nx)"
        from "1.prems"(2) ne mx room None have l: "take_append_loop env (drop ?n rest) ?ws1 = (r, ws')"
          by (simp add: take_append_loop.simps [of env rest "(w, files)"] ws put Let_def)
        have "take_shape rate ?ws1 fs zs (ys @ take ?n rest) h (drop (length ?buf) junk) nx"
          using shape_write [OF s(1) [unfolded ws] _ fit] by simp
        then have "take_ok c rate ?ws1 (xs @ take ?n rest)" using s(2,3) unfolding take_ok_def by fastforce
        from "1.IH"(2) [OF _ refl refl refl room refl refl refl, of c "xs @ take ?n rest"] ne mx None this l
        obtain j where j: "j \<le> length (drop ?n rest)" "take_ok (c \<and> r = Inr ()) rate ws' ((xs @ take ?n rest) @ take j (drop ?n rest))"
          "r = Inr () \<longrightarrow> j = length (drop ?n rest)"
          by (auto simp: ws put)
        have "take ?n rest @ take j (drop ?n rest) = take (?n + j) rest" by (simp add: take_add)
        with j show ?thesis by (intro exI [of _ "?n + j"]) auto
      qed
    qed
  qed
qed

lemma sync_ok:
  assumes "take_ok c rate ws xs" "sync_at env now ws = (r, ws')"
  shows "take_ok c rate ws' xs \<and> tw_total (fst ws') = tw_total (fst ws)"
proof -
  from assms(1) obtain fs zs ys h junk nx where
    s: "take_shape rate ws fs zs ys h junk nx" "xs = concat zs @ ys" "c \<longrightarrow> junk = [] \<and> nx = []"
    by (auto simp: take_ok_def)
  obtain r1 ws1 where p: "patch_and_sync env ws = (r1, ws1)" by (metis prod.exhaust)
  from patch_shape [OF s(1) p] obtain h' where h': "take_shape rate ws1 fs zs ys h' junk nx" "fst ws1 = fst ws" by blast
  obtain n where "ws' = ws1 \<or> ws' = ((fst ws1)\<lparr>tw_last_sync := n\<rparr>, snd ws1)"
    using assms(2) p by (auto simp: sync_at_def split: sum.splits prod.splits)
  then have "take_shape rate ws' fs zs ys h' junk nx \<and> tw_total (fst ws') = tw_total (fst ws1)"
    using h' by (auto simp: take_shape_def split: prod.splits)
  with s h' show ?thesis by (auto intro: take_okI)
qed

lemma take_ok_total: "take_ok c rate ws xs \<Longrightarrow> tw_total (fst ws) = length xs"
  by (auto simp: take_ok_def take_shape_def)

lemma take_ok_mono: "take_ok c rate ws xs \<Longrightarrow> (d \<Longrightarrow> c) \<Longrightarrow> take_ok d rate ws xs"
  unfolding take_ok_def by blast

lemma take_append_ok:
  assumes "take_ok c rate ws xs" "take_append env rest now ws = (r, ws')"
  shows "\<exists>m \<le> length rest. take_ok (c \<and> r = Inr ()) rate ws' (xs @ take m rest) \<and> (r = Inr () \<longrightarrow> m = length rest)"
proof -
  obtain r1 ws1 where l: "take_append_loop env rest ws = (r1, ws1)" by (metis prod.exhaust)
  from append_loop_ok [OF assms(1) l] obtain m where
    m: "m \<le> length rest" "take_ok (c \<and> r1 = Inr ()) rate ws1 (xs @ take m rest)" "r1 = Inr () \<longrightarrow> m = length rest" by blast
  show ?thesis
  proof (cases "r1 = Inr () \<and> tw_mode (fst ws1) = Inline \<and> \<not> now - tw_last_sync (fst ws1) < tw_interval (fst ws1)")
    case True
    obtain r2 ws2 where y: "sync_at env now ws1 = (r2, ws2)" by (metis prod.exhaust)
    have e: "ws' = ws2" "r = Inr () \<longrightarrow> r2 = Inr ()"
      using assms(2) l True y by (auto simp: take_append_def maybe_sync_def split: sum.splits prod.splits if_splits)
    from sync_ok [OF m(2) y] have "take_ok (c \<and> r = Inr ()) rate ws' (xs @ take m rest)"
      using True e by (auto elim: take_ok_mono)
    with m True show ?thesis by blast
  next
    case False
    then have "ws' = ws1" "r = r1"
      using assms(2) l by (auto simp: take_append_def maybe_sync_def split: sum.splits prod.splits if_splits)
    with m show ?thesis by blast
  qed
qed

lemma create_ok:
  assumes "take_create env rate opt now [] = (Inr w, files)"
  shows "take_ok True rate (w, files) [] \<and> 0 < rate"
proof -
  let ?mx = "min (to_max_data opt) max_take_data_bytes div 4 * 4"
  from assms have a: "0 < rate" "?mx \<noteq> 0" "files = [take_header rate 0]"
    "w = \<lparr>tw_rate = rate, tw_max = ?mx, tw_interval = to_interval opt, tw_mode = to_mode opt, tw_file = 0,
      tw_target = 0, tw_data_bytes = 0, tw_part_bytes = 0, tw_total = 0, tw_last_sync = now, tw_parts = 1\<rparr>"
    by (auto simp: take_create_def create_part_def Let_def split: if_splits sum.splits option.splits prod.splits)
  have "take_shape rate (w, files) [] [] [] (take_header rate 0) [] []"
    using a by (auto simp: take_shape_def canon_take_header torn_part_def)
  with a(1) show ?thesis unfolding take_ok_def by fastforce
qed

section \<open>Reading the parts back\<close>

definition part_samples :: "recovered_take \<Rightarrow> f32 list" where
  "part_samples t = read_take_samples t 0 (rt_samples t)"

definition all_samples :: "recovered_take list \<Rightarrow> f32 list" where
  "all_samples ts = concat (map part_samples ts)"

definition canon_take :: "nat \<Rightarrow> byte list \<Rightarrow> byte list \<Rightarrow> recovered_take" where
  "canon_take rate h bs = \<lparr>rt_file = h @ bs, rt_rate = rate, rt_offset = 44, rt_samples = length bs div 4,
     rt_header_samples = unat (f32_of_le (drop 40 h)) div 4\<rparr>"

lemma recover_file_eq:
  assumes "canon_header rate h" "0 < rate" "rate \<le> u32_max"
  shows "recover_take_file None (h @ bs) = Inr (canon_take rate h bs)"
  by (simp only: recover_take_file_def parse_canon [OF assms] option.case sum.case prod.case canon_take_def)

lemma canon_take_samples:
  assumes "canon_header rate h"
  shows "part_samples (canon_take rate h bs) = copy_le_f32 bs (length bs div 4)"
proof -
  have "copy_le_f32 (take (length bs div 4 * 4) bs) (length bs div 4) = copy_le_f32 bs (length bs div 4)"
    by (rule copy_le_take) simp
  then show ?thesis
    by (cases "length bs div 4 = 0")
       (simp_all add: canon_take_def part_samples_def read_take_samples_def canon_length [OF assms] Let_def copy_le_f32_def)
qed

lemma recover_file_canon:
  assumes "canon_header rate h" "0 < rate" "rate \<le> u32_max"
  obtains t where "recover_take_file None (h @ bs) = Inr t" "part_samples t = copy_le_f32 bs (length bs div 4)"
  using recover_file_eq [OF assms] canon_take_samples [OF assms(1)] by blast

lemma copy_le_all: "copy_le_f32 (le_bytes ys @ junk) (length (le_bytes ys @ junk) div 4) =
    ys @ copy_le_f32 junk (length junk div 4)"
proof -
  have d: "take 4 (drop (4 * i) (le_bytes ys @ junk)) = f32_le (ys ! i)" if "i < length ys" for i
  proof -
    have "drop (4 * i) (le_bytes ys) = f32_le (ys ! i) @ drop (4 * Suc i) (le_bytes ys)"
      using le_bytes_nth [OF that] append_take_drop_id [of 4 "drop (4 * i) (le_bytes ys)"]
      by (simp add: add.commute)
    then show ?thesis using that by simp
  qed
  have e: "drop (4 * (length ys + i)) (le_bytes ys @ junk) = drop (4 * i) junk" for i
    by (simp add: algebra_simps)
  have n: "length (le_bytes ys @ junk) div 4 = length ys + length junk div 4" by simp
  have u: "[0 ..< length ys + m] = [0 ..< length ys] @ map (\<lambda>i. length ys + i) [0 ..< m]" for m
    by (induction m) simp_all
  have "map (\<lambda>i. f32_of_le (take 4 (drop (4 * i) (le_bytes ys @ junk)))) [0 ..< length ys] = ys"
    by (rule nth_equalityI) (simp_all only: length_map length_upt nth_map nth_upt d add_0 minus_nat.diff_0 f32_roundtrip)
  then show ?thesis unfolding n copy_le_f32_def u map_append map_map o_def e by (rule arg_cong)
qed

lemma get_bytes_take: "k \<le> length l \<Longrightarrow> get_bytes (take k l) a n = (if a + n \<le> k then get_bytes l a n else None)"
  by (auto simp: get_bytes_def drop_take min_def)

lemma parse_chunks_short: "u32_at head (pos + 4) = None \<Longrightarrow> \<exists>e. parse_chunks head n pos fmt = Inl e"
  by (simp add: parse_chunks.simps [of head n pos fmt] split: option.splits)

lemma map_sum_append_Nil [simp]: "map_sum id ((@) []) x = x"
  by (cases x) simp_all

lemma torn_header_rejected:
  assumes "k < 44"
  shows "\<exists>e. recover_take_file None (take k (take_header rate 0)) = Inl e"
proof -
  obtain r0 r1 r2 r3 where rt: "u32_le rate = [r0, r1, r2, r3]" using list4 [of "u32_le rate"] by auto
  obtain q0 q1 q2 q3 where q: "u32_le (min (rate * 4) u32_max) = [q0, q1, q2, q3]"
    using list4 [of "u32_le (min (rate * 4) u32_max)"] by auto
  obtain a0 a1 a2 a3 where a: "u32_le (min 36 u32_max) = [a0, a1, a2, a3]"
    using list4 [of "u32_le (min 36 u32_max)"] by auto
  obtain b0 b1 b2 b3 where b: "u32_le 0 = [b0, b1, b2, b3]" using list4 [of "u32_le 0"] by auto
  let ?l = "[82, 73, 70, 70, a0, a1, a2, a3, 87, 65, 86, 69, 102, 109, 116, 32, 16, 0, 0, 0, 3, 0, 1, 0, r0, r1, r2, r3,
    q0, q1, q2, q3, 4, 0, 32, 0, 100, 97, 116, 97, b0, b1, b2, b3] :: byte list"
  have l: "take_header rate 0 = ?l" by (simp add: take_header_def ascii_values le_values rt q a b)
  have s16: "unat (f32_of_le [16, 0, 0, 0]) = 16" using u32_le_value [of 16] by (simp add: le_values u32_max_def)
  have ll: "length ?l = 44" by simp
  have x: "take max_header_scan_bytes (take k ?l) = take k ?l" "length (take k ?l) = k"
    using assms by (simp_all add: max_header_scan_bytes_def)
  have g: "get_bytes (take k ?l) i n = (if i + n \<le> k then get_bytes ?l i n else None)" for i n
    using assms get_bytes_take [of k ?l i n] by simp
  show ?thesis
  proof (cases "k < 12")
    case True
    then show ?thesis unfolding l recover_take_file_def x parse_take_header_def by simp
  next
    case False
    obtain e where e: "parse_chunks (take k ?l) k 12 None = Inl e"
    proof (cases "k < 20")
      case True
      then have "u32_at (take k ?l) 16 = None" by (simp only: u32_at_def g) simp
      then show thesis using that parse_chunks_short [of "take k ?l" 12 k None] by auto
    next
      case k20: False
      have w: "get_bytes (take k ?l) 12 4 = Some (ascii ''fmt '')" "u32_at (take k ?l) 16 = Some 16"
        using k20 by (simp_all only: u32_at_def g) (simp_all add: get_bytes_def ascii_values s16)
      show thesis
      proof (cases "parse_fmt (take k ?l) 20 16")
        case (Inl e)
        then show thesis using that [of e] w by (simp add: parse_chunks.simps [of _ _ 12] ascii_values)
      next
        case (Inr p)
        have "u32_at (take k ?l) 40 = None" using assms by (simp only: u32_at_def g) simp
        then have "\<exists>e. parse_chunks (take k ?l) k 36 (Some p) = Inl e"
          using parse_chunks_short [of "take k ?l" 36 k "Some p"] by simp
        then show thesis using that Inr w
          by (auto simp: parse_chunks.simps [of _ _ 12] ascii_values Let_def max_header_scan_bytes_def)
      qed
    qed
    then show ?thesis unfolding l recover_take_file_def x parse_take_header_def by simp
  qed
qed

lemma recover_full_parts:
  assumes "list_all2 (full_part rate) fs zs" "0 < rate" "rate \<le> u32_max"
  shows "\<exists>ts. all_samples ts = concat zs \<and>
    (\<forall>rest p. recover_take (\<lambda>_. None) p (fs @ rest) =
       map_sum id ((@) ts) (recover_take (\<lambda>_. None) (p + length fs) rest))"
  using assms(1)
proof induction
  case Nil
  show ?case by (intro exI [of _ "[]"]) (simp add: all_samples_def sum.map_ident)
next
  case (Cons f fs z zs)
  from Cons.IH obtain ts where ts: "all_samples ts = concat zs"
    "\<forall>rest p. recover_take (\<lambda>_. None) p (fs @ rest) = map_sum id ((@) ts) (recover_take (\<lambda>_. None) (p + length fs) rest)"
    by blast
  from Cons.hyps(1) obtain h where h: "canon_header rate h" "f = h @ le_bytes z" by (auto simp: full_part_def)
  obtain t where t: "recover_take_file None f = Inr t" "part_samples t = copy_le_f32 (le_bytes z) (length (le_bytes z) div 4)"
    using recover_file_canon [OF h(1) assms(2,3), of "le_bytes z"] h(2) by auto
  have "part_samples t = z" using t(2) copy_le_all [of z "[]"] by (simp add: copy_le_f32_def)
  then show ?case using ts t(1)
    by (intro exI [of _ "t # ts"]) (auto simp: all_samples_def sum.map_comp comp_def)
qed

lemma torn_recovers:
  assumes "torn_part rate nx" "0 < rate" "rate \<le> u32_max"
  shows "\<exists>ts. recover_take (\<lambda>_. None) p nx = Inr ts \<and> all_samples ts = []"
proof (cases "nx = []")
  case False
  with assms(1) obtain k where k: "nx = [take k (take_header rate 0)]" by (auto simp: torn_part_def)
  have l: "length (take_header rate 0) = 44" by (rule canon_length [OF canon_take_header])
  show ?thesis
  proof (cases "k < 44")
    case True
    from torn_header_rejected [OF this] obtain e where "recover_take_file None (take k (take_header rate 0)) = Inl e" by blast
    then show ?thesis using True by (simp add: k take_header_bytes_def all_samples_def)
  next
    case False
    obtain t where "recover_take_file None (take_header rate 0) = Inr t" "part_samples t = []"
      using recover_file_canon [OF canon_take_header assms(2,3), of 0 "[]"] by (auto simp: copy_le_f32_def)
    then show ?thesis using False l by (simp add: k all_samples_def)
  qed
qed (simp add: all_samples_def)

lemma recover_ok:
  assumes ok: "take_ok c rate ws xs" and r: "0 < rate" "rate \<le> u32_max"
  shows "\<exists>ts more. recover_take (\<lambda>_. None) 0 (snd ws) = Inr ts \<and> all_samples ts = xs @ more \<and> (c \<longrightarrow> more = [])"
proof -
  from ok obtain fs zs ys h junk nx where
    s: "take_shape rate ws fs zs ys h junk nx" "xs = concat zs @ ys" "c \<longrightarrow> junk = [] \<and> nx = []"
    by (auto simp: take_ok_def)
  from s(1) have f: "snd ws = fs @ (h @ le_bytes ys @ junk) # nx" "list_all2 (full_part rate) fs zs" "canon_header rate h"
    "torn_part rate nx" by (auto simp: take_shape_def)
  from recover_full_parts [OF f(2) r] obtain ts where ts: "all_samples ts = concat zs"
    "\<forall>rest p. recover_take (\<lambda>_. None) p (fs @ rest) = map_sum id ((@) ts) (recover_take (\<lambda>_. None) (p + length fs) rest)"
    by blast
  obtain t where t: "recover_take_file None (h @ le_bytes ys @ junk) = Inr t"
    "part_samples t = copy_le_f32 (le_bytes ys @ junk) (length (le_bytes ys @ junk) div 4)"
    by (rule recover_file_canon [OF f(3) r, of "le_bytes ys @ junk"])
  from torn_recovers [OF f(4) r, of "0 + length fs + 1"] obtain ts2 where
    ts2: "recover_take (\<lambda>_. None) (0 + length fs + 1) nx = Inr ts2" "all_samples ts2 = []" by blast
  have "recover_take (\<lambda>_. None) 0 (snd ws) = Inr (ts @ t # ts2)"
    using ts2 t(1) by (simp add: f(1) ts(2))
  moreover have "all_samples (ts @ t # ts2) = xs @ copy_le_f32 junk (length junk div 4)"
    using ts(1) ts2(2) t(2) copy_le_all [of ys junk] s(2) by (simp add: all_samples_def)
  moreover have "c \<longrightarrow> copy_le_f32 junk (length junk div 4) = []" using s(3) by (auto simp: copy_le_f32_def)
  ultimately show ?thesis by blast
qed

section \<open>Runs\<close>

text \<open>
  What happens to a take: the capture thread appends, it or another thread syncs.  The run keeps the
  samples captured (all of an append that returned \<open>Ok\<close>, what was counted of one that failed) and
  whether everything went well.
\<close>

datatype take_event = EAppend take_env "f32 list" nat | ESync take_env nat | EHandleSync take_env

fun take_event_step ::
    "take_event \<Rightarrow> (take_writer \<times> byte list list) \<times> f32 list \<times> bool \<Rightarrow> (take_writer \<times> byte list list) \<times> f32 list \<times> bool"
    where
  "take_event_step (EAppend env xs now) (ws, got, ok) =
     (case take_append env xs now ws of
        (Inr _, ws') \<Rightarrow> (ws', got @ xs, ok)
      | (Inl _, ws') \<Rightarrow> (ws', got @ take (tw_total (fst ws') - tw_total (fst ws)) xs, False))"
| "take_event_step (ESync env now) (ws, got, ok) = (case sync_at env now ws of (_, ws') \<Rightarrow> (ws', got, ok))"
| "take_event_step (EHandleSync env) (ws, got, ok) = (case patch_and_sync env ws of (_, ws') \<Rightarrow> (ws', got, ok))"

definition take_run ::
    "take_event list \<Rightarrow> (take_writer \<times> byte list list) \<times> f32 list \<times> bool \<Rightarrow> (take_writer \<times> byte list list) \<times> f32 list \<times> bool"
    where
  "take_run es s = fold take_event_step es s"

lemma take_event_ok:
  assumes "take_ok ok rate ws got" "take_event_step e (ws, got, ok) = (ws', got', ok')"
  shows "take_ok ok' rate ws' got'"
proof (cases e)
  case (EAppend env xs now)
  obtain r ws1 where a: "take_append env xs now ws = (r, ws1)" by (metis prod.exhaust)
  from take_append_ok [OF assms(1) a] obtain m where m: "m \<le> length xs" "take_ok (ok \<and> r = Inr ()) rate ws1 (got @ take m xs)"
    "r = Inr () \<longrightarrow> m = length xs" by blast
  have "tw_total (fst ws1) - tw_total (fst ws) = m"
    using take_ok_total [OF m(2)] take_ok_total [OF assms(1)] m(1) by simp
  with m a assms(2) EAppend show ?thesis by (cases r) auto
next
  case (ESync env now)
  with assms show ?thesis by (auto dest: sync_ok split: prod.splits)
next
  case (EHandleSync env)
  obtain r ws1 where p: "patch_and_sync env ws = (r, ws1)" by (metis prod.exhaust)
  from assms(1) obtain fs zs ys h junk nx where
    s: "take_shape rate ws fs zs ys h junk nx" "got = concat zs @ ys" "ok \<longrightarrow> junk = [] \<and> nx = []"
    by (auto simp: take_ok_def)
  from patch_shape [OF s(1) p] obtain h' where "take_shape rate ws1 fs zs ys h' junk nx" by blast
  with s(2,3) p assms(2) EHandleSync show ?thesis by (auto intro: take_okI)
qed

lemma take_run_ok:
  "take_ok ok rate ws got \<Longrightarrow> take_run es (ws, got, ok) = (ws', got', ok') \<Longrightarrow> take_ok ok' rate ws' got'"
proof (induction es arbitrary: ws got ok)
  case (Cons e es)
  obtain ws1 got1 ok1 where e: "take_event_step e (ws, got, ok) = (ws1, got1, ok1)" by (metis prod.exhaust)
  from take_event_ok [OF Cons.prems(1) e] Cons show ?case by (simp add: take_run_def e)
qed (simp add: take_run_def)

section \<open>A concrete take: parts of two samples\<close>

definition calm_take :: take_env where
  "calm_take = \<lparr>te_write = \<lambda>_. None, te_patch = \<lambda>_. None, te_sync = \<lambda>_. None, te_open = \<lambda>_. None,
     te_header = \<lambda>_. None, te_dir = \<lambda>_. None, te_clone = \<lambda>_. None\<rparr>"

definition example_take :: "take_writer \<times> byte list list" where
  "example_take = (case take_create calm_take 48000 \<lparr>to_interval = 0, to_max_data = 8, to_mode = Inline\<rparr> 0 [] of
     (Inr w, files) \<Rightarrow> (w, files))"

lemma example_take_eq:
  "take_create calm_take 48000 \<lparr>to_interval = 0, to_max_data = 8, to_mode = Inline\<rparr> 0 [] = (Inr (fst example_take), snd example_take)"
  by (simp add: example_take_def take_create_def create_part_def calm_take_def Let_def u32_max_def max_take_data_bytes_def)

lemma example_take_run:
  "snd (take_run [EAppend calm_take [1, 2, 3] 5, EHandleSync calm_take] (example_take, [], True)) = ([1, 2, 3], True)"
  by (simp add: take_run_def example_take_def take_create_def create_part_def calm_take_def Let_def u32_max_def max_take_data_bytes_def
    take_append_def take_append_loop.simps roll_over_def patch_and_sync_def maybe_sync_def sync_at_def)

section \<open>Properties\<close>

text \<open>C19: A recording survives the crash of the process.  Whatever sequence of appends and syncs
  happened, with writes that stopped half way, headers torn while being patched, roll-overs that failed
  and parts left half created, the files read back: every part but a torn newest one parses, and the samples
  begin with exactly those captured, in order; when every append succeeded they are exactly those.\<close>

theorem recorded_take_recovers:
  assumes "take_create env rate opt now [] = (Inr w, files)" and "rate \<le> u32_max"
    and "take_run es ((w, files), [], True) = (ws', captured, ok)"
  shows "\<exists>ts more. recover_take (\<lambda>_. None) 0 (snd ws') = Inr ts \<and> all_samples ts = captured @ more \<and> (ok \<longrightarrow> more = [])"
  using recover_ok [OF take_run_ok [OF _ assms(3)] _ assms(2)] create_ok [OF assms(1)] by blast

theorem recorded_take_recovers_witness:
  "\<exists>ts. recover_take (\<lambda>_. None) 0 (snd (fst (take_run [EAppend calm_take [1, 2, 3] 5, EHandleSync calm_take]
     (example_take, [], True)))) = Inr ts \<and> all_samples ts = [1, 2, 3]"
proof -
  obtain ws' where r: "take_run [EAppend calm_take [1, 2, 3] 5, EHandleSync calm_take] ((fst example_take, snd example_take), [], True) =
    (ws', [1, 2, 3], True)"
    using example_take_run by (metis prod.collapse)
  from recorded_take_recovers [OF example_take_eq _ r] show ?thesis using r by (auto simp: u32_max_def)
qed

text \<open>Repairing a recovered part makes it a valid WAV file that holds the same samples: read again, its
  header tells the length the file has.\<close>

theorem repaired_take_is_valid:
  assumes "canon_header rate h" and "0 < rate" and "rate \<le> u32_max"
    and "recover_take_file None (h @ bs) = Inr t" and "repair_take_header None env t (h @ bs) = (Inr (), file)"
  shows "\<exists>t'. recover_take_file None file = Inr t' \<and> \<not> header_stale t' \<and> part_samples t' = part_samples t"
proof -
  let ?n = "length bs div 4"
  let ?bs = "take (?n * 4) bs"
  let ?h = "take_header rate (?n * 4)"
  have l: "length h = 44" "length ?h = 44" by (rule canon_length [OF assms(1)], rule canon_length [OF canon_take_header])
  have t: "t = canon_take rate h bs" using assms(4) recover_file_eq [OF assms(1-3)] by simp
  have lb: "length ?bs = ?n * 4" by simp
  have "set_len (h @ bs) (44 + ?n * 4) = h @ ?bs" using l by (simp add: set_len_def)
  then have f: "file = ?h @ ?bs" and m: "?n * 4 \<le> u32_max"
    using assms(5) l by (auto simp: repair_take_header_def t canon_take_def take_header_bytes_def Let_def write_at_def
        split: if_splits option.splits prod.splits)
  have "drop 40 ?h = u32_le (?n * 4)" by (rule drop_take_header)
  then have "\<not> header_stale (canon_take rate ?h ?bs)"
    using u32_le_value [OF m] lb by (simp add: header_stale_def canon_take_def)
  moreover have "part_samples (canon_take rate ?h ?bs) = part_samples t"
    by (simp add: canon_take_samples [OF assms(1)] canon_take_samples [OF canon_take_header] t copy_le_take)
  ultimately show ?thesis using recover_file_eq [OF canon_take_header assms(2,3)] f by blast
qed

theorem repaired_take_is_valid_witness:
  "\<exists>t'. recover_take_file None (take_header 8000 8 @ [0, 0, 128, 63, 0, 0, 0, 64]) = Inr t' \<and> \<not> header_stale t' \<and>
     part_samples t' = part_samples (canon_take 8000 (take_header 8000 0) [0, 0, 128, 63, 0, 0, 0, 64, 7])"
proof -
  let ?bs = "[0, 0, 128, 63, 0, 0, 0, 64, 7] :: byte list"
  have r: "recover_take_file None (take_header 8000 0 @ ?bs) = Inr (canon_take 8000 (take_header 8000 0) ?bs)"
    by (rule recover_file_eq [OF canon_take_header]) (simp_all add: u32_max_def)
  have "length (take_header 8000 n) = 44" for n by (rule canon_length [OF canon_take_header])
  then have "repair_take_header None calm_take (canon_take 8000 (take_header 8000 0) ?bs) (take_header 8000 0 @ ?bs) =
    (Inr (), take_header 8000 8 @ [0, 0, 128, 63, 0, 0, 0, 64])"
    by (simp add: repair_take_header_def canon_take_def take_header_bytes_def Let_def write_at_def set_len_def
        calm_take_def u32_max_def)
  from repaired_take_is_valid [OF canon_take_header _ _ r this] show ?thesis by (simp add: u32_max_def)
qed

end
