(* ===== verification/Journal.thy ===== *)
theory Journal
  imports History_Props Chunk_Store
begin

text \<open>
  The records of the edit journal and their conversions: \<^verbatim>\<open>crates/project/src/journal.rs\<close>, first half.

  The opaque UI state of a \<open>state\<close> record is a JSON value the crate never looks into: the type
  variable \<open>'v\<close>.  The lemmas are round trips: an edit, a snapshot and a whole history survive their
  record form.
\<close>

section \<open>Record types\<close>

record source_record =
  src_path :: string
  src_size :: nat
  src_mtime :: nat
  src_format :: string

datatype take_mode_record = TmNew | TmInsert | TmOverwrite | TmPunch

datatype piece_record = PrChunk nat nat nat | PrSilence nat

record marker_record =
  mr_id :: nat
  mr_pos :: nat
  mr_len :: nat
  mr_name :: string
  mr_kind :: string

datatype mapping_record = MrShift | MrIdentity

datatype op_record = OrReplace nat nat "piece_record list" mapping_record

datatype marker_op_record =
    MorAdd marker_record
  | MorRemove nat
  | MorRename nat string
  | MorMove nat nat nat

record edit_record =
  er_seq :: nat
  er_label :: string
  er_params :: label_params
  er_ops :: "op_record list"
  er_marker_ops :: "marker_op_record list"
  er_take :: "nat option"
  er_attachment :: "byte list option"
  er_take_wav :: "nat option"

record snapshot_record =
  snr_rev :: nat
  snr_audio_rev :: nat
  snr_rate :: nat
  snr_pieces :: "piece_record list"
  snr_markers :: "marker_record list"

record entry_record =
  enr_seq :: nat
  enr_label :: string
  enr_params :: label_params
  enr_audio :: bool
  enr_first_at :: "nat option"
  enr_attachment :: "byte list option"
  enr_snapshot :: snapshot_record

record checkpoint_record =
  cp_seq :: nat
  cp_saved_seq :: nat
  cp_next_seq :: nat
  cp_next_rev :: nat
  cp_next_audio_rev :: nat
  cp_next_marker_id :: nat
  cp_chunks :: "chunk_location list"
  cp_current :: snapshot_record
  cp_undo :: "entry_record list"
  cp_redo :: "entry_record list"

record take_begin_record =
  tb_take :: nat
  tb_mode :: take_mode_record
  tb_at :: nat
  tb_len :: nat
  tb_file :: string
  tb_rate :: nat
  tb_xfade :: nat
  tb_offset_ns :: int
  tb_aligned :: bool

record saved_record =
  sv_path :: string
  sv_seq :: nat
  sv_format :: string
  sv_crc :: "string option"
  sv_sidecar :: "bool option"
  sv_size :: "nat option"
  sv_mtime :: "nat option"

datatype 'v journal_record =
    JOpen nat nat "source_record option"
  | JChunks "chunk_location list"
  | JEdit edit_record
  | JUndo nat
  | JRedo nat
  | JDropUndo nat
  | JTakeBegin take_begin_record
  | JTakeDiscard nat
  | JTakeWindow nat nat
  | JTakeCancel nat
  | JTakeMarker nat marker_record
  | JState 'v
  | JSaved saved_record
  | JCheckpoint checkpoint_record
  | JClose

section \<open>Conversions\<close>

definition from_piece :: "piece \<Rightarrow> piece_record" where
  "from_piece p =
     (case p_source p of
        Chunk c \<Rightarrow> PrChunk c (p_offset p) (p_len p)
      | Silence \<Rightarrow> PrSilence (p_len p))"

fun to_piece :: "piece_record \<Rightarrow> piece" where
  "to_piece (PrChunk c off len) = piece_chunk c off len"
| "to_piece (PrSilence len) = piece_silence len"

definition from_marker :: "marker \<Rightarrow> marker_record" where
  "from_marker m = \<lparr>mr_id = m_id m, mr_pos = m_pos m, mr_len = m_len m, mr_name = m_name m,
     mr_kind = kind_as_str (m_kind m)\<rparr>"

definition to_marker :: "marker_record \<Rightarrow> marker" where
  "to_marker r = marker_with_kind (marker_new (mr_id r) (mr_pos r) (mr_len r) (mr_name r)) (kind_parse (mr_kind r))"

fun from_mapping :: "marker_mapping \<Rightarrow> mapping_record" where
  "from_mapping Shift = MrShift"
| "from_mapping Identity = MrIdentity"

fun to_mapping :: "mapping_record \<Rightarrow> marker_mapping" where
  "to_mapping MrShift = Shift"
| "to_mapping MrIdentity = Identity"

fun from_op :: "edit_op \<Rightarrow> op_record" where
  "from_op (Replace at r ps mp) = OrReplace at r (map from_piece ps) (from_mapping mp)"

fun to_op :: "op_record \<Rightarrow> edit_op" where
  "to_op (OrReplace at r ps mp) = Replace at r (map to_piece ps) (to_mapping mp)"

fun from_marker_op :: "marker_op \<Rightarrow> marker_op_record" where
  "from_marker_op (MAdd m) = MorAdd (from_marker m)"
| "from_marker_op (MRemove i) = MorRemove i"
| "from_marker_op (MRename i n) = MorRename i n"
| "from_marker_op (MMove i p l) = MorMove i p l"

fun to_marker_op :: "marker_op_record \<Rightarrow> marker_op" where
  "to_marker_op (MorAdd m) = MAdd (to_marker m)"
| "to_marker_op (MorRemove i) = MRemove i"
| "to_marker_op (MorRename i n) = MRename i n"
| "to_marker_op (MorMove i p l) = MMove i p l"

definition from_edit :: "nat \<Rightarrow> edit \<Rightarrow> nat option \<Rightarrow> edit_record" where
  "from_edit seq e tk =
     \<lparr>er_seq = seq, er_label = e_label e, er_params = e_params e, er_ops = map from_op (e_ops e),
      er_marker_ops = map from_marker_op (e_marker_ops e), er_take = tk,
      er_attachment = e_attachment e, er_take_wav = None\<rparr>"

definition to_edit :: "edit_record \<Rightarrow> edit" where
  "to_edit r =
     \<lparr>e_label = er_label r, e_params = er_params r, e_ops = map to_op (er_ops r),
      e_marker_ops = map to_marker_op (er_marker_ops r), e_attachment = er_attachment r\<rparr>"

definition from_snapshot :: "doc_snapshot \<Rightarrow> snapshot_record" where
  "from_snapshot d =
     \<lparr>snr_rev = s_rev d, snr_audio_rev = s_audio_rev d, snr_rate = s_rate d,
      snr_pieces = map from_piece (s_pieces d), snr_markers = map from_marker (s_markers d)\<rparr>"

definition to_snapshot :: "snapshot_record \<Rightarrow> doc_snapshot" where
  "to_snapshot r =
     (snapshot_new (snr_rate r) (map to_piece (snr_pieces r)) (map to_marker (snr_markers r)))
       \<lparr>s_rev := snr_rev r, s_audio_rev := snr_audio_rev r\<rparr>"

definition from_entry :: "entry \<Rightarrow> entry_record" where
  "from_entry e =
     \<lparr>enr_seq = en_seq e, enr_label = en_label e, enr_params = en_params e, enr_audio = en_audio e,
      enr_first_at = en_first_at e, enr_attachment = en_attachment e,
      enr_snapshot = from_snapshot (en_snapshot e)\<rparr>"

definition to_entry :: "entry_record \<Rightarrow> entry" where
  "to_entry r =
     \<lparr>en_snapshot = to_snapshot (enr_snapshot r), en_seq = enr_seq r, en_label = enr_label r,
      en_params = enr_params r, en_attachment = enr_attachment r, en_audio = enr_audio r,
      en_first_at = enr_first_at r\<rparr>"

definition from_history :: "history \<Rightarrow> chunk_location list \<Rightarrow> checkpoint_record" where
  "from_history h chunks =
     \<lparr>cp_seq = current_seq h, cp_saved_seq = h_saved_seq h, cp_next_seq = h_next_seq h,
      cp_next_rev = h_next_rev h, cp_next_audio_rev = h_next_audio_rev h,
      cp_next_marker_id = h_next_marker_id h, cp_chunks = chunks,
      cp_current = from_snapshot (h_current h), cp_undo = map from_entry (h_undo h),
      cp_redo = map from_entry (h_redo h)\<rparr>"

definition to_history :: "checkpoint_record \<Rightarrow> history" where
  "to_history r =
     from_parts (to_snapshot (cp_current r)) (map to_entry (cp_undo r)) (map to_entry (cp_redo r))
       (cp_next_rev r) (cp_next_audio_rev r) (cp_next_seq r) (cp_saved_seq r) (cp_next_marker_id r)"

section \<open>Round trips\<close>

text \<open>
  \<open>kind_plain\<close>: the kinds \<open>MarkerKind::parse\<close> can produce; \<open>Other ''user''\<close> would read back as \<open>User\<close>.
\<close>

definition kind_plain :: "marker \<Rightarrow> bool" where
  "kind_plain m \<longleftrightarrow> m_kind m \<noteq> Other ''user'' \<and> m_kind m \<noteq> Other ''dropout''"

fun marker_op_plain :: "marker_op \<Rightarrow> bool" where
  "marker_op_plain (MAdd m) \<longleftrightarrow> kind_plain m"
| "marker_op_plain _ \<longleftrightarrow> True"

definition edit_plain :: "edit \<Rightarrow> bool" where
  "edit_plain e \<longleftrightarrow> (\<forall>op \<in> set (e_ops e). \<forall>p \<in> set (op_pieces op). piece_valid p) \<and>
     (\<forall>op \<in> set (e_marker_ops e). marker_op_plain op)"

definition hist_plain :: "history \<Rightarrow> bool" where
  "hist_plain h \<longleftrightarrow> (\<forall>d \<in> set (timeline h). \<forall>m \<in> set (s_markers d). kind_plain m)"

lemma piece_roundtrip: "piece_valid p \<Longrightarrow> to_piece (from_piece p) = p"
  by (cases p) (auto simp: from_piece_def piece_valid_def piece_chunk_def piece_silence_def split: source.splits)

lemma marker_roundtrip: "kind_plain m \<Longrightarrow> to_marker (from_marker m) = m"
  by (cases m) (simp add: to_marker_def from_marker_def marker_new_def marker_with_kind_def kind_plain_def kind_roundtrip)

lemma mapping_roundtrip [simp]: "to_mapping (from_mapping mp) = mp"
  by (cases mp) auto

lemma op_roundtrip: "\<forall>p \<in> set (op_pieces op). piece_valid p \<Longrightarrow> to_op (from_op op) = op"
  by (cases op) (auto simp: piece_roundtrip intro!: map_idI)

lemma marker_op_roundtrip: "marker_op_plain op \<Longrightarrow> to_marker_op (from_marker_op op) = op"
  by (cases op) (auto simp: marker_roundtrip)

lemma edit_roundtrip: "edit_plain e \<Longrightarrow> to_edit (from_edit seq e tk) = e"
  by (cases e) (auto simp: to_edit_def from_edit_def edit_plain_def op_roundtrip marker_op_roundtrip intro!: map_idI)

lemma snapshot_roundtrip:
  assumes "doc_ok d" and "\<forall>m \<in> set (s_markers d). kind_plain m"
  shows "to_snapshot (from_snapshot d) = d"
proof -
  from assms(1) have c: "canonical (s_pieces d)" "\<forall>p \<in> set (s_pieces d). piece_ok p"
    "s_starts d = prefix_starts 0 (s_pieces d)" "s_len d = pieces_len (s_pieces d)" "sorted (map m_pos (s_markers d))"
    by (simp_all add: doc_ok_def snap_ok_def)
  have "piece_valid p" if "p \<in> set (s_pieces d)" for p
    using that c(2) by (auto simp: piece_ok_def piece_valid_def split: source.splits)
  then have "map to_piece (map from_piece (s_pieces d)) = s_pieces d"
    by (auto simp: piece_roundtrip intro!: map_idI)
  moreover have "map to_marker (map from_marker (s_markers d)) = s_markers d"
    using assms(2) by (auto simp: marker_roundtrip intro!: map_idI)
  ultimately show ?thesis
    using c by (cases d) (simp add: to_snapshot_def from_snapshot_def snapshot_new_def push_all_canonical
        from_normalized_def sort_markers_sorted)
qed

lemma entry_roundtrip:
  "doc_ok (en_snapshot e) \<Longrightarrow> \<forall>m \<in> set (s_markers (en_snapshot e)). kind_plain m \<Longrightarrow> to_entry (from_entry e) = e"
  by (cases e) (simp add: to_entry_def from_entry_def snapshot_roundtrip)

lemma fold_max_le:
  assumes "\<forall>d \<in> set ds. f d < b \<and> g d < c" "r < b" "a < (c::nat)"
  shows "fst (foldl (\<lambda>(r, a) s. (max r (f s), max a (g s))) (r, a) ds) < (b::nat) \<and>
    snd (foldl (\<lambda>(r, a) s. (max r (f s), max a (g s))) (r, a) ds) < c"
  using assms by (induction ds arbitrary: r a) auto

lemma from_parts_id:
  assumes ok: "hist_ok h"
  shows "from_parts (h_current h) (h_undo h) (h_redo h) (h_next_rev h) (h_next_audio_rev h) (h_next_seq h)
    (h_saved_seq h) (h_next_marker_id h) = h"
proof -
  define snaps where "snaps = h_current h # map en_snapshot (h_undo h @ h_redo h)"
  have b: "snap_bounded h d" if "d \<in> set snaps" for d
    using ok that by (auto simp: snaps_def hist_ok_def timeline_def)
  have pos: "0 < h_next_rev h" "0 < h_next_audio_rev h" "0 < h_next_marker_id h" "0 < h_next_seq h"
    using ok b [of "h_current h"] by (auto simp: snaps_def hist_ok_def snap_bounded_def)
  obtain mr ma where f: "foldl (\<lambda>(r, a) s. (max r (s_rev s), max a (s_audio_rev s))) (0, 0) snaps = (mr, ma)"
    by fastforce
  have m: "mr < h_next_rev h" "ma < h_next_audio_rev h"
    using fold_max_le [of snaps s_rev "h_next_rev h" s_audio_rev "h_next_audio_rev h" 0 0] b pos f
    by (auto simp: snap_bounded_def)
  have fl: "unwrap_or (iter_max (map (\<lambda>m. m_id m + 1) (concat (map s_markers snaps)))) 1 \<le> h_next_marker_id h"
  proof (rule iter_max_le)
    fix x assume "x \<in> set (map (\<lambda>m. m_id m + 1) (concat (map s_markers snaps)))"
    then obtain d m where "d \<in> set snaps" "m \<in> set (s_markers d)" "x = m_id m + 1" by auto
    with b show "x \<le> h_next_marker_id h" by (auto simp: snap_bounded_def Suc_le_eq)
  qed (use pos in simp)
  have sq: "unwrap_or (iter_max (map en_seq (h_undo h @ h_redo h))) 0 < h_next_seq h"
  proof -
    have "unwrap_or (iter_max (map en_seq (h_undo h @ h_redo h))) 0 \<le> h_next_seq h - 1"
    proof (rule iter_max_le)
      fix x assume x: "x \<in> set (map en_seq (h_undo h @ h_redo h))"
      then have "x \<in> set (map en_seq (tl_entries h))" by (simp add: tl_entries_def)
      with ok have "x < h_next_seq h" unfolding hist_ok_def seqs_ok_def by blast
      then show "x \<le> h_next_seq h - 1" by simp
    qed simp
    with pos show ?thesis by simp
  qed
  show ?thesis
    unfolding from_parts_def Let_def snaps_def [symmetric] f
    using m fl sq by (cases h) (auto simp: max_def)
qed

lemma history_roundtrip:
  assumes "hist_ok h" and "hist_plain h"
  shows "to_history (from_history h chunks) = h"
proof -
  have "to_snapshot (from_snapshot (h_current h)) = h_current h"
    using assms by (intro snapshot_roundtrip) (auto simp: hist_ok_def hist_plain_def timeline_def)
  moreover have "map to_entry (map from_entry (h_undo h)) = h_undo h" "map to_entry (map from_entry (h_redo h)) = h_redo h"
  proof -
    have "to_entry (from_entry e) = e" if "e \<in> set (h_undo h) \<or> e \<in> set (h_redo h)" for e
    proof (rule entry_roundtrip)
      have "en_snapshot e \<in> set (timeline h)" using that by (auto simp: timeline_def)
      with assms show "doc_ok (en_snapshot e)" "\<forall>m \<in> set (s_markers (en_snapshot e)). kind_plain m"
        unfolding hist_ok_def hist_plain_def by blast+
    qed
    then show "map to_entry (map from_entry (h_undo h)) = h_undo h" "map to_entry (map from_entry (h_redo h)) = h_redo h"
      by (simp_all add: map_idI)
  qed
  ultimately show ?thesis
    using from_parts_id [OF assms(1)] by (simp add: to_history_def from_history_def del: map_map)
qed

section \<open>Properties\<close>

text \<open>A checkpoint is exact: the history rebuilt from the checkpoint of a well-formed history is that
  history, down to revisions, counters and both stacks.\<close>

theorem checkpoint_roundtrip:
  assumes "hist_ok h" and "hist_plain h"
  shows "to_history (from_history h chunks) = h"
  by (rule history_roundtrip [OF assms])

theorem checkpoint_roundtrip_witness: "to_history (from_history (history_new example_doc) []) = history_new example_doc"
  by (rule checkpoint_roundtrip [OF hist_ok_new [OF example_doc_ok]])
     (simp add: hist_plain_def timeline_def history_new_def kind_plain_def)

text \<open>Replaying a journaled edit applies the edit that was journaled.\<close>

theorem journaled_edit_replays:
  assumes "edit_plain e"
  shows "history_apply h (to_edit (from_edit seq e tk)) = history_apply h e"
  by (simp add: edit_roundtrip [OF assms])

theorem journaled_edit_replays_witness:
  "history_apply (history_new example_doc) (to_edit (from_edit 1 example_edit None)) =
     history_apply (history_new example_doc) example_edit"
  by (rule journaled_edit_replays)
     (simp add: edit_plain_def example_edit_def edit_new_def edit_replace_def edit_replace_with_def edit_marker_def)

end
