(* ===== verification/Replay.thy ===== *)
theory Replay
  imports Journal
begin

text \<open>
  Rebuilding a document from journal records: the pure half of \<^verbatim>\<open>crates/project/src/recovery.rs\<close>.

  \<open>replay\<close> starts at the last checkpoint and stops at the first record that does not apply.
\<close>

record take_plan =
  tp_mode :: take_mode_record
  tp_at :: nat
  tp_len :: nat
  tp_xfade :: nat
  tp_offset_ns :: int
  tp_aligned :: bool
  tp_k_start :: "nat option"

record saved_facts =
  sf_path :: string
  sf_format :: string
  sf_size :: "nat option"
  sf_mtime :: "nat option"

record 'v replay_state =
  rp_history :: history
  rp_chunks :: "chunk_location btree"
  rp_source :: "source_record option"
  rp_saved :: "saved_facts option"
  rp_saved_record :: "'v journal_record option"
  rp_state_record :: "'v journal_record option"
  rp_open_takes :: "take_plan btree"
  rp_take_markers :: "marker list btree"
  rp_max_take :: nat
  rp_closed :: bool

record 'v replay_outcome =
  ro_replay :: "'v replay_state option"
  ro_consumed :: nat
  ro_lost :: nat

fun is_change :: "'v journal_record \<Rightarrow> bool" where
  "is_change (JEdit _) \<longleftrightarrow> True"
| "is_change (JUndo _) \<longleftrightarrow> True"
| "is_change (JRedo _) \<longleftrightarrow> True"
| "is_change (JDropUndo _) \<longleftrightarrow> True"
| "is_change _ \<longleftrightarrow> False"

fun saved_facts_of :: "'v journal_record \<Rightarrow> saved_facts option" where
  "saved_facts_of (JSaved s) =
     Some \<lparr>sf_path = sv_path s, sf_format = sv_format s, sf_size = sv_size s, sf_mtime = sv_mtime s\<rparr>"
| "saved_facts_of _ = None"

definition piece_known :: "chunk_location btree \<Rightarrow> piece \<Rightarrow> bool" where
  "piece_known chunks p \<longleftrightarrow>
     (case p_source p of
        Chunk i \<Rightarrow> (case map_of chunks i of None \<Rightarrow> False | Some l \<Rightarrow> p_offset p + p_len p \<le> loc_len l)
      | Silence \<Rightarrow> True)"

definition pieces_known :: "edit \<Rightarrow> chunk_location btree \<Rightarrow> bool" where
  "pieces_known e chunks \<longleftrightarrow> (\<forall>op \<in> set (e_ops e). \<forall>p \<in> set (op_pieces op). piece_known chunks p)"

definition plan_of :: "take_begin_record \<Rightarrow> take_plan" where
  "plan_of b =
     \<lparr>tp_mode = tb_mode b, tp_at = tb_at b, tp_len = tb_len b, tp_xfade = tb_xfade b,
      tp_offset_ns = tb_offset_ns b, tp_aligned = tb_aligned b,
      tp_k_start = (if tb_aligned b then None else Some 0)\<rparr>"

definition close_take :: "nat \<Rightarrow> 'v replay_state \<Rightarrow> 'v replay_state" where
  "close_take tk r =
     r\<lparr>rp_open_takes := bt_remove tk (rp_open_takes r), rp_take_markers := bt_remove tk (rp_take_markers r)\<rparr>"

fun note_record :: "'v replay_state \<Rightarrow> 'v journal_record \<Rightarrow> 'v replay_state" where
  "note_record r (JOpen v rate src) = r\<lparr>rp_source := src\<rparr>"
| "note_record r (JSaved s) = r\<lparr>rp_saved := saved_facts_of (JSaved s :: 'v journal_record), rp_saved_record := Some (JSaved s)\<rparr>"
| "note_record r (JState v) = r\<lparr>rp_state_record := Some (JState v)\<rparr>"
| "note_record r (JTakeBegin b) =
     r\<lparr>rp_open_takes := bt_insert (tb_take b) (plan_of b) (rp_open_takes r),
       rp_max_take := max (rp_max_take r) (tb_take b)\<rparr>"
| "note_record r (JTakeWindow tk k) =
     (case map_of (rp_open_takes r) tk of
        None \<Rightarrow> r
      | Some plan \<Rightarrow> r\<lparr>rp_open_takes := bt_insert tk (plan\<lparr>tp_k_start := Some k\<rparr>) (rp_open_takes r)\<rparr>)"
| "note_record r (JTakeDiscard tk) = close_take tk r"
| "note_record r (JTakeCancel tk) = close_take tk r"
| "note_record r (JEdit e) = (case er_take e of None \<Rightarrow> r | Some tk \<Rightarrow> close_take tk r)"
| "note_record r (JTakeMarker tk m) =
     r\<lparr>rp_take_markers := bt_insert tk (unwrap_or (map_of (rp_take_markers r) tk) [] @ [to_marker m]) (rp_take_markers r)\<rparr>"
| "note_record r _ = r"

fun is_close :: "'v journal_record \<Rightarrow> bool" where
  "is_close JClose \<longleftrightarrow> True"
| "is_close _ \<longleftrightarrow> False"

definition note_metadata :: "'v replay_state \<Rightarrow> 'v journal_record \<Rightarrow> 'v replay_state" where
  "note_metadata r rec = note_record (r\<lparr>rp_closed := is_close rec\<rparr>) rec"

text \<open>The change a record makes before \<open>note_metadata\<close>; \<open>None\<close> if it does not apply cleanly.\<close>

fun apply_change :: "'v replay_state \<Rightarrow> 'v journal_record \<Rightarrow> 'v replay_state option" where
  "apply_change r (JChunks locs) =
     Some (r\<lparr>rp_chunks := foldl (\<lambda>m l. bt_insert (loc_id l) l m) (rp_chunks r) locs\<rparr>)"
| "apply_change r (JEdit er) =
     (let e = to_edit er
      in if \<not> pieces_known e (rp_chunks r) then None
         else case prepare (rp_history r) e of
                Inl _ \<Rightarrow> None
              | Inr p \<Rightarrow>
                  if pe_seq p \<noteq> er_seq er then None
                  else Some (r\<lparr>rp_history := snd (commit (rp_history r) p)\<rparr>))"
| "apply_change r (JUndo seq) =
     (if peek_seq (h_undo (rp_history r)) \<noteq> Some seq then None
      else Some (r\<lparr>rp_history := snd (history_undo (rp_history r))\<rparr>))"
| "apply_change r (JRedo seq) =
     (if peek_seq (h_redo (rp_history r)) \<noteq> Some seq then None
      else Some (r\<lparr>rp_history := snd (history_redo (rp_history r))\<rparr>))"
| "apply_change r (JDropUndo n) = Some (r\<lparr>rp_history := snd (drop_oldest_undo (rp_history r) n)\<rparr>)"
| "apply_change r (JSaved s) = Some (r\<lparr>rp_history := mark_saved_at (rp_history r) (sv_seq s)\<rparr>)"
| "apply_change r (JCheckpoint _) = None"
| "apply_change r _ = Some r"

definition apply_record :: "'v replay_state \<Rightarrow> 'v journal_record \<Rightarrow> 'v replay_state option" where
  "apply_record r rec = map_option (\<lambda>r'. note_metadata r' rec) (apply_change r rec)"

fun apply_records :: "'v replay_state \<Rightarrow> 'v journal_record list \<Rightarrow> 'v replay_state \<times> nat" where
  "apply_records r [] = (r, 0)"
| "apply_records r (rec # recs) =
     (case apply_record r rec of
        None \<Rightarrow> (r, 0)
      | Some r' \<Rightarrow> (case apply_records r' recs of (r'', n) \<Rightarrow> (r'', Suc n)))"

definition replay_from :: "checkpoint_record \<Rightarrow> 'v replay_state" where
  "replay_from cp =
     \<lparr>rp_history = to_history cp, rp_chunks = foldl (\<lambda>m l. bt_insert (loc_id l) l m) [] (cp_chunks cp),
      rp_source = None, rp_saved = None, rp_saved_record = None, rp_state_record = None,
      rp_open_takes = [], rp_take_markers = [], rp_max_take = 0, rp_closed = False\<rparr>"

fun checkpoint_of :: "'v journal_record \<Rightarrow> checkpoint_record option" where
  "checkpoint_of (JCheckpoint cp) = Some cp"
| "checkpoint_of _ = None"

definition replay :: "'v journal_record list \<Rightarrow> 'v replay_outcome" where
  "replay recs =
     (case rposition (\<lambda>r. checkpoint_of r \<noteq> None) recs of
        None \<Rightarrow> \<lparr>ro_replay = None, ro_consumed = 0, ro_lost = length (filter is_change recs)\<rparr>
      | Some cp \<Rightarrow>
          (case checkpoint_of (recs ! cp) of
             None \<Rightarrow> \<lparr>ro_replay = None, ro_consumed = 0, ro_lost = length (filter is_change recs)\<rparr>
           | Some c \<Rightarrow>
               (let r0 = foldl note_metadata (replay_from c) (take cp recs);
                    (r, n) = apply_records r0 (drop (cp + 1) recs);
                    consumed = cp + 1 + n
                in \<lparr>ro_replay = Some r, ro_consumed = consumed,
                    ro_lost = length (filter is_change (drop consumed recs))\<rparr>)))"

fun references_any :: "'v journal_record \<Rightarrow> nat list \<Rightarrow> bool" where
  "references_any (JChunks locs) ids \<longleftrightarrow> (\<exists>l \<in> set locs. loc_id l \<in> set ids)"
| "references_any (JEdit e) ids \<longleftrightarrow>
     (\<exists>op \<in> set (e_ops (to_edit e)). \<exists>p \<in> set (op_pieces op). \<exists>i \<in> set ids. p_source p = Chunk i)"
| "references_any _ ids \<longleftrightarrow> False"

section \<open>Live chunks\<close>

text \<open>\<open>live_chunk_ids\<close> of \<^verbatim>\<open>crates/project/src/budget.rs\<close>.\<close>

fun chunk_of :: "piece \<Rightarrow> nat list" where
  "chunk_of p = (case p_source p of Chunk i \<Rightarrow> [i] | Silence \<Rightarrow> [])"

definition pieces_chunk_ids :: "piece list \<Rightarrow> nat list" where
  "pieces_chunk_ids ps = concat (map chunk_of ps)"

definition chunk_ids :: "doc_snapshot \<Rightarrow> nat list" where
  "chunk_ids d = pieces_chunk_ids (s_pieces d)"

definition live_chunk_ids :: "history \<Rightarrow> piece list \<Rightarrow> nat list" where
  "live_chunk_ids h extra =
     bt_set (chunk_ids (h_current h) @ concat (map (\<lambda>e. chunk_ids (en_snapshot e)) (h_undo h @ h_redo h)) @
       pieces_chunk_ids extra)"

end
