(* ===== verification/Session.thy ===== *)
theory Session
  imports Replay Take
begin

text \<open>
  One open document: \<^verbatim>\<open>crates/project/src/session.rs\<close>, without the take operations (\<open>Take_Session\<close>).

  A session ties the store, the journal and the history together: every operation that changes the
  document appends its records first and changes memory only when the append returned \<open>Ok\<close>.  The
  journal is a parameter \<open>'j\<close> with its append function \<open>ap\<close> (an operation may append several times);
  \<open>env\<close> is what the operating system answers to the store.  Directories, the lock file and
  \<^verbatim>\<open>meta.json\<close> are not part of the state; what can go wrong with them is an argument of \<open>session_create\<close>.
\<close>

type_synonym ('v, 'j) appender = "'v journal_record list \<Rightarrow> ('j, unit) op"

record ('v, 'j) session =
  ss_store :: store
  ss_journal :: 'j
  ss_history :: history
  ss_rate :: nat
  ss_journaled :: "bool list"
  ss_open :: "(nat \<times> take_plan) option"
  ss_markers :: "marker list"
  ss_next_take :: nat
  ss_generation :: nat
  ss_open_record :: "'v journal_record"
  ss_last_saved :: "'v journal_record option"
  ss_last_state :: "'v journal_record option"

definition store_format_version :: nat where
  "store_format_version = 1"

definition write_log :: "('v, 'j) appender \<Rightarrow> 'v journal_record list \<Rightarrow> (('v, 'j) session, unit) op" where
  "write_log ap recs s = (case ap recs (ss_journal s) of (r, j) \<Rightarrow> (r, s\<lparr>ss_journal := j\<rparr>))"

definition sync_session :: "store_env \<Rightarrow> (('v, 'j) session, unit) op" where
  "sync_session env s = (case sync_store env (ss_store s) of (r, st) \<Rightarrow> (r, s\<lparr>ss_store := st\<rparr>))"

section \<open>Creation\<close>

text \<open>
  \<open>before\<close>: the first failure among creating the directory, the lock, \<^verbatim>\<open>meta.json\<close> and the empty
  files; \<open>after\<close>: a failure of the final directory sync.
\<close>

definition session_create ::
    "('v, 'j) appender \<Rightarrow> 'j \<Rightarrow> project_error option \<Rightarrow> project_error option \<Rightarrow> nat \<Rightarrow> source_record option \<Rightarrow> nat \<Rightarrow>
     project_error + ('v, 'j) session" where
  "session_create ap j0 before after rate src budget =
     (if rate = 0 then Inl (InvalidArgument ''sample rate must be > 0'')
      else case before of
             Some e \<Rightarrow> Inl e
           | None \<Rightarrow>
               let h = history_new (snapshot_empty rate);
                   open_rec = JOpen store_format_version rate src
               in case ap [open_rec, JCheckpoint (from_history h [])] j0 of
                    (Inl e, _) \<Rightarrow> Inl e
                  | (Inr _, j) \<Rightarrow>
                      (case after of
                         Some e \<Rightarrow> Inl e
                       | None \<Rightarrow>
                           Inr \<lparr>ss_store = store_create budget, ss_journal = j, ss_history = h, ss_rate = rate,
                                ss_journaled = [], ss_open = None, ss_markers = [], ss_next_take = 1,
                                ss_generation = 0, ss_open_record = open_rec, ss_last_saved = None,
                                ss_last_state = None\<rparr>))"

section \<open>Committing edits\<close>

fun validate_piece_refs :: "store \<Rightarrow> piece list \<Rightarrow> project_error + unit" where
  "validate_piece_refs st [] = Inr ()"
| "validate_piece_refs st (p # ps) =
     (case p_source p of
        Silence \<Rightarrow> validate_piece_refs st ps
      | Chunk i \<Rightarrow>
          (case location st i of
             None \<Rightarrow> Inl (UnknownChunk i)
           | Some loc \<Rightarrow>
               if p_offset p + p_len p > loc_len loc then Inl (OutOfBounds i (p_offset p) (p_len p))
               else validate_piece_refs st ps))"

fun validate_op_refs :: "store \<Rightarrow> edit_op list \<Rightarrow> project_error + unit" where
  "validate_op_refs st [] = Inr ()"
| "validate_op_refs st (op # ops) =
     (case validate_piece_refs st (op_pieces op) of
        Inl e \<Rightarrow> Inl e
      | Inr _ \<Rightarrow> validate_op_refs st ops)"

definition is_journaled :: "bool list \<Rightarrow> nat \<Rightarrow> bool" where
  "is_journaled js i = (if i < length js then js ! i else False)"

definition mark_journaled :: "bool list \<Rightarrow> nat \<Rightarrow> bool list" where
  "mark_journaled js i = (js @ replicate (Suc i - length js) False)[i := True]"

definition mark_all_journaled :: "bool list \<Rightarrow> chunk_location list \<Rightarrow> bool list" where
  "mark_all_journaled = foldl (\<lambda>js l. mark_journaled js (loc_id l))"

definition unjournaled_chunks :: "('v, 'j) session \<Rightarrow> piece list \<Rightarrow> chunk_location list" where
  "unjournaled_chunks s ps =
     List.map_filter (location (ss_store s))
       (remdups (sort (filter (\<lambda>i. \<not> is_journaled (ss_journaled s) i) (pieces_chunk_ids ps))))"

definition sync_new :: "store_env \<Rightarrow> chunk_location list \<Rightarrow> (('v, 'j) session, unit) op" where
  "sync_new env locs s = (if locs = [] then (Inr (), s) else sync_session env s)"

definition chunk_records :: "chunk_location list \<Rightarrow> 'v journal_record list" where
  "chunk_records locs = (if locs = [] then [] else [JChunks locs])"

definition commit_internal ::
    "('v, 'j) appender \<Rightarrow> store_env \<Rightarrow> edit \<Rightarrow> (nat \<times> nat option) option \<Rightarrow> (('v, 'j) session, history_step) op" where
  "commit_internal ap env e tk s =
     (case validate_op_refs (ss_store s) (e_ops e) of
        Inl err \<Rightarrow> (Inl err, s)
      | Inr _ \<Rightarrow>
          (case prepare (ss_history s) e of
             Inl err \<Rightarrow> (Inl err, s)
           | Inr p \<Rightarrow>
               let locs = unjournaled_chunks s (concat (map op_pieces (e_ops e)))
               in case sync_new env locs s of
                    (Inl err, s1) \<Rightarrow> (Inl err, s1)
                  | (Inr _, s1) \<Rightarrow>
                      let rec = (from_edit (pe_seq p) e (map_option fst tk))\<lparr>er_take_wav := Option.bind tk snd\<rparr>
                      in case write_log ap (chunk_records locs @ [JEdit rec]) s1 of
                           (Inl err, s2) \<Rightarrow> (Inl err, s2)
                         | (Inr _, s2) \<Rightarrow>
                             let (step, h) = commit (ss_history s2) p
                             in (Inr step, s2\<lparr>ss_journaled := mark_all_journaled (ss_journaled s2) locs,
                                             ss_history := h\<rparr>)))"

definition commit_edit :: "('v, 'j) appender \<Rightarrow> store_env \<Rightarrow> edit \<Rightarrow> (('v, 'j) session, history_step) op" where
  "commit_edit ap env e s =
     (if ss_open s \<noteq> None \<and> edit_changes_audio e then (Inl NotWhileRecording, s)
      else commit_internal ap env e None s)"

section \<open>The undo floor\<close>

fun check_markers :: "marker list \<Rightarrow> nat \<Rightarrow> project_error + unit" where
  "check_markers [] len = Inr ()"
| "check_markers (m # ms) len =
     (case check_marker_bounds (m_pos m) (m_len m) len of Inl e \<Rightarrow> Inl e | Inr _ \<Rightarrow> check_markers ms len)"

definition set_floor ::
    "('v, 'j) appender \<Rightarrow> store_env \<Rightarrow> written_audio \<Rightarrow> marker list \<Rightarrow> (('v, 'j) session, doc_snapshot) op" where
  "set_floor ap env wa markers s =
     (if ss_open s \<noteq> None then (Inl NotWhileRecording, s)
      else if undo_depth (ss_history s) > 0 \<or> redo_depth (ss_history s) > 0 then (Inl (InvalidEdit FloorAfterEdit), s)
      else case validate_piece_refs (ss_store s) (wa_pieces wa) of
             Inl e \<Rightarrow> (Inl e, s)
           | Inr _ \<Rightarrow>
               let flr = snapshot_new (ss_rate s) (wa_pieces wa) markers
               in case check_markers (s_markers flr) (s_len flr) of
                    Inl e \<Rightarrow> (Inl e, s)
                  | Inr _ \<Rightarrow>
                      let h = rebased (ss_history s) flr;
                          locs = unjournaled_chunks s (wa_pieces wa)
                      in case sync_new env locs s of
                           (Inl e, s1) \<Rightarrow> (Inl e, s1)
                         | (Inr _, s1) \<Rightarrow>
                             let old = List.map_filter (location (ss_store s1))
                                         (filter (is_journaled (ss_journaled s1)) [0 ..< length (ss_journaled s1)]);
                                 index = sort_key loc_id (old @ locs)
                             in case write_log ap (chunk_records locs @ [JCheckpoint (from_history h index)]) s1 of
                                  (Inl e, s2) \<Rightarrow> (Inl e, s2)
                                | (Inr _, s2) \<Rightarrow>
                                    (Inr (h_current h),
                                     s2\<lparr>ss_journaled := mark_all_journaled (ss_journaled s2) locs, ss_history := h\<rparr>))"

section \<open>Undo, redo and dropping history\<close>

definition session_undo :: "('v, 'j) appender \<Rightarrow> (('v, 'j) session, history_step option) op" where
  "session_undo ap s =
     (if ss_open s \<noteq> None then (Inl NotWhileRecording, s)
      else case peek_seq (h_undo (ss_history s)) of
             None \<Rightarrow> (Inr None, s)
           | Some seq \<Rightarrow>
               (case write_log ap [JUndo seq] s of
                  (Inl e, s1) \<Rightarrow> (Inl e, s1)
                | (Inr _, s1) \<Rightarrow>
                    let (step, h) = history_undo (ss_history s1) in (Inr step, s1\<lparr>ss_history := h\<rparr>)))"

definition session_redo :: "('v, 'j) appender \<Rightarrow> (('v, 'j) session, history_step option) op" where
  "session_redo ap s =
     (if ss_open s \<noteq> None then (Inl NotWhileRecording, s)
      else case peek_seq (h_redo (ss_history s)) of
             None \<Rightarrow> (Inr None, s)
           | Some seq \<Rightarrow>
               (case write_log ap [JRedo seq] s of
                  (Inl e, s1) \<Rightarrow> (Inl e, s1)
                | (Inr _, s1) \<Rightarrow>
                    let (step, h) = history_redo (ss_history s1) in (Inr step, s1\<lparr>ss_history := h\<rparr>)))"

text \<open>\<open>Session::drop_oldest_undo\<close> of \<^verbatim>\<open>budget.rs\<close>.\<close>

definition session_drop_undo :: "('v, 'j) appender \<Rightarrow> nat \<Rightarrow> (('v, 'j) session, nat) op" where
  "session_drop_undo ap cnt s =
     (if ss_open s \<noteq> None then (Inl NotWhileRecording, s)
      else
        let n = min cnt (undo_depth (ss_history s))
        in if n = 0 then (Inr 0, s)
           else case write_log ap [JDropUndo n] s of
                  (Inl e, s1) \<Rightarrow> (Inl e, s1)
                | (Inr _, s1) \<Rightarrow>
                    let (k, h) = drop_oldest_undo (ss_history s1) n in (Inr k, s1\<lparr>ss_history := h\<rparr>))"

section \<open>Saves and view state\<close>

definition mark_saved_file_at ::
    "('v, 'j) appender \<Rightarrow> nat \<Rightarrow> string \<Rightarrow> string \<Rightarrow> string option \<Rightarrow> bool option \<Rightarrow> (nat \<times> nat) option \<Rightarrow>
     (('v, 'j) session, unit) op" where
  "mark_saved_file_at ap seq path format crc sidecar facts s =
     (let rec = JSaved \<lparr>sv_path = path, sv_seq = seq, sv_format = format, sv_crc = crc, sv_sidecar = sidecar,
                        sv_size = map_option fst facts, sv_mtime = map_option snd facts\<rparr>
      in case write_log ap [rec] s of
           (Inl e, s1) \<Rightarrow> (Inl e, s1)
         | (Inr _, s1) \<Rightarrow>
             (Inr (), s1\<lparr>ss_history := mark_saved_at (ss_history s1) seq, ss_last_saved := Some rec\<rparr>))"

definition mark_saved_file ::
    "('v, 'j) appender \<Rightarrow> string \<Rightarrow> string \<Rightarrow> string option \<Rightarrow> bool option \<Rightarrow> (nat \<times> nat) option \<Rightarrow>
     (('v, 'j) session, unit) op" where
  "mark_saved_file ap path format crc sidecar facts s =
     mark_saved_file_at ap (current_seq (ss_history s)) path format crc sidecar facts s"

definition mark_saved_with_sidecar ::
    "('v, 'j) appender \<Rightarrow> string \<Rightarrow> string \<Rightarrow> string option \<Rightarrow> bool option \<Rightarrow> (('v, 'j) session, unit) op" where
  "mark_saved_with_sidecar ap path format crc sidecar = mark_saved_file ap path format crc sidecar None"

definition session_mark_saved :: "('v, 'j) appender \<Rightarrow> string \<Rightarrow> string \<Rightarrow> (('v, 'j) session, unit) op" where
  "session_mark_saved ap path format = mark_saved_with_sidecar ap path format None None"

definition append_state :: "('v, 'j) appender \<Rightarrow> 'v \<Rightarrow> (('v, 'j) session, unit) op" where
  "append_state ap v s =
     (case write_log ap [JState v] s of
        (Inl e, s1) \<Rightarrow> (Inl e, s1)
      | (Inr _, s1) \<Rightarrow> (Inr (), s1\<lparr>ss_last_state := Some (JState v)\<rparr>))"

section \<open>Observers and closing\<close>

definition new_marker_id :: "('v, 'j) session \<Rightarrow> nat \<times> ('v, 'j) session" where
  "new_marker_id s = (let (i, h) = allocate_marker_id (ss_history s) in (i, s\<lparr>ss_history := h\<rparr>))"

definition session_is_dirty :: "('v, 'j) session \<Rightarrow> bool" where
  "session_is_dirty s = is_dirty (ss_history s)"

definition is_recording :: "('v, 'j) session \<Rightarrow> bool" where
  "is_recording s \<longleftrightarrow> ss_open s \<noteq> None"

definition open_take_at :: "('v, 'j) session \<Rightarrow> (nat \<times> nat) option" where
  "open_take_at s = map_option (\<lambda>(tk, plan). (tk, tp_at plan)) (ss_open s)"

text \<open>
  \<open>close\<close>: \<open>shared\<close> tells whether a reader or writer still holds the store, \<open>del\<close> whether deleting the
  directory failed.  The error carries the session when nothing was closed.
\<close>

definition session_close ::
    "('v, 'j) appender \<Rightarrow> bool \<Rightarrow> project_error option \<Rightarrow> ('v, 'j) session \<Rightarrow>
     (project_error \<times> ('v, 'j) session option + unit) \<times> 'j" where
  "session_close ap shared del s =
     (let refusal = (if ss_open s \<noteq> None then Some NotWhileRecording
                     else if shared then Some StoreInUse else None)
      in case refusal of
           Some e \<Rightarrow> (Inl (e, Some s), ss_journal s)
         | None \<Rightarrow>
             (case write_log ap [JClose] s of
                (Inl e, s1) \<Rightarrow> (Inl (e, Some s1), ss_journal s1)
              | (Inr _, s1) \<Rightarrow>
                  ((case del of Some e \<Rightarrow> Inl (e, None) | None \<Rightarrow> Inr ()), ss_journal s1)))"

end
