(* ===== verification/Session_Sim.thy ===== *)
theory Session_Sim
  imports Session
begin

text \<open>
  Replaying a journal that grows: \<open>replayed recs rep\<close> says the whole of \<open>recs\<close> replays, to \<open>rep\<close>.
  Appending records that apply extends the replay; appending a checkpoint restarts it with the
  bookkeeping kept.  The history that replay rebuilds is the live one up to the marker id counter.
\<close>

definition replayed :: "'v journal_record list \<Rightarrow> 'v replay_state \<Rightarrow> bool" where
  "replayed recs rep \<longleftrightarrow> ro_replay (replay recs) = Some rep \<and> ro_consumed (replay recs) = length recs"

section \<open>Growing journals\<close>

lemma position_append_None: "position P xs = None \<Longrightarrow> position P (xs @ ys) = map_option ((+) (length xs)) (position P ys)"
proof (induction xs)
  case Nil
  show ?case by (cases "position P ys") simp_all
next
  case (Cons a xs)
  then show ?case by (cases "position P ys") (auto split: if_splits)
qed

lemma position_append_Some: "position P xs = Some k \<Longrightarrow> position P (xs @ ys) = Some k"
  by (induction xs arbitrary: k) (auto split: if_splits)

lemma rposition_append_left:
  assumes "\<forall>y \<in> set ys. \<not> P y"
  shows "rposition P (xs @ ys) = rposition P xs"
proof -
  have "position P (rev ys) = None" using assms by (simp add: position_None)
  then have e: "position P (rev (xs @ ys)) = map_option ((+) (length ys)) (position P (rev xs))"
    by (simp add: position_append_None)
  show ?thesis
  proof (cases "position P (rev xs)")
    case (Some k)
    then have "k < length xs" using position_SomeD by fastforce
    then show ?thesis using e by (simp add: rposition_def Some)
  next
    case None
    then show ?thesis using e by (simp add: rposition_def)
  qed
qed

lemma rposition_snoc: "P y \<Longrightarrow> rposition P (xs @ [y]) = Some (length xs)"
  by (simp add: rposition_def)

definition no_checkpoint :: "'v journal_record list \<Rightarrow> bool" where
  "no_checkpoint recs \<longleftrightarrow> (\<forall>r \<in> set recs. checkpoint_of r = None)"

lemma apply_records_le: "snd (apply_records r recs) \<le> length recs"
  by (induction r recs rule: apply_records.induct) (auto split: option.splits prod.splits)

lemma apply_records_append:
  "apply_records r xs = (r1, length xs) \<Longrightarrow> apply_records r1 ys = (r2, n) \<Longrightarrow>
   apply_records r (xs @ ys) = (r2, length xs + n)"
  by (induction r xs arbitrary: r1 rule: apply_records.induct) (auto split: option.splits prod.splits)

lemma replayedE:
  assumes "replayed recs rep"
  obtains k c where "rposition (\<lambda>r. checkpoint_of r \<noteq> None) recs = Some k" "checkpoint_of (recs ! k) = Some c"
    "apply_records (foldl note_metadata (replay_from c) (take k recs)) (drop (k + 1) recs) = (rep, length (drop (k + 1) recs))"
    "k < length recs"
proof -
  from assms obtain k where k: "rposition (\<lambda>r. checkpoint_of r \<noteq> None) recs = Some k"
    by (auto simp: replayed_def replay_def split: option.splits)
  from rposition_SomeD [OF k] obtain c where c: "checkpoint_of (recs ! k) = Some c" and l: "k < length recs" by auto
  from assms k c l show thesis
    by (intro that [OF k c _ l]) (auto simp: replayed_def replay_def Let_def split: prod.splits)
qed

lemma replayedI:
  assumes "rposition (\<lambda>r. checkpoint_of r \<noteq> None) recs = Some k" "checkpoint_of (recs ! k) = Some c"
    "apply_records (foldl note_metadata (replay_from c) (take k recs)) (drop (k + 1) recs) = (rep, length (drop (k + 1) recs))"
    "k < length recs"
  shows "replayed recs rep"
  using assms by (auto simp: replayed_def replay_def Let_def)

lemma replayed_append:
  assumes "replayed recs rep" "no_checkpoint new" "apply_records rep new = (rep', length new)"
  shows "replayed (recs @ new) rep'"
proof -
  from assms(1) obtain k c where k: "rposition (\<lambda>r. checkpoint_of r \<noteq> None) recs = Some k"
    "checkpoint_of (recs ! k) = Some c"
    "apply_records (foldl note_metadata (replay_from c) (take k recs)) (drop (k + 1) recs) = (rep, length (drop (k + 1) recs))"
    "k < length recs" by (rule replayedE)
  have "rposition (\<lambda>r. checkpoint_of r \<noteq> None) (recs @ new) = Some k"
    using assms(2) k(1) by (simp add: rposition_append_left no_checkpoint_def)
  then show ?thesis
  proof (rule replayedI)
    show "checkpoint_of ((recs @ new) ! k) = Some c" "k < length (recs @ new)" using k by (simp_all add: nth_append)
    show "apply_records (foldl note_metadata (replay_from c) (take k (recs @ new))) (drop (k + 1) (recs @ new)) =
      (rep', length (drop (k + 1) (recs @ new)))"
      using apply_records_append [OF k(3) assms(3)] k(4) by simp
  qed
qed

section \<open>Bookkeeping\<close>

text \<open>What a record's bookkeeping sees and changes is apart from the history and the chunk index.\<close>

definition with_base :: "history \<Rightarrow> chunk_location btree \<Rightarrow> bool \<Rightarrow> 'v replay_state \<Rightarrow> 'v replay_state" where
  "with_base h c b r = r\<lparr>rp_history := h, rp_chunks := c, rp_closed := b\<rparr>"

lemma with_base_with_base [simp]: "with_base h c b (with_base h' c' b' r) = with_base h c b r"
  by (simp add: with_base_def)

lemma note_metadata_base:
  "note_metadata (with_base h c b r) rec = with_base h c (is_close rec) (note_metadata r rec)"
  by (cases r; cases rec)
     (auto simp: note_metadata_def with_base_def close_take_def split: option.splits)

lemma with_base_self: "with_base (rp_history r) (rp_chunks r) (rp_closed r) r = r"
  by (simp add: with_base_def)

lemma apply_change_base:
  "apply_change r rec = Some r' \<Longrightarrow> r' = with_base (rp_history r') (rp_chunks r') (rp_closed r) r"
  by (cases r; cases rec) (auto simp: with_base_def Let_def split: if_splits sum.splits)

lemma apply_records_meta:
  "apply_records r recs = (r', length recs) \<Longrightarrow>
   \<exists>h c b. foldl note_metadata (with_base h0 c0 b0 r) recs = with_base h c b r'"
proof (induction recs arbitrary: r h0 c0 b0)
  case (Cons rec recs)
  from Cons.prems obtain r1 where r1: "apply_change r rec = Some r1" "apply_records (note_metadata r1 rec) recs = (r', length recs)"
    by (auto simp: apply_record_def split: option.splits prod.splits)
  have "note_metadata (with_base h0 c0 b0 r) rec =
      with_base h0 c0 (is_close rec) (note_metadata r1 rec)"
  proof -
    have "note_metadata (with_base h0 c0 b0 r) rec = note_metadata (with_base h0 c0 b0 r1) rec"
      by (subst apply_change_base [OF r1(1)]) simp
    then show ?thesis by (simp add: note_metadata_base)
  qed
  with Cons.IH [OF r1(2)] show ?case by simp
qed auto

lemma replay_from_base: "replay_from c' = with_base (to_history c') (foldl (\<lambda>m l. bt_insert (loc_id l) l m) [] (cp_chunks c')) False (replay_from c)"
  by (simp add: replay_from_def with_base_def)

lemma fold_note_base: "\<exists>b'. foldl note_metadata (with_base h c b r) recs = with_base h c b' (foldl note_metadata r recs)"
proof (induction recs arbitrary: r b)
  case (Cons rec recs)
  from Cons.IH [of "is_close rec" "note_metadata r rec"] show ?case by (simp add: note_metadata_base)
qed auto

lemma replayed_checkpoint:
  assumes "replayed recs rep" "no_checkpoint new" "apply_records rep new = (rep', length new)"
  shows "\<exists>b. replayed (recs @ new @ [JCheckpoint cp])
    (with_base (to_history cp) (foldl (\<lambda>m l. bt_insert (loc_id l) l m) [] (cp_chunks cp)) b rep')"
proof -
  let ?P = "\<lambda>r. checkpoint_of r \<noteq> None"
  let ?all = "recs @ new"
  have rp: "replayed ?all rep'" by (rule replayed_append [OF assms])
  then obtain k c where k: "rposition ?P ?all = Some k" "checkpoint_of (?all ! k) = Some c"
    "apply_records (foldl note_metadata (replay_from c) (take k ?all)) (drop (k + 1) ?all) = (rep', length (drop (k + 1) ?all))"
    "k < length ?all" by (rule replayedE)
  from k(2) have ck: "?all ! k = JCheckpoint c" by (cases "?all ! k") auto
  define r0 where "r0 = foldl note_metadata (replay_from c) (take k ?all)"
  have n: "note_metadata r0 (JCheckpoint c) = with_base (rp_history r0) (rp_chunks r0) False r0"
    by (simp add: note_metadata_def with_base_def)
  from apply_records_meta [OF k(3) [folded r0_def], of "rp_history r0" "rp_chunks r0" False]
  obtain h1 c1 b1 where m: "foldl note_metadata (note_metadata r0 (JCheckpoint c)) (drop (k + 1) ?all) = with_base h1 c1 b1 rep'"
    by (auto simp: n)
  have sp: "?all = take k ?all @ [JCheckpoint c] @ drop (k + 1) ?all"
    using id_take_nth_drop [OF k(4)] unfolding ck Suc_eq_plus1 append.simps .
  have all: "foldl note_metadata (replay_from c) ?all = with_base h1 c1 b1 rep'"
    by (subst sp) (simp only: foldl_append foldl.simps r0_def [symmetric] m)
  let ?c0 = "foldl (\<lambda>m l. bt_insert (loc_id l) l m) [] (cp_chunks cp)"
  obtain b2 where "foldl note_metadata (with_base (to_history cp) ?c0 False (replay_from c)) ?all =
      with_base (to_history cp) ?c0 b2 (foldl note_metadata (replay_from c) ?all)"
    using fold_note_base by blast
  then have a2: "foldl note_metadata (replay_from cp) ?all = with_base (to_history cp) ?c0 b2 rep'"
    unfolding all replay_from_base [of cp c, symmetric] by simp
  have "replayed (?all @ [JCheckpoint cp])
      (with_base (to_history cp) (foldl (\<lambda>m l. bt_insert (loc_id l) l m) [] (cp_chunks cp)) b2 rep')"
    using a2 by (intro replayedI [OF rposition_snoc]) simp_all
  then show ?thesis by auto
qed

section \<open>The replayed history\<close>

definition hist_sim :: "history \<Rightarrow> history \<Rightarrow> bool" where
  "hist_sim hr h \<longleftrightarrow> hr = h\<lparr>h_next_marker_id := h_next_marker_id hr\<rparr> \<and> h_next_marker_id hr \<le> h_next_marker_id h"

lemma hist_sim_refl: "hist_sim h h"
  by (simp add: hist_sim_def)

lemma hist_simD:
  assumes "hist_sim hr h"
  shows "h_current hr = h_current h" "h_undo hr = h_undo h" "h_redo hr = h_redo h" "h_next_seq hr = h_next_seq h"
    "h_saved_seq hr = h_saved_seq h" "h_next_rev hr = h_next_rev h" "h_next_audio_rev hr = h_next_audio_rev h"
  using assms by (cases hr; cases h; simp add: hist_sim_def)+

lemma hist_sim_le: "hist_sim hr h \<Longrightarrow> h_next_marker_id hr \<le> h_next_marker_id h"
  by (simp add: hist_sim_def)

lemma hist_simI:
  assumes "h_current hr = h_current h" "h_undo hr = h_undo h" "h_redo hr = h_redo h" "h_next_seq hr = h_next_seq h"
    "h_saved_seq hr = h_saved_seq h" "h_next_rev hr = h_next_rev h" "h_next_audio_rev hr = h_next_audio_rev h"
    "h_next_marker_id hr \<le> h_next_marker_id h"
  shows "hist_sim hr h"
  using assms by (cases hr; cases h; simp add: hist_sim_def)

lemma marker_op_sim:
  "apply_marker_op len (ms, n) op = Inr (ms', k) \<Longrightarrow> n' \<le> n \<Longrightarrow>
   \<exists>k' \<le> k. apply_marker_op len (ms, n') op = Inr (ms', k')"
  by (cases op) (auto simp: check_marker_bounds_def split: if_splits sum.splits option.splits)

lemma marker_ops_sim:
  "apply_marker_ops len (ms, n) ops = Inr (ms', k) \<Longrightarrow> n' \<le> n \<Longrightarrow>
   \<exists>k' \<le> k. apply_marker_ops len (ms, n') ops = Inr (ms', k')"
proof (induction ops arbitrary: ms n n')
  case (Cons op ops)
  from Cons.prems obtain m1 k1 where a: "apply_marker_op len (ms, n) op = Inr (m1, k1)"
    "apply_marker_ops len (m1, k1) ops = Inr (ms', k)" by (auto split: sum.splits)
  from marker_op_sim [OF a(1) Cons.prems(2)] obtain k1' where "k1' \<le> k1" "apply_marker_op len (ms, n') op = Inr (m1, k1')"
    by blast
  with Cons.IH [OF a(2)] show ?case by auto
qed simp

lemma prepare_sim:
  assumes sim: "hist_sim hr h" and p: "prepare h e = Inr p"
  shows "\<exists>p'. prepare hr e = Inr p' \<and> pe_seq p' = pe_seq p \<and> hist_sim (snd (commit hr p')) (snd (commit h p))"
proof -
  note d = hist_simD [OF sim]
  from sim have n: "h_next_marker_id hr \<le> h_next_marker_id h" by (simp add: hist_sim_def)
  from p obtain work ms ms' nxt where w: "prepare_ops (h_current h) (None, s_markers (h_current h)) (e_ops e) = Inr (work, ms)"
    "apply_marker_ops (case work of Some w \<Rightarrow> s_len w | None \<Rightarrow> s_len (h_current h)) (ms, h_next_marker_id h) (e_marker_ops e) = Inr (ms', nxt)"
    "\<not> (work = None \<and> e_marker_ops e = [])"
    by (auto simp: prepare_def Let_def split: sum.splits if_splits prod.splits)
  from marker_ops_sim [OF w(2) n] obtain k' where k': "k' \<le> nxt"
    "apply_marker_ops (case work of Some w \<Rightarrow> s_len w | None \<Rightarrow> s_len (h_current h)) (ms, h_next_marker_id hr) (e_marker_ops e) = Inr (ms', k')"
    by blast
  have "prepare hr e = Inr (p\<lparr>pe_next_marker_id := k'\<rparr>)" "pe_next_marker_id p = nxt"
    using p w k' by (auto simp: prepare_def Let_def d split: if_splits)
  moreover have "hist_sim (snd (commit hr (p\<lparr>pe_next_marker_id := k'\<rparr>))) (snd (commit h p))"
    if "pe_next_marker_id p = nxt" using that k' by (intro hist_simI) (simp_all add: commit_def d)
  ultimately show ?thesis by fastforce
qed

lemma undo_sim:
  assumes "hist_sim hr h"
  shows "hist_sim (snd (history_undo hr)) (snd (history_undo h))"
proof (cases "h_undo h" rule: rev_cases)
  case Nil
  then show ?thesis using assms hist_simD [OF assms] by (simp add: history_undo_def)
next
  case (snoc es e)
  note d = hist_simD [OF assms]
  have n: "h_next_marker_id hr \<le> h_next_marker_id h" using assms by (simp add: hist_sim_def)
  from snoc have "h_undo hr = es @ [e]" by (simp add: d)
  then show ?thesis
    using n unfolding history_undo_eq [OF snoc] history_undo_eq [OF \<open>h_undo hr = es @ [e]\<close>]
    by (intro hist_simI) (simp_all add: restored_def d)
qed

lemma redo_sim:
  assumes "hist_sim hr h"
  shows "hist_sim (snd (history_redo hr)) (snd (history_redo h))"
proof (cases "h_redo h" rule: rev_cases)
  case Nil
  then show ?thesis using assms hist_simD [OF assms] by (simp add: history_redo_def)
next
  case (snoc es e)
  note d = hist_simD [OF assms]
  have n: "h_next_marker_id hr \<le> h_next_marker_id h" using assms by (simp add: hist_sim_def)
  from snoc have "h_redo hr = es @ [e]" by (simp add: d)
  then show ?thesis
    using n unfolding history_redo_eq [OF snoc] history_redo_eq [OF \<open>h_redo hr = es @ [e]\<close>]
    by (intro hist_simI) (simp_all add: restored_def d)
qed

lemma drop_sim:
  assumes s: "hist_sim hr h"
  shows "hist_sim (snd (drop_oldest_undo hr n)) (snd (drop_oldest_undo h n))"
  using hist_simD [OF s] hist_sim_le [OF s] by (intro hist_simI) (simp_all add: drop_oldest_undo_def Let_def)

lemma saved_sim:
  assumes s: "hist_sim hr h"
  shows "hist_sim (mark_saved_at hr n) (mark_saved_at h n)"
  using hist_simD [OF s] hist_sim_le [OF s] by (intro hist_simI) (simp_all add: mark_saved_at_def Let_def)

lemma alloc_sim:
  assumes s: "hist_sim hr h"
  shows "hist_sim hr (snd (allocate_marker_id h))"
  using hist_simD [OF s] hist_sim_le [OF s] by (intro hist_simI) (simp_all add: allocate_marker_id_def Let_def)

lemma prepare_ops_valid:
  "prepare_ops cur st ops = Inr st' \<Longrightarrow> op \<in> set ops \<Longrightarrow> q \<in> set (op_pieces op) \<Longrightarrow> piece_valid q"
proof (induction ops arbitrary: st)
  case (Cons o1 ops)
  obtain work ms where st: "st = (work, ms)" by fastforce
  obtain a r ps mp where o1: "o1 = Replace a r ps mp" by (cases o1) auto
  from Cons.prems(1) have "validate_pieces ps = Inr ()"
    by (auto simp: st o1 split: sum.splits)
  then have "\<forall>q \<in> set ps. piece_valid q" by simp
  with Cons show ?case by (auto simp: o1 split: sum.splits)
qed simp

lemma prepare_valid: "prepare h e = Inr p \<Longrightarrow> op \<in> set (e_ops e) \<Longrightarrow> q \<in> set (op_pieces op) \<Longrightarrow> piece_valid q"
  by (auto simp: prepare_def Let_def split: sum.splits dest: prepare_ops_valid)

lemma prepare_seq: "prepare h e = Inr p \<Longrightarrow> pe_seq p = h_next_seq h"
  by (auto simp: prepare_def Let_def split: sum.splits if_splits)

end
