(* ===== verification/Take_Session.thy ===== *)
theory Take_Session
  imports Session
begin

text \<open>
  Recording into a session: the take operations of \<^verbatim>\<open>crates/project/src/session.rs\<close>.

  \<open>crc\<close> is the chunk checksum, \<open>env\<close> the operating system under the store, \<open>mix i n f g\<close> sample \<open>i\<close> of an
  \<open>n\<close>-sample equal-power crossfade (the \<open>f64\<close> expression of \<open>render_fade\<close>).  The WAV parts of a take
  belong to its capture; recovery gets what \<open>recover_take\<close> found as an argument.
\<close>

datatype take_mode = NewTake | InsertTake nat | OverwriteTake nat | PunchTake nat nat

record take_params =
  pm_xfade :: nat
  pm_offset_ns :: int
  pm_aligned :: bool

definition take_params_default :: take_params where
  "take_params_default = \<lparr>pm_xfade = 0, pm_offset_ns = 0, pm_aligned = False\<rparr>"

record take_capture =
  tc_id :: nat
  tc_wav :: "take_writer \<times> byte list list"
  tc_chunks :: chunk_writer

record finished_take =
  ft_take :: nat
  ft_audio :: written_audio
  ft_parts :: nat
  ft_wav_samples :: nat
  ft_error :: "project_error option"

datatype fade_dir = FadeIn | FadeOut

section \<open>Capturing\<close>

definition capture_append ::
    "(f32 list \<Rightarrow> (store, chunk_location) op) \<Rightarrow> take_env \<Rightarrow> nat \<Rightarrow> f32 list \<Rightarrow> (take_capture \<times> store, unit) op" where
  "capture_append cm te now xs cs =
     (case cs of (c, st) \<Rightarrow>
        (case take_append te xs now (tc_wav c) of
           (Inl e, w) \<Rightarrow> (Inl e, (c\<lparr>tc_wav := w\<rparr>, st))
         | (Inr _, w) \<Rightarrow>
             (case writer_append cm xs (tc_chunks c, st) of
                (r, (cw, st')) \<Rightarrow> (r, (c\<lparr>tc_wav := w, tc_chunks := cw\<rparr>, st')))))"

definition capture_finish ::
    "(f32 list \<Rightarrow> (store, chunk_location) op) \<Rightarrow> take_env \<Rightarrow> nat \<Rightarrow> take_capture \<Rightarrow> store \<Rightarrow>
     finished_take \<times> byte list list \<times> store" where
  "capture_finish cm te now c st =
     (case finish_lossy cm (tc_chunks c, st) of
        ((wa, chunk_err), (_, st')) \<Rightarrow>
          (case take_finish te now (tc_wav c) of
             (r, (_, files)) \<Rightarrow>
               (\<lparr>ft_take = tc_id c, ft_audio = wa, ft_parts = tw_parts (fst (tc_wav c)),
                 ft_wav_samples = tw_total (fst (tc_wav c)),
                 ft_error = (case r of Inl e \<Rightarrow> Some e | Inr _ \<Rightarrow> chunk_err)\<rparr>, files, st')))"

section \<open>Opening a take\<close>

definition plan_position :: "take_mode \<Rightarrow> nat \<Rightarrow> project_error + nat \<times> take_mode_record \<times> nat" where
  "plan_position mode len =
     (case mode of
        NewTake \<Rightarrow> Inr (len, TmNew, 0)
      | InsertTake p \<Rightarrow> if p \<le> len then Inr (p, TmInsert, 0) else Inl (InvalidEdit TakePositionOutside)
      | OverwriteTake p \<Rightarrow> if p \<le> len then Inr (p, TmOverwrite, 0) else Inl (InvalidEdit TakePositionOutside)
      | PunchTake a b \<Rightarrow>
          if a < b \<and> b \<le> len then Inr (a, TmPunch, b - a) else Inl (InvalidEdit TakePositionOutside))"

definition begin_take_with ::
    "('v, 'j) appender \<Rightarrow> take_env \<Rightarrow> nat \<Rightarrow> take_mode \<Rightarrow> take_params \<Rightarrow> take_writer_options \<Rightarrow>
     (('v, 'j) session, take_capture) op" where
  "begin_take_with ap te now mode params options s =
     (if ss_open s \<noteq> None then (Inl TakeAlreadyOpen, s)
      else case plan_position mode (s_len (h_current (ss_history s))) of
             Inl e \<Rightarrow> (Inl e, s)
           | Inr (pos, mode_rec, plan_len) \<Rightarrow>
               let plan = \<lparr>tp_mode = mode_rec, tp_at = pos, tp_len = plan_len, tp_xfade = pm_xfade params,
                           tp_offset_ns = pm_offset_ns params, tp_aligned = pm_aligned params,
                           tp_k_start = (if pm_aligned params then None else Some 0)\<rparr>;
                   tk = ss_next_take s;
                   rec = JTakeBegin \<lparr>tb_take = tk, tb_mode = mode_rec, tb_at = pos, tb_len = plan_len,
                           tb_file = take_part_path ''takes'' tk 0, tb_rate = ss_rate s,
                           tb_xfade = pm_xfade params, tb_offset_ns = pm_offset_ns params,
                           tb_aligned = pm_aligned params\<rparr>
               in case write_log ap [rec] s of
                    (Inl e, s1) \<Rightarrow> (Inl e, s1)
                  | (Inr _, s1) \<Rightarrow>
                      let s2 = s1\<lparr>ss_next_take := ss_next_take s1 + 1\<rparr>
                      in case take_create te (ss_rate s2) options now [] of
                           (Inl e, _) \<Rightarrow> (Inl e, snd (write_log ap [JTakeDiscard tk] s2))
                         | (Inr w, files) \<Rightarrow>
                             (Inr \<lparr>tc_id = tk, tc_wav = (w, files), tc_chunks = writer_new\<rparr>,
                              s2\<lparr>ss_open := Some (tk, plan), ss_markers := []\<rparr>))"

definition begin_take ::
    "('v, 'j) appender \<Rightarrow> take_env \<Rightarrow> nat \<Rightarrow> take_mode \<Rightarrow> take_writer_options \<Rightarrow> (('v, 'j) session, take_capture) op" where
  "begin_take ap te now mode options = begin_take_with ap te now mode take_params_default options"

section \<open>During the take\<close>

text \<open>\<open>the_take s tk\<close>: the plan of the open take, if it is \<open>tk\<close>.\<close>

definition the_take :: "('v, 'j) session \<Rightarrow> nat \<Rightarrow> take_plan option" where
  "the_take s tk = (case ss_open s of Some (i, plan) \<Rightarrow> if i = tk then Some plan else None | None \<Rightarrow> None)"

definition note_take_window :: "('v, 'j) appender \<Rightarrow> nat \<Rightarrow> nat \<Rightarrow> (('v, 'j) session, unit) op" where
  "note_take_window ap tk k s =
     (case the_take s tk of
        None \<Rightarrow> (Inl (NoSuchTake tk), s)
      | Some plan \<Rightarrow>
          if tp_k_start plan = Some k then (Inr (), s)
          else case write_log ap [JTakeWindow tk k] s of
                 (Inl e, s1) \<Rightarrow> (Inl e, s1)
               | (Inr _, s1) \<Rightarrow> (Inr (), s1\<lparr>ss_open := Some (tk, plan\<lparr>tp_k_start := Some k\<rparr>)\<rparr>))"

definition note_take_marker :: "('v, 'j) appender \<Rightarrow> nat \<Rightarrow> marker \<Rightarrow> (('v, 'j) session, unit) op" where
  "note_take_marker ap tk m s =
     (case the_take s tk of
        None \<Rightarrow> (Inl (NoSuchTake tk), s)
      | Some _ \<Rightarrow>
          (case write_log ap [JTakeMarker tk (from_marker m)] s of
             (Inl e, s1) \<Rightarrow> (Inl e, s1)
           | (Inr _, s1) \<Rightarrow> (Inr (), s1\<lparr>ss_markers := ss_markers s1 @ [m]\<rparr>)))"

section \<open>Closing a take\<close>

definition close_open :: "('v, 'j) session \<Rightarrow> ('v, 'j) session" where
  "close_open s = s\<lparr>ss_open := None, ss_markers := []\<rparr>"

definition discard_take :: "('v, 'j) appender \<Rightarrow> nat \<Rightarrow> (('v, 'j) session, unit) op" where
  "discard_take ap tk s =
     (case the_take s tk of
        None \<Rightarrow> (Inl (NoSuchTake tk), s)
      | Some _ \<Rightarrow>
          (case write_log ap [JTakeDiscard tk] s of
             (Inl e, s1) \<Rightarrow> (Inl e, s1)
           | (Inr _, s1) \<Rightarrow> (Inr (), close_open s1)))"

text \<open>The take's files are deleted too, as far as possible.\<close>

definition close_cancelled_take :: "('v, 'j) appender \<Rightarrow> nat \<Rightarrow> (('v, 'j) session, marker list) op" where
  "close_cancelled_take ap tk s =
     (case the_take s tk of
        None \<Rightarrow> (Inl (NoSuchTake tk), s)
      | Some _ \<Rightarrow>
          (case write_log ap [JTakeCancel tk] s of
             (Inl e, s1) \<Rightarrow> (Inl e, s1)
           | (Inr _, s1) \<Rightarrow> (Inr (ss_markers s1), close_open s1)))"

definition cancelled_marker :: "nat \<Rightarrow> marker \<Rightarrow> marker" where
  "cancelled_marker len m =
     (let pos = min (m_pos m) len; e = clamp (marker_end m) pos len
      in m\<lparr>m_pos := pos, m_len := e - pos\<rparr>)"

fun commit_markers :: "('v, 'j) appender \<Rightarrow> store_env \<Rightarrow> nat \<Rightarrow> marker list \<Rightarrow> (('v, 'j) session, unit) op" where
  "commit_markers ap env len [] s = (Inr (), s)"
| "commit_markers ap env len (m # ms) s =
     (case commit_internal ap env (edit_marker (edit_new ''history.marker_add'') (MAdd (cancelled_marker len m))) None s of
        (Inl e, s1) \<Rightarrow> (Inl e, s1)
      | (Inr _, s1) \<Rightarrow> commit_markers ap env len ms s1)"

definition cancel_take :: "('v, 'j) appender \<Rightarrow> store_env \<Rightarrow> nat \<Rightarrow> (('v, 'j) session, unit) op" where
  "cancel_take ap env tk s =
     (case close_cancelled_take ap tk s of
        (Inl e, s1) \<Rightarrow> (Inl e, s1)
      | (Inr ms, s1) \<Rightarrow> commit_markers ap env (s_len (h_current (ss_history s1))) ms s1)"

section \<open>Where the markers of a take land\<close>

definition place_take_marker :: "take_plan \<Rightarrow> nat \<Rightarrow> nat \<Rightarrow> marker \<Rightarrow> marker" where
  "place_take_marker plan doc_len n m =
     (let p = tp_at plan;
          new_len = (case tp_mode plan of
                       TmNew \<Rightarrow> doc_len + n
                     | TmInsert \<Rightarrow> doc_len + n
                     | TmOverwrite \<Rightarrow> max doc_len (p + n)
                     | TmPunch \<Rightarrow> doc_len);
          q = m_pos m;
          post_roll = (tp_mode plan = TmPunch \<and> q \<ge> p + tp_len plan);
          (pos0, hi0) = (if q < p \<or> post_roll then (q, new_len) else (min q (p + n), p + n));
          hi = min hi0 new_len;
          pos = min pos0 hi;
          e = clamp (marker_end m) pos hi
      in m\<lparr>m_pos := pos, m_len := e - pos\<rparr>)"

definition take_marker_ops :: "('v, 'j) session \<Rightarrow> take_plan \<Rightarrow> nat \<Rightarrow> marker list \<Rightarrow> marker_op list" where
  "take_marker_ops s plan n extra =
     map (\<lambda>m. MAdd (place_take_marker plan (s_len (h_current (ss_history s))) n m)) (extra @ ss_markers s)"

definition add_marker_ops :: "edit \<Rightarrow> marker_op list \<Rightarrow> edit" where
  "add_marker_ops e ops = foldl edit_marker e ops"

section \<open>Committing a take\<close>

definition commit_take ::
    "('v, 'j) appender \<Rightarrow> store_env \<Rightarrow> finished_take \<Rightarrow> marker list \<Rightarrow> (('v, 'j) session, history_step option) op" where
  "commit_take ap env f markers s =
     (case the_take s (ft_take f) of
        None \<Rightarrow> (Inl (NoSuchTake (ft_take f)), s)
      | Some plan \<Rightarrow>
          let len = wa_len (ft_audio f)
          in if ft_wav_samples f = 0 \<and> len = 0 \<and> markers = [] \<and> ss_markers s = [] then
               (case write_log ap [JTakeDiscard (ft_take f)] s of
                  (Inl e, s1) \<Rightarrow> (Inl e, s1)
                | (Inr _, s1) \<Rightarrow> (Inr None, close_open s1))
             else if len = 0 \<and> ft_wav_samples f > 0 then (Inl (TakeNotInStore (ft_take f) (ft_wav_samples f)), s)
             else
               let e0 = edit_new ''history.record'';
                   e1 = (if len > 0 then edit_replace e0 (tp_at plan) 0 (wa_pieces (ft_audio f)) else e0);
                   e = add_marker_ops e1 (take_marker_ops s plan len markers);
                   truncated = (if ft_wav_samples f > len then Some (ft_wav_samples f) else None)
               in case commit_internal ap env e (Some (ft_take f, truncated)) s of
                    (Inl err, s1) \<Rightarrow> (Inl err, s1)
                  | (Inr step, s1) \<Rightarrow> (Inr (Some step), close_open s1))"

definition window_len :: "take_plan \<Rightarrow> nat \<Rightarrow> nat \<times> nat \<Rightarrow> nat" where
  "window_len plan take_len window =
     (let start = min (fst window) take_len;
          n = min (snd window) take_len - start
      in if tp_mode plan = TmPunch then min n (tp_len plan) else n)"

definition filled :: "nat \<Rightarrow> f32 list \<Rightarrow> f32 list" where
  "filled n xs = xs @ replicate (n - length xs) 0"

definition render_fade ::
    "(byte list \<Rightarrow> 32 word) \<Rightarrow> store_env \<Rightarrow> (nat \<Rightarrow> nat \<Rightarrow> f32 \<Rightarrow> f32 \<Rightarrow> f32) \<Rightarrow> doc_snapshot \<Rightarrow> nat \<Rightarrow> doc_snapshot \<Rightarrow>
     nat \<Rightarrow> nat \<Rightarrow> fade_dir \<Rightarrow> (store, piece list) op" where
  "render_fade crc env mix doc doc_pos tk take_pos len dir st =
     (if len = 0 then (Inr [], st)
      else case store_read crc env doc doc_pos len st of
             (Inl e, st1) \<Rightarrow> (Inl e, st1)
           | (Inr a, st1) \<Rightarrow>
               (case store_read crc env tk take_pos len st1 of
                  (Inl e, st2) \<Rightarrow> (Inl e, st2)
                | (Inr t, st2) \<Rightarrow>
                    let xs = filled len a; ys = filled len t;
                        out = map (\<lambda>i. case dir of FadeIn \<Rightarrow> mix i len (xs ! i) (ys ! i)
                                                 | FadeOut \<Rightarrow> mix i len (ys ! i) (xs ! i)) [0 ..< len]
                    in case writer_append (commit_chunk crc env) out (writer_new, st2) of
                         (Inl e, (_, st3)) \<Rightarrow> (Inl e, st3)
                       | (Inr _, ws) \<Rightarrow>
                           (case writer_finish (commit_chunk crc env) ws of
                              (Inl e, (_, st4)) \<Rightarrow> (Inl e, st4)
                            | (Inr wa, (_, st4)) \<Rightarrow> (Inr (wa_pieces wa), st4))))"

text \<open>
  The pieces of a faded replacement of \<open>n\<close> samples at \<open>p\<close>: a fade in of \<open>xs\<close> samples, the take, a fade
  out of \<open>xe\<close> samples.
\<close>

definition faded_pieces ::
    "(byte list \<Rightarrow> 32 word) \<Rightarrow> store_env \<Rightarrow> (nat \<Rightarrow> nat \<Rightarrow> f32 \<Rightarrow> f32 \<Rightarrow> f32) \<Rightarrow> doc_snapshot \<Rightarrow> nat \<Rightarrow> doc_snapshot \<Rightarrow>
     nat \<Rightarrow> nat \<Rightarrow> nat \<Rightarrow> nat \<Rightarrow> (store, piece list) op" where
  "faded_pieces crc env mix cur p tk ws n xs xe st =
     (case render_fade crc env mix cur p tk ws xs FadeIn st of
        (Inl e, st1) \<Rightarrow> (Inl e, st1)
      | (Inr ps1, st1) \<Rightarrow>
          (case slice tk (ws + xs) (n - xs - xe) of
             Inl e \<Rightarrow> (Inl e, st1)
           | Inr ps2 \<Rightarrow>
               (case render_fade crc env mix cur (p + n - xe) tk (ws + n - xe) xe FadeOut st1 of
                  (Inl e, st2) \<Rightarrow> (Inl e, st2)
                | (Inr ps3, st2) \<Rightarrow> (Inr (ps1 @ ps2 @ ps3), st2))))"

definition build_take_edit ::
    "(byte list \<Rightarrow> 32 word) \<Rightarrow> store_env \<Rightarrow> (nat \<Rightarrow> nat \<Rightarrow> f32 \<Rightarrow> f32 \<Rightarrow> f32) \<Rightarrow> nat \<Rightarrow> doc_snapshot \<Rightarrow> take_plan \<Rightarrow>
     piece list \<Rightarrow> nat \<times> nat \<Rightarrow> (store, edit option) op" where
  "build_take_edit crc env mix rate cur plan ps window st =
     (let take_len = pieces_len ps;
          n = window_len plan take_len window
      in if n = 0 then (Inr None, st)
         else
           let ws = min (fst window) take_len;
               p = min (tp_at plan) (s_len cur);
               tk = snapshot_new rate ps [];
               l = s_len cur;
               x = tp_xfade plan;
               record_edit = edit_new ''history.record'';
               punch_edit = edit_new ''history.punch''
           in case tp_mode plan of
                TmOverwrite \<Rightarrow>
                  (let xs = (if p < l then min (min x (l - p)) (n div 2) else 0);
                       xe = (if p + n < l then min x (n div 2) else 0)
                   in case faded_pieces crc env mix cur p tk ws n xs xe st of
                        (Inl e, st1) \<Rightarrow> (Inl e, st1)
                      | (Inr qs, st1) \<Rightarrow>
                          (Inr (Some (edit_replace_with record_edit p (min n (l - p)) qs Identity)), st1))
              | TmPunch \<Rightarrow>
                  (let xx = min x (n div 2)
                   in case faded_pieces crc env mix cur p tk ws n xx xx st of
                        (Inl e, st1) \<Rightarrow> (Inl e, st1)
                      | (Inr qs, st1) \<Rightarrow> (Inr (Some (edit_replace_with punch_edit p n qs Identity)), st1))
              | _ \<Rightarrow>
                  (case slice tk ws n of
                     Inl e \<Rightarrow> (Inl e, st)
                   | Inr qs \<Rightarrow> (Inr (Some (edit_replace record_edit p 0 qs)), st)))"

definition build_edit ::
    "(byte list \<Rightarrow> 32 word) \<Rightarrow> store_env \<Rightarrow> (nat \<Rightarrow> nat \<Rightarrow> f32 \<Rightarrow> f32 \<Rightarrow> f32) \<Rightarrow> take_plan \<Rightarrow> piece list \<Rightarrow> nat \<times> nat \<Rightarrow>
     (('v, 'j) session, edit option) op" where
  "build_edit crc env mix plan ps window s =
     (case build_take_edit crc env mix (ss_rate s) (h_current (ss_history s)) plan ps window (ss_store s) of
        (r, st) \<Rightarrow> (r, s\<lparr>ss_store := st\<rparr>))"

definition commit_take_window ::
    "('v, 'j) appender \<Rightarrow> (byte list \<Rightarrow> 32 word) \<Rightarrow> store_env \<Rightarrow> (nat \<Rightarrow> nat \<Rightarrow> f32 \<Rightarrow> f32 \<Rightarrow> f32) \<Rightarrow> finished_take \<Rightarrow>
     nat \<times> nat \<Rightarrow> marker list \<Rightarrow> (('v, 'j) session, history_step option) op" where
  "commit_take_window ap crc env mix f window markers s =
     (case the_take s (ft_take f) of
        None \<Rightarrow> (Inl (NoSuchTake (ft_take f)), s)
      | Some plan \<Rightarrow>
          let len = wa_len (ft_audio f)
          in if len = 0 \<and> ft_wav_samples f > 0 then (Inl (TakeNotInStore (ft_take f) (ft_wav_samples f)), s)
             else case build_edit crc env mix plan (wa_pieces (ft_audio f)) window s of
                    (Inl e, s1) \<Rightarrow> (Inl e, s1)
                  | (Inr None, s1) \<Rightarrow>
                      (case cancel_take ap env (ft_take f) s1 of
                         (Inl e, s2) \<Rightarrow> (Inl e, s2)
                       | (Inr _, s2) \<Rightarrow> (Inr None, s2))
                  | (Inr (Some e0), s1) \<Rightarrow>
                      let n = window_len plan len window;
                          e = add_marker_ops e0 (take_marker_ops s1 plan n markers);
                          truncated = (if ft_wav_samples f > len then Some (ft_wav_samples f) else None)
                      in case commit_internal ap env e (Some (ft_take f, truncated)) s1 of
                           (Inl err, s2) \<Rightarrow> (Inl err, s2)
                         | (Inr step, s2) \<Rightarrow> (Inr (Some step), close_open s2))"

section \<open>After a crash\<close>

text \<open>Streaming the recovered parts into new chunks: a writer, \<open>copy_take_into\<close>, \<open>finish\<close>.\<close>

definition import_take ::
    "(byte list \<Rightarrow> 32 word) \<Rightarrow> store_env \<Rightarrow> recovered_take list \<Rightarrow> (store, written_audio) op" where
  "import_take crc env parts st =
     (case copy_take_into (commit_chunk crc env) parts (writer_new, st) of
        (Inl e, (_, st1)) \<Rightarrow> (Inl e, st1)
      | (Inr _, ws) \<Rightarrow>
          (case writer_finish (commit_chunk crc env) ws of
             (Inl e, (_, st2)) \<Rightarrow> (Inl e, st2)
           | (Inr wa, (_, st2)) \<Rightarrow> (Inr wa, st2)))"

definition apply_open_take_from_wav ::
    "('v, 'j) appender \<Rightarrow> (byte list \<Rightarrow> 32 word) \<Rightarrow> store_env \<Rightarrow> (nat \<Rightarrow> nat \<Rightarrow> f32 \<Rightarrow> f32 \<Rightarrow> f32) \<Rightarrow>
     (nat \<Rightarrow> project_error + recovered_take list) \<Rightarrow> (('v, 'j) session, history_step option) op" where
  "apply_open_take_from_wav ap crc env mix parts_of s =
     (case ss_open s of
        None \<Rightarrow> (Inl (NoSuchTake 0), s)
      | Some (tk, plan) \<Rightarrow>
          (case parts_of tk of
             Inl e \<Rightarrow> (Inl e, s)
           | Inr parts \<Rightarrow>
               (case import_take crc env parts (ss_store s) of
                  (Inl e, st) \<Rightarrow> (Inl e, s\<lparr>ss_store := st\<rparr>)
                | (Inr wa, st) \<Rightarrow>
                    let s1 = s\<lparr>ss_store := st\<rparr>
                    in case tp_k_start plan of
                         None \<Rightarrow>
                           (case close_cancelled_take ap tk s1 of
                              (Inl e, s2) \<Rightarrow> (Inl e, s2)
                            | (Inr _, s2) \<Rightarrow> (Inr None, s2))
                       | Some k \<Rightarrow>
                           let window = (k, u64_max)
                           in case build_edit crc env mix plan (wa_pieces wa) window s1 of
                                (Inl e, s2) \<Rightarrow> (Inl e, s2)
                              | (Inr None, s2) \<Rightarrow>
                                  (case write_log ap [JTakeDiscard tk] s2 of
                                     (Inl e, s3) \<Rightarrow> (Inl e, s3)
                                   | (Inr _, s3) \<Rightarrow> (Inr None, close_open s3))
                              | (Inr (Some e0), s2) \<Rightarrow>
                                  let n = window_len plan (pieces_len (wa_pieces wa)) window;
                                      e = add_marker_ops e0 (take_marker_ops s2 plan n [])
                                  in case commit_internal ap env e (Some (tk, None)) s2 of
                                       (Inl err, s3) \<Rightarrow> (Inl err, s3)
                                     | (Inr step, s3) \<Rightarrow> (Inr (Some step), close_open s3))))"

text \<open>
  \<open>open_take_as_new_session\<close>: the new session \<open>fresh\<close> is created by the first argument and has its own
  journal; when nothing comes of it, it is closed and dropped.
\<close>

definition fill_fresh ::
    "('v, 'j) appender \<Rightarrow> (byte list \<Rightarrow> 32 word) \<Rightarrow> store_env \<Rightarrow> nat \<Rightarrow> take_plan \<Rightarrow> recovered_take list \<Rightarrow>
     (('v, 'j) session, bool) op" where
  "fill_fresh ap crc env rate plan parts fresh =
     (case import_take crc env parts (ss_store fresh) of
        (Inl e, st) \<Rightarrow> (Inl e, fresh\<lparr>ss_store := st\<rparr>)
      | (Inr wa, st) \<Rightarrow>
          let f1 = fresh\<lparr>ss_store := st\<rparr>;
              start = unwrap_or (tp_k_start plan) (wa_len wa);
              n = window_len plan (wa_len wa) (start, u64_max)
          in if n = 0 then (Inr False, f1)
             else case slice (snapshot_new rate (wa_pieces wa) []) (min start (wa_len wa)) n of
                    Inl e \<Rightarrow> (Inl e, f1)
                  | Inr ps \<Rightarrow>
                      (case commit_edit ap env (edit_replace (edit_new ''history.record'') 0 0 ps) f1 of
                         (Inl e, f2) \<Rightarrow> (Inl e, f2)
                       | (Inr _, f2) \<Rightarrow> (Inr True, f2)))"

definition open_take_as_new_session ::
    "(project_error + ('v, 'j) session) \<Rightarrow> ('v, 'j) appender \<Rightarrow> (byte list \<Rightarrow> 32 word) \<Rightarrow> store_env \<Rightarrow>
     (nat \<Rightarrow> project_error + recovered_take list) \<Rightarrow> (('v, 'j) session, ('v, 'j) session option) op" where
  "open_take_as_new_session created ap crc env parts_of s =
     (case ss_open s of
        None \<Rightarrow> (Inl (NoSuchTake 0), s)
      | Some (tk, plan) \<Rightarrow>
          (case parts_of tk of
             Inl e \<Rightarrow> (Inl e, s)
           | Inr parts \<Rightarrow>
               (case created of
                  Inl e \<Rightarrow> (Inl e, s)
                | Inr fresh \<Rightarrow>
                    (case fill_fresh ap crc env (ss_rate s) plan parts fresh of
                       (Inl e, _) \<Rightarrow> (Inl e, s)
                     | (Inr made, f1) \<Rightarrow>
                         (case discard_take ap tk s of
                            (Inl e, s1) \<Rightarrow> (Inl e, s1)
                          | (Inr _, s1) \<Rightarrow> (Inr (if made then Some f1 else None), s1))))))"

end
