(* ===== verification/Chunk_Refs.thy ===== *)
theory Chunk_Refs
  imports Replay
begin

text \<open>
  Which chunks a history refers to: editing never refers to a chunk that neither the document nor the
  edit named, undo and redo keep the set, dropping history and saving never add to it.
\<close>

lemma ids_simps [simp]:
  "set (pieces_chunk_ids []) = {}" "set (pieces_chunk_ids (ps @ qs)) = set (pieces_chunk_ids ps) \<union> set (pieces_chunk_ids qs)"
  "set (pieces_chunk_ids (p # ps)) = set (chunk_of p) \<union> set (pieces_chunk_ids ps)"
  by (simp_all add: pieces_chunk_ids_def)

lemma ids_drop: "set (pieces_chunk_ids (drop n ps)) \<subseteq> set (pieces_chunk_ids ps)"
  by (metis Un_upper2 append_take_drop_id ids_simps(2))

lemma chunk_of_sub [simp]: "set (chunk_of (piece_sub p a n)) = set (chunk_of p)"
  by (simp add: piece_sub_def piece_silence_def split: source.splits)

lemma chunk_of_merged: "piece_merged p q = Some m \<Longrightarrow> set (chunk_of m) \<subseteq> set (chunk_of p)"
  by (auto simp: piece_merged_def piece_silence_def split: source.splits option.splits if_splits)

lemma ids_push_piece: "set (pieces_chunk_ids (push_piece out p)) \<subseteq> set (pieces_chunk_ids out) \<union> set (chunk_of p)"
proof (cases rule: push_piece_cases [of p out])
  case (merge ys y m)
  then show ?thesis using chunk_of_merged [OF merge(3)] by auto
qed auto

lemma ids_push_all: "set (pieces_chunk_ids (push_all out ps)) \<subseteq> set (pieces_chunk_ids out) \<union> set (pieces_chunk_ids ps)"
proof (induction ps arbitrary: out)
  case (Cons p ps)
  from Cons.IH [of "push_piece out p"] ids_push_piece [of out p] show ?case
    by (simp del: chunk_of.simps) blast
qed simp

lemma ids_push_loop:
  "set (pieces_chunk_ids (push_loop ps off rem out)) \<subseteq> set (pieces_chunk_ids out) \<union> set (pieces_chunk_ids ps)"
proof (induction ps arbitrary: off rem out)
  case (Cons p ps)
  let ?out = "push_piece out (piece_sub p (as_u32 off) (as_u32 (min (p_len p - off) rem)))"
  from Cons.IH [of 0 "rem - min (p_len p - off) rem" ?out]
    ids_push_piece [of out "piece_sub p (as_u32 off) (as_u32 (min (p_len p - off) rem))"]
  show ?case by (auto simp add: Let_def simp del: chunk_of.simps)
qed simp

lemma ids_push_range: "set (pieces_chunk_ids (push_range d out a e)) \<subseteq> set (pieces_chunk_ids out) \<union> set (chunk_ids d)"
  using ids_push_loop ids_drop unfolding push_range_def chunk_ids_def
  by (fastforce split: option.splits)

lemma ids_replaced: "replaced d a r ins = Inr ps \<Longrightarrow> set (pieces_chunk_ids ps) \<subseteq> set (chunk_ids d) \<union> set (pieces_chunk_ids ins)"
  using ids_push_range [of d "push_all (push_range d [] 0 a) ins"] ids_push_range [of d "[]" 0 a]
    ids_push_all [of "push_range d [] 0 a" ins]
  by (fastforce simp: replaced_def split: sum.splits)

lemma ids_slice: "slice d a n = Inr ps \<Longrightarrow> set (pieces_chunk_ids ps) \<subseteq> set (chunk_ids d)"
  using ids_push_range [of d "[]" a] by (auto simp: slice_def split: sum.splits)

definition op_ids :: "edit_op list \<Rightarrow> nat set" where
  "op_ids ops = set (pieces_chunk_ids (concat (map op_pieces ops)))"

lemma ids_prepare_ops:
  "prepare_ops cur (work, ms) ops = Inr (work', ms') \<Longrightarrow>
   set (chunk_ids (unwrap_or work' cur)) \<subseteq> set (chunk_ids (unwrap_or work cur)) \<union> op_ids ops"
proof (induction ops arbitrary: work ms)
  case (Cons op ops)
  obtain a r ps mp where op: "op = Replace a r ps mp" by (cases op) auto
  from Cons.prems obtain w1 m1 where 1: "prepare_op cur (work, ms) op = Inr (w1, m1)"
    "prepare_ops cur (w1, m1) ops = Inr (work', ms')" by (auto split: sum.splits)
  have "set (chunk_ids (unwrap_or w1 cur)) \<subseteq> set (chunk_ids (unwrap_or work cur)) \<union> set (pieces_chunk_ids ps)"
    using 1(1) [unfolded op]
  proof (cases rule: prepare_op_cases)
    case (change qs)
    then show ?thesis using ids_replaced [OF change(3)] by (simp add: chunk_ids_def unwrap_or_def)
  qed simp
  with Cons.IH [OF 1(2)] show ?case by (auto simp: op op_ids_def)
qed (simp add: op_ids_def)

lemma ids_prepare:
  assumes "prepare h e = Inr p"
  shows "set (chunk_ids (pe_snapshot p)) \<subseteq> set (chunk_ids (h_current h)) \<union> op_ids (e_ops e)"
proof -
  from assms obtain work ms where w: "prepare_ops (h_current h) (None, s_markers (h_current h)) (e_ops e) = Inr (work, ms)"
    "s_pieces (pe_snapshot p) = s_pieces (unwrap_or work (h_current h))"
    by (auto simp: prepare_def Let_def split: sum.splits prod.splits if_splits)
  from ids_prepare_ops [OF w(1)] w(2) show ?thesis by (simp add: chunk_ids_def unwrap_or_def)
qed

section \<open>The live chunks of a history\<close>

definition live_set :: "history \<Rightarrow> nat set" where
  "live_set h = set (chunk_ids (h_current h)) \<union> (\<Union>e \<in> set (h_undo h @ h_redo h). set (chunk_ids (en_snapshot e)))"

lemma set_live_chunk_ids [simp]: "set (live_chunk_ids h extra) = live_set h \<union> set (pieces_chunk_ids extra)"
  by (auto simp: live_chunk_ids_def live_set_def set_bt_set)

lemma live_commit: "prepare h e = Inr p \<Longrightarrow> live_set (snd (commit h p)) \<subseteq> live_set h \<union> op_ids (e_ops e)"
  using ids_prepare [of h e p] by (auto simp: live_set_def commit_def)

lemma chunk_ids_restamp [simp]: "chunk_ids (fst (restamp h d a)) = chunk_ids d"
  by (simp add: restamp_def chunk_ids_def Let_def split: prod.splits)

lemma live_undo: "live_set (snd (history_undo h)) = live_set h"
proof (cases "h_undo h" rule: rev_cases)
  case (snoc us e)
  then show ?thesis unfolding history_undo_eq [OF snoc]
    by (auto simp: live_set_def chunk_ids_def restored_def)
qed (simp add: history_undo_def)

lemma live_redo: "live_set (snd (history_redo h)) = live_set h"
proof (cases "h_redo h" rule: rev_cases)
  case (snoc us e)
  then show ?thesis unfolding history_redo_eq [OF snoc]
    by (auto simp: live_set_def chunk_ids_def restored_def)
qed (simp add: history_redo_def)

lemma live_drop: "live_set (snd (drop_oldest_undo h n)) \<subseteq> live_set h"
  by (auto simp: live_set_def drop_oldest_undo_def Let_def dest: in_set_dropD)

lemma live_congs [simp]:
  "live_set (mark_saved_at h n) = live_set h" "live_set (snd (allocate_marker_id h)) = live_set h"
  by (simp_all add: live_set_def mark_saved_at_def allocate_marker_id_def)

lemma live_sim: "h_current hr = h_current h \<Longrightarrow> h_undo hr = h_undo h \<Longrightarrow> h_redo hr = h_redo h \<Longrightarrow> live_set hr = live_set h"
  by (simp add: live_set_def)

lemma live_new [simp]: "live_set (history_new flr) = set (chunk_ids flr)" "live_set (rebased h flr) = set (chunk_ids flr)"
  by (simp_all add: live_set_def history_new_def rebased_def chunk_ids_def)

end
