(* ===== verification/Session_Inv.thy ===== *)
theory Session_Inv
  imports Session_Sim Take_Session Chunk_Refs
begin

text \<open>
  The invariant of a live session, and what it has to do with its journal.

  \<open>session_match rep s\<close>: the replay of the journal agrees with the session in memory.
  \<open>session_inv\<close>: the store is well formed, every chunk a record names is there and its bytes are on
  disk.  \<open>record_log\<close> is what a session needs of its journal: what was acknowledged stays.
\<close>

section \<open>The journaled chunk index\<close>

definition on_disk :: "store \<Rightarrow> chunk_location \<Rightarrow> bool" where
  "on_disk st l \<longleftrightarrow> (\<forall>a. loc_offset l \<le> a \<and> a < chunk_end l \<longrightarrow> st_disk st a = st_file st a)"

lemma location_end: "store_ok crc st \<Longrightarrow> location st i = Some l \<Longrightarrow> chunk_end l \<le> st_next_offset st \<and> loc_id l = i"
  by (auto simp: location_def store_ok_def index_ok_def entry_ok_def Let_def)

lemma on_disk_keeps:
  assumes "store_ok crc st" "keeps st st'" "location st i = Some l" "on_disk st l"
  shows "location st' i = Some l \<and> on_disk st' l"
  using assms(2-4) location_end [OF assms(1,3)] unfolding keeps_def on_disk_def by (meson order_less_le_trans)

lemma insert_locs:
  assumes "\<forall>l \<in> set ls. f (loc_id l) = Some l"
  shows "map_of (foldl (\<lambda>m l. bt_insert (loc_id l) l m) m ls) i = (if i \<in> loc_id ` set ls then f i else map_of m i)"
  using assms by (induction ls arbitrary: m) auto

lemma is_journaled_mark: "is_journaled (mark_journaled js k) i \<longleftrightarrow> i = k \<or> is_journaled js i"
  by (auto simp: is_journaled_def mark_journaled_def nth_append nth_list_update)

lemma is_journaled_mark_all: "is_journaled (mark_all_journaled js ls) i \<longleftrightarrow> i \<in> loc_id ` set ls \<or> is_journaled js i"
  unfolding mark_all_journaled_def by (induction ls arbitrary: js) (auto simp: is_journaled_mark)

lemma set_map_filter: "y \<in> set (List.map_filter f xs) \<longleftrightarrow> (\<exists>x \<in> set xs. f x = Some y)"
  by (force simp: List.map_filter_def)

lemma unjournaled_set:
  "l \<in> set (unjournaled_chunks s ps) \<longleftrightarrow>
     (\<exists>i \<in> set (pieces_chunk_ids ps). \<not> is_journaled (ss_journaled s) i \<and> location (ss_store s) i = Some l)"
  by (auto simp: unjournaled_chunks_def set_map_filter)

lemma pieces_chunk_ids_iff: "i \<in> set (pieces_chunk_ids ps) \<longleftrightarrow> (\<exists>p \<in> set ps. p_source p = Chunk i)"
  by (force simp: pieces_chunk_ids_def split: source.splits)

section \<open>Matching\<close>

definition takes_match :: "'v replay_state \<Rightarrow> nat \<Rightarrow> (nat \<times> take_plan) option \<Rightarrow> marker list \<Rightarrow> bool" where
  "takes_match rep nxt opn ms \<longleftrightarrow> bt_ok (rp_open_takes rep) \<and>
     (\<forall>tk \<in> fst ` set (rp_open_takes rep). tk < nxt) \<and> (\<forall>tk \<in> fst ` set (rp_take_markers rep). tk < nxt) \<and>
     rp_max_take rep < nxt \<and>
     (case opn of
        None \<Rightarrow> ms = []
      | Some (tk, plan) \<Rightarrow> Suc tk = nxt \<and> map_of (rp_open_takes rep) tk = Some plan \<and>
          unwrap_or (map_of (rp_take_markers rep) tk) [] = ms)"

definition chunks_match :: "chunk_location btree \<Rightarrow> bool list \<Rightarrow> store \<Rightarrow> bool" where
  "chunks_match cs js st \<longleftrightarrow> (\<forall>i. map_of cs i = (if is_journaled js i then location st i else None))"

definition facts_match :: "'v replay_state \<Rightarrow> ('v, 'j) session \<Rightarrow> bool" where
  "facts_match rep s \<longleftrightarrow> rp_saved_record rep = ss_last_saved s \<and> rp_state_record rep = ss_last_state s \<and>
     (\<exists>v r. ss_open_record s = JOpen v r (rp_source rep))"

definition session_match :: "'v replay_state \<Rightarrow> ('v, 'j) session \<Rightarrow> bool" where
  "session_match rep s \<longleftrightarrow> hist_sim (rp_history rep) (ss_history s) \<and>
     chunks_match (rp_chunks rep) (ss_journaled s) (ss_store s) \<and>
     takes_match rep (ss_next_take s) (ss_open s) (ss_markers s) \<and> facts_match rep s"

definition session_inv :: "(byte list \<Rightarrow> 32 word) \<Rightarrow> ('v, 'j) session \<Rightarrow> bool" where
  "session_inv crc s \<longleftrightarrow> store_ok crc (ss_store s) \<and>
     (\<forall>i. is_journaled (ss_journaled s) i \<longrightarrow>
        (\<exists>l. location (ss_store s) i = Some l \<and> on_disk (ss_store s) l)) \<and>
     (\<forall>i \<in> live_set (ss_history s). is_journaled (ss_journaled s) i) \<and>
     0 < h_next_seq (ss_history s) \<and> (\<forall>m \<in> set (ss_markers s). kind_plain m)"

lemma match_journal [simp]:
  "session_match rep (s\<lparr>ss_journal := j\<rparr>) = session_match rep s" "session_inv crc (s\<lparr>ss_journal := j\<rparr>) = session_inv crc s"
  by (simp_all add: session_match_def facts_match_def session_inv_def)

lemma inv_cong:
  "session_inv crc s \<Longrightarrow> ss_store t = ss_store s \<Longrightarrow> ss_journaled t = ss_journaled s \<Longrightarrow>
   \<forall>i \<in> live_set (ss_history t). is_journaled (ss_journaled s) i \<Longrightarrow> 0 < h_next_seq (ss_history t) \<Longrightarrow> \<forall>m \<in> set (ss_markers t). kind_plain m \<Longrightarrow> session_inv crc t"
  by (simp add: session_inv_def)

lemma store_change:
  assumes inv: "session_inv crc s" and m: "session_match rep s" and k: "keeps (ss_store s) st'" and ok: "store_ok crc st'"
  shows "session_inv crc (s\<lparr>ss_store := st'\<rparr>)" "session_match rep (s\<lparr>ss_store := st'\<rparr>)"
proof -
  have j: "\<exists>l. location (ss_store s) i = Some l \<and> location st' i = Some l \<and> on_disk st' l" if "is_journaled (ss_journaled s) i" for i
    using inv that on_disk_keeps [OF _ k] unfolding session_inv_def by metis
  then have "\<exists>l. location st' i = Some l \<and> on_disk st' l" if "is_journaled (ss_journaled s) i" for i
    using that by blast
  then show "session_inv crc (s\<lparr>ss_store := st'\<rparr>)" using inv ok by (simp add: session_inv_def)
  have "location st' i = location (ss_store s) i" if "is_journaled (ss_journaled s) i" for i using j [OF that] by auto
  then have "chunks_match (rp_chunks rep) (ss_journaled s) st'" using m by (simp add: session_match_def chunks_match_def)
  then show "session_match rep (s\<lparr>ss_store := st'\<rparr>)" using m by (simp add: session_match_def facts_match_def)
qed

text \<open>After \<open>new\<close> chunks are synced and journaled.\<close>

lemma journal_chunks:
  assumes inv: "session_inv crc s" and cm: "chunks_match cs (ss_journaled s) (ss_store s)"
    and dsk: "st_disk (ss_store s) = st_file (ss_store s) \<or> locs = []"
    and locs: "\<forall>l \<in> set locs. \<exists>i. location (ss_store s) i = Some l"
  shows "chunks_match (foldl (\<lambda>m l. bt_insert (loc_id l) l m) cs locs) (mark_all_journaled (ss_journaled s) locs) (ss_store s)"
    "session_inv crc (s\<lparr>ss_journaled := mark_all_journaled (ss_journaled s) locs\<rparr>)"
proof -
  have l: "\<forall>l \<in> set locs. location (ss_store s) (loc_id l) = Some l"
    using locs location_end inv unfolding session_inv_def by metis
  show "chunks_match (foldl (\<lambda>m l. bt_insert (loc_id l) l m) cs locs) (mark_all_journaled (ss_journaled s) locs) (ss_store s)"
    using cm by (simp add: chunks_match_def is_journaled_mark_all insert_locs [OF l])
  have "\<exists>l. location (ss_store s) i = Some l \<and> on_disk (ss_store s) l" if "i \<in> loc_id ` set locs" for i
    using that l dsk by (auto simp: on_disk_def)
  then show "session_inv crc (s\<lparr>ss_journaled := mark_all_journaled (ss_journaled s) locs\<rparr>)"
    using inv unfolding session_inv_def by (simp add: is_journaled_mark_all)
qed

section \<open>Syncing new chunks\<close>

lemma sync_keeps: "store_ok crc st \<Longrightarrow> sync_store env st = (r, st') \<Longrightarrow> store_ok crc st' \<and> keeps st st' \<and>
    st_index st' = st_index st \<and> (\<forall>u. r = Inr u \<longrightarrow> st_disk st' = st_file st')"
  using sync_spec [of crc st env r st' "{#}"]
  by (auto simp: keeps_def location_def lookup_entry_def sync_store_def Let_def split: option.splits)

lemma sync_new_spec:
  assumes inv: "session_inv crc s" and m: "session_match rep s" and y: "sync_new env locs s = (r, s1)"
  shows "session_inv crc s1 \<and> session_match rep s1 \<and> (\<exists>st. s1 = s\<lparr>ss_store := st\<rparr>) \<and>
    location (ss_store s1) = location (ss_store s) \<and>
    (\<forall>u. r = Inr u \<longrightarrow> st_disk (ss_store s1) = st_file (ss_store s1) \<or> locs = [])"
proof (cases "locs = []")
  case True
  with assms show ?thesis by (auto simp: sync_new_def intro!: exI [of _ "ss_store s"])
next
  case False
  obtain r1 st where st: "sync_store env (ss_store s) = (r1, st)" by fastforce
  from y False st have e: "r = r1" "s1 = s\<lparr>ss_store := st\<rparr>" by (simp_all add: sync_new_def sync_session_def)
  have "store_ok crc (ss_store s)" using inv by (simp add: session_inv_def)
  from sync_keeps [OF this st] have k: "store_ok crc st" "keeps (ss_store s) st" "st_index st = st_index (ss_store s)"
    "\<forall>u. r1 = Inr u \<longrightarrow> st_disk st = st_file st" by blast+
  from store_change [OF inv m k(2,1)] have "session_inv crc s1" "session_match rep s1" by (simp_all add: e)
  moreover have "location st = location (ss_store s)" using k(3) by (simp add: location_def lookup_entry_def fun_eq_iff)
  ultimately show ?thesis using k(4) e by auto
qed

section \<open>Replaying what a commit writes\<close>

lemma validate_piece_refs_InrD:
  "validate_piece_refs st ps = Inr u \<Longrightarrow> p \<in> set ps \<Longrightarrow> p_source p = Chunk i \<Longrightarrow>
   \<exists>l. location st i = Some l \<and> p_offset p + p_len p \<le> loc_len l"
proof (induction ps)
  case (Cons q ps)
  then show ?case by (cases "p_source q") (auto split: option.splits if_splits)
qed simp

lemma validate_op_refs_InrD:
  "validate_op_refs st ops = Inr u \<Longrightarrow> op \<in> set ops \<Longrightarrow> p \<in> set (op_pieces op) \<Longrightarrow> p_source p = Chunk i \<Longrightarrow>
   \<exists>l. location st i = Some l \<and> p_offset p + p_len p \<le> loc_len l"
proof (induction ops)
  case (Cons q ops)
  then show ?case by (cases "validate_piece_refs st (op_pieces q)") (auto dest: validate_piece_refs_InrD)
qed simp

lemma apply_chunk_records:
  fixes rep :: "'v replay_state"
  shows "\<exists>b. apply_records rep (chunk_records locs) =
     (with_base (rp_history rep) (foldl (\<lambda>m l. bt_insert (loc_id l) l m) (rp_chunks rep) locs) b rep,
      length (chunk_records locs :: 'v journal_record list))"
proof (cases "locs = []")
  case True
  then show ?thesis by (auto simp: chunk_records_def with_base_self intro!: exI [of _ "rp_closed rep"])
next
  case False
  then show ?thesis
    by (auto simp: chunk_records_def apply_record_def note_metadata_def with_base_def intro!: exI [of _ False])
qed

lemma no_checkpoint_simps [simp]:
  "no_checkpoint []" "no_checkpoint (r # rs) \<longleftrightarrow> checkpoint_of r = None \<and> no_checkpoint rs"
  "no_checkpoint (rs @ rs') \<longleftrightarrow> no_checkpoint rs \<and> no_checkpoint rs'" "no_checkpoint (chunk_records locs)"
  by (auto simp: no_checkpoint_def chunk_records_def)

lemma apply_edit_record:
  assumes m: "hist_sim (rp_history rep) h" and p: "prepare h e = Inr p" and k: "\<forall>op \<in> set (e_marker_ops e). marker_op_plain op"
    and kn: "pieces_known e (rp_chunks rep)"
  shows "\<exists>hr. hist_sim hr (snd (commit h p)) \<and>
    apply_record rep (JEdit ((from_edit (pe_seq p) e (map_option fst tk))\<lparr>er_take_wav := w\<rparr>)) =
    Some (with_base hr (rp_chunks rep) False (case tk of None \<Rightarrow> rep | Some (t, _) \<Rightarrow> close_take t rep))"
proof -
  let ?rec = "(from_edit (pe_seq p) e (map_option fst tk))\<lparr>er_take_wav := w\<rparr>"
  have "edit_plain e" using k prepare_valid [OF p] by (auto simp: edit_plain_def)
  then have e: "to_edit ?rec = e" using edit_roundtrip [of e "pe_seq p" "map_option fst tk"] by (simp add: to_edit_def)
  from prepare_sim [OF m p] obtain p' where p': "prepare (rp_history rep) e = Inr p'" "pe_seq p' = pe_seq p"
    "hist_sim (snd (commit (rp_history rep) p')) (snd (commit h p))" by blast
  have s: "er_seq ?rec = pe_seq p" "er_take ?rec = map_option fst tk" by (simp_all add: from_edit_def)
  have "apply_change rep (JEdit ?rec) = Some (rep\<lparr>rp_history := snd (commit (rp_history rep) p')\<rparr>)"
    using kn p' by (simp add: e s Let_def)
  then have "apply_record rep (JEdit ?rec) = Some (with_base (snd (commit (rp_history rep) p')) (rp_chunks rep) False
      (case tk of None \<Rightarrow> rep | Some (t, _) \<Rightarrow> close_take t rep))"
    by (cases tk) (auto simp: apply_record_def note_metadata_def with_base_def close_take_def from_edit_def)
  with p'(3) show ?thesis by blast
qed

lemma with_base_simps [simp]:
  "rp_history (with_base h c b r) = h" "rp_chunks (with_base h c b r) = c" "rp_source (with_base h c b r) = rp_source r"
  "rp_saved_record (with_base h c b r) = rp_saved_record r" "rp_state_record (with_base h c b r) = rp_state_record r"
  "rp_open_takes (with_base h c b r) = rp_open_takes r" "rp_take_markers (with_base h c b r) = rp_take_markers r"
  "rp_max_take (with_base h c b r) = rp_max_take r"
  by (simp_all add: with_base_def)

lemma takes_match_base [simp]: "takes_match (with_base h c b r) nxt opn ms = takes_match r nxt opn ms"
  by (simp add: takes_match_def split: option.splits)

lemma facts_match_base [simp]: "facts_match (with_base h c b r) s = facts_match r s" "facts_match (close_take t r) s = facts_match r s"
  by (simp_all add: facts_match_def close_take_def)

lemma with_base_close [simp]: "close_take t (with_base h c b r) = with_base h c b (close_take t r)"
  by (simp add: with_base_def close_take_def)

lemma keys_lt_remove: "\<forall>k \<in> fst ` set m. k < (n :: nat) \<Longrightarrow> \<forall>k \<in> fst ` set (bt_remove t m). k < n"
  by (simp only: keys_bt_remove) blast

lemma takes_match_close:
  assumes "takes_match rep nxt opn ms"
  shows "takes_match (close_take t rep) nxt None []"
proof -
  have r: "rp_open_takes (close_take t rep) = bt_remove t (rp_open_takes rep)"
    "rp_take_markers (close_take t rep) = bt_remove t (rp_take_markers rep)"
    "rp_max_take (close_take t rep) = rp_max_take rep" by (simp_all add: close_take_def)
  from assms have a: "bt_ok (rp_open_takes rep)" "\<forall>tk \<in> fst ` set (rp_open_takes rep). tk < nxt"
    "\<forall>tk \<in> fst ` set (rp_take_markers rep). tk < nxt" "rp_max_take rep < nxt" unfolding takes_match_def by blast+
  show ?thesis
    unfolding takes_match_def r option.case
    using bt_ok_remove [OF a(1)] keys_lt_remove [OF a(2)] keys_lt_remove [OF a(3)] a(4) by blast
qed

section \<open>The journal a session relies on\<close>

text \<open>\<open>holds rs j\<close>: reading the journal back gives \<open>rs\<close> first.\<close>

locale record_log =
  fixes ap :: "('v, 'j) appender"
    and holds :: "'v journal_record list \<Rightarrow> 'j \<Rightarrow> bool"
  assumes ap_ok: "holds rs j \<Longrightarrow> ap new j = (Inr u, j') \<Longrightarrow> holds (rs @ new) j'"
    and ap_err: "holds rs j \<Longrightarrow> ap new j = (Inl e, j') \<Longrightarrow> holds rs j'"
begin

definition tracks :: "(byte list \<Rightarrow> 32 word) \<Rightarrow> ('v, 'j) session \<Rightarrow> bool" where
  "tracks crc s \<longleftrightarrow> session_inv crc s \<and>
     (\<exists>recs rep. holds recs (ss_journal s) \<and> replayed recs rep \<and> session_match rep s)"

lemma write_log_cases:
  assumes "tracks crc s" "write_log ap new s = (r, s1)"
  obtains (err) e where "r = Inl e" "tracks crc s1" "s1 = s\<lparr>ss_journal := ss_journal s1\<rparr>"
    | (ok) recs rep where "r = Inr ()" "s1 = s\<lparr>ss_journal := ss_journal s1\<rparr>" "holds (recs @ new) (ss_journal s1)"
      "replayed recs rep" "session_match rep s" "session_inv crc s"
proof -
  from assms(1) obtain recs rep where t: "session_inv crc s" "holds recs (ss_journal s)" "replayed recs rep" "session_match rep s"
    by (auto simp: tracks_def)
  obtain j where j: "ap new (ss_journal s) = (r, j)" "s1 = s\<lparr>ss_journal := j\<rparr>"
    using assms(2) by (auto simp: write_log_def split: prod.splits)
  show thesis
  proof (cases r)
    case (Inl e)
    with t j ap_err have "holds recs j" by simp
    with t j Inl show thesis by (intro err) (auto simp: tracks_def)
  next
    case (Inr u)
    with t j ap_ok have "holds (recs @ new) j" by simp
    with t j Inr show thesis by (intro ok [of recs rep]) auto
  qed
qed

lemma tracksI:
  assumes "holds (recs @ new) (ss_journal s)" "replayed recs rep" "no_checkpoint new"
    "apply_records rep new = (rep', length new)" "session_match rep' s" "session_inv crc s"
  shows "tracks crc s"
  using replayed_append [OF assms(2-4)] assms(1,5,6) by (auto simp: tracks_def)

lemma commit_internal_ok:
  assumes tr: "tracks crc s" and k: "\<forall>op \<in> set (e_marker_ops e). marker_op_plain op"
    and tk: "\<forall>t w. tk = Some (t, w) \<longrightarrow> ss_open s \<noteq> None"
    and c: "commit_internal ap env e tk s = (r, s')"
  shows "case r of Inl err \<Rightarrow> tracks crc s' | Inr _ \<Rightarrow> tracks crc (if tk = None then s' else close_open s')"
proof -
  define locs where "locs = unjournaled_chunks s (concat (map op_pieces (e_ops e)))"
  show ?thesis
  proof (cases "(\<exists>err. validate_op_refs (ss_store s) (e_ops e) = Inl err) \<or> (\<exists>err. prepare (ss_history s) e = Inl err)")
    case True
    then obtain err where "r = Inl err" "s' = s"
      using c by (auto simp: commit_internal_def split: sum.splits)
    with tr show ?thesis by simp
  next
    case False
    then obtain p where v: "validate_op_refs (ss_store s) (e_ops e) = Inr ()" and p: "prepare (ss_history s) e = Inr p"
      by (metis old.sum.exhaust old.unit.exhaust)
    obtain r1 s1 where y: "sync_new env locs s = (r1, s1)" by fastforce
    from tr obtain recs rep where t: "session_inv crc s" "holds recs (ss_journal s)" "replayed recs rep" "session_match rep s"
      by (auto simp: tracks_def)
    from sync_new_spec [OF t(1,4) y] obtain st where s1: "session_inv crc s1" "session_match rep s1" "s1 = s\<lparr>ss_store := st\<rparr>"
      "location st = location (ss_store s)" "r1 = Inr () \<Longrightarrow> st_disk st = st_file st \<or> locs = []" by auto
    have tr1: "tracks crc s1" using s1 t by (auto simp: tracks_def)
    show ?thesis
    proof (cases r1)
      case (Inl err)
      then have "r = Inl err" "s' = s1" using c v p y by (simp_all add: commit_internal_def locs_def [symmetric])
      with tr1 show ?thesis by simp
    next
      case (Inr u)
      define rec :: "'v journal_record" where "rec = JEdit ((from_edit (pe_seq p) e (map_option fst tk))\<lparr>er_take_wav := Option.bind tk snd\<rparr>)"
      obtain r2 s2 where w: "write_log ap (chunk_records locs @ [rec]) s1 = (r2, s2)" by fastforce
      from tr1 w show ?thesis
      proof (cases rule: write_log_cases)
        case (err e2)
        then have "r = Inl e2" "s' = s2"
          using c v p y w Inr by (simp_all add: commit_internal_def locs_def [symmetric] rec_def Let_def)
        with err show ?thesis by simp
      next
        case (ok recs2 rep2)
        have s': "s' = s2\<lparr>ss_journaled := mark_all_journaled (ss_journaled s2) locs, ss_history := snd (commit (ss_history s2) p)\<rparr>"
          and r: "\<exists>u. r = Inr u"
          using c v p y w Inr ok(1)
          by (auto simp: commit_internal_def locs_def [symmetric] rec_def Let_def split: prod.splits)
        have h2: "ss_history s2 = ss_history s" "ss_journaled s2 = ss_journaled s" "ss_store s2 = st" "ss_open s2 = ss_open s"
          "ss_markers s2 = ss_markers s" "ss_next_take s2 = ss_next_take s" "facts_match q s2 = facts_match q s" for q
          using ok(2) s1(3) by (cases s2, simp add: facts_match_def)+
        have ml: "\<forall>l \<in> set locs. \<exists>i. location (ss_store s1) i = Some l"
          using s1(3,4) by (auto simp: locs_def unjournaled_set)
        have cm: "chunks_match (rp_chunks rep2) (ss_journaled s1) (ss_store s1)" and hs: "hist_sim (rp_history rep2) (ss_history s)"
          and tm: "takes_match rep2 (ss_next_take s) (ss_open s) (ss_markers s)" and fm: "facts_match rep2 s"
          using ok(5) s1(3) by (simp_all add: session_match_def facts_match_def)
        let ?cs = "foldl (\<lambda>m l. bt_insert (loc_id l) l m) (rp_chunks rep2) locs"
        have dk: "st_disk (ss_store s1) = st_file (ss_store s1) \<or> locs = []" using s1(3,5) Inr by simp
        note jc = journal_chunks [OF s1(1) cm dk ml]
        have js: "ss_journaled s1 = ss_journaled s" using s1(3) by simp
        have jn: "i \<in> loc_id ` set locs \<or> is_journaled (ss_journaled s) i" if "i \<in> op_ids (e_ops e)" for i
        proof -
          from that obtain op q where q: "op \<in> set (e_ops e)" "q \<in> set (op_pieces op)" "p_source q = Chunk i"
            by (auto simp: op_ids_def pieces_chunk_ids_iff)
          from validate_op_refs_InrD [OF v q] obtain l where l: "location (ss_store s) i = Some l" by blast
          then have "loc_id l = i" using location_end t(1) by (auto simp: session_inv_def)
          with l that show ?thesis by (force simp: locs_def unjournaled_set op_ids_def)
        qed
        have live: "\<forall>i \<in> live_set (snd (commit (ss_history s) p)). i \<in> loc_id ` set locs \<or> is_journaled (ss_journaled s) i"
          using live_commit [OF p] t(1) jn unfolding session_inv_def by blast
        have "pieces_known e ?cs"
          unfolding pieces_known_def piece_known_def
        proof (intro ballI)
          fix op q assume q: "op \<in> set (e_ops e)" "q \<in> set (op_pieces op)"
          show "case p_source q of Chunk i \<Rightarrow> (case map_of ?cs i of None \<Rightarrow> False | Some l \<Rightarrow> p_offset q + p_len q \<le> loc_len l) | Silence \<Rightarrow> True"
          proof (cases "p_source q")
            case (Chunk i)
            from validate_op_refs_InrD [OF v q Chunk] obtain l where l: "location (ss_store s) i = Some l" "p_offset q + p_len q \<le> loc_len l"
              by blast
            have "loc_id l = i" using location_end l(1) t(1) by (auto simp: session_inv_def)
            have "i \<in> set (pieces_chunk_ids (concat (map op_pieces (e_ops e))))"
              using q Chunk by (auto simp: pieces_chunk_ids_iff)
            then have "is_journaled (ss_journaled s) i \<or> l \<in> set locs" using l(1) by (auto simp: locs_def unjournaled_set)
            then have "map_of ?cs i = Some l"
              using jc(1) l(1) s1(3,4) \<open>loc_id l = i\<close> by (auto simp: chunks_match_def is_journaled_mark_all)
            with l(2) Chunk show ?thesis by simp
          qed simp
        qed
        moreover obtain b where b: "apply_records rep2 (chunk_records locs) =
            (with_base (rp_history rep2) ?cs b rep2, length (chunk_records locs :: 'v journal_record list))" using apply_chunk_records by blast
        ultimately obtain hr where hr: "hist_sim hr (snd (commit (ss_history s) p))"
            "apply_record (with_base (rp_history rep2) ?cs b rep2) rec =
             Some (with_base hr ?cs False (case tk of None \<Rightarrow> with_base (rp_history rep2) ?cs b rep2
               | Some (t, _) \<Rightarrow> close_take t (with_base (rp_history rep2) ?cs b rep2)))"
          using apply_edit_record [of "with_base (rp_history rep2) ?cs b rep2" "ss_history s" e p "Option.bind tk snd" tk] hs p k
          by (auto simp: rec_def)
        let ?rep3 = "with_base hr ?cs False (case tk of None \<Rightarrow> rep2 | Some (t, _) \<Rightarrow> close_take t rep2)"
        have ar: "apply_records rep2 (chunk_records locs @ [rec]) = (?rep3, length (chunk_records locs @ [rec]))"
          using apply_records_append [OF b, of "[rec]" ?rep3 1] hr(2) by (cases tk) auto
        let ?s = "if tk = None then s' else close_open s'"
        have "session_match ?rep3 ?s"
        proof -
          have f: "facts_match q ?s = facts_match q s2" for q by (simp add: s' close_open_def facts_match_def)
          show ?thesis
            unfolding session_match_def f h2(7)
            using hr(1) jc(1) tm fm takes_match_close [OF tm] h2(1-6) s1(3)
            by (cases tk) (auto simp: s' close_open_def)
        qed
        moreover have "session_inv crc ?s"
        proof (rule inv_cong [OF jc(2)])
          show "ss_store ?s = ss_store (s1\<lparr>ss_journaled := mark_all_journaled (ss_journaled s1) locs\<rparr>)"
            "ss_journaled ?s = ss_journaled (s1\<lparr>ss_journaled := mark_all_journaled (ss_journaled s1) locs\<rparr>)"
            using h2(2,3) s1(3) by (simp_all add: s' close_open_def)
          show "\<forall>i \<in> live_set (ss_history ?s). is_journaled (ss_journaled (s1\<lparr>ss_journaled := mark_all_journaled (ss_journaled s1) locs\<rparr>)) i"
            using live by (simp add: s' close_open_def h2(1) js is_journaled_mark_all)
          show "0 < h_next_seq (ss_history ?s)" by (simp add: s' close_open_def commit_def)
          have "\<forall>m \<in> set (ss_markers s). kind_plain m" using t(1) by (simp add: session_inv_def)
          then show "\<forall>m \<in> set (ss_markers ?s). kind_plain m" using h2(5) by (simp add: s' close_open_def)
        qed
        moreover have "ss_journal ?s = ss_journal s2" using s' by (simp add: close_open_def)
        ultimately have "tracks crc ?s"
          using ok(3,4) ar by (intro tracksI [of recs2 "chunk_records locs @ [rec]" _ rep2 ?rep3]) (auto simp: rec_def)
        with r show ?thesis by auto
      qed
    qed
  qed
qed

end

end
