(* ===== verification/Store_Evolve.thy ===== *)
theory Store_Evolve
  imports Take_Session
begin

text \<open>
  What the take operations do to the store: it stays well formed and committed chunks stay where they
  are.  Each loop over commits and reads inherits this from its single steps.
\<close>

definition evolves :: "(byte list \<Rightarrow> 32 word) \<Rightarrow> store \<Rightarrow> store \<Rightarrow> bool" where
  "evolves crc st st' \<longleftrightarrow> (store_ok crc st \<longrightarrow> store_ok crc st' \<and> keeps st st' \<and> (all_finite st \<longrightarrow> all_finite st'))"

lemma evolves_refl [simp]: "evolves crc st st"
  by (simp add: evolves_def)

lemma evolves_trans [trans]: "evolves crc a b \<Longrightarrow> evolves crc b c \<Longrightarrow> evolves crc a c"
  by (auto simp: evolves_def intro: keeps_trans)

lemma finite_same: "chunk_data st' = chunk_data st \<Longrightarrow> all_finite st' = all_finite st"
  by (simp add: all_finite_def)

lemma commit_finite:
  assumes "store_ok crc st" "commit_chunk_as crc env xs fid st = (r, st')" "all_finite st"
  shows "all_finite st'"
  using commit_as_spec [OF assms(1,2)] assms(3)
  by (cases r) (auto simp: all_finite_def dest: sanitize_finite split: if_splits)

lemma commit_evolves: "commit_chunk crc env xs st = (r, st') \<Longrightarrow> evolves crc st st'"
  unfolding evolves_def commit_chunk_def
  using commit_keeps [of crc st env xs None r st'] commit_as_spec [of crc st env xs None r st']
    commit_finite [of crc st env xs None r st'] by simp

section \<open>Writers\<close>

lemma commit_buffer_evolves:
  "commit_buffer (commit_chunk crc env) (w, st) = (r, (w', st')) \<Longrightarrow> evolves crc st st'"
  by (auto simp: commit_buffer_def split: if_splits prod.splits sum.splits dest: commit_evolves)

lemma append_loop_evolves:
  "append_loop (commit_chunk crc env) rest ws = (r, ws') \<Longrightarrow> evolves crc (snd ws) (snd ws')"
proof (induction "commit_chunk crc env" rest ws arbitrary: r ws' rule: append_loop.induct)
  case (1 rest ws)
  show ?case
  proof (cases "rest = [] \<or> length (w_buf (fst ws)) > chunk_samples")
    case True
    with "1.prems" show ?thesis by (auto simp: append_loop.simps)
  next
    case False
    let ?w = "fst ws"
    let ?n = "min (chunk_samples - length (w_buf ?w)) (length rest)"
    let ?w1 = "?w\<lparr>w_buf := w_buf ?w @ take ?n rest, w_progress := w_progress ?w + ?n\<rparr>"
    show ?thesis
    proof (cases "length (w_buf ?w1) = chunk_samples")
      case full: True
      obtain r1 w2 st2 where c: "commit_buffer (commit_chunk crc env) (?w1, snd ws) = (r1, (w2, st2))" by (metis prod_cases3)
      have e: "evolves crc (snd ws) st2" by (rule commit_buffer_evolves [OF c])
      show ?thesis
      proof (cases r1)
        case (Inl err)
        with "1.prems" False full c e show ?thesis by (auto simp: append_loop.simps [of _ rest ws] Let_def)
      next
        case (Inr u)
        from "1.prems" False full c Inr have l: "append_loop (commit_chunk crc env) (drop ?n rest) (w2, st2) = (r, ws')"
          by (simp add: append_loop.simps [of _ rest ws] Let_def)
        from "1.hyps"(1) [OF False refl refl refl refl full c [symmetric] Inr l] e show ?thesis
          by (auto intro: evolves_trans)
      qed
    next
      case full: False
      from "1.prems" False full have l: "append_loop (commit_chunk crc env) (drop ?n rest) (?w1, snd ws) = (r, ws')"
        by (simp add: append_loop.simps [of _ rest ws] Let_def)
      from "1.hyps"(2) [OF False refl refl refl refl full l] show ?thesis by simp
    qed
  qed
qed

lemma writer_append_evolves:
  "writer_append (commit_chunk crc env) xs (w, st) = (r, (w', st')) \<Longrightarrow> evolves crc st st'"
  using append_loop_evolves [of crc env xs "(w, st)" r "(w', st')"]
  by (auto simp: writer_append_def split: if_splits)

lemma writer_finish_evolves:
  "writer_finish (commit_chunk crc env) (w, st) = (r, (w', st')) \<Longrightarrow> evolves crc st st'"
  by (auto simp: writer_finish_def split: if_splits prod.splits sum.splits dest: commit_buffer_evolves)

section \<open>Reads\<close>

lemma store_reader_evolves: "store_reader crc env i off n (c, st) = (r, (c', st')) \<Longrightarrow> evolves crc st st'"
  unfolding evolves_def store_reader_def
  using read_into_keeps [of crc st env i off n c r c' st'] read_into_spec [of crc st env i off n c r c' st']
    finite_same [of st' st] by (auto split: prod.splits)

lemma read_loop_evolves:
  "read_loop (store_reader crc env) ps k n (c, st) = (r, (c', st')) \<Longrightarrow> evolves crc st st'"
proof (induction ps arbitrary: k n c st r c' st')
  case (Cons p ps)
  show ?case
  proof (cases "n = 0")
    case False
    let ?m = "min (p_len p - k) n"
    obtain r1 c1 st1 where s1: "(case p_source p of Silence \<Rightarrow> (Inr (replicate ?m 0), (c, st))
        | Chunk i \<Rightarrow> store_reader crc env i (p_offset p + as_u32 k) ?m (c, st)) = (r1, (c1, st1))" by (metis prod_cases3)
    have e: "evolves crc st st1" using s1 by (cases "p_source p") (auto dest: store_reader_evolves)
    show ?thesis
    proof (cases r1)
      case (Inl err)
      with Cons.prems False s1 e show ?thesis by (auto simp: Let_def)
    next
      case (Inr xs)
      obtain r2 c2 st2 where s2: "read_loop (store_reader crc env) ps 0 (n - ?m) (c1, st1) = (r2, (c2, st2))" by (metis prod_cases3)
      have "st' = st2" using Cons.prems False s1 s2 Inr by (auto simp: Let_def split: sum.splits)
      with e Cons.IH [OF s2] show ?thesis using evolves_trans by blast
    qed
  qed (use Cons.prems in simp)
qed simp

lemma drop_cache_evolves: "evolves crc st (drop_cache cache st)"
proof (cases cache)
  case (Some seg)
  have "evolves crc st (drop_guard seg st)"
    unfolding evolves_def
  proof
    assume ok: "store_ok crc st"
    then have m: "mem_ok st" by (simp add: store_ok_def)
    note d = drop_guard_spec(1,2) [OF m]
    show "store_ok crc (drop_guard seg st) \<and> keeps st (drop_guard seg st) \<and> (all_finite st \<longrightarrow> all_finite (drop_guard seg st))"
      using frame_store_ok [OF d ok] frame_keeps [OF d(1)] finite_same [OF frame_chunk_data [OF d(1)]] by blast
  qed
  then show ?thesis by (simp add: drop_cache_def Some)
qed (simp add: drop_cache_def)

lemma store_read_evolves: "store_read crc env d pos n st = (r, st') \<Longrightarrow> evolves crc st st'"
  by (auto simp: store_read_def read_range_def split: prod.splits option.splits
      dest!: read_loop_evolves intro: evolves_trans drop_cache_evolves)

section \<open>Takes\<close>

lemma render_fade_evolves: "render_fade crc env mix doc p tk q n dir st = (r, st') \<Longrightarrow> evolves crc st st'"
  unfolding render_fade_def Let_def
  by (auto split: if_splits prod.splits sum.splits
      dest!: store_read_evolves writer_append_evolves writer_finish_evolves intro: evolves_trans)

lemma faded_pieces_evolves: "faded_pieces crc env mix cur p tk ws n xs xe st = (r, st') \<Longrightarrow> evolves crc st st'"
  unfolding faded_pieces_def
  by (auto split: prod.splits sum.splits dest!: render_fade_evolves intro: evolves_trans)

lemma build_take_edit_evolves: "build_take_edit crc env mix rate cur plan ps window st = (r, st') \<Longrightarrow> evolves crc st st'"
  unfolding build_take_edit_def Let_def
  by (auto split: if_splits prod.splits sum.splits take_mode_record.splits dest!: faded_pieces_evolves)

lemma writer_append_evolves': "writer_append (commit_chunk crc env) xs ws = (r, ws') \<Longrightarrow> evolves crc (snd ws) (snd ws')"
  using writer_append_evolves [of crc env xs "fst ws" "snd ws" r "fst ws'" "snd ws'"] by simp

lemma copy_part_evolves:
  "copy_part (commit_chunk crc env) t pos ws = (r, ws') \<Longrightarrow> evolves crc (snd ws) (snd ws')"
proof (induction "commit_chunk crc env" t pos ws arbitrary: r ws' rule: copy_part.induct)
  case (1 t pos ws)
  show ?case
  proof (cases "pos < rt_samples t \<and> read_take_samples t pos chunk_samples \<noteq> []")
    case True
    obtain r1 ws1 where a: "writer_append (commit_chunk crc env) (read_take_samples t pos chunk_samples) ws = (r1, ws1)"
      by (metis prod.exhaust)
    note e = writer_append_evolves' [OF a]
    show ?thesis
    proof (cases r1)
      case (Inl err)
      with 1(2) True a e show ?thesis by (auto simp: copy_part.simps [of _ t pos ws] Let_def)
    next
      case (Inr u)
      with 1(2) True a
      have l: "copy_part (commit_chunk crc env) t (pos + length (read_take_samples t pos chunk_samples)) ws1 = (r, ws')"
        by (auto simp: copy_part.simps [of _ t pos ws] Let_def)
      have "evolves crc (snd ws1) (snd ws')" by (rule 1(1) [OF _ refl _ a [symmetric] Inr l]) (use True in simp_all)
      with e show ?thesis by (rule evolves_trans)
    qed
  qed (use 1(2) in \<open>auto simp: copy_part.simps [of _ t pos ws] Let_def split: if_splits\<close>)
qed

lemma copy_take_into_evolves:
  "copy_take_into (commit_chunk crc env) ts ws = (r, ws') \<Longrightarrow> evolves crc (snd ws) (snd ws')"
proof (induction ts arbitrary: ws)
  case (Cons t ts)
  obtain r1 ws1 where a: "copy_part (commit_chunk crc env) t 0 ws = (r1, ws1)" by (metis prod.exhaust)
  from Cons.IH [of ws1] Cons.prems copy_part_evolves [OF a] a show ?case
    by (cases r1) (auto intro: evolves_trans)
qed simp

lemma import_take_evolves: "import_take crc env parts st = (r, st') \<Longrightarrow> evolves crc st st'"
  unfolding import_take_def
  by (auto split: prod.splits sum.splits dest!: copy_take_into_evolves writer_finish_evolves intro: evolves_trans)

end
