(* ===== verification/Session_Steps.thy ===== *)
theory Session_Steps
  imports Session_Inv Store_Evolve
begin

text \<open>
  Every operation of a session keeps it in step with its journal, whether it succeeds or fails.
\<close>

lemma facts_match_cong:
  "facts_match rep s \<Longrightarrow> ss_open_record t = ss_open_record s \<Longrightarrow> ss_last_saved t = ss_last_saved s \<Longrightarrow>
   ss_last_state t = ss_last_state s \<Longrightarrow> rp_saved_record rep' = rp_saved_record rep \<Longrightarrow>
   rp_state_record rep' = rp_state_record rep \<Longrightarrow> rp_source rep' = rp_source rep \<Longrightarrow> facts_match rep' t"
  by (simp add: facts_match_def)

lemma takes_match_cong:
  "rp_open_takes r' = rp_open_takes r \<Longrightarrow> rp_take_markers r' = rp_take_markers r \<Longrightarrow> rp_max_take r' = rp_max_take r \<Longrightarrow>
   takes_match r' nxt opn ms = takes_match r nxt opn ms"
  by (simp add: takes_match_def split: option.splits)

lemma session_match_cong:
  assumes "session_match rep s" "hist_sim (rp_history rep') (ss_history t)" "facts_match rep' t"
    "rp_chunks rep' = rp_chunks rep" "rp_open_takes rep' = rp_open_takes rep" "rp_take_markers rep' = rp_take_markers rep"
    "rp_max_take rep' = rp_max_take rep" "ss_store t = ss_store s" "ss_journaled t = ss_journaled s"
    "ss_next_take t = ss_next_take s" "ss_open t = ss_open s" "ss_markers t = ss_markers s"
  shows "session_match rep' t"
  using assms takes_match_cong [OF assms(5-7)] by (simp add: session_match_def)

lemma history_change:
  assumes "session_match rep s" "hist_sim h' h"
  shows "session_match (with_base h' (rp_chunks rep) b rep) (s\<lparr>ss_history := h\<rparr>)"
  using assms by (simp add: session_match_def facts_match_def)

lemma next_seq_kept:
  "h_next_seq (snd (history_undo h)) = h_next_seq h" "h_next_seq (snd (history_redo h)) = h_next_seq h"
  "h_next_seq (snd (drop_oldest_undo h n)) = h_next_seq h" "h_next_seq (mark_saved_at h n) = h_next_seq h"
  "h_next_seq (snd (allocate_marker_id h)) = h_next_seq h"
  by (simp_all add: history_undo_def history_redo_def drop_oldest_undo_def mark_saved_at_def allocate_marker_id_def
      history_step_of_def restamp_def Let_def split: prod.splits)

lemma history_inv:
  "session_inv crc s \<Longrightarrow> h_next_seq h = h_next_seq (ss_history s) \<Longrightarrow> live_set h \<subseteq> live_set (ss_history s) \<Longrightarrow>
   session_inv crc (s\<lparr>ss_history := h\<rparr>)"
  by (auto simp: session_inv_def)

lemma peek_sim:
  assumes "hist_sim hr h"
  shows "peek_seq (h_undo hr) = peek_seq (h_undo h)" "peek_seq (h_redo hr) = peek_seq (h_redo h)"
  using hist_simD [OF assms] by simp_all

lemma note_plain [simp]:
  "note_metadata r (JUndo q) = r\<lparr>rp_closed := False\<rparr>" "note_metadata r (JRedo q) = r\<lparr>rp_closed := False\<rparr>"
  "note_metadata r (JDropUndo n) = r\<lparr>rp_closed := False\<rparr>"
  by (simp_all add: note_metadata_def)

lemma replay_undo:
  assumes "hist_sim (rp_history rep) h" "peek_seq (h_undo h) = Some q"
  shows "apply_record rep (JUndo q) = Some (with_base (snd (history_undo (rp_history rep))) (rp_chunks rep) False rep)"
  using assms peek_sim by (simp add: apply_record_def with_base_def)

lemma replay_redo:
  assumes "hist_sim (rp_history rep) h" "peek_seq (h_redo h) = Some q"
  shows "apply_record rep (JRedo q) = Some (with_base (snd (history_redo (rp_history rep))) (rp_chunks rep) False rep)"
  using assms peek_sim by (simp add: apply_record_def with_base_def)

lemma replay_drop:
  "apply_record rep (JDropUndo n) = Some (with_base (snd (drop_oldest_undo (rp_history rep) n)) (rp_chunks rep) False rep)"
  by (simp add: apply_record_def with_base_def)

lemma replay_saved:
  "apply_record rep (JSaved sv) = Some ((with_base (mark_saved_at (rp_history rep) (sv_seq sv)) (rp_chunks rep) False rep)
     \<lparr>rp_saved := saved_facts_of (JSaved sv :: 'v journal_record), rp_saved_record := Some (JSaved sv :: 'v journal_record)\<rparr>)"
  by (simp add: apply_record_def with_base_def note_metadata_def)

lemma replay_noted:
  "apply_change rep rec = Some rep \<Longrightarrow> apply_record rep rec = Some (note_metadata rep rec)"
  by (simp add: apply_record_def)

section \<open>Records that change the bookkeeping of takes\<close>

lemma takes_begin:
  assumes "takes_match rep nxt None ms" "tb_take b = nxt"
  shows "takes_match (note_metadata rep (JTakeBegin b)) (nxt + 1) (Some (nxt, plan_of b)) []"
    "takes_match (note_metadata rep (JTakeBegin b)) (nxt + 1) None []"
proof -
  let ?r = "note_metadata rep (JTakeBegin b)"
  from assms(1) have a: "bt_ok (rp_open_takes rep)" "\<forall>tk \<in> fst ` set (rp_open_takes rep). tk < nxt"
    "\<forall>tk \<in> fst ` set (rp_take_markers rep). tk < nxt" "rp_max_take rep < nxt" unfolding takes_match_def by blast+
  have r: "rp_open_takes ?r = bt_insert nxt (plan_of b) (rp_open_takes rep)" "rp_take_markers ?r = rp_take_markers rep"
    "rp_max_take ?r = max (rp_max_take rep) nxt" using assms(2) by (simp_all add: note_metadata_def)
  have "map_of (rp_take_markers rep) nxt = None" using a(3) by (force simp: map_of_eq_None_iff)
  then show "takes_match ?r (nxt + 1) (Some (nxt, plan_of b)) []" "takes_match ?r (nxt + 1) None []"
    unfolding takes_match_def r keys_bt_insert using a bt_ok_insert [OF a(1)] less_Suc_eq
    by (auto simp: unwrap_or_def)
qed

lemma takes_window:
  assumes "takes_match rep nxt (Some (tk, plan)) ms"
  shows "takes_match (note_metadata rep (JTakeWindow tk k)) nxt (Some (tk, plan\<lparr>tp_k_start := Some k\<rparr>)) ms"
proof -
  let ?r = "note_metadata rep (JTakeWindow tk k)" and ?plan = "plan\<lparr>tp_k_start := Some k\<rparr>"
  from assms have a: "bt_ok (rp_open_takes rep)" "\<forall>tk \<in> fst ` set (rp_open_takes rep). tk < nxt"
    "\<forall>tk \<in> fst ` set (rp_take_markers rep). tk < nxt" "rp_max_take rep < nxt" "Suc tk = nxt"
    "map_of (rp_open_takes rep) tk = Some plan" "unwrap_or (map_of (rp_take_markers rep) tk) [] = ms"
    unfolding takes_match_def by auto
  have r: "rp_open_takes ?r = bt_insert tk ?plan (rp_open_takes rep)" "rp_take_markers ?r = rp_take_markers rep"
    "rp_max_take ?r = rp_max_take rep" using a(6) by (simp_all add: note_metadata_def)
  show ?thesis unfolding takes_match_def r keys_bt_insert using a bt_ok_insert [OF a(1)] by auto
qed

lemma takes_marker:
  assumes "takes_match rep nxt (Some (tk, plan)) ms" "kind_plain m"
  shows "takes_match (note_metadata rep (JTakeMarker tk (from_marker m))) nxt (Some (tk, plan)) (ms @ [m])"
proof -
  let ?r = "note_metadata rep (JTakeMarker tk (from_marker m))"
  from assms have a: "bt_ok (rp_open_takes rep)" "\<forall>tk \<in> fst ` set (rp_open_takes rep). tk < nxt"
    "\<forall>tk \<in> fst ` set (rp_take_markers rep). tk < nxt" "rp_max_take rep < nxt" "Suc tk = nxt"
    "map_of (rp_open_takes rep) tk = Some plan" "unwrap_or (map_of (rp_take_markers rep) tk) [] = ms"
    unfolding takes_match_def by auto
  have r: "rp_open_takes ?r = rp_open_takes rep" "rp_take_markers ?r = bt_insert tk (ms @ [m]) (rp_take_markers rep)"
    "rp_max_take ?r = rp_max_take rep" using a(7) assms(2) by (simp_all add: note_metadata_def marker_roundtrip)
  show ?thesis unfolding takes_match_def r keys_bt_insert using a by (auto simp: unwrap_or_def)
qed

lemma note_close:
  "note_metadata rep (JTakeDiscard tk) = close_take tk (rep\<lparr>rp_closed := False\<rparr>)"
  "note_metadata rep (JTakeCancel tk) = close_take tk (rep\<lparr>rp_closed := False\<rparr>)"
  by (simp_all add: note_metadata_def)

text \<open>Take records leave the rest of the replay alone.\<close>

fun is_take_record :: "'v journal_record \<Rightarrow> bool" where
  "is_take_record (JTakeBegin b) \<longleftrightarrow> True"
| "is_take_record (JTakeWindow tk k) \<longleftrightarrow> True"
| "is_take_record (JTakeMarker tk m) \<longleftrightarrow> True"
| "is_take_record (JTakeDiscard tk) \<longleftrightarrow> True"
| "is_take_record (JTakeCancel tk) \<longleftrightarrow> True"
| "is_take_record _ \<longleftrightarrow> False"

lemma take_record_simps:
  assumes "is_take_record rec"
  shows "apply_record rep rec = Some (note_metadata rep rec)" "checkpoint_of rec = None"
    "rp_history (note_metadata rep rec) = rp_history rep" "rp_chunks (note_metadata rep rec) = rp_chunks rep"
    "rp_saved_record (note_metadata rep rec) = rp_saved_record rep" "rp_state_record (note_metadata rep rec) = rp_state_record rep"
    "rp_source (note_metadata rep rec) = rp_source rep"
  using assms by (cases rec; auto simp: apply_record_def note_metadata_def close_take_def split: option.splits)+

lemma take_record_match:
  assumes m: "session_match rep s" and r: "is_take_record rec"
    and t: "takes_match (note_metadata rep rec) nxt opn ms"
  shows "session_match (note_metadata rep rec) (s\<lparr>ss_next_take := nxt, ss_open := opn, ss_markers := ms\<rparr>)"
  unfolding session_match_def
proof (intro conjI)
  show "facts_match (note_metadata rep rec) (s\<lparr>ss_next_take := nxt, ss_open := opn, ss_markers := ms\<rparr>)"
    by (rule facts_match_cong [of rep s]) (use m take_record_simps [OF r] in \<open>simp_all add: session_match_def\<close>)
qed (use m t take_record_simps [OF r] in \<open>simp_all add: session_match_def\<close>)

section \<open>The operations\<close>

context record_log
begin

lemma tracks_inv: "tracks crc s \<Longrightarrow> session_inv crc s"
  by (simp add: tracks_def)

lemma store_tracks:
  assumes "tracks crc s" "evolves crc (ss_store s) st'"
  shows "tracks crc (s\<lparr>ss_store := st'\<rparr>)"
proof -
  from assms(1) obtain recs rep where t: "session_inv crc s" "holds recs (ss_journal s)" "replayed recs rep" "session_match rep s"
    by (auto simp: tracks_def)
  then have "store_ok crc st' \<and> keeps (ss_store s) st'" using assms(2) by (simp add: evolves_def session_inv_def)
  with store_change [OF t(1,4)] t(2,3) show ?thesis by (auto simp: tracks_def)
qed

text \<open>One record is written, then memory changes by \<open>f\<close>.\<close>

lemma log_one:
  assumes tr: "tracks crc s" and w: "write_log ap [rec] s = (r, s1)" and c: "checkpoint_of rec = None"
    and j: "\<And>j. f (s\<lparr>ss_journal := j\<rparr>) = (f s)\<lparr>ss_journal := j\<rparr>"
    and inv: "session_inv crc (f s)"
    and m: "\<And>rep. session_match rep s \<Longrightarrow> \<exists>rep'. apply_record rep rec = Some rep' \<and> session_match rep' (f s)"
  shows "case r of Inl _ \<Rightarrow> tracks crc s1 | Inr _ \<Rightarrow> tracks crc (f s1)"
  using tr w
proof (cases rule: write_log_cases)
  case (ok recs rep)
  from m [OF ok(5)] obtain rep' where r: "apply_record rep rec = Some rep'" "session_match rep' (f s)" by blast
  have "f s1 = (f s)\<lparr>ss_journal := ss_journal s1\<rparr>" using ok(2) j by metis
  then have "session_match rep' (f s1)" "session_inv crc (f s1)" "ss_journal (f s1) = ss_journal s1"
    using r(2) inv by (metis match_journal(1), metis match_journal(2), simp)
  then have "tracks crc (f s1)" using ok(3,4) r(1) c by (intro tracksI [of recs "[rec]" _ rep rep']) simp_all
  with ok(1) show ?thesis by simp
qed simp

lemma undo_tracks:
  assumes "tracks crc s" "session_undo ap s = (r, s')"
  shows "tracks crc s'"
proof (cases "ss_open s \<noteq> None \<or> peek_seq (h_undo (ss_history s)) = None")
  case False
  then obtain q where q: "peek_seq (h_undo (ss_history s)) = Some q" by auto
  obtain r1 s1 where w: "write_log ap [JUndo q] s = (r1, s1)" by fastforce
  have "case r1 of Inl _ \<Rightarrow> tracks crc s1 | Inr _ \<Rightarrow> tracks crc (s1\<lparr>ss_history := snd (history_undo (ss_history s1))\<rparr>)"
  proof (rule log_one [OF assms(1) w, where f = "\<lambda>s. s\<lparr>ss_history := snd (history_undo (ss_history s))\<rparr>"])
    show "session_inv crc (s\<lparr>ss_history := snd (history_undo (ss_history s))\<rparr>)"
      by (rule history_inv [OF tracks_inv [OF assms(1)] next_seq_kept(1)]) (simp add: live_undo)
    fix rep assume m: "session_match rep s"
    then have h: "hist_sim (rp_history rep) (ss_history s)" by (simp add: session_match_def)
    from replay_undo [OF h q] history_change [OF m undo_sim [OF h]]
    show "\<exists>rep'. apply_record rep (JUndo q) = Some rep' \<and>
        session_match rep' (s\<lparr>ss_history := snd (history_undo (ss_history s))\<rparr>)" by blast
  qed simp_all
  then show ?thesis using assms(2) False q w by (cases r1) (auto simp: session_undo_def split: prod.splits)
qed (use assms in \<open>auto simp: session_undo_def split: option.splits if_splits\<close>)

lemma redo_tracks:
  assumes "tracks crc s" "session_redo ap s = (r, s')"
  shows "tracks crc s'"
proof (cases "ss_open s \<noteq> None \<or> peek_seq (h_redo (ss_history s)) = None")
  case False
  then obtain q where q: "peek_seq (h_redo (ss_history s)) = Some q" by auto
  obtain r1 s1 where w: "write_log ap [JRedo q] s = (r1, s1)" by fastforce
  have "case r1 of Inl _ \<Rightarrow> tracks crc s1 | Inr _ \<Rightarrow> tracks crc (s1\<lparr>ss_history := snd (history_redo (ss_history s1))\<rparr>)"
  proof (rule log_one [OF assms(1) w, where f = "\<lambda>s. s\<lparr>ss_history := snd (history_redo (ss_history s))\<rparr>"])
    show "session_inv crc (s\<lparr>ss_history := snd (history_redo (ss_history s))\<rparr>)"
      by (rule history_inv [OF tracks_inv [OF assms(1)] next_seq_kept(2)]) (simp add: live_redo)
    fix rep assume m: "session_match rep s"
    then have h: "hist_sim (rp_history rep) (ss_history s)" by (simp add: session_match_def)
    from replay_redo [OF h q] history_change [OF m redo_sim [OF h]]
    show "\<exists>rep'. apply_record rep (JRedo q) = Some rep' \<and>
        session_match rep' (s\<lparr>ss_history := snd (history_redo (ss_history s))\<rparr>)" by blast
  qed simp_all
  then show ?thesis using assms(2) False q w by (cases r1) (auto simp: session_redo_def split: prod.splits)
qed (use assms in \<open>auto simp: session_redo_def split: option.splits if_splits\<close>)

lemma drop_tracks:
  assumes "tracks crc s" "session_drop_undo ap cnt s = (r, s')"
  shows "tracks crc s'"
proof (cases "ss_open s \<noteq> None \<or> min cnt (undo_depth (ss_history s)) = 0")
  case False
  let ?n = "min cnt (undo_depth (ss_history s))"
  obtain r1 s1 where w: "write_log ap [JDropUndo ?n] s = (r1, s1)" by fastforce
  let ?f = "\<lambda>s. s\<lparr>ss_history := snd (drop_oldest_undo (ss_history s) ?n)\<rparr>"
  have "case r1 of Inl _ \<Rightarrow> tracks crc s1 | Inr _ \<Rightarrow> tracks crc (?f s1)"
  proof (rule log_one [OF assms(1) w, where f = ?f])
    show "session_inv crc (?f s)" by (rule history_inv [OF tracks_inv [OF assms(1)] next_seq_kept(3) live_drop])
    fix rep assume m: "session_match rep s"
    then have h: "hist_sim (rp_history rep) (ss_history s)" by (simp add: session_match_def)
    from replay_drop history_change [OF m drop_sim [OF h]]
    show "\<exists>rep'. apply_record rep (JDropUndo ?n) = Some rep' \<and> session_match rep' (?f s)" by blast
  qed simp_all
  then show ?thesis using assms(2) False w by (cases r1) (auto simp: session_drop_undo_def Let_def split: prod.splits if_splits)
qed (use assms in \<open>auto simp: session_drop_undo_def Let_def split: if_splits\<close>)

lemma saved_tracks:
  assumes "tracks crc s" "mark_saved_file_at ap seq path format sm sidecar facts s = (r, s')"
  shows "tracks crc s'"
proof -
  define sv where "sv = \<lparr>sv_path = path, sv_seq = seq, sv_format = format, sv_crc = sm, sv_sidecar = sidecar,
    sv_size = map_option fst facts, sv_mtime = map_option snd facts\<rparr>"
  obtain r1 s1 where w: "write_log ap [JSaved sv] s = (r1, s1)" by fastforce
  let ?f = "\<lambda>s. s\<lparr>ss_history := mark_saved_at (ss_history s) seq, ss_last_saved := Some (JSaved sv)\<rparr>"
  have q: "sv_seq sv = seq" by (simp add: sv_def)
  have "case r1 of Inl _ \<Rightarrow> tracks crc s1 | Inr _ \<Rightarrow> tracks crc (?f s1)"
  proof (rule log_one [OF assms(1) w, where f = ?f])
    show "session_inv crc (?f s)"
      using tracks_inv [OF assms(1)] by (simp add: session_inv_def next_seq_kept)
    fix rep assume m: "session_match rep s"
    then have h: "hist_sim (rp_history rep) (ss_history s)" by (simp add: session_match_def)
    have "session_match ((with_base (mark_saved_at (rp_history rep) seq) (rp_chunks rep) False rep)
        \<lparr>rp_saved := saved_facts_of (JSaved sv :: 'v journal_record), rp_saved_record := Some (JSaved sv)\<rparr>) (?f s)"
      by (rule session_match_cong [OF m])
        (use m saved_sim [OF h] in \<open>simp_all add: with_base_def session_match_def facts_match_def\<close>)
    with replay_saved [of rep sv] show "\<exists>rep'. apply_record rep (JSaved sv) = Some rep' \<and> session_match rep' (?f s)"
      by (auto simp: q)
  qed simp_all
  then show ?thesis using assms(2) w by (cases r1) (auto simp: mark_saved_file_at_def Let_def sv_def [symmetric])
qed

lemma state_tracks:
  assumes "tracks crc s" "append_state ap v s = (r, s')"
  shows "tracks crc s'"
proof -
  obtain r1 s1 where w: "write_log ap [JState v] s = (r1, s1)" by fastforce
  let ?f = "\<lambda>s. s\<lparr>ss_last_state := Some (JState v)\<rparr>"
  have "case r1 of Inl _ \<Rightarrow> tracks crc s1 | Inr _ \<Rightarrow> tracks crc (?f s1)"
  proof (rule log_one [OF assms(1) w, where f = ?f])
    show "session_inv crc (?f s)" using tracks_inv [OF assms(1)] by (simp add: session_inv_def)
    fix rep assume m: "session_match rep s"
    have "session_match (note_metadata rep (JState v)) (?f s)"
      by (rule session_match_cong [OF m]) (use m in \<open>simp_all add: note_metadata_def session_match_def facts_match_def\<close>)
    then show "\<exists>rep'. apply_record rep (JState v) = Some rep' \<and> session_match rep' (?f s)"
      by (simp add: apply_record_def)
  qed simp_all
  then show ?thesis using assms(2) w by (cases r1) (auto simp: append_state_def)
qed

lemma marker_id_tracks:
  assumes "tracks crc s"
  shows "tracks crc (snd (new_marker_id s))"
proof -
  from assms obtain recs rep where t: "session_inv crc s" "holds recs (ss_journal s)" "replayed recs rep" "session_match rep s"
    by (auto simp: tracks_def)
  then have h: "hist_sim (rp_history rep) (ss_history s)" by (simp add: session_match_def)
  have e: "snd (new_marker_id s) = s\<lparr>ss_history := snd (allocate_marker_id (ss_history s))\<rparr>"
    by (simp add: new_marker_id_def split: prod.splits)
  have "session_match rep (snd (new_marker_id s))" using t(4) alloc_sim [OF h] by (simp add: e session_match_def facts_match_def)
  moreover have "session_inv crc (snd (new_marker_id s))" using history_inv [OF t(1) next_seq_kept(5)] by (simp add: e)
  ultimately show ?thesis using t(2,3) by (auto simp: tracks_def e)
qed

text \<open>Takes.\<close>

lemma take_record_tracks:
  assumes tr: "tracks crc s" and w: "write_log ap [rec] s = (r, s1)" and rec: "is_take_record rec"
    and ms: "\<forall>m \<in> set ms. kind_plain m"
    and t: "\<And>rep. takes_match rep (ss_next_take s) (ss_open s) (ss_markers s) \<Longrightarrow> takes_match (note_metadata rep rec) nxt opn ms"
  shows "case r of Inl _ \<Rightarrow> tracks crc s1 | Inr _ \<Rightarrow> tracks crc (s1\<lparr>ss_next_take := nxt, ss_open := opn, ss_markers := ms\<rparr>)"
proof (rule log_one [OF tr w take_record_simps(2) [OF rec], where f = "\<lambda>s. s\<lparr>ss_next_take := nxt, ss_open := opn, ss_markers := ms\<rparr>"])
  show "session_inv crc (s\<lparr>ss_next_take := nxt, ss_open := opn, ss_markers := ms\<rparr>)"
    using tracks_inv [OF tr] ms by (simp add: session_inv_def)
  fix rep assume m: "session_match rep s"
  then have "takes_match (note_metadata rep rec) nxt opn ms" using t by (simp add: session_match_def)
  from take_record_match [OF m rec this] take_record_simps(1) [OF rec, of rep]
  show "\<exists>rep'. apply_record rep rec = Some rep' \<and>
      session_match rep' (s\<lparr>ss_next_take := nxt, ss_open := opn, ss_markers := ms\<rparr>)" by blast
qed simp_all

lemma write_log_same:
  "write_log ap recs s = (r, s1) \<Longrightarrow> \<exists>j. s1 = s\<lparr>ss_journal := j\<rparr>"
  by (auto simp: write_log_def split: prod.splits)

lemma takes_closed_note:
  assumes "takes_match rep nxt opn ms" "rec = JTakeDiscard tk \<or> rec = JTakeCancel tk"
  shows "takes_match (note_metadata rep rec) nxt None []"
proof -
  have "takes_match (rep\<lparr>rp_closed := False\<rparr>) nxt opn ms" using assms(1) takes_match_cong [of "rep\<lparr>rp_closed := False\<rparr>" rep] by simp
  from takes_match_close [OF this] assms(2) show ?thesis by (auto simp: note_close)
qed

lemma close_record_tracks:
  assumes tr: "tracks crc s" and w: "write_log ap [rec] s = (r, s1)" and rec: "rec = JTakeDiscard tk \<or> rec = JTakeCancel tk"
  shows "case r of Inl _ \<Rightarrow> tracks crc s1 | Inr _ \<Rightarrow> tracks crc (close_open s1)"
proof -
  have i: "is_take_record rec" using rec by auto
  have e: "s1\<lparr>ss_next_take := ss_next_take s, ss_open := None, ss_markers := []\<rparr> = close_open s1"
    using write_log_same [OF w] by (auto simp: close_open_def)
  show ?thesis
    by (rule take_record_tracks [OF tr w i, of "[]" "ss_next_take s" None, unfolded e], simp) (use takes_closed_note rec in blast)
qed

lemma discard_tracks:
  assumes "tracks crc s" "discard_take ap tk s = (r, s')"
  shows "tracks crc s'"
proof (cases "the_take s tk")
  case (Some plan)
  obtain r1 s1 where w: "write_log ap [JTakeDiscard tk] s = (r1, s1)" by fastforce
  from close_record_tracks [OF assms(1) w] assms(2) Some w show ?thesis
    by (cases r1) (auto simp: discard_take_def)
qed (use assms in \<open>simp add: discard_take_def\<close>)

lemma close_cancelled_tracks:
  assumes "tracks crc s" "close_cancelled_take ap tk s = (r, s')"
  shows "tracks crc s' \<and> (\<forall>ms. r = Inr ms \<longrightarrow> (\<forall>m \<in> set ms. kind_plain m))"
proof (cases "the_take s tk")
  case (Some plan)
  obtain r1 s1 where w: "write_log ap [JTakeCancel tk] s = (r1, s1)" by fastforce
  have "\<forall>m \<in> set (ss_markers s1). kind_plain m"
    using tracks_inv [OF assms(1)] write_log_same [OF w] by (auto simp: session_inv_def)
  with close_record_tracks [OF assms(1) w] assms(2) Some w show ?thesis
    by (cases r1) (auto simp: close_cancelled_take_def)
qed (use assms in \<open>auto simp: close_cancelled_take_def\<close>)

lemma commit_markers_tracks:
  "tracks crc s \<Longrightarrow> \<forall>m \<in> set ms. kind_plain m \<Longrightarrow> commit_markers ap env len ms s = (r, s') \<Longrightarrow> tracks crc s'"
proof (induction ms arbitrary: s)
  case (Cons m ms)
  let ?e = "edit_marker (edit_new ''history.marker_add'') (MAdd (cancelled_marker len m))"
  obtain r1 s1 where c: "commit_internal ap env ?e None s = (r1, s1)" by fastforce
  have "\<forall>op \<in> set (e_marker_ops ?e). marker_op_plain op"
    using Cons.prems(2) by (simp add: edit_marker_def edit_new_def cancelled_marker_def kind_plain_def Let_def)
  from commit_internal_ok [OF Cons.prems(1) this _ c] have "tracks crc s1" by (cases r1) simp_all
  with Cons c show ?case by (cases r1) auto
qed simp

lemma cancel_tracks:
  assumes "tracks crc s" "cancel_take ap env tk s = (r, s')"
  shows "tracks crc s'"
proof -
  obtain r1 s1 where c: "close_cancelled_take ap tk s = (r1, s1)" by fastforce
  from close_cancelled_tracks [OF assms(1) c] assms(2) c show ?thesis
    by (cases r1) (auto simp: cancel_take_def intro: commit_markers_tracks)
qed

lemma window_tracks:
  assumes "tracks crc s" "note_take_window ap tk k s = (r, s')"
  shows "tracks crc s'"
proof (cases "the_take s tk")
  case (Some plan)
  then have o: "ss_open s = Some (tk, plan)" by (auto simp: the_take_def split: option.splits if_splits)
  obtain r1 s1 where w: "write_log ap [JTakeWindow tk k] s = (r1, s1)" by fastforce
  let ?o = "Some (tk, plan\<lparr>tp_k_start := Some k\<rparr>)"
  have e: "s1\<lparr>ss_next_take := ss_next_take s, ss_open := ?o, ss_markers := ss_markers s\<rparr> = s1\<lparr>ss_open := ?o\<rparr>"
    using write_log_same [OF w] by auto
  have p: "\<forall>m \<in> set (ss_markers s). kind_plain m" using tracks_inv [OF assms(1)] by (simp add: session_inv_def)
  have "case r1 of Inl _ \<Rightarrow> tracks crc s1 | Inr _ \<Rightarrow> tracks crc (s1\<lparr>ss_open := ?o\<rparr>)"
    by (rule take_record_tracks [OF assms(1) w _ p, of "ss_next_take s" ?o, unfolded e]) (simp_all add: o takes_window)
  with assms Some w show ?thesis by (cases r1) (auto simp: note_take_window_def split: if_splits)
qed (use assms in \<open>simp add: note_take_window_def\<close>)

lemma take_marker_tracks:
  assumes "tracks crc s" "note_take_marker ap tk m s = (r, s')" "kind_plain m"
  shows "tracks crc s'"
proof (cases "the_take s tk")
  case (Some plan)
  then have o: "ss_open s = Some (tk, plan)" by (auto simp: the_take_def split: option.splits if_splits)
  obtain r1 s1 where w: "write_log ap [JTakeMarker tk (from_marker m)] s = (r1, s1)" by fastforce
  have e: "s1\<lparr>ss_next_take := ss_next_take s, ss_open := Some (tk, plan), ss_markers := ss_markers s @ [m]\<rparr> =
      s1\<lparr>ss_markers := ss_markers s1 @ [m]\<rparr>"
    using write_log_same [OF w] o by auto
  have p: "\<forall>m \<in> set (ss_markers s @ [m]). kind_plain m" using tracks_inv [OF assms(1)] assms(3) by (simp add: session_inv_def)
  have "case r1 of Inl _ \<Rightarrow> tracks crc s1 | Inr _ \<Rightarrow> tracks crc (s1\<lparr>ss_markers := ss_markers s1 @ [m]\<rparr>)"
    by (rule take_record_tracks [OF assms(1) w _ p, of "ss_next_take s" "Some (tk, plan)", unfolded e])
      (simp_all add: o takes_marker assms(3))
  with assms Some w show ?thesis by (cases r1) (auto simp: note_take_marker_def)
qed (use assms in \<open>simp add: note_take_marker_def\<close>)

lemma begin_tracks:
  assumes "tracks crc s" "begin_take_with ap te now mode params options s = (r, s')"
  shows "tracks crc s'"
proof (cases "ss_open s \<noteq> None \<or> (\<exists>e. plan_position mode (s_len (h_current (ss_history s))) = Inl e)")
  case True
  then show ?thesis using assms by (auto simp: begin_take_with_def split: if_splits)
next
  case False
  then obtain pos mrec plen where pp: "plan_position mode (s_len (h_current (ss_history s))) = Inr (pos, mrec, plen)"
    and o: "ss_open s = None" by (metis sumE prod_cases3)
  define b where "b = \<lparr>tb_take = ss_next_take s, tb_mode = mrec, tb_at = pos, tb_len = plen,
      tb_file = take_part_path ''takes'' (ss_next_take s) 0, tb_rate = ss_rate s,
      tb_xfade = pm_xfade params, tb_offset_ns = pm_offset_ns params, tb_aligned = pm_aligned params\<rparr>"
  have plan: "plan_of b = \<lparr>tp_mode = mrec, tp_at = pos, tp_len = plen, tp_xfade = pm_xfade params,
      tp_offset_ns = pm_offset_ns params, tp_aligned = pm_aligned params,
      tp_k_start = (if pm_aligned params then None else Some 0)\<rparr>" by (simp add: plan_of_def b_def)
  have tb: "tb_take b = ss_next_take s" by (simp add: b_def)
  obtain r1 s1 where w: "write_log ap [JTakeBegin b] s = (r1, s1)" by fastforce
  then obtain j where s1: "s1 = s\<lparr>ss_journal := j\<rparr>" using write_log_same by blast
  let ?n = "ss_next_take s + 1"
  let ?s2 = "s1\<lparr>ss_next_take := ?n\<rparr>"
  note tt = take_record_tracks [OF assms(1) w, unfolded o]
  have ok: "tracks crc (s1\<lparr>ss_next_take := ?n, ss_open := Some (ss_next_take s, plan_of b), ss_markers := []\<rparr>)"
    and bad: "tracks crc (s1\<lparr>ss_next_take := ?n, ss_open := None, ss_markers := []\<rparr>)" if "r1 = Inr ()"
  proof -
    show "tracks crc (s1\<lparr>ss_next_take := ?n, ss_open := Some (ss_next_take s, plan_of b), ss_markers := []\<rparr>)"
      using tt [OF _ _ takes_begin(1) [OF _ tb]] that by simp
    show "tracks crc (s1\<lparr>ss_next_take := ?n, ss_open := None, ss_markers := []\<rparr>)"
      using tt [OF _ _ takes_begin(2) [OF _ tb]] that by simp
  qed
  have mk: "ss_markers s = []" using assms(1) o by (auto simp: tracks_def session_match_def takes_match_def)
  then have e: "s1\<lparr>ss_next_take := ?n, ss_open := None, ss_markers := []\<rparr> = ?s2" using s1 o mk by simp
  show ?thesis
  proof (cases r1)
    case (Inl err)
    then have "tracks crc s1"
      using tt [OF _ _ takes_begin(2) [OF _ tb]] by simp
    with Inl show ?thesis using assms(2) o pp w by (auto simp: begin_take_with_def b_def [symmetric] Let_def)
  next
    case (Inr u)
    obtain r2 s3 where w2: "write_log ap [JTakeDiscard (ss_next_take s)] ?s2 = (r2, s3)" by fastforce
    have "tracks crc s3"
    proof -
      have "tracks crc ?s2" using bad Inr unfolding e by simp
      from close_record_tracks [OF this w2] have "case r2 of Inl _ \<Rightarrow> tracks crc s3 | Inr _ \<Rightarrow> tracks crc (close_open s3)" by simp
      moreover have "close_open s3 = s3" using write_log_same [OF w2] s1 o mk by (auto simp: close_open_def)
      ultimately show ?thesis by (cases r2) simp_all
    qed
    moreover have "r = r \<and> s' = s3 \<or> s' = s1\<lparr>ss_next_take := ?n, ss_open := Some (ss_next_take s, plan_of b), ss_markers := []\<rparr>"
      using assms(2) o pp w w2 Inr s1
      by (auto simp: begin_take_with_def b_def [symmetric] plan [symmetric] Let_def split: sum.splits prod.splits)
    ultimately show ?thesis using ok Inr by auto
  qed
qed

lemma add_marker_ops_markers: "e_marker_ops (add_marker_ops e ops) = e_marker_ops e @ ops"
  unfolding add_marker_ops_def by (induction ops arbitrary: e) (simp_all add: edit_marker_def)

lemma take_ops_plain:
  assumes "\<forall>m \<in> set (ss_markers s). kind_plain m" "\<forall>m \<in> set extra. kind_plain m" "e_marker_ops e = []"
  shows "\<forall>op \<in> set (e_marker_ops (add_marker_ops e (take_marker_ops s plan n extra))). marker_op_plain op"
  using assms by (auto simp: add_marker_ops_markers take_marker_ops_def place_take_marker_def Let_def kind_plain_def
      split: prod.splits)

lemma take_edit_tracks:
  assumes tr: "tracks crc s" and o: "ss_open s \<noteq> None" and ms: "\<forall>m \<in> set extra. kind_plain m" and e: "e_marker_ops e = []"
    and c: "commit_internal ap env (add_marker_ops e (take_marker_ops s plan n extra)) (Some (tk, w)) s = (r, s1)"
  shows "case r of Inl _ \<Rightarrow> tracks crc s1 | Inr _ \<Rightarrow> tracks crc (close_open s1)"
proof -
  have "\<forall>m \<in> set (ss_markers s). kind_plain m" using tracks_inv [OF tr] by (simp add: session_inv_def)
  from commit_internal_ok [OF tr take_ops_plain [OF this ms e] _ c] o show ?thesis by (cases r) simp_all
qed

lemma the_take_open: "the_take s tk = Some plan \<Longrightarrow> ss_open s = Some (tk, plan)"
  by (auto simp: the_take_def split: option.splits if_splits)

lemma commit_take_tracks:
  assumes tr: "tracks crc s" and ms: "\<forall>m \<in> set markers. kind_plain m" and c: "commit_take ap env f markers s = (r, s')"
  shows "tracks crc s'"
proof (cases "the_take s (ft_take f)")
  case (Some plan)
  note o = the_take_open [OF Some]
  let ?len = "wa_len (ft_audio f)"
  let ?none = "ft_wav_samples f = 0 \<and> ?len = 0 \<and> markers = [] \<and> ss_markers s = []"
  let ?e1 = "if ?len > 0 then edit_replace (edit_new ''history.record'') (tp_at plan) 0 (wa_pieces (ft_audio f))
    else edit_new ''history.record''"
  let ?w = "if ft_wav_samples f > ?len then Some (ft_wav_samples f) else None"
  obtain r1 s1 where w: "write_log ap [JTakeDiscard (ft_take f)] s = (r1, s1)" by fastforce
  obtain r2 s2 where e: "commit_internal ap env (add_marker_ops ?e1 (take_marker_ops s plan ?len markers))
    (Some (ft_take f, ?w)) s = (r2, s2)" by fastforce
  have 1: "case r1 of Inl _ \<Rightarrow> tracks crc s1 | Inr _ \<Rightarrow> tracks crc (close_open s1)"
    by (rule close_record_tracks [OF tr w]) blast
  have 2: "case r2 of Inl _ \<Rightarrow> tracks crc s2 | Inr _ \<Rightarrow> tracks crc (close_open s2)"
    by (rule take_edit_tracks [OF tr _ ms _ e]) (simp_all add: o edit_new_def edit_replace_def edit_replace_with_def)
  from c Some have c': "(r, s') = (if ?none then (case r1 of Inl e \<Rightarrow> (Inl e, s1) | Inr _ \<Rightarrow> (Inr None, close_open s1))
      else if ?len = 0 \<and> ft_wav_samples f > 0 then (Inl (TakeNotInStore (ft_take f) (ft_wav_samples f)), s)
      else (case r2 of Inl e \<Rightarrow> (Inl e, s2) | Inr step \<Rightarrow> (Inr (Some step), close_open s2)))"
    unfolding commit_take_def by (simp only: option.case Let_def w e prod.case)
  show ?thesis
  proof (cases ?none)
    case True
    with c' 1 show ?thesis by (cases r1) simp_all
  next
    case False
    with c' 2 tr show ?thesis by (cases r2) (auto split: if_splits)
  qed
qed (use tr c in \<open>simp add: commit_take_def\<close>)

lemma build_tracks:
  assumes "tracks crc s" "build_edit crc env mix plan ps window s = (r, s')"
  shows "tracks crc s' \<and> (\<exists>st. s' = s\<lparr>ss_store := st\<rparr>) \<and> (\<forall>e. r = Inr (Some e) \<longrightarrow> e_marker_ops e = [])"
proof -
  obtain r1 st where b: "build_take_edit crc env mix (ss_rate s) (h_current (ss_history s)) plan ps window (ss_store s) = (r1, st)"
    by fastforce
  have "e_marker_ops e = []" if "r1 = Inr (Some e)" for e
    using b that unfolding build_take_edit_def Let_def
    by (auto simp: edit_new_def edit_replace_def edit_replace_with_def split: if_splits prod.splits sum.splits take_mode_record.splits)
  with store_tracks [OF assms(1) build_take_edit_evolves [OF b]] assms(2) b show ?thesis by (auto simp: build_edit_def)
qed

lemma commit_window_tracks:
  assumes tr: "tracks crc s" and ms: "\<forall>m \<in> set markers. kind_plain m"
    and c: "commit_take_window ap crc env mix f window markers s = (r, s')"
  shows "tracks crc s'"
proof (cases "the_take s (ft_take f) = None \<or> wa_len (ft_audio f) = 0 \<and> ft_wav_samples f > 0")
  case False
  then obtain plan where p: "the_take s (ft_take f) = Some plan" and n: "\<not> (wa_len (ft_audio f) = 0 \<and> ft_wav_samples f > 0)" by auto
  obtain r1 s1 where b: "build_edit crc env mix plan (wa_pieces (ft_audio f)) window s = (r1, s1)" by fastforce
  from build_tracks [OF tr b] obtain st where t1: "tracks crc s1" "s1 = s\<lparr>ss_store := st\<rparr>"
    "\<And>e. r1 = Inr (Some e) \<Longrightarrow> e_marker_ops e = []" by blast
  have o: "ss_open s1 \<noteq> None" using t1(2) the_take_open [OF p] by simp
  consider (err) e where "r1 = Inl e" | (none) "r1 = Inr None" | (some) e where "r1 = Inr (Some e)"
    by (cases r1) auto
  then show ?thesis
  proof cases
    case err
    with c p n b t1(1) show ?thesis by (simp add: commit_take_window_def Let_def)
  next
    case none
    obtain r2 s2 where k: "cancel_take ap env (ft_take f) s1 = (r2, s2)" by fastforce
    have "s' = s2" using c p n b none k by (cases r2) (simp_all add: commit_take_window_def Let_def)
    with cancel_tracks [OF t1(1) k] show ?thesis by simp
  next
    case (some e)
    let ?w = "if ft_wav_samples f > wa_len (ft_audio f) then Some (ft_wav_samples f) else None"
    obtain r2 s2 where k: "commit_internal ap env
        (add_marker_ops e (take_marker_ops s1 plan (window_len plan (wa_len (ft_audio f)) window) markers))
        (Some (ft_take f, ?w)) s1 = (r2, s2)" by fastforce
    from take_edit_tracks [OF t1(1) o ms t1(3) [OF some] k] c p n b some k show ?thesis
      by (cases r2) (auto simp: commit_take_window_def Let_def)
  qed
qed (use tr c in \<open>cases "the_take s (ft_take f)"; auto simp: commit_take_window_def\<close>)

lemma apply_wav_tracks:
  assumes tr: "tracks crc s" and c: "apply_open_take_from_wav ap crc env mix parts_of s = (r, s')"
  shows "tracks crc s'"
proof (cases "ss_open s")
  case (Some tp)
  obtain tk plan where tp: "tp = (tk, plan)" by fastforce
  show ?thesis
  proof (cases "parts_of tk")
    case (Inl e)
    with c tr Some tp show ?thesis by (simp add: apply_open_take_from_wav_def)
  next
    case (Inr parts)
    obtain ri st where i: "import_take crc env parts (ss_store s) = (ri, st)" by fastforce
    let ?s1 = "s\<lparr>ss_store := st\<rparr>"
    have t1: "tracks crc ?s1" by (rule store_tracks [OF tr import_take_evolves [OF i]])
    show ?thesis
    proof (cases ri)
      case (Inl e)
      with c t1 Some tp Inr i show ?thesis by (simp add: apply_open_take_from_wav_def)
    next
      case wa: (Inr wa)
      show ?thesis
      proof (cases "tp_k_start plan")
        case None
        obtain r2 s2 where k: "close_cancelled_take ap tk ?s1 = (r2, s2)" by fastforce
        have "s' = s2" using c Some tp Inr i wa None k by (cases r2) (simp_all add: apply_open_take_from_wav_def)
        with close_cancelled_tracks [OF t1 k] show ?thesis by simp
      next
        case k: (Some k)
        obtain r2 s2 where b: "build_edit crc env mix plan (wa_pieces wa) (k, u64_max) ?s1 = (r2, s2)" by fastforce
        from build_tracks [OF t1 b] obtain st2 where t2: "tracks crc s2" "s2 = ?s1\<lparr>ss_store := st2\<rparr>"
          "\<And>e. r2 = Inr (Some e) \<Longrightarrow> e_marker_ops e = []" by blast
        note d = c Some tp Inr i wa k b
        consider (err) e where "r2 = Inl e" | (none) "r2 = Inr None" | (some) e where "r2 = Inr (Some e)"
          by (cases r2) auto
        then show ?thesis
        proof cases
          case err
          with d t2(1) show ?thesis by (simp add: apply_open_take_from_wav_def Let_def)
        next
          case none
          obtain r3 s3 where w: "write_log ap [JTakeDiscard tk] s2 = (r3, s3)" by fastforce
          have "case r3 of Inl _ \<Rightarrow> tracks crc s3 | Inr _ \<Rightarrow> tracks crc (close_open s3)"
            by (rule close_record_tracks [OF t2(1) w]) blast
          with d none w show ?thesis by (cases r3) (auto simp: apply_open_take_from_wav_def Let_def)
        next
          case (some e)
          have o: "ss_open s2 \<noteq> None" using t2(2) Some by simp
          obtain r3 s3 where w: "commit_internal ap env (add_marker_ops e (take_marker_ops s2 plan
              (window_len plan (pieces_len (wa_pieces wa)) (k, u64_max)) [])) (Some (tk, None)) s2 = (r3, s3)" by fastforce
          from take_edit_tracks [OF t2(1) o _ t2(3) [OF some] w] d some w show ?thesis
            by (cases r3) (auto simp: apply_open_take_from_wav_def Let_def)
        qed
      qed
    qed
  qed
qed (use tr c in \<open>simp add: apply_open_take_from_wav_def\<close>)

end

end
