(* ===== verification/Session_Runs.thy ===== *)
theory Session_Runs
  imports Session_Steps
begin

text \<open>
  Opening a session and giving it its first document, and the runs of a session: any sequence of its
  operations, each with its own answers of the operating system.
\<close>

section \<open>The floor\<close>

lemma check_markers_Inr: "check_markers ms len = Inr u \<Longrightarrow> m \<in> set ms \<Longrightarrow> marker_in len m"
  by (induction ms) (auto simp: marker_in_def split: sum.splits)

lemma hist_ok_floor: "0 < h_next_seq h \<Longrightarrow> doc_ok flr \<Longrightarrow> hist_ok (rebased h flr)"
  using floor_marker_id_gt [of _ "s_markers flr"] floor_marker_id_pos [of "s_markers flr"]
  by (auto simp: hist_ok_def rebased_def timeline_def tl_entries_def snap_bounded_def seqs_ok_def
      adjacent_ok_def less_max_iff_disj)

lemma floor_doc_ok:
  assumes "\<forall>p \<in> set ps. piece_ok p" "distinct (map m_id ms)" "check_markers (s_markers (snapshot_new rate ps ms)) (s_len (snapshot_new rate ps ms)) = Inr u"
  shows "doc_ok (snapshot_new rate ps ms)"
proof (rule snapshot_new_ok [OF assms(1) _ assms(2)])
  show "\<forall>m \<in> set ms. marker_in (pieces_len ps) m"
    using check_markers_Inr [OF assms(3)] by (simp add: snapshot_new_def)
qed

lemma floor_roundtrip:
  assumes "0 < h_next_seq h" "doc_ok flr" "\<forall>m \<in> set (s_markers flr). kind_plain m"
  shows "to_history (from_history (rebased h flr) index) = rebased h flr"
  by (rule history_roundtrip [OF hist_ok_floor [OF assms(1,2)]])
     (use assms(3) in \<open>simp add: hist_plain_def timeline_def rebased_def\<close>)

text \<open>The chunk index of a checkpoint.\<close>

definition journaled_index :: "('v, 'j) session \<Rightarrow> chunk_location list \<Rightarrow> chunk_location list" where
  "journaled_index s locs = sort_key loc_id
     (List.map_filter (location (ss_store s)) (filter (is_journaled (ss_journaled s)) [0 ..< length (ss_journaled s)]) @ locs)"

lemma index_match:
  assumes inv: "session_inv crc s" and locs: "\<forall>l \<in> set locs. \<exists>i. location (ss_store s) i = Some l"
  shows "chunks_match (foldl (\<lambda>m l. bt_insert (loc_id l) l m) [] (journaled_index s locs))
    (mark_all_journaled (ss_journaled s) locs) (ss_store s)"
proof -
  have id: "location (ss_store s) i = Some l \<Longrightarrow> loc_id l = i" for i l
    using inv location_end unfolding session_inv_def by blast
  have js: "\<exists>l. location (ss_store s) i = Some l" "i < length (ss_journaled s)" if "is_journaled (ss_journaled s) i" for i
    using inv that by (auto simp: session_inv_def is_journaled_def split: if_splits)
  have st: "set (journaled_index s locs) =
      {l. \<exists>i. is_journaled (ss_journaled s) i \<and> location (ss_store s) i = Some l} \<union> set locs"
    using js(2) by (force simp: journaled_index_def set_map_filter)
  have "\<forall>l \<in> set (journaled_index s locs). location (ss_store s) (loc_id l) = Some l"
    unfolding st using locs id by blast
  moreover have "i \<in> loc_id ` set (journaled_index s locs) \<longleftrightarrow> i \<in> loc_id ` set locs \<or> is_journaled (ss_journaled s) i" for i
    unfolding st using id js(1) by blast
  ultimately show ?thesis by (simp add: chunks_match_def is_journaled_mark_all insert_locs)
qed

context record_log
begin

lemma floor_tracks:
  assumes tr: "tracks crc s" and ps: "\<forall>p \<in> set (wa_pieces wa). piece_ok p"
    and ms: "distinct (map m_id markers)" "\<forall>m \<in> set markers. kind_plain m"
    and c: "set_floor ap env wa markers s = (r, s')"
  shows "tracks crc s'"
proof -
  define flr where "flr = snapshot_new (ss_rate s) (wa_pieces wa) markers"
  define locs where "locs = unjournaled_chunks s (wa_pieces wa)"
  define h where "h = rebased (ss_history s) flr"
  note c' = c [unfolded set_floor_def, folded flr_def, folded locs_def h_def, folded locs_def h_def]
  show ?thesis
  proof (cases "ss_open s \<noteq> None \<or> undo_depth (ss_history s) > 0 \<or> redo_depth (ss_history s) > 0 \<or>
      (\<exists>e. validate_piece_refs (ss_store s) (wa_pieces wa) = Inl e) \<or> (\<exists>e. check_markers (s_markers flr) (s_len flr) = Inl e)")
    case True
    then have "s' = s" using c' by (auto simp: Let_def flr_def [symmetric] split: if_splits sum.splits)
    with tr show ?thesis by simp
  next
    case False
    then have o: "ss_open s = None" by blast
    from False have ud: "undo_depth (ss_history s) = 0" "redo_depth (ss_history s) = 0" by simp_all
    from False have v: "validate_piece_refs (ss_store s) (wa_pieces wa) = Inr ()"
      by (cases "validate_piece_refs (ss_store s) (wa_pieces wa)") auto
    from False have cm: "check_markers (s_markers flr) (s_len flr) = Inr ()"
      by (cases "check_markers (s_markers flr) (s_len flr)") auto
    obtain r1 s1 where y: "sync_new env locs s = (r1, s1)" by fastforce
    from tr obtain recs rep where t: "session_inv crc s" "holds recs (ss_journal s)" "replayed recs rep" "session_match rep s"
      by (auto simp: tracks_def)
    from sync_new_spec [OF t(1,4) y] obtain st where s1: "session_inv crc s1" "session_match rep s1" "s1 = s\<lparr>ss_store := st\<rparr>"
      "location st = location (ss_store s)" "r1 = Inr () \<Longrightarrow> st_disk st = st_file st \<or> locs = []" by auto
    have tr1: "tracks crc s1" using s1 t by (auto simp: tracks_def)
    note c2 = c' [unfolded Let_def, folded flr_def, folded locs_def h_def]
    show ?thesis
    proof (cases r1)
      case (Inl err)
      then have "s' = s1" using c2 o v cm ud y by simp
      with tr1 show ?thesis by simp
    next
      case (Inr u)
      define cp where "cp = from_history h (journaled_index s1 locs)"
      obtain r2 s2 where w: "write_log ap (chunk_records locs @ [JCheckpoint cp]) s1 = (r2, s2)" by fastforce
      have res: "s' = (case r2 of Inl _ \<Rightarrow> s2 | Inr _ \<Rightarrow> s2\<lparr>ss_journaled := mark_all_journaled (ss_journaled s2) locs, ss_history := h\<rparr>)"
        using c2 o v cm ud y Inr w by (cases r2) (simp_all add: cp_def journaled_index_def)
      from tr1 w show ?thesis
      proof (cases rule: write_log_cases)
        case (err e)
        with res show ?thesis by simp
      next
        case (ok recs2 rep2)
        then have s': "s' = s2\<lparr>ss_journaled := mark_all_journaled (ss_journaled s2) locs, ss_history := h\<rparr>" by (simp add: res)
        have f2: "ss_history s2 = ss_history s" "ss_journaled s2 = ss_journaled s" "ss_store s2 = st" "ss_open s2 = None"
          "ss_markers s2 = ss_markers s" "ss_next_take s2 = ss_next_take s"
          "ss_open_record s2 = ss_open_record s" "ss_last_saved s2 = ss_last_saved s" "ss_last_state s2 = ss_last_state s"
          using ok(2) s1(3) o by (cases s2, simp)+
        have ml: "\<forall>l \<in> set locs. \<exists>i. location (ss_store s1) i = Some l"
          using s1(3,4) by (auto simp: locs_def unjournaled_set)
        obtain b where "apply_records rep2 (chunk_records locs) =
            (with_base (rp_history rep2) (foldl (\<lambda>m l. bt_insert (loc_id l) l m) (rp_chunks rep2) locs) b rep2,
             length (chunk_records locs :: 'v journal_record list))" using apply_chunk_records by blast
        from replayed_checkpoint [OF ok(4) _ this, of cp] obtain b2 where
          rp: "replayed (recs2 @ chunk_records locs @ [JCheckpoint cp])
            (with_base (to_history cp) (foldl (\<lambda>m l. bt_insert (loc_id l) l m) [] (cp_chunks cp)) b2 rep2)" by auto
        have dk: "doc_ok flr" using floor_doc_ok [OF ps ms(1)] cm by (simp add: flr_def)
        have "0 < h_next_seq (ss_history s)" using t(1) by (simp add: session_inv_def)
        then have th: "to_history cp = h"
          unfolding cp_def h_def by (rule floor_roundtrip [OF _ dk]) (use ms(2) in \<open>simp add: flr_def snapshot_new_def\<close>)
        have ch: "cp_chunks cp = journaled_index s1 locs" by (simp add: cp_def from_history_def)
        have dsk: "st_disk (ss_store s1) = st_file (ss_store s1) \<or> locs = []" using s1(3,5) Inr by simp
        have cmt: "chunks_match (rp_chunks rep2) (ss_journaled s1) (ss_store s1)" using ok(5) by (simp add: session_match_def)
        have "session_match (with_base (to_history cp) (foldl (\<lambda>m l. bt_insert (loc_id l) l m) [] (cp_chunks cp)) b2 rep2) s'"
          using index_match [OF s1(1) ml] ok(5) f2 s1(3) o
          by (simp add: session_match_def th ch s' hist_sim_refl facts_match_def)
        moreover have "session_inv crc s'"
        proof (rule inv_cong [OF journal_chunks(2) [OF s1(1) cmt dsk ml]])
          show "ss_store s' = ss_store (s1\<lparr>ss_journaled := mark_all_journaled (ss_journaled s1) locs\<rparr>)"
            "ss_journaled s' = ss_journaled (s1\<lparr>ss_journaled := mark_all_journaled (ss_journaled s1) locs\<rparr>)"
            using f2 s1(3) by (simp_all add: s')
          show "0 < h_next_seq (ss_history s')" using t(1) by (simp add: s' h_def rebased_def session_inv_def)
          show "\<forall>m \<in> set (ss_markers s'). kind_plain m" using t(1) f2 by (simp add: s' session_inv_def)
          have "i \<in> loc_id ` set locs \<or> is_journaled (ss_journaled s) i" if i: "i \<in> set (chunk_ids flr)" for i
          proof -
            have ip: "i \<in> set (pieces_chunk_ids (wa_pieces wa))"
              using i ids_push_all [of "[]" "wa_pieces wa"] by (auto simp: flr_def snapshot_new_def chunk_ids_def)
            then obtain p l where l: "location (ss_store s) i = Some l"
              using validate_piece_refs_InrD [OF v] by (auto simp: pieces_chunk_ids_iff)
            then have "loc_id l = i" using location_end t(1) by (auto simp: session_inv_def)
            with l ip show ?thesis by (force simp: locs_def unjournaled_set)
          qed
          then show "\<forall>i \<in> live_set (ss_history s'). is_journaled (ss_journaled (s1\<lparr>ss_journaled := mark_all_journaled (ss_journaled s1) locs\<rparr>)) i"
            using s1(3) by (simp add: s' h_def is_journaled_mark_all)
        qed
        moreover have "holds (recs2 @ chunk_records locs @ [JCheckpoint cp]) (ss_journal s')" using ok(3) s' by simp
        ultimately show ?thesis using rp by (auto simp: tracks_def)
      qed
    qed
  qed
qed

section \<open>Creation\<close>

lemma create_tracks:
  assumes h0: "holds [] j0" and c: "session_create ap j0 before after rate src budget = Inr s"
  shows "tracks crc s"
proof -
  define h where "h = history_new (snapshot_empty rate)"
  define op :: "'v journal_record" where "op = JOpen store_format_version rate src"
  define cp where "cp = from_history h []"
  from c obtain j where j: "ap [op, JCheckpoint cp] j0 = (Inr (), j)"
    and s: "s = \<lparr>ss_store = store_create budget, ss_journal = j, ss_history = h, ss_rate = rate,
        ss_journaled = [], ss_open = None, ss_markers = [], ss_next_take = 1, ss_generation = 0,
        ss_open_record = op, ss_last_saved = None, ss_last_state = None\<rparr>"
    by (auto simp: session_create_def Let_def h_def op_def cp_def split: if_splits option.splits prod.splits sum.splits)
  have dk: "doc_ok (snapshot_empty rate)" by (simp add: snapshot_empty_def) (rule snapshot_new_ok; simp)
  have th: "to_history cp = h"
    unfolding cp_def h_def by (rule history_roundtrip [OF hist_ok_new [OF dk]])
      (simp add: hist_plain_def timeline_def history_new_def snapshot_empty_def snapshot_new_def)
  define rep where "rep = note_metadata (replay_from cp) op"
  have "replayed [op, JCheckpoint cp] rep"
    by (rule replayedI [of _ 1 cp]) (use rposition_snoc [of _ _ "[op]"] in \<open>simp_all add: rep_def\<close>)
  moreover have "cp_chunks cp = []" by (simp add: cp_def from_history_def)
  then have "session_match rep s"
    by (auto simp: session_match_def s rep_def op_def note_metadata_def replay_from_def th hist_sim_refl chunks_match_def
        is_journaled_def takes_match_def facts_match_def bt_ok_def)
  moreover have "session_inv crc s"
    using store_ok_create [of crc budget]
    by (simp add: session_inv_def s is_journaled_def h_def chunk_ids_def snapshot_empty_def snapshot_new_def history_new_def
        live_set_def)
  moreover have "holds [op, JCheckpoint cp] (ss_journal s)" using ap_ok [OF h0 j] by (simp add: s)
  ultimately show ?thesis by (auto simp: tracks_def)
qed

end

end
