(* ===== verification/Session_Hist.thy ===== *)
theory Session_Hist
  imports Session_Runs Writer
begin

text \<open>
  The history of a session stays well formed: every operation of a session changes it by edits in the
  ranges the source's types give, undo, redo, dropping, saving and rebasing, so the invariant of
  \<open>History_Props\<close> holds in the session, and its markers keep kinds the journal can write.
\<close>

section \<open>Edits and markers\<close>

definition hist_good :: "history \<Rightarrow> bool" where
  "hist_good h \<longleftrightarrow> hist_ok h \<and> hist_plain h"

definition markers_plain :: "marker list \<Rightarrow> bool" where
  "markers_plain ms \<longleftrightarrow> (\<forall>m \<in> set ms. kind_plain m)"

lemma plain_simps [simp]:
  "markers_plain []" "markers_plain (m # ms) \<longleftrightarrow> kind_plain m \<and> markers_plain ms"
  "markers_plain (ms @ ms') \<longleftrightarrow> markers_plain ms \<and> markers_plain ms'" "markers_plain (sort_markers ms) \<longleftrightarrow> markers_plain ms"
  by (auto simp: markers_plain_def)

lemma kind_plain_updates [simp]:
  "kind_plain (m\<lparr>m_name := a\<rparr>) = kind_plain m" "kind_plain (m\<lparr>m_pos := p, m_len := l\<rparr>) = kind_plain m"
  by (simp_all add: kind_plain_def)

lemma plain_update: "markers_plain ms \<Longrightarrow> kind_plain m \<Longrightarrow> markers_plain (ms[k := m])"
  unfolding markers_plain_def by (metis insertE set_update_subset_insert subsetD)

lemma marker_op_plain_keeps:
  assumes "markers_plain ms" "marker_op_plain op" "apply_marker_op len (ms, nxt) op = Inr (ms', nxt')"
  shows "markers_plain ms'"
proof (cases op)
  case (MAdd m)
  with assms show ?thesis by (auto split: if_splits sum.splits)
next
  case (MRemove i)
  with assms show ?thesis
    by (fastforce simp: markers_plain_def split: sum.splits dest: in_set_takeD in_set_dropD)
next
  case (MRename i a)
  with assms obtain k where k: "find_marker_index ms i = Inr k" "ms' = ms[k := (ms ! k)\<lparr>m_name := a\<rparr>]"
    by (auto split: sum.splits)
  from find_marker_index_InrD [OF k(1)] assms(1) show ?thesis
    unfolding k(2) by (intro plain_update) (auto simp: markers_plain_def)
next
  case (MMove i p l)
  with assms obtain k where k: "find_marker_index ms i = Inr k" "ms' = ms[k := (ms ! k)\<lparr>m_pos := p, m_len := l\<rparr>]"
    by (auto split: sum.splits)
  from find_marker_index_InrD [OF k(1)] assms(1) show ?thesis
    unfolding k(2) by (intro plain_update) (auto simp: markers_plain_def)
qed

lemma marker_ops_plain_keep:
  "markers_plain ms \<Longrightarrow> \<forall>op \<in> set ops. marker_op_plain op \<Longrightarrow> apply_marker_ops len (ms, nxt) ops = Inr (ms', nxt') \<Longrightarrow>
   markers_plain ms'"
proof (induction ops arbitrary: ms nxt)
  case (Cons op ops)
  then show ?case by (auto split: sum.splits dest: marker_op_plain_keeps)
qed simp

lemma kind_plain_shift [simp]: "kind_plain (shift_marker a r n m) = kind_plain m"
  by (simp add: shift_marker_def Let_def)

lemma plain_shift [simp]: "markers_plain (shift_markers ms a r n) = markers_plain ms"
  by (simp add: shift_markers_def) (simp add: markers_plain_def)

lemma plain_prepare_op:
  assumes "markers_plain ms" "prepare_op cur (work, ms) op = Inr (work', ms')"
  shows "markers_plain ms'"
proof -
  obtain a r ps mp where op: "op = Replace a r ps mp" by (cases op) auto
  from assms(2) [unfolded op] show ?thesis
    by (cases rule: prepare_op_cases) (use assms(1) in auto)
qed

lemma plain_prepare_ops:
  "markers_plain ms \<Longrightarrow> prepare_ops cur (work, ms) ops = Inr (work', ms') \<Longrightarrow> markers_plain ms'"
proof (induction ops arbitrary: work ms)
  case (Cons op ops)
  from Cons.prems obtain w1 m1 where "prepare_op cur (work, ms) op = Inr (w1, m1)"
    "prepare_ops cur (w1, m1) ops = Inr (work', ms')" by (auto split: sum.splits)
  with Cons show ?case using plain_prepare_op by blast
qed simp

lemma hist_plain_alt: "hist_plain h \<longleftrightarrow> (\<forall>d \<in> set (timeline h). markers_plain (s_markers d))"
  by (simp add: hist_plain_def markers_plain_def)

lemma commit_good:
  assumes g: "hist_good h" and e: "edit_typed e" "\<forall>op \<in> set (e_marker_ops e). marker_op_plain op" and p: "prepare h e = Inr p"
  shows "hist_good (snd (commit h p))"
proof -
  from g have h: "hist_ok h" "\<And>d. d \<in> set (timeline h) \<Longrightarrow> markers_plain (s_markers d)"
    by (auto simp: hist_good_def hist_plain_alt)
  have "markers_plain (s_markers (pe_snapshot p))"
    using p
  proof (cases rule: prepare_InrE)
    case (1 work ms ms' nxt)
    have "markers_plain (s_markers (h_current h))" using h(2) by (simp add: timeline_def)
    with 1(1,2) e(2) have "markers_plain ms'" using plain_prepare_ops marker_ops_plain_keep by blast
    then show ?thesis by (simp add: 1(3))
  qed
  moreover have "set (timeline (snd (commit h p))) \<subseteq> insert (pe_snapshot p) (set (timeline h))"
    by (auto simp: timeline_def commit_def)
  ultimately have "hist_plain (snd (commit h p))" using h(2) by (auto simp: hist_plain_alt)
  with commit_ok [OF h(1) e(1) p] show ?thesis by (simp add: hist_good_def)
qed

lemma restored_markers [simp]: "s_markers (fst (restamp h d a)) = s_markers d"
  by (simp add: restamp_def Let_def split: prod.splits)

lemma undo_good: "hist_good h \<Longrightarrow> hist_good (snd (history_undo h))"
proof -
  assume g: "hist_good h"
  show ?thesis
  proof (cases "h_undo h" rule: rev_cases)
    case Nil
    with g show ?thesis by (simp add: history_undo_def)
  next
    case (snoc us e)
    have "hist_plain (snd (history_undo h))"
      using g unfolding history_undo_eq [OF snoc] hist_good_def hist_plain_alt
      by (auto simp: timeline_def restored_def snoc)
    moreover have "hist_ok (snd (history_undo h))" using undo_ok g snoc by (auto simp: hist_good_def)
    ultimately show ?thesis by (simp add: hist_good_def)
  qed
qed

lemma redo_good: "hist_good h \<Longrightarrow> hist_good (snd (history_redo h))"
proof -
  assume g: "hist_good h"
  show ?thesis
  proof (cases "h_redo h" rule: rev_cases)
    case Nil
    with g show ?thesis by (simp add: history_redo_def)
  next
    case (snoc us e)
    have "hist_plain (snd (history_redo h))"
      using g unfolding history_redo_eq [OF snoc] hist_good_def hist_plain_alt
      by (auto simp: timeline_def restored_def snoc)
    moreover have "hist_ok (snd (history_redo h))" using redo_ok g snoc by (auto simp: hist_good_def)
    ultimately show ?thesis by (simp add: hist_good_def)
  qed
qed

lemma drop_good: "hist_good h \<Longrightarrow> hist_good (snd (drop_oldest_undo h n))"
  using hist_ok_drop [of h n "fst (drop_oldest_undo h n)" "snd (drop_oldest_undo h n)"]
  by (auto simp: hist_good_def hist_plain_alt timeline_def drop_oldest_undo_def Let_def dest: in_set_dropD)

lemma saved_good [simp]: "hist_good (mark_saved_at h q) = hist_good h"
  by (simp add: hist_good_def hist_plain_alt timeline_def mark_saved_at_def hist_ok_def tl_entries_def snap_bounded_def)

lemma alloc_good: "hist_good h \<Longrightarrow> hist_good (snd (allocate_marker_id h))"
  using hist_ok_alloc [of h]
  by (auto simp: hist_good_def hist_plain_alt timeline_def allocate_marker_id_def)

lemma floor_good: "0 < h_next_seq h \<Longrightarrow> doc_ok flr \<Longrightarrow> markers_plain (s_markers flr) \<Longrightarrow> hist_good (rebased h flr)"
  using hist_ok_floor [of h flr] by (simp add: hist_good_def hist_plain_alt timeline_def rebased_def)

section \<open>Operations of a session\<close>

definition session_good :: "('v, 'j) session \<Rightarrow> bool" where
  "session_good s \<longleftrightarrow> hist_good (ss_history s) \<and> (\<forall>m \<in> set (ss_markers s). kind_plain m \<and> m_id m < u64_max)"

lemma session_good_simps [simp]:
  "session_good (s\<lparr>ss_journal := j\<rparr>) = session_good s" "session_good (s\<lparr>ss_store := st\<rparr>) = session_good s"
  "session_good (s\<lparr>ss_next_take := n\<rparr>) = session_good s" "session_good (s\<lparr>ss_open := x\<rparr>) = session_good s"
  "session_good (s\<lparr>ss_last_saved := r\<rparr>) = session_good s" "session_good (s\<lparr>ss_last_state := r\<rparr>) = session_good s"
  "session_good (s\<lparr>ss_journaled := js\<rparr>) = session_good s"
  by (simp_all add: session_good_def)

lemma session_good_close [simp]: "session_good s \<Longrightarrow> session_good (close_open s)"
  "session_good s \<Longrightarrow> session_good (s\<lparr>ss_open := x, ss_markers := []\<rparr>)"
  by (simp_all add: session_good_def close_open_def)

lemma session_good_history: "session_good s \<Longrightarrow> hist_good h \<Longrightarrow> session_good (s\<lparr>ss_history := h\<rparr>)"
  by (simp add: session_good_def)

lemma good_D: "session_good s \<Longrightarrow> hist_good (ss_history s)"
  by (simp add: session_good_def)

lemma write_log_good: "write_log ap rs s = (r, s') \<Longrightarrow> session_good s \<Longrightarrow> session_good s'"
  and write_log_keeps: "write_log ap rs s = (r, s') \<Longrightarrow> ss_history s' = ss_history s \<and> ss_markers s' = ss_markers s \<and> ss_store s' = ss_store s"
  by (auto simp: write_log_def split: prod.splits)

lemma commit_internal_good:
  assumes g: "session_good s" and e: "edit_typed e" "\<forall>op \<in> set (e_marker_ops e). marker_op_plain op"
    and c: "commit_internal ap env e tk s = (r, s')"
  shows "session_good s'"
proof -
  define locs where "locs = unjournaled_chunks s (concat (map op_pieces (e_ops e)))"
  show ?thesis
  proof (cases "(\<exists>err. validate_op_refs (ss_store s) (e_ops e) = Inl err) \<or> (\<exists>err. prepare (ss_history s) e = Inl err)")
    case True
    then have "s' = s" using c by (auto simp: commit_internal_def split: sum.splits)
    with g show ?thesis by simp
  next
    case False
    then obtain p where v: "validate_op_refs (ss_store s) (e_ops e) = Inr ()" and p: "prepare (ss_history s) e = Inr p"
      by (metis old.sum.exhaust old.unit.exhaust)
    obtain r1 s1 where y: "sync_new env locs s = (r1, s1)" by fastforce
    have s1: "session_good s1" "ss_history s1 = ss_history s"
      using y g by (auto simp: sync_new_def sync_session_def split: if_splits prod.splits)
    define rec :: "'a journal_record" where "rec = JEdit ((from_edit (pe_seq p) e (map_option fst tk))\<lparr>er_take_wav := Option.bind tk snd\<rparr>)"
    obtain r2 s2 where w: "write_log ap (chunk_records locs @ [rec]) s1 = (r2, s2)" by fastforce
    note k = write_log_good [OF w s1(1)] write_log_keeps [OF w]
    have "session_good (s2\<lparr>ss_history := snd (commit (ss_history s2) p)\<rparr>)"
      using commit_good [OF good_D [OF g] e p] k s1(2) by (intro session_good_history) simp_all
    then have "session_good (s2\<lparr>ss_journaled := js, ss_history := snd (commit (ss_history s2) p)\<rparr>)" for js
      by (simp add: session_good_def)
    then show ?thesis
      using c v p y w s1 k(1)
      by (cases r1; cases r2) (auto simp: commit_internal_def locs_def [symmetric] rec_def Let_def split: prod.splits)
  qed
qed

lemma markers_edit: "edit_typed (edit_marker (edit_new l) (MAdd m)) \<longleftrightarrow> m_id m < u64_max"
  "e_marker_ops (edit_marker (edit_new l) (MAdd m)) = [MAdd m]"
  by (auto simp: edit_marker_def edit_new_def edit_typed_def)

lemma cancelled_marker_simps [simp]: "m_id (cancelled_marker len m) = m_id m" "kind_plain (cancelled_marker len m) = kind_plain m"
  by (simp_all add: cancelled_marker_def Let_def kind_plain_def)

lemma place_marker_simps [simp]: "m_id (place_take_marker plan d n m) = m_id m" "kind_plain (place_take_marker plan d n m) = kind_plain m"
  by (simp_all add: place_take_marker_def Let_def kind_plain_def split: prod.splits)

lemma commit_markers_good:
  "session_good s \<Longrightarrow> \<forall>m \<in> set ms. kind_plain m \<and> m_id m < u64_max \<Longrightarrow> commit_markers ap env len ms s = (r, s') \<Longrightarrow> session_good s'"
proof (induction ms arbitrary: s)
  case (Cons m ms)
  obtain r1 s1 where c: "commit_internal ap env (edit_marker (edit_new ''history.marker_add'') (MAdd (cancelled_marker len m))) None s = (r1, s1)"
    by fastforce
  have "session_good s1" by (rule commit_internal_good [OF Cons.prems(1) _ _ c]) (use Cons.prems(2) in \<open>simp_all add: markers_edit\<close>)
  with Cons c show ?case by (auto split: sum.splits)
qed simp

lemma cancel_good:
  assumes g: "session_good s" and c: "cancel_take ap env tk s = (r, s')"
  shows "session_good s'"
proof -
  obtain r1 s1 where k: "close_cancelled_take ap tk s = (r1, s1)" by fastforce
  have "session_good s1 \<and> (\<forall>ms. r1 = Inr ms \<longrightarrow> ms = ss_markers s)"
    using k g by (auto simp: close_cancelled_take_def write_log_def split: option.splits sum.splits prod.splits)
  with c k g show ?thesis
    by (cases r1) (auto simp: cancel_take_def session_good_def [of s] intro: commit_markers_good)
qed

lemma marker_ops_added: "e_marker_ops (add_marker_ops e xs) = e_marker_ops e @ xs" "e_ops (add_marker_ops e xs) = e_ops e"
  unfolding add_marker_ops_def by (induction xs arbitrary: e) (simp_all add: edit_marker_def)

lemma take_ops_typed:
  assumes "session_good s" "\<forall>m \<in> set extra. kind_plain m \<and> m_id m < u64_max"
  shows "\<forall>op \<in> set (take_marker_ops s plan n extra). marker_op_typed op \<and> marker_op_plain op"
  using assms by (auto simp: take_marker_ops_def session_good_def)

lemma take_commit_good:
  assumes g: "session_good s" and ms: "\<forall>m \<in> set extra. kind_plain m \<and> m_id m < u64_max"
    and e: "e_marker_ops e = []" "\<forall>op \<in> set (e_ops e). op_typed op"
    and c: "commit_internal ap env (add_marker_ops e (take_marker_ops s plan n extra)) tk s = (r, s')"
  shows "session_good s' \<and> session_good (close_open s')"
proof -
  have "session_good s'"
    using take_ops_typed [OF g ms, of plan n] e
    by (intro commit_internal_good [OF g _ _ c]) (auto simp: edit_typed_def marker_ops_added)
  then show ?thesis by simp
qed

lemma ok_op_typed: "\<forall>p \<in> set ps. piece_ok p \<Longrightarrow> op_typed (Replace a r ps mp)"
  by (auto simp: op_typed_def piece_ok_len)

lemma replace_edits:
  "e_ops (edit_replace (edit_new l) a r ps) = [Replace a r ps Shift]" "e_marker_ops (edit_replace (edit_new l) a r ps) = []"
  "e_ops (edit_replace_with (edit_new l) a r ps mp) = [Replace a r ps mp]" "e_marker_ops (edit_replace_with (edit_new l) a r ps mp) = []"
  "e_ops (edit_new l) = []" "e_marker_ops (edit_new l) = []"
  by (simp_all add: edit_replace_def edit_replace_with_def edit_new_def)

lemma commit_take_good:
  assumes g: "session_good s" and ps: "\<forall>p \<in> set (wa_pieces (ft_audio f)). piece_ok p"
    and ms: "\<forall>m \<in> set markers. kind_plain m \<and> m_id m < u64_max"
    and c: "commit_take ap env f markers s = (r, s')"
  shows "session_good s'"
proof (cases "the_take s (ft_take f)")
  case (Some plan)
  let ?len = "wa_len (ft_audio f)"
  let ?none = "ft_wav_samples f = 0 \<and> ?len = 0 \<and> markers = [] \<and> ss_markers s = []"
  let ?e1 = "if ?len > 0 then edit_replace (edit_new ''history.record'') (tp_at plan) 0 (wa_pieces (ft_audio f))
    else edit_new ''history.record''"
  let ?w = "if ft_wav_samples f > ?len then Some (ft_wav_samples f) else None"
  obtain r1 s1 where w: "write_log ap [JTakeDiscard (ft_take f)] s = (r1, s1)" by fastforce
  obtain r2 s2 where e: "commit_internal ap env (add_marker_ops ?e1 (take_marker_ops s plan ?len markers))
    (Some (ft_take f, ?w)) s = (r2, s2)" by fastforce
  have 2: "session_good s2 \<and> session_good (close_open s2)"
    by (rule take_commit_good [OF g ms _ _ e]) (use ps in \<open>auto simp: replace_edits intro: ok_op_typed\<close>)
  from c Some have c': "(r, s') = (if ?none then (case r1 of Inl e \<Rightarrow> (Inl e, s1) | Inr _ \<Rightarrow> (Inr None, close_open s1))
      else if ?len = 0 \<and> ft_wav_samples f > 0 then (Inl (TakeNotInStore (ft_take f) (ft_wav_samples f)), s)
      else (case r2 of Inl e \<Rightarrow> (Inl e, s2) | Inr step \<Rightarrow> (Inr (Some step), close_open s2)))"
    unfolding commit_take_def by (simp only: option.case Let_def w e prod.case)
  show ?thesis
  proof (cases ?none)
    case True
    with c' write_log_good [OF w g] show ?thesis by (cases r1) simp_all
  next
    case False
    with c' 2 g show ?thesis by (cases r2) (auto split: if_splits)
  qed
qed (use g c in \<open>simp add: commit_take_def\<close>)

section \<open>The pieces of a take\<close>

lemma render_fade_pieces:
  assumes ok: "store_ok crc st" and r: "render_fade crc env mix doc p tk q n dir st = (r, st')"
  shows "store_ok crc st' \<and> (\<forall>ps. r = Inr ps \<longrightarrow> (\<forall>p \<in> set ps. piece_ok p))"
proof (cases "n = 0")
  case True
  with r ok show ?thesis by (auto simp: render_fade_def)
next
  case False
  have ok': "store_ok crc st'" using render_fade_evolves [OF r] ok by (simp add: evolves_def)
  show ?thesis
  proof (intro conjI allI impI ok')
    fix ps assume ps: "r = Inr ps"
    then obtain a st1 t st2 out where rd: "store_read crc env doc p n st = (Inr a, st1)" "store_read crc env tk q n st1 = (Inr t, st2)"
      and w: "(case writer_append (commit_chunk crc env) out (writer_new, st2) of
                         (Inl e, (_, st3)) \<Rightarrow> (Inl e, st3)
                       | (Inr _, ws) \<Rightarrow>
                           (case writer_finish (commit_chunk crc env) ws of
                              (Inl e, (_, st4)) \<Rightarrow> (Inl e, st4)
                            | (Inr wa, (_, st4)) \<Rightarrow> (Inr (wa_pieces wa), st4))) = (Inr ps, st')"
      using r False unfolding render_fade_def Let_def by (auto split: prod.splits sum.splits)
    have ok2: "store_ok crc st2"
      using store_read_evolves [OF rd(1)] store_read_evolves [OF rd(2)] ok by (simp add: evolves_def)
    from w obtain u ws wa ws2 where w1: "writer_append (commit_chunk crc env) out (writer_new, st2) = (Inr u, ws)"
      "writer_finish (commit_chunk crc env) ws = (Inr wa, ws2)" "ps = wa_pieces wa"
      by (auto split: prod.splits sum.splits)
    have "writer_append (commit_chunk crc env) out (writer_new, st2) = (Inr (), ws)" using w1(1) by simp
    from store_sink.append_ok [OF writer_new_ok [OF ok2] this] have "store_sink.writer_ok crc ws out" by simp
    from store_sink.finish_ok [OF this w1(2)] show "\<forall>p \<in> set ps. piece_ok p" by (simp add: w1(3))
  qed
qed

lemma faded_pieces_ok:
  assumes ok: "store_ok crc st" "snap_ok tk" and r: "faded_pieces crc env mix cur p tk ws n xs xe st = (Inr ps, st')"
  shows "\<forall>p \<in> set ps. piece_ok p"
proof -
  from r obtain ps1 st1 ps2 ps3 where a: "render_fade crc env mix cur p tk ws xs FadeIn st = (Inr ps1, st1)"
    "slice tk (ws + xs) (n - xs - xe) = Inr ps2"
    "render_fade crc env mix cur (p + n - xe) tk (ws + n - xe) xe FadeOut st1 = (Inr ps3, st')" "ps = ps1 @ ps2 @ ps3"
    unfolding faded_pieces_def by (auto split: prod.splits sum.splits)
  from render_fade_pieces [OF ok(1) a(1)] have 1: "store_ok crc st1" "\<forall>p \<in> set ps1. piece_ok p" by auto
  from render_fade_pieces [OF 1(1) a(3)] have "\<forall>p \<in> set ps3. piece_ok p" by auto
  with 1 slice_ok [OF ok(2) a(2)] show ?thesis by (auto simp: a(4))
qed

lemma build_take_edit_typed:
  assumes ok: "store_ok crc st" and ps: "\<forall>p \<in> set ps. piece_ok p"
    and b: "build_take_edit crc env mix rate cur plan ps window st = (Inr (Some e), st')"
  shows "e_marker_ops e = [] \<and> (\<forall>op \<in> set (e_ops e). op_typed op)"
proof -
  have tk: "snap_ok (snapshot_new rate ps [])"
    using snapshot_new_ok [OF ps, of "[]" rate] by (simp add: doc_ok_def)
  have f: "op_typed (Replace a r qs mp)" if "faded_pieces crc env mix cur p (snapshot_new rate ps []) ws n xs xe st = (Inr qs, st1)"
    for a r qs mp p ws n xs xe st1
    using faded_pieces_ok [OF ok tk that] by (rule ok_op_typed)
  have s: "op_typed (Replace a r qs mp)" if "slice (snapshot_new rate ps []) w n = Inr qs" for a r qs mp w n
    using slice_ok [OF tk that] by (rule ok_op_typed)
  from b show ?thesis
    unfolding build_take_edit_def Let_def
    by (auto simp: replace_edits split: if_splits prod.splits sum.splits take_mode_record.splits dest: f s)
qed

lemma build_good:
  assumes g: "session_good s" and ok: "store_ok crc (ss_store s)" and ps: "\<forall>p \<in> set ps. piece_ok p"
    and b: "build_edit crc env mix plan ps window s = (r, s')"
  shows "session_good s' \<and> ss_markers s' = ss_markers s \<and>
    (\<forall>e. r = Inr (Some e) \<longrightarrow> e_marker_ops e = [] \<and> (\<forall>op \<in> set (e_ops e). op_typed op))"
proof -
  obtain r1 st where k: "build_take_edit crc env mix (ss_rate s) (h_current (ss_history s)) plan ps window (ss_store s) = (r1, st)"
    by fastforce
  then have "s' = s\<lparr>ss_store := st\<rparr>" "r = r1" using b by (simp_all add: build_edit_def)
  with g build_take_edit_typed [OF ok ps, of env mix "ss_rate s" "h_current (ss_history s)" plan window _ st] k
  show ?thesis by auto
qed

lemma commit_window_good:
  assumes g: "session_good s" and ok: "store_ok crc (ss_store s)" and ps: "\<forall>p \<in> set (wa_pieces (ft_audio f)). piece_ok p"
    and ms: "\<forall>m \<in> set markers. kind_plain m \<and> m_id m < u64_max"
    and c: "commit_take_window ap crc env mix f window markers s = (r, s')"
  shows "session_good s'"
proof (cases "the_take s (ft_take f)")
  case (Some plan)
  let ?len = "wa_len (ft_audio f)"
  let ?w = "if ft_wav_samples f > ?len then Some (ft_wav_samples f) else None"
  obtain r1 s1 where b: "build_edit crc env mix plan (wa_pieces (ft_audio f)) window s = (r1, s1)" by fastforce
  note g1 = build_good [OF g ok ps b]
  show ?thesis
  proof (cases "?len = 0 \<and> ft_wav_samples f > 0")
    case True
    with c Some g show ?thesis by (auto simp: commit_take_window_def)
  next
    case False
    note eq = c [unfolded commit_take_window_def Some option.case Let_def b prod.case, simplified False if_False]
    show ?thesis
    proof (cases r1)
      case (Inl e)
      with eq g1 show ?thesis by simp
    next
      case (Inr o')
      show ?thesis
      proof (cases o')
        case None
        obtain r2 s2 where k: "cancel_take ap env (ft_take f) s1 = (r2, s2)" by fastforce
        from cancel_good [OF conjunct1 [OF g1] k] eq Inr None k show ?thesis by (cases r2) simp_all
      next
        case (Some e)
        obtain r2 s2 where k: "commit_internal ap env (add_marker_ops e (take_marker_ops s1 plan (window_len plan ?len window) markers))
          (Some (ft_take f, ?w)) s1 = (r2, s2)" by fastforce
        have "session_good s2 \<and> session_good (close_open s2)"
          by (rule take_commit_good [OF _ ms _ _ k]) (use g1 Inr Some in simp_all)
        with eq Inr Some k show ?thesis by (cases r2) (auto simp: Let_def)
      qed
    qed
  qed
qed (use g c in \<open>simp add: commit_take_window_def\<close>)

lemma copy_part_ok:
  "store_sink.writer_ok crc ws xs \<Longrightarrow> copy_part (commit_chunk crc env) t pos ws = (Inr u, ws') \<Longrightarrow>
   \<exists>ys. store_sink.writer_ok crc ws' ys"
proof (induction "commit_chunk crc env" t pos ws arbitrary: xs ws' rule: copy_part.induct)
  case (1 t pos ws)
  show ?case
  proof (cases "pos < rt_samples t \<and> read_take_samples t pos chunk_samples \<noteq> []")
    case True
    with 1(3) obtain ws1 where a: "writer_append (commit_chunk crc env) (read_take_samples t pos chunk_samples) ws = (Inr (), ws1)"
      and l: "copy_part (commit_chunk crc env) t (pos + length (read_take_samples t pos chunk_samples)) ws1 = (Inr u, ws')"
      by (auto simp: copy_part.simps [of _ t pos ws] Let_def split: prod.splits sum.splits)
    from store_sink.append_ok [OF 1(2) a] have "store_sink.writer_ok crc ws1 (xs @ read_take_samples t pos chunk_samples)" .
    with 1(1) [OF _ refl _ a [symmetric] refl _ l] True show ?thesis by blast
  qed (use 1(2,3) in \<open>auto simp: copy_part.simps [of _ t pos ws] Let_def split: if_splits\<close>)
qed

lemma copy_take_ok:
  "store_sink.writer_ok crc ws xs \<Longrightarrow> copy_take_into (commit_chunk crc env) ts ws = (Inr u, ws') \<Longrightarrow>
   \<exists>ys. store_sink.writer_ok crc ws' ys"
proof (induction ts arbitrary: ws xs)
  case (Cons t ts)
  from Cons.prems(2) obtain u1 ws1 where a: "copy_part (commit_chunk crc env) t 0 ws = (Inr u1, ws1)"
    "copy_take_into (commit_chunk crc env) ts ws1 = (Inr u, ws')" by (auto split: prod.splits sum.splits)
  from copy_part_ok [OF Cons.prems(1) a(1)] Cons.IH a(2) show ?case by blast
qed auto

lemma import_take_pieces:
  assumes ok: "store_ok crc st" and i: "import_take crc env parts st = (r, st')"
  shows "store_ok crc st' \<and> (\<forall>wa. r = Inr wa \<longrightarrow> (\<forall>p \<in> set (wa_pieces wa). piece_ok p))"
proof (intro conjI allI impI)
  show "store_ok crc st'" using import_take_evolves [OF i] ok by (simp add: evolves_def)
  fix wa assume "r = Inr wa"
  with i obtain u ws ws2 where a: "copy_take_into (commit_chunk crc env) parts (writer_new, st) = (Inr u, ws)"
    "writer_finish (commit_chunk crc env) ws = (Inr wa, ws2)"
    by (auto simp: import_take_def split: prod.splits sum.splits)
  from copy_take_ok [OF writer_new_ok [OF ok] a(1)] obtain ys where "store_sink.writer_ok crc ws ys" by blast
  from store_sink.finish_ok [OF this a(2)] show "\<forall>p \<in> set (wa_pieces wa). piece_ok p" by blast
qed

lemma apply_wav_good:
  assumes g: "session_good s" and ok: "store_ok crc (ss_store s)"
    and c: "apply_open_take_from_wav ap crc env mix parts_of s = (r, s')"
  shows "session_good s'"
proof (cases "(\<exists>tk plan parts. ss_open s = Some (tk, plan) \<and> parts_of tk = Inr parts)")
  case False
  with c g show ?thesis by (auto simp: apply_open_take_from_wav_def split: option.splits sum.splits)
next
  case True
  then obtain tk plan parts where o: "ss_open s = Some (tk, plan)" "parts_of tk = Inr parts" by blast
  obtain r1 st where i: "import_take crc env parts (ss_store s) = (r1, st)" by fastforce
  note ip = import_take_pieces [OF ok i]
  define s1 where "s1 = s\<lparr>ss_store := st\<rparr>"
  have g1: "session_good s1" "store_ok crc (ss_store s1)" using g ip by (simp_all add: s1_def)
  note eq = c [unfolded apply_open_take_from_wav_def o option.case prod.case sum.case i Let_def, folded s1_def]
  show ?thesis
  proof (cases r1)
    case (Inl e)
    with eq g1 show ?thesis by simp
  next
    case (Inr wa)
    with ip have ps: "\<forall>p \<in> set (wa_pieces wa). piece_ok p" by blast
    show ?thesis
    proof (cases "tp_k_start plan")
      case None
      obtain r2 s2 where k: "close_cancelled_take ap tk s1 = (r2, s2)" by fastforce
      have "session_good s2"
        using k g1(1) by (auto simp: close_cancelled_take_def write_log_def split: option.splits sum.splits prod.splits)
      with eq Inr None k show ?thesis by (cases r2) simp_all
    next
      case (Some kk)
      obtain r2 s2 where b: "build_edit crc env mix plan (wa_pieces wa) (kk, u64_max) s1 = (r2, s2)" by fastforce
      note g2 = build_good [OF g1 ps b]
      note eq2 = eq [unfolded Inr Some sum.case option.case b prod.case]
      show ?thesis
      proof (cases r2)
        case (Inl e)
        with eq2 g2 show ?thesis by simp
      next
        case (Inr o')
        show ?thesis
        proof (cases o')
          case None
          obtain r3 s3 where k: "write_log ap [JTakeDiscard tk] s2 = (r3, s3)" by fastforce
          from write_log_good [OF k conjunct1 [OF g2]] eq2 Inr None k show ?thesis by (cases r3) auto
        next
          case (Some e)
          obtain r3 s3 where k: "commit_internal ap env (add_marker_ops e (take_marker_ops s2 plan (window_len plan (pieces_len (wa_pieces wa)) (kk, u64_max)) []))
            (Some (tk, None)) s2 = (r3, s3)" by fastforce
          have "session_good s3 \<and> session_good (close_open s3)"
            by (rule take_commit_good [OF _ _ _ _ k]) (use g2 Inr Some in simp_all)
          with eq2 Inr Some k show ?thesis by (cases r3) simp_all
        qed
      qed
    qed
  qed
qed

section \<open>The other operations\<close>

lemma history_ops_good:
  assumes "session_good s"
  shows "session_undo ap s = (r1, s') \<Longrightarrow> session_good s'" "session_redo ap s = (r1, s') \<Longrightarrow> session_good s'"
    "session_drop_undo ap n s = (r2, s') \<Longrightarrow> session_good s'" "new_marker_id s = (i, s') \<Longrightarrow> session_good s'"
    "mark_saved_file_at ap q path fmt sm sidecar facts s = (r3, s') \<Longrightarrow> session_good s'"
    "append_state ap v s = (r3, s') \<Longrightarrow> session_good s'"
proof -
  have h: "session_good (t\<lparr>ss_history := snd (history_undo (ss_history t))\<rparr>)"
    "session_good (t\<lparr>ss_history := snd (history_redo (ss_history t))\<rparr>)"
    "session_good (t\<lparr>ss_history := snd (drop_oldest_undo (ss_history t) k)\<rparr>)"
    "session_good (t\<lparr>ss_history := mark_saved_at (ss_history t) q\<rparr>)"
    "session_good (t\<lparr>ss_history := snd (allocate_marker_id (ss_history t))\<rparr>)" if "session_good t" for t :: "('a, 'b) session" and k q
    using that good_D [OF that] undo_good redo_good drop_good alloc_good by (auto intro!: session_good_history)
  note w = write_log_good [OF _ assms]
  show "session_undo ap s = (r1, s') \<Longrightarrow> session_good s'"
    using assms h(1) w by (auto simp: session_undo_def Let_def split: if_splits option.splits prod.splits sum.splits) (metis snd_conv)+
  show "session_redo ap s = (r1, s') \<Longrightarrow> session_good s'"
    using assms h(2) w by (auto simp: session_redo_def Let_def split: if_splits option.splits prod.splits sum.splits) (metis snd_conv)+
  show "session_drop_undo ap n s = (r2, s') \<Longrightarrow> session_good s'"
    using assms h(3) w by (auto simp: session_drop_undo_def Let_def split: if_splits option.splits prod.splits sum.splits) (metis snd_conv)+
  show "new_marker_id s = (i, s') \<Longrightarrow> session_good s'"
    using assms h(5) by (auto simp: new_marker_id_def Let_def split: prod.splits) (metis snd_conv)
  show "mark_saved_file_at ap q path fmt sm sidecar facts s = (r3, s') \<Longrightarrow> session_good s'"
    using assms h(4) w by (auto simp: mark_saved_file_at_def Let_def split: prod.splits sum.splits)
  show "append_state ap v s = (r3, s') \<Longrightarrow> session_good s'"
    using assms w by (auto simp: append_state_def split: prod.splits sum.splits)
qed

lemma take_ops_good:
  assumes "session_good s"
  shows "begin_take_with ap te now mode params options s = (r1, s') \<Longrightarrow> session_good s'"
    "note_take_window ap tk k s = (r2, s') \<Longrightarrow> session_good s'"
    "note_take_marker ap tk m s = (r2, s') \<Longrightarrow> kind_plain m \<Longrightarrow> m_id m < u64_max \<Longrightarrow> session_good s'"
    "discard_take ap tk s = (r2, s') \<Longrightarrow> session_good s'"
proof -
  note w = write_log_good [OF _ assms]
  show "note_take_window ap tk k s = (r2, s') \<Longrightarrow> session_good s'"
    using assms w by (auto simp: note_take_window_def split: option.splits if_splits prod.splits sum.splits)
  show "discard_take ap tk s = (r2, s') \<Longrightarrow> session_good s'"
    using assms w by (auto simp: discard_take_def split: option.splits prod.splits sum.splits)
  show "note_take_marker ap tk m s = (r2, s') \<Longrightarrow> kind_plain m \<Longrightarrow> m_id m < u64_max \<Longrightarrow> session_good s'"
    using assms w
    by (auto simp: note_take_marker_def session_good_def split: option.splits prod.splits sum.splits dest!: write_log_keeps)
  show "begin_take_with ap te now mode params options s = (r1, s') \<Longrightarrow> session_good s'"
  proof (cases "ss_open s \<noteq> None \<or> (\<exists>e. plan_position mode (s_len (h_current (ss_history s))) = Inl e)")
    case True
    then show "begin_take_with ap te now mode params options s = (r1, s') \<Longrightarrow> session_good s'"
      using assms by (auto simp: begin_take_with_def split: if_splits)
  next
    case False
    then obtain pos md ln where p: "plan_position mode (s_len (h_current (ss_history s))) = Inr (pos, md, ln)" "ss_open s = None"
      by (metis prod_cases3 sum.exhaust)
    have k: "session_good (snd (write_log ap rs t))" if "session_good t" for rs and t :: "('a, 'b) session"
      using write_log_good [OF _ that, of ap rs "fst (write_log ap rs t)" "snd (write_log ap rs t)"] by simp
    assume "begin_take_with ap te now mode params options s = (r1, s')"
    then show "session_good s'"
      using w by (auto simp: begin_take_with_def p Let_def k split: prod.splits sum.splits)
  qed
qed

lemma set_floor_good:
  assumes g: "session_good s" and ps: "\<forall>p \<in> set (wa_pieces wa). piece_ok p"
    and ms: "distinct (map m_id markers)" "\<forall>m \<in> set markers. kind_plain m"
    and c: "set_floor ap env wa markers s = (r, s')"
  shows "session_good s'"
proof -
  define flr where "flr = snapshot_new (ss_rate s) (wa_pieces wa) markers"
  define locs where "locs = unjournaled_chunks s (wa_pieces wa)"
  define h where "h = rebased (ss_history s) flr"
  note c' = c [unfolded set_floor_def, folded flr_def, folded locs_def h_def, folded locs_def h_def]
  show ?thesis
  proof (cases "ss_open s \<noteq> None \<or> undo_depth (ss_history s) > 0 \<or> redo_depth (ss_history s) > 0 \<or>
      (\<exists>e. validate_piece_refs (ss_store s) (wa_pieces wa) = Inl e) \<or> (\<exists>e. check_markers (s_markers flr) (s_len flr) = Inl e)")
    case True
    then have "s' = s" using c' by (auto simp: Let_def flr_def [symmetric] split: if_splits sum.splits)
    with g show ?thesis by simp
  next
    case False
    then have o: "ss_open s = None" by blast
    from False have ud: "undo_depth (ss_history s) = 0" "redo_depth (ss_history s) = 0" by simp_all
    from False have v: "validate_piece_refs (ss_store s) (wa_pieces wa) = Inr ()"
      by (cases "validate_piece_refs (ss_store s) (wa_pieces wa)") auto
    from False have cm: "check_markers (s_markers flr) (s_len flr) = Inr ()"
      by (cases "check_markers (s_markers flr) (s_len flr)") auto
    obtain r1 s1 where y: "sync_new env locs s = (r1, s1)" by fastforce
    have s1: "session_good s1"
      using y g by (auto simp: sync_new_def sync_session_def split: if_splits prod.splits)
    have "doc_ok flr" unfolding flr_def by (rule floor_doc_ok [OF ps ms(1)]) (use cm in \<open>simp add: flr_def\<close>)
    moreover have "0 < h_next_seq (ss_history s)" using good_D [OF g] by (simp add: hist_good_def hist_ok_def)
    moreover have "markers_plain (s_markers flr)" using ms(2) by (simp add: flr_def snapshot_new_def from_normalized_simps markers_plain_def)
    ultimately have hg: "hist_good h" unfolding h_def by (intro floor_good)
    note c2 = c' [unfolded Let_def, folded flr_def, folded locs_def h_def]
    show ?thesis
    proof (cases r1)
      case (Inl err)
      then have "s' = s1" using c2 o v cm ud y by simp
      with s1 show ?thesis by simp
    next
      case (Inr u)
      obtain r2 s2 where w: "write_log ap (chunk_records locs @ [JCheckpoint (from_history h (journaled_index s1 locs))]) s1 = (r2, s2)"
        by fastforce
      have res: "s' = (case r2 of Inl _ \<Rightarrow> s2 | Inr _ \<Rightarrow> s2\<lparr>ss_journaled := mark_all_journaled (ss_journaled s2) locs, ss_history := h\<rparr>)"
        using c2 o v cm ud y Inr w by (cases r2) (simp_all add: journaled_index_def)
      from write_log_good [OF w s1] hg show ?thesis unfolding res by (cases r2) (simp_all add: session_good_def)
    qed
  qed
qed

lemma create_good: "session_create ap j0 before after rate src budget = Inr s \<Longrightarrow> session_good s"
proof -
  assume c: "session_create ap j0 before after rate src budget = Inr s"
  have dk: "doc_ok (snapshot_empty rate)" by (simp add: snapshot_empty_def) (rule snapshot_new_ok; simp)
  have "hist_good (history_new (snapshot_empty rate))"
    using hist_ok_new [OF dk] by (simp add: hist_good_def hist_plain_def timeline_def history_new_def snapshot_empty_def snapshot_new_def)
  with c show ?thesis
    by (auto simp: session_create_def Let_def session_good_def split: if_splits option.splits prod.splits sum.splits)
qed

section \<open>What an operation does to the store\<close>

text \<open>The store evolves and the generation stays.\<close>

definition moves :: "(byte list \<Rightarrow> 32 word) \<Rightarrow> ('v, 'j) session \<Rightarrow> ('v, 'j) session \<Rightarrow> bool" where
  "moves crc s s' \<longleftrightarrow> evolves crc (ss_store s) (ss_store s') \<and> ss_generation s' = ss_generation s"

lemma moves_refl [simp]: "moves crc s s"
  by (simp add: moves_def)

lemma moves_trans: "moves crc s t \<Longrightarrow> moves crc t u \<Longrightarrow> moves crc s u"
  by (auto simp: moves_def intro: evolves_trans)

lemma moves_simps [simp]:
  "moves crc s (t\<lparr>ss_journal := j\<rparr>) = moves crc s t" "moves crc s (t\<lparr>ss_history := h\<rparr>) = moves crc s t"
  "moves crc s (t\<lparr>ss_open := x\<rparr>) = moves crc s t" "moves crc s (t\<lparr>ss_markers := ms\<rparr>) = moves crc s t"
  "moves crc s (t\<lparr>ss_open := x, ss_markers := ms\<rparr>) = moves crc s t"
  "moves crc s (t\<lparr>ss_next_take := n\<rparr>) = moves crc s t" "moves crc s (t\<lparr>ss_last_saved := a\<rparr>) = moves crc s t"
  "moves crc s (t\<lparr>ss_last_state := a\<rparr>) = moves crc s t" "moves crc s (t\<lparr>ss_journaled := js\<rparr>) = moves crc s t"
  "moves crc s (t\<lparr>ss_journaled := js, ss_history := h\<rparr>) = moves crc s t"
  "moves crc s (t\<lparr>ss_history := h, ss_last_saved := a\<rparr>) = moves crc s t"
  "moves crc s (close_open t) = moves crc s t"
  by (simp_all add: moves_def close_open_def)

lemma write_log_moves: "write_log ap rs s = (r, s') \<Longrightarrow> moves crc s s'"
  by (auto simp: write_log_def split: prod.splits)

lemma sync_evolves:
  assumes "sync_store env st = (r, st')"
  shows "evolves crc st st'"
  unfolding evolves_def
proof
  assume ok: "store_ok crc st"
  have "chunk_data st' = chunk_data st" using sync_spec [OF ok assms, of "{#}"] by (cases r) simp_all
  with sync_keeps [OF ok assms] show "store_ok crc st' \<and> keeps st st' \<and> (all_finite st \<longrightarrow> all_finite st')"
    using finite_same by blast
qed

lemma sync_new_moves: "sync_new env locs s = (r, s') \<Longrightarrow> moves crc s s'"
  by (auto simp: sync_new_def sync_session_def moves_def split: if_splits prod.splits dest: sync_evolves)

lemma commit_internal_moves: "commit_internal ap env e tk s = (r, s') \<Longrightarrow> moves crc s s'"
proof -
  assume c: "commit_internal ap env e tk s = (r, s')"
  define locs where "locs = unjournaled_chunks s (concat (map op_pieces (e_ops e)))"
  show ?thesis
  proof (cases "(\<exists>err. validate_op_refs (ss_store s) (e_ops e) = Inl err) \<or> (\<exists>err. prepare (ss_history s) e = Inl err)")
    case True
    then show ?thesis using c by (auto simp: commit_internal_def split: sum.splits)
  next
    case False
    then obtain p where v: "validate_op_refs (ss_store s) (e_ops e) = Inr ()" and p: "prepare (ss_history s) e = Inr p"
      by (metis old.sum.exhaust old.unit.exhaust)
    obtain r1 s1 where y: "sync_new env locs s = (r1, s1)" by fastforce
    obtain r2 s2 where w: "write_log ap (chunk_records locs @ [JEdit ((from_edit (pe_seq p) e (map_option fst tk))\<lparr>er_take_wav := Option.bind tk snd\<rparr>)]) s1 = (r2, s2)"
      by fastforce
    have "moves crc s s2" using moves_trans [OF sync_new_moves [OF y] write_log_moves [OF w]] .
    with sync_new_moves [OF y] c v p y w show ?thesis
      by (cases r1; cases r2) (auto simp: commit_internal_def locs_def [symmetric] Let_def split: prod.splits)
  qed
qed

lemma commit_edit_moves: "commit_edit ap env e s = (r, s') \<Longrightarrow> moves crc s s'"
  by (auto simp: commit_edit_def split: if_splits intro: commit_internal_moves)

lemma set_floor_moves: "set_floor ap env wa markers s = (r, s') \<Longrightarrow> moves crc s s'"
  unfolding set_floor_def Let_def
  by (auto split: if_splits sum.splits prod.splits dest!: write_log_moves [where crc = crc] sync_new_moves [where crc = crc]
      intro: moves_trans)

lemma simple_moves:
  "session_undo ap s = (r1, s') \<Longrightarrow> moves crc s s'" "session_redo ap s = (r1, s') \<Longrightarrow> moves crc s s'"
  "session_drop_undo ap n s = (r2, s') \<Longrightarrow> moves crc s s'" "new_marker_id s = (i, s') \<Longrightarrow> moves crc s s'"
  "mark_saved_file_at ap q path fmt sm sidecar facts s = (r3, s') \<Longrightarrow> moves crc s s'"
  "append_state ap v s = (r3, s') \<Longrightarrow> moves crc s s'" "note_take_window ap tk k s = (r3, s') \<Longrightarrow> moves crc s s'"
  "note_take_marker ap tk m s = (r3, s') \<Longrightarrow> moves crc s s'" "discard_take ap tk s = (r3, s') \<Longrightarrow> moves crc s s'"
  "close_cancelled_take ap tk s = (r4, s') \<Longrightarrow> moves crc s s'"
  unfolding session_undo_def session_redo_def session_drop_undo_def new_marker_id_def mark_saved_file_at_def append_state_def
    note_take_window_def note_take_marker_def discard_take_def close_cancelled_take_def Let_def
  by (auto split: if_splits option.splits sum.splits prod.splits dest!: write_log_moves [where crc = crc])

lemma begin_moves: "begin_take_with ap te now mode params options s = (r, s') \<Longrightarrow> moves crc s s'"
proof -
  have k: "moves crc s (snd (write_log ap rs t))" if "moves crc s t" for rs and t :: "('a, 'b) session"
    using moves_trans [OF that write_log_moves [of ap rs t "fst (write_log ap rs t)" "snd (write_log ap rs t)"]] by simp
  assume "begin_take_with ap te now mode params options s = (r, s')"
  then show ?thesis
    unfolding begin_take_with_def Let_def
    by (auto split: if_splits option.splits sum.splits prod.splits dest!: write_log_moves [where crc = crc] intro!: k)
qed

lemma commit_markers_moves: "commit_markers ap env len ms s = (r, s') \<Longrightarrow> moves crc s s'"
proof (induction ms arbitrary: s)
  case (Cons m ms)
  then show ?case
    by (auto split: prod.splits sum.splits dest!: commit_internal_moves [where crc = crc] intro: moves_trans)
qed simp

lemma cancel_moves: "cancel_take ap env tk s = (r, s') \<Longrightarrow> moves crc s s'"
  unfolding cancel_take_def
  by (auto split: prod.splits sum.splits dest!: commit_markers_moves [where crc = crc] simple_moves(10) [where crc = crc]
      intro: moves_trans)

lemma commit_take_moves: "commit_take ap env f markers s = (r, s') \<Longrightarrow> moves crc s s'"
  unfolding commit_take_def Let_def
  by (auto split: option.splits if_splits prod.splits sum.splits dest!: commit_internal_moves [where crc = crc]
      write_log_moves [where crc = crc])

lemma build_moves: "build_edit crc env mix plan ps window s = (r, s') \<Longrightarrow> moves crc s s'"
  by (auto simp: build_edit_def moves_def split: prod.splits dest: build_take_edit_evolves)

lemma commit_window_moves: "commit_take_window ap crc env mix f window markers s = (r, s') \<Longrightarrow> moves crc s s'"
  unfolding commit_take_window_def Let_def
  by (auto split: option.splits if_splits prod.splits sum.splits dest!: build_moves commit_internal_moves [where crc = crc]
      cancel_moves [where crc = crc] intro: moves_trans)

lemma apply_wav_moves:
  assumes c: "apply_open_take_from_wav ap crc env mix parts_of s = (r, s')"
  shows "moves crc s s'"
proof (cases "(\<exists>tk plan parts. ss_open s = Some (tk, plan) \<and> parts_of tk = Inr parts)")
  case False
  with c show ?thesis by (auto simp: apply_open_take_from_wav_def split: option.splits sum.splits)
next
  case True
  then obtain tk plan parts where o: "ss_open s = Some (tk, plan)" "parts_of tk = Inr parts" by blast
  obtain r1 st where i: "import_take crc env parts (ss_store s) = (r1, st)" by fastforce
  define s1 where "s1 = s\<lparr>ss_store := st\<rparr>"
  have m1: "moves crc s s1" using import_take_evolves [OF i] by (simp add: s1_def moves_def)
  note eq = c [unfolded apply_open_take_from_wav_def o option.case prod.case sum.case i Let_def, folded s1_def]
  show ?thesis
  proof (cases r1)
    case (Inl e)
    with eq m1 show ?thesis by simp
  next
    case (Inr wa)
    show ?thesis
    proof (cases "tp_k_start plan")
      case None
      obtain r2 s2 where k: "close_cancelled_take ap tk s1 = (r2, s2)" by fastforce
      from moves_trans [OF m1 simple_moves(10) [OF k]] eq Inr None k show ?thesis by (cases r2) simp_all
    next
      case (Some kk)
      obtain r2 s2 where b: "build_edit crc env mix plan (wa_pieces wa) (kk, u64_max) s1 = (r2, s2)" by fastforce
      note m2 = moves_trans [OF m1 build_moves [OF b]]
      note eq2 = eq [unfolded Inr Some sum.case option.case b prod.case]
      show ?thesis
      proof (cases r2)
        case (Inl e)
        with eq2 m2 show ?thesis by simp
      next
        case (Inr o')
        show ?thesis
        proof (cases o')
          case None
          obtain r3 s3 where k: "write_log ap [JTakeDiscard tk] s2 = (r3, s3)" by fastforce
          from moves_trans [OF m2 write_log_moves [OF k]] eq2 Inr None k show ?thesis by (cases r3) auto
        next
          case (Some e)
          obtain r3 s3 where k: "commit_internal ap env (add_marker_ops e (take_marker_ops s2 plan (window_len plan (pieces_len (wa_pieces wa)) (kk, u64_max)) []))
            (Some (tk, None)) s2 = (r3, s3)" by fastforce
          from moves_trans [OF m2 commit_internal_moves [OF k]] eq2 Inr Some k show ?thesis by (cases r3) auto
        qed
      qed
    qed
  qed
qed

end
