(* ===== verification/Compaction.thy ===== *)
theory Compaction
  imports Session_Hist
begin

text \<open>
  Compaction by generation: \<^verbatim>\<open>crates/project/src/budget.rs\<close>, \<open>begin_compact\<close>, \<open>copy_chunks\<close>,
  \<open>finish_compact\<close> and \<open>compact\<close>.

  The live chunks are copied, ids kept, into an empty store; a new journal starts with the open record,
  the last save and view state and a checkpoint; \<^verbatim>\<open>meta.json\<close> switches to the new generation.  \<open>j0\<close> is
  the journal \<open>Journal::create\<close> makes and \<open>reopen\<close> is \<open>Journal::open_append\<close>.  \<open>Arc::ptr_eq\<close> on the old
  store is equality of the generation it belongs to.  The generation \<^verbatim>\<open>meta.json\<close> names is the second
  part of the state.  Removing the files of a generation is not modelled.
\<close>

section \<open>Copying\<close>

record compact_env =
  cx_create :: "project_error option"
  cx_journal :: "project_error option"
  cx_meta :: "(project_error \<times> bool) option"

record prepared_compaction =
  pc_old :: nat
  pc_store :: store
  pc_live :: "nat list"
  pc_generation :: nat

fun copy_live_chunks ::
    "(byte list \<Rightarrow> 32 word) \<Rightarrow> store_env \<Rightarrow> store_env \<Rightarrow> nat list \<Rightarrow> (store \<times> store, chunk_location list) op" where
  "copy_live_chunks crc re we [] s = (Inr [], s)"
| "copy_live_chunks crc re we (i # is) (old, new) =
     (case location old i of
        None \<Rightarrow> (Inl (UnknownChunk i), (old, new))
      | Some loc \<Rightarrow>
          (case read_chunk crc re i 0 (loc_len loc) old of
             (Inl e, old1) \<Rightarrow> (Inl e, (old1, new))
           | (Inr samples, old1) \<Rightarrow>
               (case commit_chunk_with_id crc we i samples new of
                  (Inl e, new1) \<Rightarrow> (Inl e, (old1, new1))
                | (Inr l, new1) \<Rightarrow>
                    (case copy_live_chunks crc re we is (old1, new1) of
                       (Inl e, s2) \<Rightarrow> (Inl e, s2)
                     | (Inr ls, s2) \<Rightarrow> (Inr (l # ls), s2)))))"

definition begin_compact :: "compact_env \<Rightarrow> piece list \<Rightarrow> ('v, 'j) session \<Rightarrow> project_error + prepared_compaction" where
  "begin_compact cx extra s =
     (if ss_open s \<noteq> None then Inl NotWhileRecording
      else case cx_create cx of
             Some e \<Rightarrow> Inl e
           | None \<Rightarrow>
               Inr \<lparr>pc_old = ss_generation s, pc_store = store_create (st_budget (ss_store s)),
                    pc_live = live_chunk_ids (ss_history s) extra, pc_generation = ss_generation s + 1\<rparr>)"

text \<open>The copy reads the session's store and fills the prepared one.\<close>

definition copy_chunks ::
    "(byte list \<Rightarrow> 32 word) \<Rightarrow> store_env \<Rightarrow> store_env \<Rightarrow> (('v, 'j) session \<times> prepared_compaction, chunk_location list) op" where
  "copy_chunks crc re we sp =
     (case sp of (s, pc) \<Rightarrow>
        (case copy_live_chunks crc re we (pc_live pc) (ss_store s, pc_store pc) of
           (r, (old, new)) \<Rightarrow> (r, (s\<lparr>ss_store := old\<rparr>, pc\<lparr>pc_store := new\<rparr>))))"

section \<open>The switch\<close>

definition switch_records :: "('v, 'j) session \<Rightarrow> chunk_location list \<Rightarrow> 'v journal_record list" where
  "switch_records s index =
     ss_open_record s # (case ss_last_saved s of None \<Rightarrow> [] | Some r \<Rightarrow> [r]) @
     (case ss_last_state s of None \<Rightarrow> [] | Some r \<Rightarrow> [r]) @ [JCheckpoint (from_history (ss_history s) index)]"

text \<open>The flag tells whether \<^verbatim>\<open>meta.json\<close> names the new generation.\<close>

definition finish_generation_switch ::
    "('v, 'j) appender \<Rightarrow> compact_env \<Rightarrow> 'j \<Rightarrow> ('v, 'j) session \<Rightarrow> chunk_location list \<Rightarrow>
     (project_error + unit) \<times> 'j \<times> bool" where
  "finish_generation_switch ap cx j0 s index =
     (case cx_journal cx of
        Some e \<Rightarrow> (Inl e, j0, False)
      | None \<Rightarrow>
          (case ap (switch_records s index) j0 of
             (Inl e, j) \<Rightarrow> (Inl e, j, False)
           | (Inr _, j) \<Rightarrow>
               (case cx_meta cx of
                  None \<Rightarrow> (Inr (), j, True)
                | Some (e, switched) \<Rightarrow> (Inl e, j, switched))))"

definition mark_ids :: "nat list \<Rightarrow> bool list" where
  "mark_ids = foldl mark_journaled []"

text \<open>The session on the new generation.\<close>

definition switched_session ::
    "prepared_compaction \<Rightarrow> store \<Rightarrow> 'j \<Rightarrow> nat list \<Rightarrow> ('v, 'j) session \<Rightarrow> ('v, 'j) session" where
  "switched_session pc new j delta s =
     s\<lparr>ss_store := new, ss_journal := j, ss_generation := pc_generation pc,
       ss_journaled := mark_ids (pc_live pc @ delta)\<rparr>"

definition finish_compact ::
    "('v, 'j) appender \<Rightarrow> ('j \<Rightarrow> project_error + 'j) \<Rightarrow> (byte list \<Rightarrow> 32 word) \<Rightarrow> store_env \<Rightarrow> store_env \<Rightarrow> compact_env \<Rightarrow> 'j \<Rightarrow>
     prepared_compaction \<Rightarrow> chunk_location list \<Rightarrow> piece list \<Rightarrow> (('v, 'j) session \<times> nat, nat option) op" where
  "finish_compact ap reopen crc re we cx j0 pc index0 extra sm =
     (case sm of (s, meta) \<Rightarrow>
        if ss_open s \<noteq> None then (Inl NotWhileRecording, sm)
        else if pc_old pc \<noteq> ss_generation s then (Inr None, sm)
        else
          let delta = filter (\<lambda>i. i \<notin> set (pc_live pc)) (live_chunk_ids (ss_history s) extra)
          in case copy_live_chunks crc re we delta (ss_store s, pc_store pc) of
               (Inl e, (old, _)) \<Rightarrow> (Inl e, (s\<lparr>ss_store := old\<rparr>, meta))
             | (Inr added, (old, new)) \<Rightarrow>
                 let s1 = s\<lparr>ss_store := old\<rparr>;
                     index = index0 @ added
                 in case sync_store we (reserve_ids_below (chunk_count old) new) of
                      (Inl e, _) \<Rightarrow> (Inl e, (s1, meta))
                    | (Inr _, new2) \<Rightarrow>
                        let freed = chunk_file_bytes old - chunk_file_bytes new2
                        in case finish_generation_switch ap cx j0 s1 index of
                             (Inr _, j, _) \<Rightarrow>
                               (Inr (Some freed), (switched_session pc new2 j delta s1, pc_generation pc))
                           | (Inl e, j, switched) \<Rightarrow>
                               if switched then
                                 (case reopen j of
                                    Inl e2 \<Rightarrow> (Inl e2, (s1, pc_generation pc))
                                  | Inr j2 \<Rightarrow>
                                      (Inr (Some freed), (switched_session pc new2 j2 delta s1, pc_generation pc)))
                               else (Inl e, (s1, meta)))"

definition compact ::
    "('v, 'j) appender \<Rightarrow> ('j \<Rightarrow> project_error + 'j) \<Rightarrow> (byte list \<Rightarrow> 32 word) \<Rightarrow> store_env \<Rightarrow> store_env \<Rightarrow> compact_env \<Rightarrow> 'j \<Rightarrow>
     piece list \<Rightarrow> (('v, 'j) session \<times> nat, nat) op" where
  "compact ap reopen crc re we cx j0 extra sm =
     (case begin_compact cx extra (fst sm) of
        Inl e \<Rightarrow> (Inl e, sm)
      | Inr pc0 \<Rightarrow>
          (case copy_chunks crc re we (fst sm, pc0) of
             (Inl e, (s1, _)) \<Rightarrow> (Inl e, (s1, snd sm))
           | (Inr index, (s1, pc)) \<Rightarrow>
               (case finish_compact ap reopen crc re we cx j0 pc index extra (s1, snd sm) of
                  (Inl e, sm2) \<Rightarrow> (Inl e, sm2)
                | (Inr freed, sm2) \<Rightarrow> (Inr (unwrap_or freed 0), sm2))))"

section \<open>What is copied\<close>

text \<open>\<open>copied cd new ls is\<close>: \<open>ls\<close> are the locations in \<open>new\<close> of the chunks \<open>is\<close>, with their samples.\<close>

definition copied :: "(nat \<Rightarrow> f32 list option) \<Rightarrow> store \<Rightarrow> chunk_location list \<Rightarrow> nat list \<Rightarrow> bool" where
  "copied cd new ls is \<longleftrightarrow> map loc_id ls = is \<and> (\<forall>l \<in> set ls. location new (loc_id l) = Some l) \<and>
     (\<forall>i \<in> set is. \<exists>d. cd i = Some d \<and> chunk_data new i = Some (sanitize d))"

lemma keeps_data:
  assumes "store_ok crc st" "store_ok crc st'" "keeps st st'" "chunk_data st i = Some d"
  shows "chunk_data st' i = Some d"
proof -
  obtain e where e: "lookup_entry st i = Some e" and d: "d = copy_le_f32
      (read_bytes (st_file st) (loc_offset (ce_loc e)) (loc_len (ce_loc e) * 4)) (loc_len (ce_loc e))"
    using assms(4) by (auto simp: chunk_data_def)
  have l: "location st i = Some (ce_loc e)" by (simp add: location_def e)
  then have l': "location st' i = Some (ce_loc e)" using assms(3) by (simp add: keeps_def)
  then obtain e' where e': "lookup_entry st' i = Some e'" "ce_loc e' = ce_loc e" by (auto simp: location_def)
  have "chunk_end (ce_loc e) \<le> st_next_offset st" using location_end [OF assms(1) l] by simp
  then have "st_file st' a = st_file st a" if "a < loc_offset (ce_loc e) + loc_len (ce_loc e) * 4" for a
    using that assms(3) by (simp add: keeps_def chunk_end_def)
  then have "read_bytes (st_file st') (loc_offset (ce_loc e)) (loc_len (ce_loc e) * 4) =
      read_bytes (st_file st) (loc_offset (ce_loc e)) (loc_len (ce_loc e) * 4)" by (simp add: read_bytes_def)
  with e' d show ?thesis by (simp add: chunk_data_def)
qed

lemma copied_keeps:
  assumes "copied cd new ls is" "store_ok crc new" "store_ok crc new'" "keeps new new'"
  shows "copied cd new' ls is"
  using assms(1,4) keeps_data [OF assms(2-4)] unfolding copied_def keeps_def by blast

lemma copied_Cons:
  "copied cd new [l] [i] \<Longrightarrow> copied cd new ls is \<Longrightarrow> copied cd new (l # ls) (i # is)"
  by (auto simp: copied_def)

lemma copied_append: "copied cd new ls is \<Longrightarrow> copied cd new ls' is' \<Longrightarrow> copied cd new (ls @ ls') (is @ is')"
  by (auto simp: copied_def)

lemma read_chunk_evolves: "read_chunk crc env i off n st = (r, st') \<Longrightarrow> evolves crc st st'"
proof -
  assume rd: "read_chunk crc env i off n st = (r, st')"
  obtain r1 c s1 where e: "read_chunk_into crc env i off n None st = (r1, c, s1)" by (metis prod_cases3)
  then have "store_reader crc env i off n (None, st) = (r1, (c, s1))" by (simp add: store_reader_def)
  from store_reader_evolves [OF this] drop_cache_evolves [of crc s1 c] rd e show ?thesis
    by (auto simp: read_chunk_def intro: evolves_trans)
qed

lemma copy_live_ok:
  assumes "store_ok crc old" "store_ok crc new" "copy_live_chunks crc re we is (old, new) = (r, (old', new'))"
  shows "evolves crc old old' \<and> chunk_data old' = chunk_data old \<and> store_ok crc new' \<and> keeps new new' \<and>
    (all_finite new \<longrightarrow> all_finite new') \<and> (\<forall>ls. r = Inr ls \<longrightarrow> copied (chunk_data old) new' ls is)"
  using assms
proof (induction "is" arbitrary: old new r old' new')
  case Nil
  then show ?case by (auto simp: copied_def)
next
  case (Cons i "is")
  show ?case
  proof (cases "location old i")
    case None
    with Cons.prems show ?thesis by auto
  next
    case (Some loc)
    obtain r1 old1 where rd: "read_chunk crc re i 0 (loc_len loc) old = (r1, old1)" by fastforce
    note ev = read_chunk_evolves [OF rd]
    note sp = read_chunk_spec [OF Cons.prems(1) rd]
    show ?thesis
    proof (cases r1)
      case (Inl e)
      with Cons.prems(2,3) Some rd ev sp show ?thesis by auto
    next
      case (Inr xs)
      with sp obtain d where d: "chunk_data old i = Some d" "loc_len loc \<le> length d" "xs = take (loc_len loc) d" by auto
      have "length d = loc_len loc" using Some d(1) by (auto simp: location_def chunk_data_def copy_le_f32_def)
      with d have xs: "xs = d" by simp
      obtain r2 new1 where cm: "commit_chunk_as crc we xs (Some i) new = (r2, new1)" by fastforce
      note cs = commit_as_spec [OF Cons.prems(2) cm] and ck = commit_keeps [OF Cons.prems(2) cm]
        and cf = commit_finite [OF Cons.prems(2) cm]
      show ?thesis
      proof (cases r2)
        case (Inl e)
        with Cons.prems(3) Some rd Inr cm ev sp cs ck cf show ?thesis by (auto simp: commit_chunk_with_id_def)
      next
        case r2: (Inr l)
        with cs have l: "loc_id l = i" "location new1 i = Some l" "chunk_data new1 i = Some (sanitize d)" "store_ok crc new1"
          by (auto simp: xs)
        obtain r3 o3 n3 where cl: "copy_live_chunks crc re we is (old1, new1) = (r3, (o3, n3))" by (metis prod_cases3)
        have fin: "r = (case r3 of Inl e \<Rightarrow> Inl e | Inr ls \<Rightarrow> Inr (l # ls))" "old' = o3" "new' = n3"
          using Cons.prems(3) Some rd Inr cm r2 cl by (auto simp: commit_chunk_with_id_def split: sum.splits)
        have ok1: "store_ok crc old1" using sp by simp
        from Cons.IH [OF ok1 l(4) cl] have
          ih: "evolves crc old1 o3" "chunk_data o3 = chunk_data old1" "store_ok crc n3" "keeps new1 n3"
          "all_finite new1 \<longrightarrow> all_finite n3" "\<And>ls. r3 = Inr ls \<Longrightarrow> copied (chunk_data old1) n3 ls is" by auto
        have "copied (chunk_data old) new1 [l] [i]" using l d(1) by (auto simp: copied_def)
        from copied_keeps [OF this l(4) ih(3,4)] have "copied (chunk_data old) n3 [l] [i]" .
        with ih(6) sp have "\<forall>ls. r = Inr ls \<longrightarrow> copied (chunk_data old) n3 ls (i # is)"
          unfolding fin(1) by (auto split: sum.splits intro: copied_Cons)
        with ih(1-5) sp ck cf keeps_trans ev evolves_trans show ?thesis unfolding fin(2,3) by metis
      qed
    qed
  qed
qed

lemma copied_mono:
  "copied cd new ls is \<Longrightarrow> \<forall>i d. cd i = Some d \<longrightarrow> cd' i = Some d \<Longrightarrow> copied cd' new ls is"
  unfolding copied_def by blast

section \<open>Replaying the new journal\<close>

definition shaped :: "'v replay_state \<Rightarrow> bool" where
  "shaped r \<longleftrightarrow> (\<forall>x. rp_saved_record r = Some x \<longrightarrow> (\<exists>y. x = JSaved y)) \<and> (\<forall>x. rp_state_record r = Some x \<longrightarrow> (\<exists>y. x = JState y))"

lemma shaped_note: "shaped r \<Longrightarrow> shaped (note_metadata r rec)"
  by (cases rec) (auto simp: note_metadata_def shaped_def close_take_def split: option.splits)

lemma shaped_apply: "apply_record r rec = Some r' \<Longrightarrow> shaped r \<Longrightarrow> shaped r'"
  by (cases rec) (auto simp: apply_record_def Let_def intro!: shaped_note split: if_splits sum.splits, auto simp: shaped_def)

lemma shaped_records: "apply_records r recs = (r', n) \<Longrightarrow> shaped r \<Longrightarrow> shaped r'"
  by (induction r recs arbitrary: n rule: apply_records.induct) (auto dest: shaped_apply split: option.splits prod.splits)

lemma replayed_shaped: "replayed recs rep \<Longrightarrow> shaped rep"
proof (erule replayedE)
  fix k c
  assume a: "apply_records (foldl note_metadata (replay_from c) (take k recs)) (drop (k + 1) recs) = (rep, length (drop (k + 1) recs))"
  have "shaped (foldl note_metadata r rs)" if "shaped r" for r :: "'a replay_state" and rs
    using that by (induction rs arbitrary: r) (auto intro: shaped_note)
  moreover have "shaped (replay_from c :: 'a replay_state)" by (simp add: shaped_def replay_from_def)
  ultimately show "shaped rep" using shaped_records [OF a] by blast
qed

lemma is_journaled_mark_ids: "is_journaled (mark_ids is) i \<longleftrightarrow> i \<in> set is"
proof -
  have "is_journaled (foldl mark_journaled js is) i \<longleftrightarrow> i \<in> set is \<or> is_journaled js i" for js
    by (induction "is" arbitrary: js) (auto simp: is_journaled_mark)
  then show ?thesis by (simp add: mark_ids_def) (simp add: is_journaled_def)
qed

lemma switch_replay:
  assumes good: "hist_good (ss_history s)" and m: "session_match rep0 s" and sh: "shaped rep0" and o: "ss_open s = None"
  shows "\<exists>rep. replayed (switch_records s index) rep \<and> rp_history rep = ss_history s \<and>
    rp_chunks rep = foldl (\<lambda>m l. bt_insert (loc_id l) l m) [] index \<and>
    takes_match rep (ss_next_take s) None (ss_markers s) \<and> facts_match rep s"
proof -
  define cp where "cp = from_history (ss_history s) index"
  define pre where "pre = ss_open_record s # (case ss_last_saved s of None \<Rightarrow> [] | Some r \<Rightarrow> [r]) @
     (case ss_last_state s of None \<Rightarrow> [] | Some r \<Rightarrow> [r])"
  have recs: "switch_records s index = pre @ [JCheckpoint cp]" by (simp add: switch_records_def pre_def cp_def)
  have th: "to_history cp = ss_history s" "cp_chunks cp = index"
    using history_roundtrip good by (auto simp: cp_def hist_good_def from_history_def)
  define rep where "rep = foldl note_metadata (replay_from cp) pre"
  have "replayed (pre @ [JCheckpoint cp]) rep"
    by (rule replayedI [of _ "length pre" cp]) (simp_all add: rposition_snoc rep_def)
  moreover have "rp_history rep = ss_history s \<and> rp_chunks rep = foldl (\<lambda>m l. bt_insert (loc_id l) l m) [] index \<and>
      takes_match rep (ss_next_take s) None (ss_markers s) \<and> facts_match rep s"
  proof -
    from m have f: "rp_saved_record rep0 = ss_last_saved s" "rp_state_record rep0 = ss_last_state s"
      and t: "takes_match rep0 (ss_next_take s) None (ss_markers s)"
      using o by (auto simp: session_match_def facts_match_def)
    from m obtain v r where op: "ss_open_record s = JOpen v r (rp_source rep0)" by (auto simp: session_match_def facts_match_def)
    have nt: "0 < ss_next_take s" "ss_markers s = []" using t by (auto simp: takes_match_def)
    have sv: "ss_last_saved s = None \<or> (\<exists>y. ss_last_saved s = Some (JSaved y))" using sh f by (cases "ss_last_saved s") (auto simp: shaped_def)
    have st: "ss_last_state s = None \<or> (\<exists>y. ss_last_state s = Some (JState y))" using sh f by (cases "ss_last_state s") (auto simp: shaped_def)
    from sv st show ?thesis
      by (elim disjE exE)
        (simp_all add: rep_def pre_def op note_metadata_def replay_from_def th nt takes_match_def facts_match_def bt_ok_def)
  qed
  ultimately show ?thesis unfolding recs by blast
qed

section \<open>The switch keeps the session\<close>

text \<open>What compaction needs of journals beside \<open>record_log\<close>: a fresh one is empty, and a journal reopened right
after its first records were appended holds them (\<open>faithful\<close>: records are read back as they were written).\<close>

locale generation_log = record_log ap holds for ap :: "('v, 'j) appender" and holds +
  fixes fresh :: "'j \<Rightarrow> bool"
    and reopen :: "'j \<Rightarrow> project_error + 'j"
    and faithful :: bool
  assumes fresh_holds: "fresh j \<Longrightarrow> holds [] j"
    and reopen_holds: "faithful \<Longrightarrow> fresh j0 \<Longrightarrow> ap rs j0 = (Inr u, j) \<Longrightarrow> reopen j = Inr j' \<Longrightarrow> holds rs j'"
begin

lemma switched_tracks:
  assumes tr: "tracks crc s" and g: "session_good s" and o: "ss_open s = None" and h: "holds (switch_records s index) j"
    and new: "store_ok crc new" "st_disk new = st_file new" and cp: "copied cd new index (pc_live pc @ delta)"
    and live: "live_set (ss_history s) \<subseteq> set (pc_live pc @ delta)"
  shows "tracks crc (switched_session pc new j delta s)"
proof -
  let ?t = "switched_session pc new j delta s"
  from tr obtain recs rep0 where t: "session_inv crc s" "replayed recs rep0" "session_match rep0 s" by (auto simp: tracks_def)
  from switch_replay [OF good_D [OF g] t(3) replayed_shaped [OF t(2)] o, of index] obtain rep where
    rep: "replayed (switch_records s index) rep" "rp_history rep = ss_history s"
      "rp_chunks rep = foldl (\<lambda>m l. bt_insert (loc_id l) l m) [] index"
      "takes_match rep (ss_next_take s) None (ss_markers s)" "facts_match rep s" by blast
  have locs: "\<forall>l \<in> set index. location new (loc_id l) = Some l" and ids: "loc_id ` set index = set (pc_live pc @ delta)"
    using cp by (auto simp: copied_def simp flip: set_map)
  have "chunks_match (rp_chunks rep) (ss_journaled ?t) new"
    unfolding chunks_match_def rep(3) insert_locs [OF locs]
    by (simp add: switched_session_def is_journaled_mark_ids ids [simplified])
  then have "session_match rep ?t"
    using rep(2,4,5) o by (simp add: session_match_def switched_session_def facts_match_def hist_sim_refl)
  moreover have "session_inv crc ?t"
  proof -
    have "\<exists>l. location new i = Some l" if "i \<in> set (pc_live pc @ delta)" for i using that locs ids by (metis imageE)
    then have "\<forall>i. is_journaled (ss_journaled ?t) i \<longrightarrow> (\<exists>l. location (ss_store ?t) i = Some l \<and> on_disk (ss_store ?t) l)"
      using new(2) by (auto simp: switched_session_def is_journaled_mark_ids on_disk_def)
    moreover have "\<forall>i \<in> live_set (ss_history ?t). is_journaled (ss_journaled ?t) i"
      using live by (auto simp: switched_session_def is_journaled_mark_ids)
    ultimately show ?thesis using t(1) new(1) by (simp add: session_inv_def switched_session_def)
  qed
  moreover have "holds (switch_records s index) (ss_journal ?t)" using h by (simp add: switched_session_def)
  ultimately show ?thesis using rep(1) by (auto simp: tracks_def)
qed

lemma switch_ok:
  assumes tr: "tracks crc s" and g: "session_good s" and f: faithful "fresh j0"
    and pc: "store_ok crc (pc_store pc)" "copied (chunk_data (ss_store s)) (pc_store pc) index0 (pc_live pc)"
    and c: "finish_compact ap reopen crc re we cx j0 pc index0 extra (s, meta) = (r, (s', meta'))"
  shows "tracks crc s' \<and> session_good s' \<and> ss_history s' = ss_history s \<and> ss_open s' = ss_open s \<and>
    (all_finite (pc_store pc) \<and> all_finite (ss_store s) \<longrightarrow> all_finite (ss_store s')) \<and>
    (\<forall>n. r = Inr (Some n) \<longrightarrow> meta' = pc_generation pc \<and> ss_generation s' = pc_generation pc \<and>
      (\<forall>i \<in> live_set (ss_history s) \<union> set (pieces_chunk_ids extra).
         \<exists>d. chunk_data (ss_store s) i = Some d \<and> chunk_data (ss_store s') i = Some (sanitize d))) \<and>
    (\<not> (\<exists>n. r = Inr (Some n)) \<longrightarrow> ss_generation s' = ss_generation s \<and> evolves crc (ss_store s) (ss_store s') \<and>
       (meta' = meta \<or> (\<exists>e b. cx_meta cx = Some (e, b) \<and> b)))"
proof (cases "ss_open s \<noteq> None \<or> pc_old pc \<noteq> ss_generation s")
  case True
  with c tr g show ?thesis by (auto simp: finish_compact_def split: if_splits)
next
  case False
  then have o: "ss_open s = None" and gen: "pc_old pc = ss_generation s" by blast+
  define delta where "delta = filter (\<lambda>i. i \<notin> set (pc_live pc)) (live_chunk_ids (ss_history s) extra)"
  obtain r1 old new where cl: "copy_live_chunks crc re we delta (ss_store s, pc_store pc) = (r1, (old, new))"
    by (metis prod_cases3)
  have inv: "session_inv crc s" using tr by (rule tracks_inv)
  then have sok: "store_ok crc (ss_store s)" by (simp add: session_inv_def)
  note cp = copy_live_ok [OF sok pc(1) cl]
  define s1 where "s1 = s\<lparr>ss_store := old\<rparr>"
  have s1: "tracks crc s1" "session_good s1" "ss_history s1 = ss_history s" "ss_open s1 = None"
    "ss_generation s1 = ss_generation s" "ss_store s1 = old"
    using store_tracks [OF tr, of old] cp g o by (simp_all add: s1_def)
  note eq = c [unfolded finish_compact_def prod.case o gen, folded delta_def, unfolded Let_def, folded delta_def,
      unfolded cl prod.case, folded s1_def]
  have same: ?thesis if "\<not> (\<exists>n. r = Inr (Some n))" "s' = s1" "meta' = meta \<or> (\<exists>e b. cx_meta cx = Some (e, b) \<and> b)"
    using that s1 cp o finite_same [of old "ss_store s"] by auto
  show ?thesis
  proof (cases r1)
    case (Inl e)
    with eq have "r = Inl e" "s' = s1" "meta' = meta" by simp_all
    then show ?thesis by (intro same) auto
  next
    case (Inr added)
    define new1 where "new1 = reserve_ids_below (chunk_count old) new"
    obtain r2 new2 where y: "sync_store we new1 = (r2, new2)" by fastforce
    have n1: "store_ok crc new1" "location new1 = location new" "chunk_data new1 = chunk_data new"
      using reserve_ids_ok cp by (auto simp: new1_def reserve_ids_below_def location_def fun_eq_iff)
    show ?thesis
    proof (cases r2)
      case (Inl e)
      with eq Inr y have "r = Inl e" "s' = s1" "meta' = meta" by (simp_all add: new1_def)
      then show ?thesis by (intro same) auto
    next
      case r2: (Inr u)
      from sync_keeps [OF n1(1) y] r2 have n2: "store_ok crc new2" "keeps new1 new2" "st_disk new2 = st_file new2" by auto
      have live: "set (live_chunk_ids (ss_history s) extra) \<subseteq> set (pc_live pc @ delta)" by (auto simp: delta_def)
      have "copied (chunk_data (ss_store s)) new index0 (pc_live pc)"
        using copied_keeps [OF pc(2,1)] cp by blast
      with cp Inr have "copied (chunk_data (ss_store s)) new (index0 @ added) (pc_live pc @ delta)"
        by (intro copied_append) auto
      then have "copied (chunk_data (ss_store s)) new1 (index0 @ added) (pc_live pc @ delta)"
        using n1 by (simp add: copied_def)
      from copied_keeps [OF this n1(1) n2(1,2)]
      have cpd: "copied (chunk_data (ss_store s)) new2 (index0 @ added) (pc_live pc @ delta)" .
      have fin: "all_finite (pc_store pc) \<longrightarrow> all_finite new2"
        using cp n1(3) finite_same [of new1 new] sync_spec [OF n1(1) y, of "{#}"] finite_same [of new2 new1] by simp
      have finished: ?thesis if h: "holds (switch_records s1 (index0 @ added)) j"
        and e: "r = Inr (Some n)" "s' = switched_session pc new2 j delta s1" "meta' = pc_generation pc" for j n
      proof -
        have "live_set (ss_history s1) \<subseteq> set (pc_live pc @ delta)" using live s1(3) by auto
        from switched_tracks [OF s1(1,2,4) h n2(1,3) cpd this] have "tracks crc s'" by (simp add: e)
        moreover have "session_good s'" using s1(2) by (simp add: e switched_session_def session_good_def)
        moreover have "\<exists>d. chunk_data (ss_store s) i = Some d \<and> chunk_data (ss_store s') i = Some (sanitize d)"
          if "i \<in> live_set (ss_history s) \<union> set (pieces_chunk_ids extra)" for i
        proof -
          from that live have "i \<in> set (pc_live pc @ delta)" by auto
          with cpd show ?thesis unfolding copied_def e(2) switched_session_def by simp
        qed
        ultimately show ?thesis using s1(3,4) o fin by (simp add: e switched_session_def)
      qed
      obtain r3 j sw where sw: "finish_generation_switch ap cx j0 s1 (index0 @ added) = (r3, (j, sw))" by (metis prod_cases3)
      note eq2 = eq [unfolded Inr sum.case, folded new1_def, unfolded y prod.case r2 sum.case sw]
      have ap: "\<exists>u. ap (switch_records s1 (index0 @ added)) j0 = (Inr u, j)" if "sw \<or> (\<exists>u. r3 = Inr u)"
        using sw that by (auto simp: finish_generation_switch_def split: option.splits prod.splits sum.splits)
      show ?thesis
      proof (cases r3)
        case r3: (Inr u3)
        with ap obtain u4 where "ap (switch_records s1 (index0 @ added)) j0 = (Inr u4, j)" by blast
        from ap_ok [OF fresh_holds [OF f(2)] this] have "holds (switch_records s1 (index0 @ added)) j" by simp
        then show ?thesis by (rule finished) (use eq2 r3 in auto)
      next
        case r3: (Inl e)
        show ?thesis
        proof (cases sw)
          case False
          with eq2 r3 have "r = Inl e" "s' = s1" "meta' = meta" by simp_all
          then show ?thesis by (intro same) auto
        next
          case True
          have mb: "\<exists>e b. cx_meta cx = Some (e, b) \<and> b"
            using sw True r3 by (auto simp: finish_generation_switch_def split: option.splits prod.splits sum.splits)
          from ap True obtain u4 where a: "ap (switch_records s1 (index0 @ added)) j0 = (Inr u4, j)" by blast
          show ?thesis
          proof (cases "reopen j")
            case (Inl e2)
            with eq2 r3 True have "r = Inl e2" "s' = s1" by simp_all
            then show ?thesis using mb by (intro same) auto
          next
            case (Inr j2)
            from reopen_holds [OF f a Inr] have "holds (switch_records s1 (index0 @ added)) j2" .
            then show ?thesis by (rule finished) (use eq2 r3 True Inr in auto)
          qed
        qed
      qed
    qed
  qed
qed

end

end
