(* ===== verification/Journal_Log.thy ===== *)
theory Journal_Log
  imports Journal Fs_Util
begin

text \<open>
  The journal file: \<^verbatim>\<open>crates/project/src/journal.rs\<close>, second half.

  A line is the CRC of the JSON in eight lowercase hex digits, a tab, the JSON and a newline.
  \<open>crc\<close> stands for \<open>crc32fast::hash\<close>, \<open>enc\<close> and \<open>dec\<close> for \<open>serde_json::to_vec\<close> and \<open>from_slice\<close> on
  records; what the proofs need of serde is \<open>json_ok\<close>: a compact encoding decodes to the record and
  holds no raw newline.
\<close>

section \<open>Lines\<close>

definition hex_byte :: "nat \<Rightarrow> byte" where
  "hex_byte n = [48, 49, 50, 51, 52, 53, 54, 55, 56, 57, 97, 98, 99, 100, 101, 102] ! n"

definition crc_hex :: "32 word \<Rightarrow> byte list" where
  "crc_hex w = map (\<lambda>i. hex_byte (unat (drop_bit (4 * (7 - i)) w AND 0xf))) [0 ..< 8]"

definition encode_record ::
    "(byte list \<Rightarrow> 32 word) \<Rightarrow> ('r \<Rightarrow> byte list option) \<Rightarrow> 'r \<Rightarrow> project_error + byte list" where
  "encode_record crc enc r =
     (case enc r of
        None \<Rightarrow> Inl JsonError
      | Some json \<Rightarrow> Inr (crc_hex (crc json) @ [9] @ json @ [10]))"

fun encode_records ::
    "(byte list \<Rightarrow> 32 word) \<Rightarrow> ('r \<Rightarrow> byte list option) \<Rightarrow> 'r list \<Rightarrow> project_error + byte list" where
  "encode_records crc enc [] = Inr []"
| "encode_records crc enc (r # rs) =
     (case encode_record crc enc r of
        Inl e \<Rightarrow> Inl e
      | Inr line \<Rightarrow>
          (case encode_records crc enc rs of
             Inl e \<Rightarrow> Inl e
           | Inr rest \<Rightarrow> Inr (line @ rest)))"

definition is_lower_hex :: "byte \<Rightarrow> bool" where
  "is_lower_hex c \<longleftrightarrow> 48 \<le> c \<and> c \<le> 57 \<or> 97 \<le> c \<and> c \<le> 102"

definition hex_value :: "byte \<Rightarrow> nat" where
  "hex_value c = (if c \<le> 57 then unat c - 48 else unat c - 87)"

definition from_str_radix16 :: "byte list \<Rightarrow> nat" where
  "from_str_radix16 cs = foldl (\<lambda>acc c. acc * 16 + hex_value c) 0 cs"

definition parse_line ::
    "(byte list \<Rightarrow> 32 word) \<Rightarrow> (byte list \<Rightarrow> 'r option) \<Rightarrow> byte list \<Rightarrow> 'r option" where
  "parse_line crc dec line =
     (if length line < 8 then None
      else let digits = take 8 line
           in case drop 8 line of
                [] \<Rightarrow> None
              | c # json \<Rightarrow>
                  if c \<noteq> 9 then None
                  else if \<not> (\<forall>d \<in> set digits. is_lower_hex d) then None
                  else if unat (crc json) \<noteq> from_str_radix16 digits then None
                  else dec json)"

text \<open>
  The loop both parsers share: \<open>bytes\<close> is what follows \<open>pos\<close>; the result is the records, the offset
  just past each, and the length of the valid prefix.
\<close>

function parse_loop :: "(byte list \<Rightarrow> 'r option) \<Rightarrow> byte list \<Rightarrow> nat \<Rightarrow> 'r list \<times> nat list \<times> nat" where
  "parse_loop pl bytes pos =
     (case position (\<lambda>b. b = 10) bytes of
        None \<Rightarrow> ([], [], pos)
      | Some nl \<Rightarrow>
          (case pl (take nl bytes) of
             None \<Rightarrow> ([], [], pos)
           | Some r \<Rightarrow>
               (let (rs, ends, p) = parse_loop pl (drop (nl + 1) bytes) (pos + nl + 1)
                in (r # rs, (pos + nl + 1) # ends, p))))"
  by pat_completeness auto
termination
  by (relation "measure (\<lambda>(pl, bytes, pos). length bytes)") (auto dest: position_SomeD)

declare parse_loop.simps [simp del]

record 'r journal_contents =
  jc_records :: "'r list"
  jc_valid :: nat
  jc_damaged :: bool

definition parse_journal ::
    "(byte list \<Rightarrow> 32 word) \<Rightarrow> (byte list \<Rightarrow> 'r option) \<Rightarrow> byte list \<Rightarrow> 'r journal_contents" where
  "parse_journal crc dec bytes =
     (case parse_loop (parse_line crc dec) bytes 0 of
        (rs, ends, pos) \<Rightarrow> \<lparr>jc_records = rs, jc_valid = pos, jc_damaged = (pos < length bytes)\<rparr>)"

record 'r journal_scan =
  js_records :: "'r list"
  js_ends :: "nat list"
  js_valid :: nat
  js_damaged_lines :: nat
  js_damaged_chunk_lines :: nat
  js_ends_with_chunks :: bool

fun split_lines :: "byte list \<Rightarrow> byte list list" where
  "split_lines [] = [[]]"
| "split_lines (b # bs) =
     (if b = 10 then [] # split_lines bs
      else case split_lines bs of
             [] \<Rightarrow> [[b]]
           | l # ls \<Rightarrow> (b # l) # ls)"

fun has_window :: "byte list \<Rightarrow> byte list \<Rightarrow> bool" where
  "has_window tag [] \<longleftrightarrow> tag = []"
| "has_window tag (b # bs) \<longleftrightarrow> take (length tag) (b # bs) = tag \<or> has_window tag bs"

definition chunks_tag :: "byte list" where
  "chunks_tag = map (of_nat \<circ> of_char) ''\"type\":\"chunks\"''"

fun damage_loop :: "byte list list \<Rightarrow> nat \<Rightarrow> nat \<Rightarrow> bool \<Rightarrow> nat \<times> nat \<times> bool" where
  "damage_loop [] lines chunk_lines last_chunks = (lines, chunk_lines, last_chunks)"
| "damage_loop (l # ls) lines chunk_lines last_chunks =
     (let lc = has_window chunks_tag l
      in damage_loop ls (lines + 1) (if lc then chunk_lines + 1 else chunk_lines) lc)"

definition scan_journal ::
    "('r \<Rightarrow> bool) \<Rightarrow> (byte list \<Rightarrow> 32 word) \<Rightarrow> (byte list \<Rightarrow> 'r option) \<Rightarrow> byte list \<Rightarrow> 'r journal_scan" where
  "scan_journal is_chunks crc dec bytes =
     (case parse_loop (parse_line crc dec) bytes 0 of
        (rs, ends, pos) \<Rightarrow>
          (let lines = filter (\<lambda>l. l \<noteq> []) (split_lines (drop pos bytes));
               (dl, dc, lc) = damage_loop lines 0 0 (rs \<noteq> [] \<and> is_chunks (last rs))
           in \<lparr>js_records = rs, js_ends = ends, js_valid = pos, js_damaged_lines = dl,
               js_damaged_chunk_lines = dc, js_ends_with_chunks = lc\<rparr>))"

definition damaged_changes :: "'r journal_scan \<Rightarrow> nat" where
  "damaged_changes sc =
     js_damaged_lines sc - js_damaged_chunk_lines sc + (if js_ends_with_chunks sc then 1 else 0)"

fun is_chunks_record :: "'v journal_record \<Rightarrow> bool" where
  "is_chunks_record (JChunks _) \<longleftrightarrow> True"
| "is_chunks_record _ \<longleftrightarrow> False"

section \<open>The open file\<close>

text \<open>
  \<open>jl_file\<close> is the file's bytes.  The environment says how a write ends (an error after \<open>k\<close> bytes),
  whether \<open>fdatasync\<close> fails, and whether \<open>set_len\<close> does.
\<close>

record journal =
  jl_file :: "byte list"
  jl_len :: nat

record journal_env =
  je_write :: "(nat \<times> io_error) option"
  je_sync :: "io_error option"
  je_set_len :: "io_error option"

definition journal_create :: journal where
  "journal_create = \<lparr>jl_file = [], jl_len = 0\<rparr>"

definition journal_append ::
    "(byte list \<Rightarrow> 32 word) \<Rightarrow> ('r \<Rightarrow> byte list option) \<Rightarrow> journal_env \<Rightarrow> 'r list \<Rightarrow> (journal, unit) op" where
  "journal_append crc enc env rs j =
     (case encode_records crc enc rs of
        Inl e \<Rightarrow> (Inl e, j)
      | Inr buf \<Rightarrow>
          let (f, err) =
                (case je_write env of
                   Some (k, e) \<Rightarrow> (write_at (jl_file j) (jl_len j) (take k buf), Some e)
                 | None \<Rightarrow> (write_at (jl_file j) (jl_len j) buf, je_sync env))
          in case err of
               Some e \<Rightarrow>
                 (Inl (from_io ''appending to the journal'' e),
                  j\<lparr>jl_file := (if je_set_len env = None then set_len f (jl_len j) else f)\<rparr>)
             | None \<Rightarrow> (Inr (), j\<lparr>jl_file := f, jl_len := jl_len j + length buf\<rparr>))"

definition open_append ::
    "(byte list \<Rightarrow> 32 word) \<Rightarrow> (byte list \<Rightarrow> 'r option) \<Rightarrow> journal_env \<Rightarrow> byte list \<Rightarrow> project_error + journal" where
  "open_append crc dec env file =
     (let contents = parse_journal crc dec file
      in if jc_damaged contents then
           (case je_set_len env of
              Some e \<Rightarrow> Inl (from_io ''opening the journal'' e)
            | None \<Rightarrow>
                (case je_sync env of
                   Some e \<Rightarrow> Inl (from_io ''opening the journal'' e)
                 | None \<Rightarrow> Inr \<lparr>jl_file = set_len file (jc_valid contents), jl_len = jc_valid contents\<rparr>))
         else Inr \<lparr>jl_file = file, jl_len = jc_valid contents\<rparr>)"

definition open_truncated :: "journal_env \<Rightarrow> byte list \<Rightarrow> nat \<Rightarrow> project_error + journal" where
  "open_truncated env file len =
     (let current = length file
      in if current \<noteq> len then
           (case je_set_len env of
              Some e \<Rightarrow> Inl (from_io ''opening the journal'' e)
            | None \<Rightarrow>
                (case je_sync env of
                   Some e \<Rightarrow> Inl (from_io ''opening the journal'' e)
                 | None \<Rightarrow> Inr \<lparr>jl_file = set_len file (min len current), jl_len = min len current\<rparr>))
         else Inr \<lparr>jl_file = file, jl_len = min len current\<rparr>)"

end
