(* ===== verification/Journal_Props.thy ===== *)
theory Journal_Props
  imports Journal_Log
begin

text \<open>
  The journal as a log: encoding and parsing are inverse, a torn or damaged tail never costs a record
  before it, and an acknowledged record is never lost by a failing append.
\<close>

section \<open>Digits\<close>

lemma hex_byte_props: "n < 16 \<Longrightarrow> is_lower_hex (hex_byte n) \<and> hex_value (hex_byte n) = n"
proof -
  assume "n < 16"
  then have "n \<in> set [0 ..< 16]" by simp
  moreover have "\<forall>n \<in> set [0 ..< 16]. is_lower_hex (hex_byte n) \<and> hex_value (hex_byte n) = n"
    by code_simp
  ultimately show ?thesis by blast
qed

lemma nibble_hex_digit: "n < 16 \<Longrightarrow> nibble (hex_digit n) = Some (of_nat n)"
proof -
  assume "n < 16"
  then have "n \<in> set [0 ..< 16]" by simp
  moreover have "\<forall>n \<in> set [0 ..< 16]. nibble (hex_digit n) = Some (of_nat n)"
    by code_simp
  ultimately show ?thesis by blast
qed

lemma nat_and_15: "n AND 15 = n mod (16 :: nat)"
proof -
  have "n AND 15 = take_bit 4 n" by (simp add: take_bit_eq_mask mask_eq_exp_minus_1)
  then show ?thesis by (simp add: take_bit_eq_mod)
qed

lemma and_15: "unat ((w :: 32 word) AND 0xf) = unat w mod 16" "unat ((v :: 8 word) AND 0xf) = unat v mod 16"
  by (simp_all add: unsigned_and_eq nat_and_15)

lemma div_mod_step: "n div (16 * k) * 16 + n div k mod 16 = (n div k :: nat)"
proof -
  have "n div (16 * k) = n div k div 16" by (metis div_mult2_eq mult.commute)
  then show ?thesis by simp
qed

lemma length_crc_hex [simp]: "length (crc_hex w) = 8"
  by (simp add: crc_hex_def)

lemma crc_nibble: "unat (drop_bit k (w :: 32 word) AND 0xf) = unat w div 2 ^ k mod 16"
proof -
  have "unat (drop_bit k w) = unat w div 2 ^ k" unfolding unat_drop_bit_eq by (rule drop_bit_eq_div)
  then show ?thesis by (simp only: and_15)
qed

lemma crc_hex_lower: "d \<in> set (crc_hex w) \<Longrightarrow> is_lower_hex d"
  by (auto simp: crc_hex_def crc_nibble intro!: conjunct1 [OF hex_byte_props])

lemma lower_not_newline: "is_lower_hex d \<Longrightarrow> d \<noteq> 10"
  by (auto simp: is_lower_hex_def)

lemma crc_hex_value: "from_str_radix16 (crc_hex w) = unat w"
proof -
  let ?n = "unat w"
  have "?n < 2 ^ 32" using unsigned_less [of w] by simp
  then have z: "?n div 4294967296 = 0" by simp
  have v: "hex_value (hex_byte (unat (drop_bit k w AND 0xf))) = ?n div 2 ^ k mod 16" for k
    using hex_byte_props [of "?n div 2 ^ k mod 16"] by (simp add: crc_nibble)
  have "from_str_radix16 (crc_hex w) =
    (((((((?n div 268435456 mod 16) * 16 + ?n div 16777216 mod 16) * 16 + ?n div 1048576 mod 16) * 16 +
      ?n div 65536 mod 16) * 16 + ?n div 4096 mod 16) * 16 + ?n div 256 mod 16) * 16 + ?n div 16 mod 16) * 16 +
      ?n mod 16"
    using v v [of 0] by (simp add: from_str_radix16_def crc_hex_def upt_rec numeral_eq_Suc [symmetric] del: upt_Suc)
  also have "\<dots> = ?n"
    using div_mod_step [of ?n 268435456] div_mod_step [of ?n 16777216] div_mod_step [of ?n 1048576]
      div_mod_step [of ?n 65536] div_mod_step [of ?n 4096] div_mod_step [of ?n 256] div_mod_step [of ?n 16]
      div_mod_step [of ?n 1] z
    by simp
  finally show ?thesis .
qed

lemma hex_roundtrip: "from_hex (to_hex bs) = Some bs"
proof -
  have join: "push_bit 4 (drop_bit 4 b) OR (b AND 0x0f) = (b :: byte)" for b
  proof -
    have m: "(0x0f :: byte) = mask 4" by (simp add: mask_eq_exp_minus_1)
    have "push_bit 4 (drop_bit 4 b) OR (b AND mask 4) = b"
    proof (rule bit_word_eqI)
      fix n assume "n < LENGTH(8)"
      then have "n < 8" by simp
      then show "bit (push_bit 4 (drop_bit 4 b) OR (b AND mask 4)) n = bit b n"
        by (cases "n < 4") (simp_all add: bit_or_iff bit_and_iff bit_push_bit_iff bit_drop_bit_eq bit_mask_iff)
    qed
    then show ?thesis by (simp only: m)
  qed
  have lt: "unat (drop_bit 4 (b :: byte)) < 16" for b
  proof -
    have "unat b < 256" using unsigned_less [of b] by simp
    moreover have "unat (drop_bit 4 b) = unat b div 2 ^ 4" unfolding unat_drop_bit_eq by (rule drop_bit_eq_div)
    ultimately show ?thesis by simp
  qed
  have lt2: "unat (b AND 0x0f :: byte) < 16" for b by (simp add: and_15)
  have "hex_pairs (to_hex bs) = Some bs"
    by (induction bs) (simp_all add: to_hex_def nibble_hex_digit lt lt2 join)
  moreover have "length (to_hex bs) = 2 * length bs" by (induction bs) (simp_all add: to_hex_def)
  ultimately show ?thesis by (simp add: from_hex_def)
qed

section \<open>One line\<close>

definition json_ok :: "('r \<Rightarrow> byte list option) \<Rightarrow> (byte list \<Rightarrow> 'r option) \<Rightarrow> bool" where
  "json_ok enc dec \<longleftrightarrow> (\<forall>r json. enc r = Some json \<longrightarrow> dec json = Some r \<and> 10 \<notin> set json)"

lemma encode_line:
  assumes "json_ok enc dec" "encode_record crc enc r = Inr line"
  obtains body where "line = body @ [10]" "10 \<notin> set body" "parse_line crc dec body = Some r"
proof -
  from assms(2) obtain json where j: "enc r = Some json" "line = crc_hex (crc json) @ [9] @ json @ [10]"
    by (auto simp: encode_record_def split: option.splits)
  let ?body = "crc_hex (crc json) @ [9] @ json"
  have "10 \<notin> set (crc_hex (crc json))" using crc_hex_lower lower_not_newline by blast
  with assms(1) j have "10 \<notin> set ?body" by (auto simp: json_ok_def)
  moreover have "parse_line crc dec ?body = Some r"
    using assms(1) j crc_hex_lower by (auto simp: parse_line_def Let_def crc_hex_value json_ok_def)
  ultimately show thesis using j that [of ?body] by simp
qed

lemma position_newline: "10 \<notin> set body \<Longrightarrow> position (\<lambda>b. b = (10::byte)) (body @ 10 # rest) = Some (length body)"
  by (induction body) auto

lemma position_none: "10 \<notin> set bs \<Longrightarrow> position (\<lambda>b. b = (10::byte)) bs = None"
  by (auto simp: position_None)

lemma parse_loop_line:
  assumes "10 \<notin> set body" "pl body = Some r"
  shows "parse_loop pl (body @ 10 # rest) pos = (let (rs, es, p) = parse_loop pl rest (pos + length body + 1)
     in (r # rs, (pos + length body + 1) # es, p))"
  by (subst parse_loop.simps) (simp add: position_newline [OF assms(1)] assms(2))

lemma parse_loop_stop: "10 \<notin> set bs \<Longrightarrow> parse_loop pl bs pos = ([], [], pos)"
  by (subst parse_loop.simps) (simp add: position_none)

section \<open>Whole logs\<close>

lemma parse_loop_encoded:
  assumes "json_ok enc dec" "encode_records crc enc rs = Inr buf"
  shows "\<exists>es. \<forall>rest. parse_loop (parse_line crc dec) (buf @ rest) pos =
    (let (rs', es', p) = parse_loop (parse_line crc dec) rest (pos + length buf) in (rs @ rs', es @ es', p))"
  using assms(2)
proof (induction rs arbitrary: buf pos)
  case Nil
  then show ?case by (intro exI [of _ "[]"]) simp
next
  case (Cons r rs)
  then obtain line b2 where l: "encode_record crc enc r = Inr line" and b2: "encode_records crc enc rs = Inr b2"
    and buf: "buf = line @ b2" by (auto split: sum.splits)
  from encode_line [OF assms(1) l] obtain body where body: "line = body @ [10]" "10 \<notin> set body"
    "parse_line crc dec body = Some r" .
  from Cons.IH [OF b2, of "pos + length body + 1"] obtain es where
    ih: "\<forall>rest. parse_loop (parse_line crc dec) (b2 @ rest) (pos + length body + 1) =
      (let (rs', es', p) = parse_loop (parse_line crc dec) rest (pos + length body + 1 + length b2) in (rs @ rs', es @ es', p))"
    by blast
  have "parse_loop (parse_line crc dec) (buf @ rest) pos =
    (let (rs', es', p) = parse_loop (parse_line crc dec) rest (pos + length buf)
     in ((r # rs) @ rs', ((pos + length body + 1) # es) @ es', p))" for rest
    using parse_loop_line [of body "parse_line crc dec" r "b2 @ rest" pos] body ih
    by (simp add: buf Let_def split: prod.splits) (simp add: add.assoc)
  then show ?case by blast
qed

lemma encode_records_app:
  "encode_records crc enc (rs @ ts) = (case encode_records crc enc rs of Inl e \<Rightarrow> Inl e
     | Inr b1 \<Rightarrow> (case encode_records crc enc ts of Inl e \<Rightarrow> Inl e | Inr b2 \<Rightarrow> Inr (b1 @ b2)))"
  by (induction rs) (auto split: sum.splits)

lemma encode_records_append:
  "encode_records crc enc (rs @ ts) = Inr b \<longleftrightarrow>
   (\<exists>b1 b2. encode_records crc enc rs = Inr b1 \<and> encode_records crc enc ts = Inr b2 \<and> b = b1 @ b2)"
  by (auto simp: encode_records_app split: sum.splits)

lemma torn_encoding:
  assumes "json_ok enc dec" "encode_records crc enc rs = Inr buf"
  shows "\<exists>m b1 torn. m \<le> length rs \<and> encode_records crc enc (take m rs) = Inr b1 \<and> take k buf = b1 @ torn \<and>
    10 \<notin> set torn \<and> (k < length buf \<longrightarrow> m < length rs) \<and> (length buf \<le> k \<longrightarrow> m = length rs \<and> torn = [])"
  using assms(2)
proof (induction rs arbitrary: buf k)
  case Nil
  then show ?case by auto
next
  case (Cons r rs)
  then obtain line b2 where l: "encode_record crc enc r = Inr line" and b2: "encode_records crc enc rs = Inr b2"
    and buf: "buf = line @ b2" by (auto split: sum.splits)
  from encode_line [OF assms(1) l] obtain body where body: "line = body @ [10]" "10 \<notin> set body" .
  show ?case
  proof (cases "k < length line")
    case True
    then have "take k buf = take k body" using body buf by simp
    moreover have "10 \<notin> set (take k body)" using body(2) by (meson in_set_takeD)
    ultimately show ?thesis using True buf by (intro exI [of _ 0] exI [of _ "[]"] exI [of _ "take k body"]) auto
  next
    case False
    from Cons.IH [OF b2, of "k - length line"] obtain m b1 torn where
      ih: "m \<le> length rs" "encode_records crc enc (take m rs) = Inr b1" "take (k - length line) b2 = b1 @ torn"
        "10 \<notin> set torn" "k - length line < length b2 \<longrightarrow> m < length rs"
        "length b2 \<le> k - length line \<longrightarrow> m = length rs \<and> torn = []" by blast
    have "encode_records crc enc (take (Suc m) (r # rs)) = Inr (line @ b1)" using l ih(2) by simp
    moreover have "take k buf = (line @ b1) @ torn" using False ih(3) by (simp add: buf)
    ultimately show ?thesis using ih(1,4,5,6) False buf
      by (intro exI [of _ "Suc m"] exI [of _ "line @ b1"] exI [of _ torn]) auto
  qed
qed

lemma parse_journal_encoded:
  assumes "json_ok enc dec" "encode_records crc enc rs = Inr buf" "10 \<notin> set torn"
  shows "jc_records (parse_journal crc dec (buf @ torn)) = rs" "jc_valid (parse_journal crc dec (buf @ torn)) = length buf"
    "jc_damaged (parse_journal crc dec (buf @ torn)) = (torn \<noteq> [])"
proof -
  from parse_loop_encoded [OF assms(1,2), of 0] obtain es where
    es: "\<forall>rest. parse_loop (parse_line crc dec) (buf @ rest) 0 =
      (let (rs', es', p) = parse_loop (parse_line crc dec) rest (0 + length buf) in (rs @ rs', es @ es', p))"
    by blast
  have "parse_loop (parse_line crc dec) (buf @ torn) 0 = (rs, es, length buf)"
    using es [rule_format, of torn] parse_loop_stop [OF assms(3), of "parse_line crc dec" "length buf"] by simp
  then show "jc_records (parse_journal crc dec (buf @ torn)) = rs" "jc_valid (parse_journal crc dec (buf @ torn)) = length buf"
    "jc_damaged (parse_journal crc dec (buf @ torn)) = (torn \<noteq> [])"
    by (auto simp: parse_journal_def)
qed

lemma parse_journal_prefix:
  assumes "json_ok enc dec" "encode_records crc enc rs = Inr buf"
  shows "\<exists>more. jc_records (parse_journal crc dec (buf @ junk)) = rs @ more"
proof -
  from parse_loop_encoded [OF assms, of 0] obtain es where
    "parse_loop (parse_line crc dec) (buf @ junk) 0 =
      (let (rs', es', p) = parse_loop (parse_line crc dec) junk (0 + length buf) in (rs @ rs', es @ es', p))"
    by blast
  then show ?thesis by (auto simp: parse_journal_def split: prod.splits)
qed

section \<open>Appends\<close>

definition log_holds :: "(byte list \<Rightarrow> 32 word) \<Rightarrow> ('r \<Rightarrow> byte list option) \<Rightarrow> 'r list \<Rightarrow> journal \<Rightarrow> bool" where
  "log_holds crc enc rs j \<longleftrightarrow> (\<exists>buf rest. encode_records crc enc rs = Inr buf \<and> jl_file j = buf @ rest \<and> jl_len j = length buf)"

lemma append_holds:
  assumes "log_holds crc enc acked j" "journal_append crc enc env rs j = (r, j')"
  shows "log_holds crc enc (if r = Inr () then acked @ rs else acked) j'"
proof -
  from assms(1) obtain buf rest where b: "encode_records crc enc acked = Inr buf" "jl_file j = buf @ rest"
    "jl_len j = length buf" by (auto simp: log_holds_def)
  show ?thesis
  proof (cases "encode_records crc enc rs")
    case (Inl e)
    with assms show ?thesis by (auto simp: journal_append_def)
  next
    case (Inr new)
    have keep: "log_holds crc enc acked (j\<lparr>jl_file := buf @ x\<rparr>)" for x
      using b by (auto simp: log_holds_def)
    have cut: "set_len (buf @ x) (length buf) = buf @ []" for x by (simp add: set_len_def)
    show ?thesis
    proof (cases "je_write env")
      case None
      show ?thesis
      proof (cases "je_sync env")
        case None
        with assms(2) \<open>je_write env = None\<close> Inr b have "r = Inr ()"
          "j' = j\<lparr>jl_file := (buf @ new) @ drop (length new) rest, jl_len := length (buf @ new)\<rparr>"
          by (auto simp: journal_append_def write_at_end)
        moreover have "encode_records crc enc (acked @ rs) = Inr (buf @ new)"
          using b(1) Inr by (auto simp: encode_records_append)
        ultimately show ?thesis by (auto simp: log_holds_def)
      next
        case (Some e)
        with assms(2) \<open>je_write env = None\<close> Inr b keep keep [of "[]"] cut show ?thesis
          by (auto simp: journal_append_def write_at_end)
      qed
    next
      case (Some ke)
      with assms(2) Inr b keep keep [of "[]"] cut show ?thesis
        by (cases ke) (auto simp: journal_append_def write_at_end)
    qed
  qed
qed

text \<open>A run of appends, each with its own environment; the acknowledged records in order.\<close>

fun journal_run ::
    "(byte list \<Rightarrow> 32 word) \<Rightarrow> ('r \<Rightarrow> byte list option) \<Rightarrow> (journal_env \<times> 'r list) list \<Rightarrow> journal \<times> 'r list \<Rightarrow> journal \<times> 'r list"
    where
  "journal_run crc enc [] s = s"
| "journal_run crc enc ((env, rs) # ops) (j, acked) =
     (case journal_append crc enc env rs j of
        (Inl _, j') \<Rightarrow> journal_run crc enc ops (j', acked)
      | (Inr _, j') \<Rightarrow> journal_run crc enc ops (j', acked @ rs))"

lemma run_holds:
  "log_holds crc enc acked j \<Longrightarrow> journal_run crc enc ops (j, acked) = (j', acked') \<Longrightarrow> log_holds crc enc acked' j'"
proof (induction ops arbitrary: j acked)
  case (Cons op ops)
  obtain env rs where op: "op = (env, rs)" by fastforce
  obtain r j1 where a: "journal_append crc enc env rs j = (r, j1)" by fastforce
  from append_holds [OF Cons.prems(1) a] Cons show ?case
    by (cases r) (auto simp: op a)
qed simp

lemma create_holds: "log_holds crc enc [] journal_create"
  by (simp add: log_holds_def journal_create_def)

section \<open>A concrete codec and run\<close>

text \<open>Records that are byte strings, stored as they are; the CRC is a byte sum.\<close>

definition plain_enc :: "byte list \<Rightarrow> byte list option" where
  "plain_enc r = (if 10 \<in> set r then None else Some r)"

definition sum_of :: "byte list \<Rightarrow> 32 word" where
  "sum_of bs = foldl (\<lambda>s b. s + ucast b) 0 bs"

lemma plain_json_ok: "json_ok plain_enc Some"
  by (auto simp: json_ok_def plain_enc_def)

definition good_env :: journal_env where
  "good_env = \<lparr>je_write = None, je_sync = None, je_set_len = None\<rparr>"

definition full_disk :: journal_env where
  "full_disk = \<lparr>je_write = Some (3, StorageFull), je_sync = None, je_set_len = Some OtherIo\<rparr>"

definition example_ops :: "(journal_env \<times> byte list list) list" where
  "example_ops = [(good_env, [[1, 2]]), (full_disk, [[3, 4]]), (good_env, [[5]])]"

definition example_bytes :: "byte list" where
  "example_bytes = [48, 48, 48, 48, 48, 48, 48, 51, 9, 1, 2, 10]"

lemma example_run:
  "journal_run sum_of plain_enc example_ops (journal_create, []) =
     (\<lparr>jl_file = example_bytes @ [48, 48, 48, 48, 48, 48, 48, 53, 9, 5, 10], jl_len = 23\<rparr>, [[1, 2], [5]])"
  by code_simp

lemma example_line: "encode_records sum_of plain_enc [[1, 2]] = Inr example_bytes"
  by code_simp

section \<open>Properties\<close>

text \<open>C18: An acknowledged record is never lost.  Whatever mixture of successful and failing appends has
  happened (short writes, failed syncs, failed truncations), the file read back starts with exactly
  the records of the appends that returned \<open>Ok\<close>, in order; and so it does when the machine stops after
  any number of bytes of the next append.\<close>

theorem acknowledged_records_survive:
  assumes "json_ok enc dec" and "journal_run crc enc ops (journal_create, []) = (j, acked)"
    and "encode_records crc enc rs = Inr buf"
  shows "\<exists>more. jc_records (parse_journal crc dec (write_at (jl_file j) (jl_len j) (take k buf))) = acked @ more"
proof -
  from run_holds [OF create_holds assms(2)] obtain b rest where
    b: "encode_records crc enc acked = Inr b" "jl_file j = b @ rest" "jl_len j = length b"
    by (auto simp: log_holds_def)
  with parse_journal_prefix [OF assms(1) b(1)] show ?thesis by (simp add: write_at_end)
qed

theorem acknowledged_records_survive_witness:
  "\<exists>more. jc_records (parse_journal sum_of Some (write_at (example_bytes @ [48, 48, 48, 48, 48, 48, 48, 53, 9, 5, 10]) 23
     (take 4 example_bytes))) = [[1, 2], [5]] @ more"
proof -
  from acknowledged_records_survive [OF plain_json_ok example_run example_line, of 4] show ?thesis by simp
qed

text \<open>A crash in the middle of an append costs only records of that append, from the end: reading the
  torn file gives all earlier records and the first few of the new ones, and the file is reported
  damaged exactly when it ends inside a line.\<close>

theorem torn_append_keeps_prefix:
  assumes "json_ok enc dec" and "encode_records crc enc old = Inr b" and "encode_records crc enc new = Inr buf"
  shows "\<exists>m \<le> length new. jc_records (parse_journal crc dec (b @ take k buf)) = old @ take m new \<and>
    (length buf \<le> k \<longrightarrow> m = length new \<and> \<not> jc_damaged (parse_journal crc dec (b @ take k buf)))"
proof -
  from torn_encoding [OF assms(1,3), of k] obtain m b1 torn where
    t: "m \<le> length new" "encode_records crc enc (take m new) = Inr b1" "take k buf = b1 @ torn" "10 \<notin> set torn"
      "length buf \<le> k \<longrightarrow> m = length new \<and> torn = []" by blast
  have "encode_records crc enc (old @ take m new) = Inr (b @ b1)" using assms(2) t(2) by (auto simp: encode_records_append)
  from parse_journal_encoded [OF assms(1) this t(4)] t show ?thesis by (intro exI [of _ m]) auto
qed

theorem torn_append_keeps_prefix_witness:
  "\<exists>m \<le> 1. jc_records (parse_journal sum_of Some (example_bytes @ take 4 example_bytes)) = [[1, 2]] @ take m [[1, 2]]"
proof -
  from torn_append_keeps_prefix [OF plain_json_ok example_line example_line, of 4] show ?thesis by auto
qed

text \<open>Opening a journal for appending cuts a torn tail off, so what is appended next is read back
  right after the records that survived, never hidden behind the bad line.\<close>

theorem append_after_damage_visible:
  assumes "json_ok enc dec" and "encode_records crc enc old = Inr b" and "10 \<notin> set torn"
    and "open_append crc dec env (b @ torn) = Inr j" and "journal_append crc enc env2 new j = (Inr (), j')"
  shows "jc_records (parse_journal crc dec (jl_file j')) = old @ new \<and> \<not> jc_damaged (parse_journal crc dec (jl_file j'))"
proof -
  note p = parse_journal_encoded [OF assms(1,2,3)]
  have j: "jl_file j = b" "jl_len j = length b"
    using assms(4) p by (auto simp: open_append_def Let_def set_len_def split: if_splits option.splits)
  from assms(5) obtain nb where nb: "encode_records crc enc new = Inr nb" "jl_file j' = b @ nb"
    using j write_at_end [of b "[]"]
    by (auto simp: journal_append_def Let_def split: sum.splits option.splits prod.splits)
  have "encode_records crc enc (old @ new) = Inr (b @ nb)" using assms(2) nb by (auto simp: encode_records_append)
  from parse_journal_encoded [OF assms(1) this, of "[]"] nb show ?thesis by simp
qed

theorem append_after_damage_visible_witness:
  "jc_records (parse_journal sum_of Some (example_bytes @ example_bytes)) = [[1, 2], [1, 2]]"
proof -
  have o: "open_append sum_of Some good_env (example_bytes @ [48, 48]) = Inr \<lparr>jl_file = example_bytes, jl_len = 12\<rparr>" by code_simp
  have a: "journal_append sum_of plain_enc good_env [[1, 2]] \<lparr>jl_file = example_bytes, jl_len = 12\<rparr> =
    (Inr (), \<lparr>jl_file = example_bytes @ example_bytes, jl_len = 24\<rparr>)" by code_simp
  from append_after_damage_visible [OF plain_json_ok example_line _ o a] show ?thesis by simp
qed

text \<open>Attachments survive their hex form.\<close>

theorem attachment_hex_roundtrip: "from_hex (to_hex bytes) = Some bytes"
  by (rule hex_roundtrip)

end
