(* ===== verification/Session_Log.thy ===== *)
theory Session_Log
  imports Compaction Journal_Props
begin

text \<open>
  The journal file under a session, and the step relation of a session on it.

  \<open>env_log\<close> is the open journal with the answers the operating system will give to its appends, one
  \<open>journal_env\<close> each.  The interpretation shows that \<open>Journal::append\<close> is the log a session relies on.
\<close>

record env_log =
  el_journal :: journal
  el_envs :: "nat \<Rightarrow> journal_env"
  el_n :: nat

definition log_new :: "(nat \<Rightarrow> journal_env) \<Rightarrow> env_log" where
  "log_new envs = \<lparr>el_journal = journal_create, el_envs = envs, el_n = 0\<rparr>"

definition log_append :: "(byte list \<Rightarrow> 32 word) \<Rightarrow> ('v journal_record \<Rightarrow> byte list option) \<Rightarrow> ('v, env_log) appender" where
  "log_append crc enc rs l =
     (case journal_append crc enc (el_envs l (el_n l)) rs (el_journal l) of
        (r, j) \<Rightarrow> (r, l\<lparr>el_journal := j, el_n := el_n l + 1\<rparr>))"

definition file_holds :: "(byte list \<Rightarrow> 32 word) \<Rightarrow> ('v journal_record \<Rightarrow> byte list option) \<Rightarrow> 'v journal_record list \<Rightarrow> env_log \<Rightarrow> bool" where
  "file_holds crc enc rs l \<longleftrightarrow> log_holds crc enc rs (el_journal l)"

interpretation file_log: record_log "log_append crc enc" "file_holds crc enc" for crc and enc :: "'v journal_record \<Rightarrow> byte list option"
proof
  fix rs :: "'v journal_record list" and j new u j'
  assume "file_holds crc enc rs j" "log_append crc enc new j = (Inr u, j')"
  then show "file_holds crc enc (rs @ new) j'"
    using append_holds [of crc enc rs "el_journal j" "el_envs j (el_n j)" new]
    by (auto simp: log_append_def file_holds_def split: prod.splits)
next
  fix rs :: "'v journal_record list" and j new e j'
  assume "file_holds crc enc rs j" "log_append crc enc new j = (Inl e, j')"
  then show "file_holds crc enc rs j'"
    using append_holds [of crc enc rs "el_journal j" "el_envs j (el_n j)" new]
    by (auto simp: log_append_def file_holds_def split: prod.splits)
qed

lemma log_new_holds: "file_holds crc enc [] (log_new envs)"
  using create_holds by (simp add: file_holds_def log_new_def)

section \<open>Steps of a session\<close>

text \<open>
  Any operation, whatever it returns.  The guards state the types of the source: marker kinds the
  journal keeps (\<open>kind_plain\<close>), marker ids below the largest \<^verbatim>\<open>u64\<close>, pieces a writer hands out, distinct
  marker ids in a loaded file.  The
  last rules are what writers and readers do to the store meanwhile.
\<close>

inductive session_step ::
    "(byte list \<Rightarrow> 32 word) \<Rightarrow> ('v journal_record \<Rightarrow> byte list option) \<Rightarrow> ('v, env_log) session \<Rightarrow> ('v, env_log) session \<Rightarrow> bool"
  for crc enc where
  step_commit: "commit_edit (log_append crc enc) env e s = (r, s') \<Longrightarrow> \<forall>op \<in> set (e_marker_ops e). marker_op_plain op \<Longrightarrow>
    edit_typed e \<Longrightarrow> session_step crc enc s s'"
| step_floor: "set_floor (log_append crc enc) env wa markers s = (r, s') \<Longrightarrow> \<forall>p \<in> set (wa_pieces wa). piece_ok p \<Longrightarrow>
    distinct (map m_id markers) \<Longrightarrow> \<forall>m \<in> set markers. kind_plain m \<Longrightarrow> session_step crc enc s s'"
| step_undo: "session_undo (log_append crc enc) s = (r, s') \<Longrightarrow> session_step crc enc s s'"
| step_redo: "session_redo (log_append crc enc) s = (r, s') \<Longrightarrow> session_step crc enc s s'"
| step_drop: "session_drop_undo (log_append crc enc) n s = (r, s') \<Longrightarrow> session_step crc enc s s'"
| step_saved: "mark_saved_file_at (log_append crc enc) q path fmt sm sidecar facts s = (r, s') \<Longrightarrow> session_step crc enc s s'"
| step_state: "append_state (log_append crc enc) v s = (r, s') \<Longrightarrow> session_step crc enc s s'"
| step_marker_id: "new_marker_id s = (i, s') \<Longrightarrow> session_step crc enc s s'"
| step_begin: "begin_take_with (log_append crc enc) te now mode params options s = (r, s') \<Longrightarrow> session_step crc enc s s'"
| step_window: "note_take_window (log_append crc enc) tk k s = (r, s') \<Longrightarrow> session_step crc enc s s'"
| step_take_marker: "note_take_marker (log_append crc enc) tk m s = (r, s') \<Longrightarrow> kind_plain m \<Longrightarrow>
    m_id m < u64_max \<Longrightarrow> session_step crc enc s s'"
| step_discard: "discard_take (log_append crc enc) tk s = (r, s') \<Longrightarrow> session_step crc enc s s'"
| step_cancel: "cancel_take (log_append crc enc) env tk s = (r, s') \<Longrightarrow> session_step crc enc s s'"
| step_commit_take: "commit_take (log_append crc enc) env f markers s = (r, s') \<Longrightarrow> \<forall>m \<in> set markers. kind_plain m \<and> m_id m < u64_max \<Longrightarrow>
    \<forall>p \<in> set (wa_pieces (ft_audio f)). piece_ok p \<Longrightarrow> session_step crc enc s s'"
| step_commit_window: "commit_take_window (log_append crc enc) crc env mix f window markers s = (r, s') \<Longrightarrow>
    \<forall>m \<in> set markers. kind_plain m \<and> m_id m < u64_max \<Longrightarrow> \<forall>p \<in> set (wa_pieces (ft_audio f)). piece_ok p \<Longrightarrow>
    session_step crc enc s s'"
| step_apply_wav: "apply_open_take_from_wav (log_append crc enc) crc env mix parts_of s = (r, s') \<Longrightarrow> session_step crc enc s s'"
| step_write: "commit_chunk crc env xs (ss_store s) = (r, st) \<Longrightarrow> session_step crc enc s (s\<lparr>ss_store := st\<rparr>)"
| step_read: "store_read crc env d pos n (ss_store s) = (r, st) \<Longrightarrow> session_step crc enc s (s\<lparr>ss_store := st\<rparr>)"
| step_chunk_read: "read_chunk crc env i off n (ss_store s) = (r, st) \<Longrightarrow> session_step crc enc s (s\<lparr>ss_store := st\<rparr>)"
| step_sync: "sync_store env (ss_store s) = (r, st) \<Longrightarrow> session_step crc enc s (s\<lparr>ss_store := st\<rparr>)"

inductive_cases session_stepE: "session_step crc enc s s'"

lemma session_step_tracks: "session_step crc enc s s' \<Longrightarrow> file_log.tracks crc enc crc s \<Longrightarrow> file_log.tracks crc enc crc s'"
proof (induction rule: session_step.induct)
  case (step_commit env e s r s')
  show ?case
  proof (cases "ss_open s \<noteq> None \<and> edit_changes_audio e")
    case True
    then have "s' = s" using step_commit(1) by (auto simp: commit_edit_def)
    with step_commit(4) show ?thesis by simp
  next
    case False
    then have "commit_internal (log_append crc enc) env e None s = (r, s')" using step_commit(1) by (simp only: commit_edit_def False if_False)
    from file_log.commit_internal_ok [OF step_commit(4) step_commit(2) _ this] show ?thesis by (cases r) simp_all
  qed
next
  case (step_floor env wa markers s r s')
  then show ?case by (intro file_log.floor_tracks [OF _ step_floor(2,3,4) step_floor(1)])
next
  case (step_write env xs s r st)
  then show ?case using file_log.store_tracks commit_evolves by blast
next
  case (step_read env d pos n s r st)
  then show ?case using file_log.store_tracks store_read_evolves by blast
next
  case (step_chunk_read env i off n s r st)
  then show ?case using file_log.store_tracks read_chunk_evolves by blast
next
  case (step_sync env s r st)
  then show ?case using file_log.store_tracks sync_evolves by blast
next
  case (step_marker_id s i s')
  then show ?case using file_log.marker_id_tracks by fastforce
next
  case (step_commit_take env f markers s r s')
  then show ?case using file_log.commit_take_tracks by blast
next
  case (step_commit_window env mix f window markers s r s')
  then show ?case using file_log.commit_window_tracks by blast
next
  case (step_take_marker tk m s r s')
  then show ?case using file_log.take_marker_tracks by blast
qed (erule file_log.undo_tracks file_log.redo_tracks file_log.drop_tracks file_log.saved_tracks file_log.state_tracks
    file_log.begin_tracks file_log.window_tracks file_log.take_marker_tracks file_log.discard_tracks file_log.cancel_tracks
    file_log.commit_take_tracks file_log.commit_window_tracks file_log.apply_wav_tracks; assumption)+

lemma session_step_good:
  "session_step crc enc s s' \<Longrightarrow> store_ok crc (ss_store s) \<Longrightarrow> session_good s \<Longrightarrow> session_good s'"
proof (induction rule: session_step.induct)
  case (step_commit env e s r s')
  then show ?case using commit_internal_good by (auto simp: commit_edit_def split: if_splits)
next
  case (step_floor env wa markers s r s')
  then show ?case using set_floor_good by blast
next
  case (step_take_marker tk m s r s')
  then show ?case using take_ops_good(3) by blast
next
  case (step_cancel env tk s r s')
  then show ?case using cancel_good by blast
next
  case (step_commit_take env f markers s r s')
  then show ?case using commit_take_good by blast
next
  case (step_commit_window env mix f window markers s r s')
  then show ?case using commit_window_good by blast
next
  case (step_apply_wav env mix parts_of s r s')
  then show ?case using apply_wav_good by blast
next
  case step_undo
  show ?case by (rule history_ops_good(1) [OF step_undo(3) step_undo(1)])
next
  case step_redo
  show ?case by (rule history_ops_good(2) [OF step_redo(3) step_redo(1)])
next
  case step_drop
  show ?case by (rule history_ops_good(3) [OF step_drop(3) step_drop(1)])
next
  case step_saved
  show ?case by (rule history_ops_good(5) [OF step_saved(3) step_saved(1)])
next
  case step_state
  show ?case by (rule history_ops_good(6) [OF step_state(3) step_state(1)])
next
  case step_marker_id
  show ?case by (rule history_ops_good(4) [OF step_marker_id(3) step_marker_id(1)])
next
  case step_begin
  show ?case by (rule take_ops_good(1) [OF step_begin(3) step_begin(1)])
next
  case step_window
  show ?case by (rule take_ops_good(2) [OF step_window(3) step_window(1)])
next
  case step_discard
  show ?case by (rule take_ops_good(4) [OF step_discard(3) step_discard(1)])
qed simp_all

lemma session_step_moves: "session_step crc enc s s' \<Longrightarrow> moves crc s s'"
proof (induction rule: session_step.induct)
  case step_commit
  show ?case by (rule commit_edit_moves [OF step_commit(1)])
next
  case step_floor
  show ?case by (rule set_floor_moves [OF step_floor(1)])
next
  case step_undo
  show ?case by (rule simple_moves(1) [OF step_undo(1)])
next
  case step_redo
  show ?case by (rule simple_moves(2) [OF step_redo(1)])
next
  case step_drop
  show ?case by (rule simple_moves(3) [OF step_drop(1)])
next
  case step_saved
  show ?case by (rule simple_moves(5) [OF step_saved(1)])
next
  case step_state
  show ?case by (rule simple_moves(6) [OF step_state(1)])
next
  case step_marker_id
  show ?case by (rule simple_moves(4) [OF step_marker_id(1)])
next
  case step_begin
  show ?case by (rule begin_moves [OF step_begin(1)])
next
  case step_window
  show ?case by (rule simple_moves(7) [OF step_window(1)])
next
  case step_take_marker
  show ?case by (rule simple_moves(8) [OF step_take_marker(1)])
next
  case step_discard
  show ?case by (rule simple_moves(9) [OF step_discard(1)])
next
  case step_cancel
  show ?case by (rule cancel_moves [OF step_cancel(1)])
next
  case step_commit_take
  show ?case by (rule commit_take_moves [OF step_commit_take(1)])
next
  case step_commit_window
  show ?case by (rule commit_window_moves [OF step_commit_window(1)])
next
  case step_apply_wav
  show ?case by (rule apply_wav_moves [OF step_apply_wav(1)])
next
  case (step_write env xs s r st)
  then show ?case by (simp add: moves_def commit_evolves)
next
  case (step_read env d pos n s r st)
  then show ?case by (simp add: moves_def store_read_evolves)
next
  case (step_chunk_read env i off n s r st)
  then show ?case by (simp add: moves_def read_chunk_evolves)
next
  case (step_sync env s r st)
  then show ?case by (simp add: moves_def sync_evolves)
qed

section \<open>Compaction beside the session\<close>

text \<open>\<open>Journal::open_append\<close> on the file of a journal.\<close>

definition log_reopen ::
    "(byte list \<Rightarrow> 32 word) \<Rightarrow> (byte list \<Rightarrow> 'v journal_record option) \<Rightarrow> journal_env \<Rightarrow> env_log \<Rightarrow> project_error + env_log" where
  "log_reopen crc dec env l =
     (case open_append crc dec env (jl_file (el_journal l)) of
        Inl e \<Rightarrow> Inl e
      | Inr j \<Rightarrow> Inr (l\<lparr>el_journal := j\<rparr>))"

lemma append_whole:
  assumes "journal_append crc enc env rs j = (Inr u, j')" "jl_file j = b" "jl_len j = length b"
  obtains nb where "encode_records crc enc rs = Inr nb" "jl_file j' = b @ nb" "jl_len j' = length b + length nb"
  using assms write_at_end [of b "[]"]
  by (auto simp: journal_append_def Let_def split: sum.splits option.splits prod.splits)

lemma reopen_whole:
  assumes "json_ok enc dec" "encode_records crc enc rs = Inr b" "open_append crc dec env b = Inr j"
  shows "jl_file j = b \<and> jl_len j = length b"
  using parse_journal_encoded [OF assms(1,2), of "[]"] assms(3) by (auto simp: open_append_def Let_def)

interpretation file_generations: generation_log "log_append crc enc" "file_holds crc enc"
    "\<lambda>l. el_journal l = journal_create" "log_reopen crc dec env" "json_ok enc dec"
  for crc and enc :: "'v journal_record \<Rightarrow> byte list option" and dec env
proof
  show "file_holds crc enc [] j" if "el_journal j = journal_create" for j
    using create_holds by (simp add: file_holds_def that)
next
  fix j0 j j' and rs :: "'v journal_record list" and u
  assume json: "json_ok enc dec" and new: "el_journal j0 = journal_create" and a: "log_append crc enc rs j0 = (Inr u, j)"
    and o: "log_reopen crc dec env j = Inr j'"
  from a have "journal_append crc enc (el_envs j0 (el_n j0)) rs journal_create = (Inr u, el_journal j)"
    by (auto simp: log_append_def new split: prod.splits)
  from append_whole [OF this, of "[]"] obtain nb where nb: "encode_records crc enc rs = Inr nb" "jl_file (el_journal j) = nb"
    by (auto simp: journal_create_def)
  from o obtain j1 where "open_append crc dec env nb = Inr j1" "j' = j\<lparr>el_journal := j1\<rparr>"
    by (auto simp: log_reopen_def nb(2) split: sum.splits)
  with reopen_whole [OF json nb(1)] nb(1) show "file_holds crc enc rs j'"
    by (auto simp: file_holds_def log_holds_def)
qed

text \<open>
  A compaction in progress that began at \<open>s0\<close>: the session, what is prepared, the locations copied and the ids still
  to copy.  The copy runs without the session's lock, so it advances by any number of chunks between two operations.
\<close>

inductive compacting ::
    "(byte list \<Rightarrow> 32 word) \<Rightarrow> ('v journal_record \<Rightarrow> byte list option) \<Rightarrow> ('v, env_log) session \<Rightarrow>
     ('v, env_log) session \<Rightarrow> prepared_compaction \<Rightarrow> chunk_location list \<Rightarrow> nat list \<Rightarrow> bool"
  for crc enc s0 where
  compacting_begin: "begin_compact cx extra s0 = Inr pc \<Longrightarrow> compacting crc enc s0 s0 pc [] (pc_live pc)"
| compacting_copy: "compacting crc enc s0 s pc index (is @ rest) \<Longrightarrow>
    copy_live_chunks crc re we is (ss_store s, pc_store pc) = (Inr ls, (old, new)) \<Longrightarrow>
    compacting crc enc s0 (s\<lparr>ss_store := old\<rparr>) (pc\<lparr>pc_store := new\<rparr>) (index @ ls) rest"
| compacting_step: "compacting crc enc s0 s pc index rest \<Longrightarrow> session_step crc enc s s' \<Longrightarrow>
    compacting crc enc s0 s' pc index rest"

text \<open>
  \<open>reached\<close>: the session was created on an empty journal and has run since, compactions included.  A compaction given
  up half way leaves what its reads did to the store, which are steps of their own.
\<close>

inductive reached ::
    "(byte list \<Rightarrow> 32 word) \<Rightarrow> ('v journal_record \<Rightarrow> byte list option) \<Rightarrow> ('v, env_log) session \<Rightarrow> bool"
  for crc enc where
  reached_create: "session_create (log_append crc enc) (log_new envs) before after rate src budget = Inr s \<Longrightarrow> reached crc enc s"
| reached_step: "reached crc enc s \<Longrightarrow> session_step crc enc s s' \<Longrightarrow> reached crc enc s'"
| reached_compact: "reached crc enc s0 \<Longrightarrow> compacting crc enc s0 s pc index [] \<Longrightarrow> json_ok enc dec \<Longrightarrow>
    finish_compact (log_append crc enc) (log_reopen crc dec env) crc re we cx (log_new envs) pc index extra (s, mt) =
      (r, (s', mt')) \<Longrightarrow> reached crc enc s'"

definition running :: "(byte list \<Rightarrow> 32 word) \<Rightarrow> ('v journal_record \<Rightarrow> byte list option) \<Rightarrow> ('v, env_log) session \<Rightarrow> bool" where
  "running crc enc s \<longleftrightarrow> file_log.tracks crc enc crc s \<and> session_good s \<and> all_finite (ss_store s)"

lemma running_store: "running crc enc s \<Longrightarrow> store_ok crc (ss_store s)"
  using file_log.tracks_inv by (auto simp: running_def session_inv_def)

lemma running_step:
  assumes "running crc enc s" "session_step crc enc s s'"
  shows "running crc enc s'"
  using assms session_step_tracks [OF assms(2)] session_step_good [OF assms(2) running_store [OF assms(1)]]
    session_step_moves [OF assms(2)] running_store [OF assms(1)]
  by (simp add: running_def moves_def evolves_def)

text \<open>What a compaction in progress keeps: the session runs on, its generation is the one that is being compacted,
and what has been copied is in the prepared store.\<close>

definition prepared_ok ::
    "(byte list \<Rightarrow> 32 word) \<Rightarrow> ('v, env_log) session \<Rightarrow> prepared_compaction \<Rightarrow> chunk_location list \<Rightarrow> nat list \<Rightarrow> bool" where
  "prepared_ok crc s pc index rest \<longleftrightarrow>
     store_ok crc (pc_store pc) \<and> all_finite (pc_store pc) \<and> pc_old pc = ss_generation s \<and> pc_generation pc = pc_old pc + 1 \<and>
     (\<exists>is. pc_live pc = is @ rest \<and> copied (chunk_data (ss_store s)) (pc_store pc) index is)"

lemma evolves_data:
  "evolves crc st st' \<Longrightarrow> store_ok crc st \<Longrightarrow> chunk_data st i = Some d \<Longrightarrow> chunk_data st' i = Some d"
  unfolding evolves_def using keeps_data [of crc st st'] by blast

lemma prepared_moves:
  assumes "prepared_ok crc s pc index rest" "moves crc s s'" "store_ok crc (ss_store s)"
  shows "prepared_ok crc s' pc index rest"
proof -
  have "\<forall>i d. chunk_data (ss_store s) i = Some d \<longrightarrow> chunk_data (ss_store s') i = Some d"
    using assms(2,3) evolves_data [of crc "ss_store s" "ss_store s'"] by (simp add: moves_def)
  from copied_mono [OF _ this] assms(1,2) show ?thesis
    unfolding prepared_ok_def moves_def by metis
qed

lemma compacting_ok:
  assumes "running crc enc s0" "compacting crc enc s0 s pc index rest"
  shows "running crc enc s \<and> prepared_ok crc s pc index rest"
  using assms(2)
proof (induction rule: compacting.induct)
  case (compacting_begin cx extra pc)
  then have "pc = \<lparr>pc_old = ss_generation s0, pc_store = store_create (st_budget (ss_store s0)),
      pc_live = live_chunk_ids (ss_history s0) extra, pc_generation = ss_generation s0 + 1\<rparr>"
    by (auto simp: begin_compact_def split: if_splits option.splits)
  moreover have "copied cd st [] []" for cd st by (simp add: copied_def)
  ultimately show ?case using assms(1) store_ok_create by (auto simp: prepared_ok_def all_finite_def chunk_data_def store_create_def lookup_entry_def)
next
  case (compacting_copy s pc index "is" rest re we ls old new)
  then have run: "running crc enc s" and p: "prepared_ok crc s pc index (is @ rest)" by simp_all
  note ok = running_store [OF run]
  have cp: "evolves crc (ss_store s) old" "chunk_data old = chunk_data (ss_store s)" "store_ok crc new" "keeps (pc_store pc) new"
    "all_finite (pc_store pc) \<longrightarrow> all_finite new" "copied (chunk_data (ss_store s)) new ls is"
    using copy_live_ok [OF ok _ compacting_copy(2)] p by (auto simp: prepared_ok_def)
  have "running crc enc (s\<lparr>ss_store := old\<rparr>)"
    using run file_log.store_tracks [OF _ cp(1)] finite_same [OF cp(2)] by (simp add: running_def)
  moreover from p obtain cps where "pc_live pc = cps @ is @ rest" "copied (chunk_data (ss_store s)) (pc_store pc) index cps"
    by (auto simp: prepared_ok_def)
  then have "pc_live pc = (cps @ is) @ rest" "copied (chunk_data (ss_store s)) new (index @ ls) (cps @ is)"
    using copied_append [OF copied_keeps [OF _ _ cp(3,4)] cp(6)] p by (auto simp: prepared_ok_def)
  then have "prepared_ok crc (s\<lparr>ss_store := old\<rparr>) (pc\<lparr>pc_store := new\<rparr>) (index @ ls) rest"
    using p cp(2,3,5) unfolding prepared_ok_def by auto
  ultimately show ?case by blast
next
  case (compacting_step s pc index rest s')
  then show ?case using running_step prepared_moves session_step_moves running_store by metis
qed

lemma finish_running:
  assumes "running crc enc s" "prepared_ok crc s pc index []" "json_ok enc dec"
    and "finish_compact (log_append crc enc) (log_reopen crc dec env) crc re we cx (log_new envs) pc index extra (s, mt) =
      (r, (s', mt'))"
  shows "running crc enc s'"
proof -
  have "el_journal (log_new envs) = journal_create" by (simp add: log_new_def)
  moreover have "store_ok crc (pc_store pc)" "copied (chunk_data (ss_store s)) (pc_store pc) index (pc_live pc)"
    using assms(2) by (auto simp: prepared_ok_def)
  ultimately show ?thesis
    using file_generations.switch_ok [OF _ _ assms(3) _ _ _ assms(4)] assms(1,2) by (simp add: running_def prepared_ok_def)
qed

lemma reached_running: "reached crc enc s \<Longrightarrow> running crc enc s"
proof (induction rule: reached.induct)
  case (reached_create envs before after rate src budget s)
  then have "ss_store s = store_create budget"
    by (auto simp: session_create_def Let_def split: if_splits option.splits prod.splits sum.splits)
  then have "all_finite (ss_store s)" by (simp add: all_finite_def chunk_data_def store_create_def lookup_entry_def)
  with reached_create show ?case
    using file_log.create_tracks [OF log_new_holds reached_create] create_good by (auto simp: running_def)
next
  case (reached_compact s0 s pc index dec env re we cx envs extra mt r s' mt')
  note c = compacting_ok [OF reached_compact.IH reached_compact.hyps(2)]
  show ?case by (rule finish_running [OF c [THEN conjunct1] c [THEN conjunct2] reached_compact.hyps(3,4)])
next
  case (reached_step s s')
  then show ?case using running_step by blast
qed

lemma reached_tracks: "reached crc enc s \<Longrightarrow> file_log.tracks crc enc crc s"
  by (drule reached_running) (simp add: running_def)

lemma reachedE:
  assumes "reached crc enc s"
  obtains recs rep buf rest where "session_inv crc s" "replayed recs rep" "session_match rep s"
    "encode_records crc enc recs = Inr buf" "jl_file (el_journal (ss_journal s)) = buf @ rest"
    "jl_len (el_journal (ss_journal s)) = length buf"
  using reached_tracks [OF assms] by (auto simp: file_log.tracks_def file_holds_def log_holds_def)

section \<open>Scanning a journal that is whole up to a torn line\<close>

lemma parse_ends:
  assumes "json_ok enc dec" "encode_records crc enc rs = Inr buf" "10 \<notin> set torn"
  shows "\<exists>es. parse_loop (parse_line crc dec) (buf @ torn) pos = (rs, es, pos + length buf) \<and> length es = length rs \<and>
    (rs \<noteq> [] \<longrightarrow> last es = pos + length buf)"
  using assms(2)
proof (induction rs arbitrary: buf pos)
  case Nil
  then show ?case using parse_loop_stop [OF assms(3)] by simp
next
  case (Cons r rs)
  then obtain line b2 where l: "encode_record crc enc r = Inr line" and b2: "encode_records crc enc rs = Inr b2"
    and buf: "buf = line @ b2" by (auto split: sum.splits)
  from encode_line [OF assms(1) l] obtain body where body: "line = body @ [10]" "10 \<notin> set body"
    "parse_line crc dec body = Some r" .
  from Cons.IH [OF b2, of "pos + length body + 1"] obtain es where
    ih: "parse_loop (parse_line crc dec) (b2 @ torn) (pos + length body + 1) = (rs, es, pos + length body + 1 + length b2)"
      "length es = length rs" "rs \<noteq> [] \<longrightarrow> last es = pos + length body + 1 + length b2" by blast
  have "parse_loop (parse_line crc dec) (buf @ torn) pos = (r # rs, (pos + length body + 1) # es, pos + length buf)"
    using parse_loop_line [of body "parse_line crc dec" r "b2 @ torn" pos] body ih(1) by (simp add: buf)
  moreover have "rs = [] \<Longrightarrow> b2 = []" using b2 by simp
  ultimately show ?case using ih(2,3) by (auto simp: buf body(1))
qed

lemma split_no_newline: "10 \<notin> set bs \<Longrightarrow> split_lines bs = [bs]"
  by (induction bs) auto

lemma scan_torn:
  fixes isc :: "'r \<Rightarrow> bool"
  assumes "json_ok enc dec" "encode_records crc enc rs = Inr buf" "10 \<notin> set torn" "rs \<noteq> []"
  defines "sc \<equiv> scan_journal isc crc dec (buf @ torn)"
  shows "js_records sc = rs" "js_ends sc ! (length rs - 1) = length buf" "damaged_changes sc \<le> 1"
proof -
  from parse_ends [OF assms(1-3), of 0] obtain es where
    p: "parse_loop (parse_line crc dec) (buf @ torn) 0 = (rs, es, length buf)" "length es = length rs" "last es = length buf"
    using assms(4) by auto
  have e: "es ! (length rs - 1) = length buf" using p assms(4) by (metis last_conv_nth length_0_conv)
  show "js_records sc = rs" "js_ends sc ! (length rs - 1) = length buf" "damaged_changes sc \<le> 1"
    using p(1) e by (auto simp: sc_def scan_journal_def damaged_changes_def split_no_newline [OF assms(3)] Let_def)
qed

end
