(* ===== verification/Session_Example.thy ===== *)
theory Session_Example
  imports Session_Log Edits
begin

section \<open>A concrete session\<close>

text \<open>A chunk of two samples recorded into an empty document, on a journal whose records are single bytes.\<close>

definition tiny_edit :: edit where
  "tiny_edit = edit_replace (edit_new ''history.record'') 0 0 [piece_chunk 0 0 2]"

definition tiny_cp :: checkpoint_record where
  "tiny_cp = from_history (history_new (snapshot_empty 8000)) []"

definition tiny_enc :: "unit journal_record \<Rightarrow> byte list option" where
  "tiny_enc r =
     (case r of
        JOpen v rate src \<Rightarrow> if v = 1 \<and> rate = 8000 \<and> src = None then Some [1] else None
      | JCheckpoint cp \<Rightarrow> if cp = tiny_cp then Some [2] else None
      | JEdit er \<Rightarrow> if er = from_edit 1 tiny_edit None then Some [3] else None
      | JChunks ls \<Rightarrow> if ls = [the (location example_store 0)] then Some [4] else None
      | JTakeCancel tk \<Rightarrow> Some (67 # replicate tk 1)
      | JClose \<Rightarrow> Some [5]
      | _ \<Rightarrow> None)"

definition tiny_dec :: "byte list \<Rightarrow> unit journal_record option" where
  "tiny_dec bs =
     (if bs = [1] then Some (JOpen 1 8000 None)
      else if bs = [2] then Some (JCheckpoint tiny_cp)
      else if bs = [3] then Some (JEdit (from_edit 1 tiny_edit None))
      else if bs = [4] then Some (JChunks [the (location example_store 0)])
      else if bs = [5] then Some JClose
      else Some (JTakeCancel (length bs - 1)))"

lemma tiny_json: "json_ok tiny_enc tiny_dec"
  unfolding json_ok_def
proof (intro allI impI)
  fix r json assume "tiny_enc r = Some json"
  then show "tiny_dec json = Some r \<and> 10 \<notin> set json"
    by (cases r) (auto simp: tiny_enc_def tiny_dec_def split: if_splits)
qed

definition calm_log :: journal_env where
  "calm_log = \<lparr>je_write = None, je_sync = None, je_set_len = None\<rparr>"

definition tiny_start :: "project_error + (unit, env_log) session" where
  "tiny_start = session_create (log_append sum_crc tiny_enc) (log_new (\<lambda>_. calm_log)) None None 8000 None 0"

definition tiny_recorded :: "(unit, env_log) session" where
  "tiny_recorded = (case tiny_start of Inr s \<Rightarrow> s\<lparr>ss_store := example_store\<rparr> | Inl _ \<Rightarrow> undefined)"

definition tiny_session :: "(unit, env_log) session" where
  "tiny_session = snd (commit_edit (log_append sum_crc tiny_enc) calm_env tiny_edit tiny_recorded)"

lemma encode_total: "\<forall>r \<in> set recs. enc r \<noteq> None \<Longrightarrow> \<exists>buf. encode_records crc enc recs = Inr buf"
  by (induction recs) (auto simp: encode_record_def)

lemma calm_append:
  assumes "\<forall>r \<in> set recs. enc r \<noteq> None" "el_envs l = (\<lambda>_. calm_log)"
  shows "\<exists>l'. log_append crc enc recs l = (Inr (), l') \<and> el_envs l' = (\<lambda>_. calm_log)"
proof -
  obtain buf where "encode_records crc enc recs = Inr buf" using encode_total [OF assms(1)] by blast
  then show ?thesis using assms(2) by (simp add: log_append_def journal_append_def calm_log_def)
qed

lemma tiny_enc_simps [simp]:
  "tiny_enc (JOpen (Suc 0) 8000 None) = Some [1]" "tiny_enc (JCheckpoint tiny_cp) = Some [2]"
  "tiny_enc (JEdit (from_edit (Suc 0) tiny_edit None)) = Some [3]"
  "tiny_enc (JChunks [\<lparr>loc_id = 0, loc_offset = 0, loc_len = 2, loc_crc = 191\<rparr>]) = Some [4]"
  by (simp_all add: tiny_enc_def example_location)

lemma tiny_start_eq:
  obtains s where "tiny_start = Inr s" "ss_history s = history_new (snapshot_empty 8000)" "ss_store s = store_create 0"
    "ss_open s = None" "el_envs (ss_journal s) = (\<lambda>_. calm_log)" "ss_journaled s = []"
    "ss_generation s = 0"
proof -
  have "\<exists>l'. log_append sum_crc tiny_enc [JOpen 1 8000 None, JCheckpoint tiny_cp] (log_new (\<lambda>_. calm_log)) = (Inr (), l') \<and>
      el_envs l' = (\<lambda>_. calm_log)"
    by (rule calm_append) (simp_all add: log_new_def)
  then obtain l where
    "log_append sum_crc tiny_enc [JOpen 1 8000 None, JCheckpoint tiny_cp] (log_new (\<lambda>_. calm_log)) = (Inr (), l)"
    "el_envs l = (\<lambda>_. calm_log)" by blast
  then have "\<exists>s. tiny_start = Inr s \<and> ss_history s = history_new (snapshot_empty 8000) \<and> ss_store s = store_create 0 \<and>
      ss_open s = None \<and> el_envs (ss_journal s) = (\<lambda>_. calm_log) \<and> ss_journaled s = [] \<and>
      ss_generation s = 0"
    by (simp add: tiny_start_def session_create_def store_format_version_def tiny_cp_def [symmetric] Let_def)
  with that show thesis by blast
qed

lemma content_names_chunk: "True \<in> set (content (\<lambda>i k. i = c) False ps) \<Longrightarrow> c \<in> set (pieces_chunk_ids ps)"
  by (induction ps) (auto simp: piece_content_def split: source.splits)

lemma tiny_prepare: "\<exists>p. prepare (history_new (snapshot_empty 8000)) tiny_edit = Inr p \<and> 0 \<in> set (chunk_ids (pe_snapshot p))"
proof -
  let ?h = "history_new (snapshot_empty 8000)" and ?rd = "\<lambda>i k. i = (0::nat)"
  have d: "doc_ok (snapshot_empty 8000)" by (simp add: snapshot_empty_def) (rule snapshot_new_ok; simp)
  have "doc_ok (h_current ?h)" using hist_ok_new [OF d] by (simp add: hist_ok_def timeline_def)
  moreover have "s_len (h_current ?h) = 0" by (simp add: history_new_def snapshot_empty_def snapshot_new_def pieces_len_def)
  ultimately have "\<exists>step h'. history_apply ?h tiny_edit = Inr (step, h') \<and>
      content ?rd False (s_pieces (h_current h')) = take 0 (content ?rd False (s_pieces (h_current ?h))) @
        content ?rd False [piece_chunk 0 0 2] @ drop (0 + 0) (content ?rd False (s_pieces (h_current ?h))) \<and>
      (Shift = Identity \<longrightarrow> s_markers (h_current h') = s_markers (h_current ?h)) \<and> snap_ok (h_current h')"
    unfolding tiny_edit_def edit_replace_def
    by (intro replace_applies) (simp_all add: piece_chunk_def piece_ok_def u32_max_def chunk_samples_def pieces_len_def)
  then obtain step h' where h': "history_apply ?h tiny_edit = Inr (step, h')"
    "True \<in> set (content ?rd False (s_pieces (h_current h')))"
    by (auto simp: piece_chunk_def piece_content_def)
  from content_names_chunk [OF h'(2)] h'(1) show ?thesis
    by (auto simp: history_apply_def commit_def chunk_ids_def split: sum.splits)
qed

lemma calm_sync: "sync_store calm_env st = (Inr (), snd (sync_store calm_env st))"
proof -
  have "fst (sync_store calm_env st) = Inr ()"
    by (auto simp: sync_store_def calm_env_def Let_def first_error_None split: option.splits)
  then show ?thesis by (simp add: prod_eq_iff)
qed

lemma tiny_facts:
  "length (h_undo (ss_history tiny_session)) = 1" "st_segments (ss_store tiny_session) = 1" "reached sum_crc tiny_enc tiny_session"
  "0 \<in> live_set (ss_history tiny_session)" "ss_open tiny_session = None" "ss_generation tiny_session = 0"
  "is_dirty (ss_history tiny_session)" "el_envs (ss_journal tiny_session) = (\<lambda>_. calm_log)"
proof -
  let ?loc = "\<lparr>loc_id = 0, loc_offset = 0, loc_len = 2, loc_crc = 191\<rparr>"
  obtain s where s: "tiny_start = Inr s" "ss_history s = history_new (snapshot_empty 8000)" "ss_store s = store_create 0"
    "ss_open s = None" "el_envs (ss_journal s) = (\<lambda>_. calm_log)" "ss_journaled s = []"
    "ss_generation s = 0" by (rule tiny_start_eq)
  have r: "tiny_recorded = s\<lparr>ss_store := example_store\<rparr>" by (simp add: tiny_recorded_def s(1))
  obtain p where p: "prepare (history_new (snapshot_empty 8000)) tiny_edit = Inr p" "0 \<in> set (chunk_ids (pe_snapshot p))"
    using tiny_prepare by blast
  then have q: "pe_seq p = 1" using prepare_seq by (fastforce simp: history_new_def)
  let ?st = "snd (sync_store calm_env example_store)"
  have ops: "concat (map op_pieces (e_ops tiny_edit)) = [piece_chunk 0 0 2]"
    by (simp add: tiny_edit_def edit_replace_def edit_replace_with_def edit_new_def)
  have v: "validate_op_refs (ss_store tiny_recorded) (e_ops tiny_edit) = Inr ()"
    by (simp add: r tiny_edit_def edit_replace_def edit_replace_with_def edit_new_def piece_chunk_def example_location)
  have u: "unjournaled_chunks tiny_recorded (concat (map op_pieces (e_ops tiny_edit))) = [?loc]"
    unfolding ops by (simp add: r unjournaled_chunks_def pieces_chunk_ids_def piece_chunk_def is_journaled_def s(6)
        List.map_filter_def example_location)
  have rec: "(from_edit 1 tiny_edit None)\<lparr>er_take_wav := None\<rparr> = from_edit 1 tiny_edit None" by (simp add: from_edit_def)
  have "\<exists>l'. log_append sum_crc tiny_enc [JChunks [?loc], JEdit (from_edit 1 tiny_edit None)] (ss_journal s) = (Inr (), l') \<and>
      el_envs l' = (\<lambda>_. calm_log)"
    by (rule calm_append) (simp_all add: s)
  then obtain l where l: "log_append sum_crc tiny_enc [JChunks [?loc], JEdit (from_edit 1 tiny_edit None)] (ss_journal s) = (Inr (), l)"
    "el_envs l = (\<lambda>_. calm_log)" by blast
  have y: "sync_new calm_env [?loc] tiny_recorded = (Inr (), s\<lparr>ss_store := ?st\<rparr>)"
    by (simp add: sync_new_def sync_session_def r) (subst calm_sync, simp)
  have ne: "tiny_session = s\<lparr>ss_store := ?st, ss_journal := l, ss_journaled := mark_all_journaled (ss_journaled s) [?loc],
      ss_history := snd (commit (history_new (snapshot_empty 8000)) p)\<rparr>"
    using v u p q rec l(1) s(2,4) y
    by (simp add: tiny_session_def commit_edit_def commit_internal_def chunk_records_def write_log_def Let_def r split: prod.splits)
  show "length (h_undo (ss_history tiny_session)) = 1" "ss_open tiny_session = None" "ss_generation tiny_session = 0"
    unfolding ne by (simp_all add: s(4,7) commit_def history_new_def)
  show "el_envs (ss_journal tiny_session) = (\<lambda>_. calm_log)" unfolding ne by (simp add: l(2))
  show "is_dirty (ss_history tiny_session)"
    unfolding ne by (simp add: is_dirty_def current_seq_def peek_seq_def commit_def history_new_def q)
  show "st_segments (ss_store tiny_session) = 1"
    unfolding ne using sync_spec [OF _ calm_sync [of example_store], of sum_crc "{#}"] example_sys example_commit_eval
    by (simp add: sys_ok_def)
  show "0 \<in> live_set (ss_history tiny_session)" unfolding ne using p(2) by (simp add: live_set_def commit_def)
  have "reached sum_crc tiny_enc s" using s(1) unfolding tiny_start_def by (rule reached_create)
  moreover have "session_step sum_crc tiny_enc s tiny_recorded"
    using step_write [of sum_crc calm_env example_samples s _ example_store tiny_enc] example_commit_eq unfolding r s(3) by blast
  moreover have "session_step sum_crc tiny_enc tiny_recorded tiny_session"
    by (rule step_commit [of sum_crc tiny_enc calm_env tiny_edit tiny_recorded "fst (commit_edit (log_append sum_crc tiny_enc) calm_env tiny_edit tiny_recorded)"])
      (simp_all add: tiny_session_def tiny_edit_def edit_replace_def edit_replace_with_def edit_new_def edit_typed_def piece_chunk_def
        op_typed_def u32_max_def)
  ultimately show "reached sum_crc tiny_enc tiny_session" by (blast intro: reached_step)
qed

end
