(* ===== verification/Recovery.thy ===== *)
theory Recovery
  imports Session Journal_Log
begin

text \<open>
  \<open>Session::recover\<close>: the file half of \<^verbatim>\<open>crates/project/src/recovery.rs\<close>.

  \<open>recover_env\<close> is what is found on disk and what the operating system answers: the lock, \<^verbatim>\<open>meta.json\<close>,
  the journal's bytes, the chunk file, the take files.  \<open>crc\<close>, \<open>enc\<close> and \<open>dec\<close> are the checksum and serde.
\<close>

record meta =
  mt_version :: nat
  mt_generation :: nat
  mt_rate :: nat

record recovered_take_info =
  ri_take :: nat
  ri_at :: nat
  ri_samples :: nat

record 'v recovery_report =
  rr_lost :: nat
  rr_open_take :: "recovered_take_info option"
  rr_state :: "'v option"
  rr_source :: "source_record option"
  rr_saved :: "saved_facts option"

definition bound_path :: "'v recovery_report \<Rightarrow> string option" where
  "bound_path r =
     (case rr_saved r of Some f \<Rightarrow> Some (sf_path f) | None \<Rightarrow> map_option src_path (rr_source r))"

definition bound_file_facts :: "'v recovery_report \<Rightarrow> (nat \<times> nat) option" where
  "bound_file_facts r =
     (case rr_saved r of
        Some f \<Rightarrow> (case (sf_size f, sf_mtime f) of (Some a, Some b) \<Rightarrow> Some (a, b) | _ \<Rightarrow> None)
      | None \<Rightarrow> map_option (\<lambda>s. (src_size s, src_mtime s)) (rr_source r))"

record recover_env =
  re_lock :: "project_error + bool"
  re_meta :: "meta option"
  re_journal :: "io_error + byte list"
  re_chunks :: "nat \<Rightarrow> byte"
  re_chunks_len :: nat
  re_store_env :: store_env
  re_open_env :: journal_env
  re_append_env :: journal_env
  re_lock_info :: "project_error option"
  re_parts :: "nat \<Rightarrow> project_error + recovered_take list"
  re_max_take_file :: nat

fun corrupt_chunks ::
    "(byte list \<Rightarrow> 32 word) \<Rightarrow> store_env \<Rightarrow> nat list \<Rightarrow> store \<Rightarrow> nat list \<times> store" where
  "corrupt_chunks crc env [] st = ([], st)"
| "corrupt_chunks crc env (i # is) st =
     (case verify_chunk crc env i st of
        (r, st1) \<Rightarrow>
          (case corrupt_chunks crc env is st1 of
             (bad, st2) \<Rightarrow> ((case r of Inl _ \<Rightarrow> i # bad | Inr _ \<Rightarrow> bad), st2)))"

text \<open>The newest state whose audio is intact: the replay, how many records it keeps, the changes lost.\<close>

definition fall_back ::
    "'v journal_record list \<Rightarrow> nat list \<Rightarrow> nat \<Rightarrow> nat \<Rightarrow> project_error + 'v replay_state \<times> nat \<times> nat" where
  "fall_back recs bad consumed lost =
     (case rposition (\<lambda>r. checkpoint_of r \<noteq> None) (take consumed recs) of
        None \<Rightarrow> Inl NothingRecoverable
      | Some cp \<Rightarrow>
          (case find (\<lambda>i. references_any (recs ! i) bad) [cp + 1 ..< consumed] of
             None \<Rightarrow> Inl NothingRecoverable
           | Some cutpos \<Rightarrow>
               let again = replay (take cutpos recs)
               in case ro_replay again of
                    None \<Rightarrow> Inl NothingRecoverable
                  | Some rep \<Rightarrow>
                      if list_ex (\<lambda>i. i \<in> set bad) (live_chunk_ids (rp_history rep) []) then Inl NothingRecoverable
                      else Inr (rep, ro_consumed again,
                                lost + length (filter is_change (drop cutpos (take consumed recs))))))"

definition last_open_take :: "'v replay_state \<Rightarrow> (nat \<times> take_plan) option" where
  "last_open_take rep = (if rp_open_takes rep = [] then None else Some (last (rp_open_takes rep)))"

definition take_info ::
    "(nat \<Rightarrow> project_error + recovered_take list) \<Rightarrow> 'v replay_state \<Rightarrow> nat \<times> take_plan \<Rightarrow> recovered_take_info" where
  "take_info parts_of rep t =
     (case t of (tk, plan) \<Rightarrow>
        let total = (case parts_of tk of Inl _ \<Rightarrow> 0 | Inr ps \<Rightarrow> sum_list (map rt_samples ps));
            n = total - unwrap_or (tp_k_start plan) 0
        in \<lparr>ri_take = tk, ri_at = min (tp_at plan) (s_len (h_current (rp_history rep))),
            ri_samples = (if tp_mode plan = TmPunch then min n (tp_len plan) else n)\<rparr>)"

fun state_value :: "'v journal_record option \<Rightarrow> 'v option" where
  "state_value (Some (JState v)) = Some v"
| "state_value _ = None"

definition recovered_session ::
    "meta \<Rightarrow> 'v replay_state \<Rightarrow> store \<Rightarrow> 'j \<Rightarrow> (nat \<times> take_plan) option \<Rightarrow> nat \<Rightarrow> ('v, 'j) session" where
  "recovered_session mt rep st j tk max_file =
     \<lparr>ss_store = st, ss_journal = j, ss_history = rp_history rep, ss_rate = mt_rate mt,
      ss_journaled = foldl mark_journaled [] (map fst (rp_chunks rep)), ss_open = tk,
      ss_markers = (case tk of None \<Rightarrow> [] | Some (i, _) \<Rightarrow> unwrap_or (map_of (rp_take_markers rep) i) []),
      ss_next_take = max (rp_max_take rep) max_file + 1, ss_generation = mt_generation mt,
      ss_open_record = JOpen (mt_version mt) (mt_rate mt) (rp_source rep),
      ss_last_saved = rp_saved_record rep, ss_last_state = rp_state_record rep\<rparr>"

definition recover ::
    "(byte list \<Rightarrow> 32 word) \<Rightarrow> ('v journal_record \<Rightarrow> byte list option) \<Rightarrow> (byte list \<Rightarrow> 'v journal_record option) \<Rightarrow>
     nat \<Rightarrow> recover_env \<Rightarrow> project_error + ('v, journal) session \<times> 'v recovery_report" where
  "recover crc enc dec budget e =
     (case re_lock e of
        Inl err \<Rightarrow> Inl err
      | Inr False \<Rightarrow> Inl SessionLocked
      | Inr True \<Rightarrow>
     (case re_meta e of
        None \<Rightarrow> Inl NothingRecoverable
      | Some mt \<Rightarrow>
     (case re_journal e of
        Inl err \<Rightarrow> (if err = NotFound then Inl NothingRecoverable else Inl (from_io ''reading the journal'' err))
      | Inr bytes \<Rightarrow>
          let scan = scan_journal is_chunks_record crc dec bytes;
              recs = js_records scan;
              outcome = replay recs
          in
     (case ro_replay outcome of
        None \<Rightarrow> Inl NothingRecoverable
      | Some rep0 \<Rightarrow>
          let lost0 = ro_lost outcome + damaged_changes scan
          in
     (case open_existing (re_chunks e) (re_chunks_len e) budget (map snd (rp_chunks rep0)) of
        Inl err \<Rightarrow> Inl err
      | Inr st0 \<Rightarrow>
          let (bad, st) = corrupt_chunks crc (re_store_env e) (live_chunk_ids (rp_history rep0) []) st0
          in
     (case (if bad = [] then Inr (rep0, ro_consumed outcome, lost0)
            else fall_back recs bad (ro_consumed outcome) lost0) of
        Inl err \<Rightarrow> Inl err
      | Inr (rep, consumed, lost) \<Rightarrow>
          let keep = (if consumed = 0 then 0 else js_ends scan ! (consumed - 1))
          in
     (case open_truncated (re_open_env e) bytes keep of
        Inl err \<Rightarrow> Inl err
      | Inr j \<Rightarrow>
     (case re_lock_info e of
        Some err \<Rightarrow> Inl err
      | None \<Rightarrow>
          let last_take = last_open_take rep;
              preroll = (case last_take of
                           Some (_, plan) \<Rightarrow> tp_aligned plan \<and> tp_k_start plan = None | None \<Rightarrow> False);
              open_tk = (if preroll then None else last_take);
              cancelled = (if preroll then map_option fst last_take else None);
              report = \<lparr>rr_lost = lost, rr_open_take = map_option (take_info (re_parts e) rep) open_tk,
                        rr_state = state_value (rp_state_record rep), rr_source = rp_source rep,
                        rr_saved = rp_saved rep\<rparr>;
              s = recovered_session mt rep st j open_tk (re_max_take_file e)
          in case cancelled of
               None \<Rightarrow> Inr (s, report)
             | Some tk \<Rightarrow>
                 (case write_log (journal_append crc enc (re_append_env e)) [JTakeCancel tk] s of
                    (Inl err, _) \<Rightarrow> Inl err
                  | (Inr _, s1) \<Rightarrow> Inr (s1, report))))))))))"

end
