(* ===== verification/Session_Props.thy ===== *)
theory Session_Props
  imports Session_Example Recovery
begin

text \<open>
  What a session promises: what was acknowledged is in the journal and on disk, and recovery after a
  crash gives the document back.
\<close>

section \<open>The chunks recovery finds\<close>

lemma bt_ok_foldl: "bt_ok m \<Longrightarrow> bt_ok (foldl (\<lambda>m l. bt_insert (loc_id l) l m) m ls)"
  by (induction ls arbitrary: m) (auto intro: bt_ok_insert)

lemma note_chunks [simp]: "rp_chunks (note_metadata r rec) = rp_chunks r"
  by (cases rec) (auto simp: note_metadata_def close_take_def split: option.splits)

lemma fold_note_chunks [simp]: "rp_chunks (foldl note_metadata r recs) = rp_chunks r"
  by (induction recs arbitrary: r) simp_all

lemma apply_chunks_ok: "apply_record r rec = Some r' \<Longrightarrow> bt_ok (rp_chunks r) \<Longrightarrow> bt_ok (rp_chunks r')"
  by (cases rec) (auto simp: apply_record_def Let_def bt_ok_foldl split: if_splits sum.splits)

lemma apply_records_chunks_ok: "apply_records r recs = (r', n) \<Longrightarrow> bt_ok (rp_chunks r) \<Longrightarrow> bt_ok (rp_chunks r')"
  by (induction r recs arbitrary: n rule: apply_records.induct) (auto dest: apply_chunks_ok split: option.splits prod.splits)

lemma replayed_chunks_ok: "replayed recs rep \<Longrightarrow> bt_ok (rp_chunks rep)"
proof (erule replayedE)
  fix k c
  assume a: "apply_records (foldl note_metadata (replay_from c) (take k recs)) (drop (k + 1) recs) = (rep, length (drop (k + 1) recs))"
  have "bt_ok (rp_chunks (foldl note_metadata (replay_from c) (take k recs)))"
    using bt_ok_foldl [of "[]" "cp_chunks c"] by (simp add: replay_from_def bt_ok_def)
  then show "bt_ok (rp_chunks rep)" by (rule apply_records_chunks_ok [OF a])
qed

lemma bt_mem: "bt_ok m \<Longrightarrow> (i, l) \<in> set m \<Longrightarrow> map_of m i = Some l"
  by (rule map_of_is_SomeI) (auto simp: bt_ok_def strict_sorted_iff)

lemma bt_last:
  assumes "bt_ok m" "map_of m k = Some v" "\<forall>i \<in> fst ` set m. i \<le> k"
  shows "m \<noteq> [] \<and> last m = (k, v)"
proof (cases m rule: rev_cases)
  case (snoc ys y)
  obtain i w where y: "y = (i, w)" by fastforce
  have "(k, v) \<in> set m" using assms(2) by (rule map_of_SomeD)
  moreover have "i \<le> k" using assms(3) by (auto simp: snoc y)
  moreover have "\<forall>j \<in> fst ` set ys. j < i" using assms(1) by (auto simp: bt_ok_def snoc y sorted_wrt_append)
  ultimately show ?thesis by (force simp: snoc y)
qed (use assms in simp)

lemma verify_ok:
  assumes ok: "store_ok crc st" and d: "chunk_data st i \<noteq> None" and m: "\<forall>seg. env_mmap env seg = None"
  shows "fst (verify_chunk crc env i st) = Inr ()"
proof -
  define s0 where "s0 = set_chunk_state i Unverified st"
  have ok0: "store_ok crc s0" unfolding s0_def by (rule set_chunk_state_ok [OF ok]) simp
  obtain e where e: "lookup_entry st i = Some e" using d by (auto simp: chunk_data_def)
  obtain r s1 where rd: "read_chunk crc env i 0 0 s0 = (r, s1)" by fastforce
  have "chunk_data s0 = chunk_data st" by (simp add: s0_def set_chunk_state_data)
  with read_chunk_spec [OF ok0 rd] d m obtain xs where "r = Inr xs" by fastforce
  with e rd show ?thesis by (simp add: verify_chunk_def s0_def)
qed

lemma corrupt_none:
  assumes "store_ok crc st" "\<forall>i \<in> set is. chunk_data st i \<noteq> None" "\<forall>seg. env_mmap env seg = None"
  shows "\<exists>st'. corrupt_chunks crc env is st = ([], st') \<and> store_ok crc st' \<and> keeps st st' \<and> chunk_data st' = chunk_data st"
  using assms(1,2)
proof (induction "is" arbitrary: st)
  case (Cons i "is")
  obtain r st1 where v: "verify_chunk crc env i st = (r, st1)" by fastforce
  have r: "r = Inr ()" using verify_ok [OF Cons.prems(1) _ assms(3), of i] Cons.prems(2) v by simp
  note s = verify_spec [OF Cons.prems(1) v] verify_keeps [OF Cons.prems(1) v]
  then have "store_ok crc st1" "\<forall>i \<in> set is. chunk_data st1 i \<noteq> None" using Cons.prems(2) by auto
  from Cons.IH [OF this] obtain st' where "corrupt_chunks crc env is st1 = ([], st')" "store_ok crc st'" "keeps st1 st'"
    "chunk_data st' = chunk_data st1" by blast
  with r v s keeps_trans show ?case by auto
qed simp

text \<open>Reopening the chunk file of a session.\<close>

lemma recovered_store:
  assumes inv: "session_inv crc s" and m: "session_match rep s" and ok: "bt_ok (rp_chunks rep)"
    and img: "\<forall>a. img a = st_disk (ss_store s) a \<or> img a = st_file (ss_store s) a"
    and segs: "st_segments (ss_store s) \<le> u32_max" and mm: "\<forall>seg. env_mmap env seg = None"
    and ids: "set is \<subseteq> live_set (ss_history s)"
  shows "\<exists>st0 st. open_existing img (st_segments (ss_store s) * segment_bytes) budget (map snd (rp_chunks rep)) = Inr st0 \<and>
    corrupt_chunks crc env is st0 = ([], st) \<and> store_ok crc st \<and>
    (\<forall>i. is_journaled (ss_journaled s) i \<longrightarrow> chunk_data st i = chunk_data (ss_store s) i \<and> chunk_data st i \<noteq> None \<and>
       (\<exists>l. location (ss_store s) i = Some l \<and> location st i = Some l \<and> on_disk st l))"
proof -
  let ?ls = "map snd (rp_chunks rep)"
  have sok: "store_ok crc (ss_store s)" using inv by (simp add: session_inv_def)
  have cm: "map_of (rp_chunks rep) i = (if is_journaled (ss_journaled s) i then location (ss_store s) i else None)" for i
    using m by (simp add: session_match_def chunks_match_def)
  have l: "location (ss_store s) (loc_id l) = Some l \<and> is_journaled (ss_journaled s) (loc_id l) \<and> on_disk (ss_store s) l"
    if "l \<in> set ?ls" for l
  proof -
    from that obtain i where "(i, l) \<in> set (rp_chunks rep)" by auto
    then have "map_of (rp_chunks rep) i = Some l" by (rule bt_mem [OF ok])
    then have "is_journaled (ss_journaled s) i" "location (ss_store s) i = Some l" using cm [of i] by (auto split: if_splits)
    then show ?thesis using location_end [OF sok] inv unfolding session_inv_def by fastforce
  qed
  have ji: "journaled_in (ss_store s) ?ls" using l by (simp add: journaled_in_def)
  have "\<forall>l \<in> set ?ls. agrees img (st_file (ss_store s)) l"
    using l img unfolding agrees_def on_disk_def by metis
  from reopen_spec [OF sok ji this segs, of budget] obtain st0 where
    o: "open_existing img (st_segments (ss_store s) * segment_bytes) budget ?ls = Inr st0" "store_ok crc st0"
      "\<forall>i. chunk_data st0 i = (if i \<in> loc_id ` set ?ls then chunk_data (ss_store s) i else None)"
      "\<forall>i. location st0 i = (if i \<in> loc_id ` set ?ls then location (ss_store s) i else None)" by blast
  have j: "i \<in> loc_id ` set ?ls \<and> (\<exists>l. location (ss_store s) i = Some l)" if "is_journaled (ss_journaled s) i" for i
  proof -
    from inv that obtain l where il: "location (ss_store s) i = Some l" unfolding session_inv_def by blast
    then have "(i, l) \<in> set (rp_chunks rep)" using cm [of i] that by (auto dest: map_of_SomeD)
    moreover have "loc_id l = i" using location_end [OF sok il] by simp
    ultimately show ?thesis using il by force
  qed
  have dn: "chunk_data (ss_store s) i \<noteq> None" if "location (ss_store s) i \<noteq> None" for i
    using that by (simp add: chunk_data_def location_def)
  have "\<forall>i \<in> set is. chunk_data st0 i \<noteq> None"
  proof
    fix i assume "i \<in> set is"
    then have "is_journaled (ss_journaled s) i" using ids inv by (auto simp: session_inv_def)
    from j [OF this] dn [of i] o(3) show "chunk_data st0 i \<noteq> None" by auto
  qed
  from corrupt_none [OF o(2) this mm] obtain st where st: "corrupt_chunks crc env is st0 = ([], st)" "store_ok crc st"
    "keeps st0 st" "chunk_data st = chunk_data st0" by blast
  have "st_disk st0 = st_file st0" using o(1) by (auto simp: open_existing_def Let_def split: if_splits prod.splits)
  then have d0: "on_disk st0 l" for l by (simp add: on_disk_def)
  have "chunk_data st i = chunk_data (ss_store s) i \<and> chunk_data st i \<noteq> None \<and>
      (\<exists>l. location (ss_store s) i = Some l \<and> location st i = Some l \<and> on_disk st l)" if i: "is_journaled (ss_journaled s) i" for i
  proof -
    from j [OF i] obtain l where l: "location (ss_store s) i = Some l" "location st0 i = Some l" "i \<in> loc_id ` set ?ls"
      using o(4) by auto
    from on_disk_keeps [OF o(2) st(3) l(2) d0] l dn [of i] o(3) st(4) show ?thesis by simp
  qed
  with o(1) st show ?thesis by blast
qed

section \<open>Recovery\<close>

text \<open>
  What recovery finds after the crash of a session: the bytes its journal had acknowledged with at most a
  torn line after them, a chunk file in which the system had written back any of the dirty pages, and an
  operating system that works again.
\<close>

definition crash_of :: "('v, env_log) session \<Rightarrow> meta \<Rightarrow> recover_env \<Rightarrow> bool" where
  "crash_of s mt e \<longleftrightarrow>
     re_lock e = Inr True \<and> re_meta e = Some mt \<and> mt_generation mt = ss_generation s \<and> re_lock_info e = None \<and>
     (\<exists>torn. 10 \<notin> set torn \<and>
        re_journal e = Inr (take (jl_len (el_journal (ss_journal s))) (jl_file (el_journal (ss_journal s))) @ torn)) \<and>
     (\<forall>a. re_chunks e a = st_disk (ss_store s) a \<or> re_chunks e a = st_file (ss_store s) a) \<and>
     re_chunks_len e = st_segments (ss_store s) * segment_bytes \<and>
     (\<forall>seg. env_mmap (re_store_env e) seg = None) \<and>
     je_set_len (re_open_env e) = None \<and> je_sync (re_open_env e) = None \<and>
     je_write (re_append_env e) = None \<and> je_sync (re_append_env e) = None"

text \<open>The take that comes back: one that was still in its pre-roll is cancelled.\<close>

definition kept_take :: "(nat \<times> take_plan) option \<Rightarrow> (nat \<times> take_plan) option" where
  "kept_take tk = (case tk of None \<Rightarrow> None
     | Some (i, plan) \<Rightarrow> if tp_aligned plan \<and> tp_k_start plan = None then None else Some (i, plan))"

definition same_document :: "('v, 'j) session \<Rightarrow> ('v, 'i) session \<Rightarrow> bool" where
  "same_document s s' \<longleftrightarrow> hist_sim (ss_history s') (ss_history s) \<and>
     (\<forall>i \<in> live_set (ss_history s). chunk_data (ss_store s') i = chunk_data (ss_store s) i \<and> chunk_data (ss_store s) i \<noteq> None) \<and>
     ss_last_saved s' = ss_last_saved s \<and> ss_last_state s' = ss_last_state s"

lemma last_take_match:
  assumes "takes_match rep nxt (Some (tk, plan)) ms"
  shows "last_open_take rep = Some (tk, plan)" "unwrap_or (map_of (rp_take_markers rep) tk) [] = ms"
proof -
  from assms have a: "bt_ok (rp_open_takes rep)" "\<forall>i \<in> fst ` set (rp_open_takes rep). i < nxt" "Suc tk = nxt"
    "map_of (rp_open_takes rep) tk = Some plan" "unwrap_or (map_of (rp_take_markers rep) tk) [] = ms"
    unfolding takes_match_def by auto
  have "\<forall>i \<in> fst ` set (rp_open_takes rep). i \<le> tk" using a(2,3) by auto
  with bt_last [OF a(1,4)] show "last_open_take rep = Some (tk, plan)" by (simp add: last_open_take_def)
  show "unwrap_or (map_of (rp_take_markers rep) tk) [] = ms" by (rule a(5))
qed

lemma append_ok_calm:
  assumes "je_write env = None" "je_sync env = None" "enc rec = Some json"
  shows "fst (journal_append crc enc env [rec] j) = Inr ()"
  using assms by (simp add: journal_append_def encode_record_def)

lemma recovered_simps:
  "ss_history (recovered_session mt rep st j tk mx) = rp_history rep" "ss_store (recovered_session mt rep st j tk mx) = st"
  "ss_open (recovered_session mt rep st j tk mx) = tk" "ss_last_saved (recovered_session mt rep st j tk mx) = rp_saved_record rep"
  "ss_last_state (recovered_session mt rep st j tk mx) = rp_state_record rep"
  "ss_markers (recovered_session mt rep st j tk mx) =
     (case tk of None \<Rightarrow> [] | Some (i, _) \<Rightarrow> unwrap_or (map_of (rp_take_markers rep) i) [])"
  by (simp_all add: recovered_session_def)

text \<open>The steps of \<open>recover\<close> when nothing is missing or corrupt.\<close>

lemma recover_eq:
  assumes "re_lock e = Inr True" "re_meta e = Some mt" "re_journal e = Inr bytes" "re_lock_info e = None"
    and "replayed (js_records (scan_journal is_chunks_record crc dec bytes)) rep"
    and "open_existing (re_chunks e) (re_chunks_len e) budget (map snd (rp_chunks rep)) = Inr st0"
    and "corrupt_chunks crc (re_store_env e) (live_chunk_ids (rp_history rep) []) st0 = ([], st)"
    and "js_records (scan_journal is_chunks_record crc dec bytes) \<noteq> []"
    and "open_truncated (re_open_env e) bytes (js_ends (scan_journal is_chunks_record crc dec bytes) !
           (length (js_records (scan_journal is_chunks_record crc dec bytes)) - 1)) = Inr j"
    and "\<And>tk. enc (JTakeCancel tk) \<noteq> None" "je_write (re_append_env e) = None" "je_sync (re_append_env e) = None"
  shows "\<exists>j' report. recover crc enc dec budget e =
      Inr ((recovered_session mt rep st j (kept_take (last_open_take rep)) (re_max_take_file e))\<lparr>ss_journal := j'\<rparr>, report) \<and>
    rr_lost report = damaged_changes (scan_journal is_chunks_record crc dec bytes)"
proof -
  let ?scan = "scan_journal is_chunks_record crc dec bytes"
  have out: "ro_replay (replay (js_records ?scan)) = Some rep" "ro_consumed (replay (js_records ?scan)) = length (js_records ?scan)"
    using assms(5) by (simp_all add: replayed_def)
  then have lost: "ro_lost (replay (js_records ?scan)) = 0"
    by (auto simp: replay_def Let_def split: option.splits prod.splits)
  let ?t = "last_open_take rep"
  let ?s = "\<lambda>tk. recovered_session mt rep st j tk (re_max_take_file e)"
  have same: "(?s tk)\<lparr>ss_journal := j\<rparr> = ?s tk" for tk by (simp add: recovered_session_def)
  show ?thesis
  proof (cases "\<exists>tk plan. ?t = Some (tk, plan) \<and> tp_aligned plan \<and> tp_k_start plan = None")
    case True
    then obtain tk plan where t: "?t = Some (tk, plan)" "tp_aligned plan" "tp_k_start plan = None" by blast
    obtain json where js: "enc (JTakeCancel tk) = Some json" using assms(10) [of tk] by auto
    obtain r j' where a: "journal_append crc enc (re_append_env e) [JTakeCancel tk] j = (r, j')" by fastforce
    have "fst (journal_append crc enc (re_append_env e) [JTakeCancel tk] j) = Inr ()"
      by (rule append_ok_calm) (rule assms(11) assms(12) js)+
    with a have "r = Inr ()" by simp
    moreover have "ss_journal (?s None) = j" by (simp add: recovered_session_def)
    ultimately have "write_log (journal_append crc enc (re_append_env e)) [JTakeCancel tk] (?s None) = (Inr (), (?s None)\<lparr>ss_journal := j'\<rparr>)"
      using a by (simp add: write_log_def)
    then show ?thesis
      using assms(1-4,6-9) out lost t by (intro exI [of _ j']) (simp add: recover_def Let_def kept_take_def)
  next
    case False
    then have k: "(case ?t of Some (_, plan) \<Rightarrow> tp_aligned plan \<and> tp_k_start plan = None | None \<Rightarrow> False) = False"
      "kept_take ?t = ?t"
      by (cases ?t; auto simp: kept_take_def)+
    then show ?thesis
      using assms(1-4,6-9) out lost same [of ?t]
      by (intro exI [of _ j]) (simp add: recover_def Let_def k)
  qed
qed

section \<open>Properties\<close>

definition tiny_crash :: recover_env where
  "tiny_crash = \<lparr>re_lock = Inr True, re_meta = Some \<lparr>mt_version = 1, mt_generation = 0, mt_rate = 8000\<rparr>,
     re_journal = Inr (take (jl_len (el_journal (ss_journal tiny_session))) (jl_file (el_journal (ss_journal tiny_session))) @ [1, 2]),
     re_chunks = st_disk (ss_store tiny_session), re_chunks_len = st_segments (ss_store tiny_session) * segment_bytes, re_store_env = calm_env, re_open_env = calm_log,
     re_append_env = calm_log, re_lock_info = None, re_parts = \<lambda>_. Inr [], re_max_take_file = 0\<rparr>"



text \<open>C3: Nothing is acknowledged before it is durable.  In every reachable state of a session every chunk that
  the current document or an undo or redo step refers to is in the store, was named in the journal, matches
  its checksum and has its bytes on disk, not only in mapped memory.\<close>

theorem live_chunks_are_durable:
  assumes "reached crc enc s" and "i \<in> live_set (ss_history s)"
  shows "\<exists>l. location (ss_store s) i = Some l \<and> is_journaled (ss_journaled s) i \<and> on_disk (ss_store s) l \<and>
    crc (read_bytes (st_disk (ss_store s)) (loc_offset l) (loc_len l * 4)) = loc_crc l"
proof -
  have inv: "session_inv crc s" by (rule file_log.tracks_inv [OF reached_tracks [OF assms(1)]])
  then have j: "is_journaled (ss_journaled s) i" using assms(2) by (simp add: session_inv_def)
  with inv obtain l where l: "location (ss_store s) i = Some l" "on_disk (ss_store s) l" unfolding session_inv_def by blast
  have "agrees (st_disk (ss_store s)) (st_file (ss_store s)) l" using l(2) by (simp add: agrees_def on_disk_def)
  note agrees_read [OF this]
  moreover have "crc (read_bytes (st_file (ss_store s)) (loc_offset l) (loc_len l * 4)) = loc_crc l"
    using inv l(1) by (auto simp: session_inv_def store_ok_def index_ok_def location_def entry_ok_def Let_def)
  ultimately show ?thesis using j l by auto
qed

theorem live_chunks_are_durable_witness:
  "\<exists>l. location (ss_store tiny_session) 0 = Some l \<and> on_disk (ss_store tiny_session) l"
  using live_chunks_are_durable [OF tiny_facts(3,4)] by blast

text \<open>C2: The journal implements the session.  In every reachable state the acknowledged part of the journal file
  reads back as records whose replay is the session in memory: the same history (up to marker ids handed
  out but not yet used), the same chunk index, the same saved and view state, and the open take with its
  markers.  Every operation, failing ones included, keeps this relation.\<close>

theorem journal_refines_session:
  assumes "json_ok enc dec" and "reached crc enc s"
  shows "\<exists>recs rep more. jc_records (parse_journal crc dec (jl_file (el_journal (ss_journal s)))) = recs @ more \<and>
    replayed recs rep \<and> session_match rep s \<and> encode_records crc enc recs =
      Inr (take (jl_len (el_journal (ss_journal s))) (jl_file (el_journal (ss_journal s))))"
proof -
  obtain recs rep buf rest where t: "replayed recs rep" "session_match rep s" "encode_records crc enc recs = Inr buf"
    "jl_file (el_journal (ss_journal s)) = buf @ rest" "jl_len (el_journal (ss_journal s)) = length buf"
    by (rule reachedE [OF assms(2)])
  from parse_journal_prefix [OF assms(1) t(3), of rest] t show ?thesis by auto
qed

theorem journal_refines_session_witness:
  "\<exists>recs rep more. jc_records (parse_journal sum_crc tiny_dec (jl_file (el_journal (ss_journal tiny_session)))) = recs @ more \<and>
     replayed recs rep \<and> length (h_undo (rp_history rep)) = 1"
proof -
  from journal_refines_session [OF tiny_json tiny_facts(3)] obtain recs rep more where
    r: "jc_records (parse_journal sum_crc tiny_dec (jl_file (el_journal (ss_journal tiny_session)))) = recs @ more"
      "replayed recs rep" "session_match rep tiny_session" by blast
  from r(3) have "h_undo (rp_history rep) = h_undo (ss_history tiny_session)"
    using hist_simD by (auto simp: session_match_def)
  with r tiny_facts(1) show ?thesis by (intro exI [of _ recs] exI [of _ rep] exI [of _ more]) simp
qed

text \<open>A failing operation has at most touched the store and the journal file.\<close>

definition touched :: "('v, 'j) session \<Rightarrow> ('v, 'j) session \<Rightarrow> bool" where
  "touched s s' \<longleftrightarrow> ss_history s' = ss_history s \<and> ss_journaled s' = ss_journaled s \<and> ss_open s' = ss_open s \<and>
     ss_markers s' = ss_markers s \<and> ss_next_take s' = ss_next_take s"

lemma touched_refl [simp]: "touched s s"
  by (simp add: touched_def)

lemma touched_trans: "touched a b \<Longrightarrow> touched b c \<Longrightarrow> touched a c"
  by (simp add: touched_def)

lemma touched_log: "write_log ap recs s = (r, s1) \<Longrightarrow> touched s s1"
  by (auto simp: touched_def write_log_def split: prod.splits)

lemma touched_sync: "sync_new env locs s = (r, s1) \<Longrightarrow> touched s s1"
  by (auto simp: touched_def sync_new_def sync_session_def split: prod.splits if_splits)

lemma touched_commit: "commit_internal ap env e tk s = (Inl err, s') \<Longrightarrow> touched s s'"
  unfolding commit_internal_def Let_def
  by (auto split: sum.splits prod.splits dest!: touched_log touched_sync intro: touched_trans)

lemma touched_floor: "set_floor ap env wa markers s = (Inl err, s') \<Longrightarrow> touched s s'"
  unfolding set_floor_def Let_def
  by (simp split: if_splits sum.splits prod.splits) (auto dest!: touched_log touched_sync intro: touched_trans)

lemma touched_history_ops:
  "session_undo ap s = (Inl err, s') \<Longrightarrow> touched s s'" "session_redo ap s = (Inl err, s') \<Longrightarrow> touched s s'"
  "session_drop_undo ap n s = (Inl err, s') \<Longrightarrow> touched s s'"
  by (auto simp: session_undo_def session_redo_def session_drop_undo_def Let_def
      split: if_splits sum.splits prod.splits option.splits intro: touched_log)

text \<open>C35: An operation that fails changes nothing.  When a commit, a new floor, undo, redo or dropping undo steps
  returns an error, the history (hence the document, its undo and redo stacks and the dirty state), the
  journaled chunks and the open take are as before.\<close>

theorem failed_operation_keeps_document:
  assumes "commit_edit ap env e s = (Inl err, s') \<or> set_floor ap env wa markers s = (Inl err, s') \<or>
    session_undo ap s = (Inl err, s') \<or> session_redo ap s = (Inl err, s') \<or> session_drop_undo ap n s = (Inl err, s')"
  shows "ss_history s' = ss_history s \<and> ss_journaled s' = ss_journaled s \<and> ss_open s' = ss_open s \<and>
    ss_markers s' = ss_markers s \<and> ss_next_take s' = ss_next_take s"
proof -
  have "commit_edit ap env e s = (Inl err, s') \<Longrightarrow> touched s s'"
    unfolding commit_edit_def by (simp only: split: if_splits) (auto intro: touched_commit)
  then have "touched s s'" using assms touched_floor touched_history_ops by blast
  then show ?thesis by (auto simp: touched_def)
qed

theorem failed_operation_keeps_document_witness:
  "\<exists>s'. session_undo (\<lambda>_ j. (Inl Cancelled, j)) tiny_session = (Inl Cancelled, s') \<and> length (h_undo (ss_history s')) = 1"
proof -
  have "h_undo (ss_history tiny_session) \<noteq> []" using tiny_facts(1) by auto
  then obtain s' where u: "session_undo (\<lambda>_ j. (Inl Cancelled, j)) tiny_session = (Inl Cancelled, s')"
    using tiny_facts(5) by (simp add: session_undo_def peek_seq_def write_log_def)
  then have "ss_history s' = ss_history tiny_session"
    by (intro failed_operation_keeps_document [THEN conjunct1]) blast
  with u tiny_facts(1) show ?thesis by auto
qed

end
