(* ===== verification/F32.thy ===== *)
theory F32
  imports Chunk_Store
begin

text \<open>
  The order of \<open>f32\<close> on its bit patterns: what the source uses of Rust's \<open>f32\<close> comparisons.

  \<open>f32_key\<close> maps a pattern that is no NaN to an integer so that \<open>a < b\<close> in Rust is \<open><\<close> of the keys; the
  two zeros have the same key.  \<open>f32::min\<close> and \<open>f32::max\<close> ignore a NaN operand; which of two equal
  operands they return is not fixed by Rust, and every statement here is up to \<open>f32_eq\<close>.
\<close>

definition f32_mag :: "f32 \<Rightarrow> int" where
  "f32_mag w = uint (w AND 0x7FFFFFFF)"

definition f32_nan :: "f32 \<Rightarrow> bool" where
  "f32_nan w \<longleftrightarrow> 0x7F800000 < f32_mag w"

definition f32_key :: "f32 \<Rightarrow> int" where
  "f32_key w = (if w AND 0x80000000 = 0 then f32_mag w else - f32_mag w)"

definition f32_lt :: "f32 \<Rightarrow> f32 \<Rightarrow> bool" where
  "f32_lt a b \<longleftrightarrow> \<not> f32_nan a \<and> \<not> f32_nan b \<and> f32_key a < f32_key b"

definition f32_eq :: "f32 \<Rightarrow> f32 \<Rightarrow> bool" where
  "f32_eq a b \<longleftrightarrow> \<not> f32_nan a \<and> \<not> f32_nan b \<and> f32_key a = f32_key b"

definition f32_min :: "f32 \<Rightarrow> f32 \<Rightarrow> f32" where
  "f32_min a b = (if f32_nan a then b else if f32_lt b a then b else a)"

definition f32_max :: "f32 \<Rightarrow> f32 \<Rightarrow> f32" where
  "f32_max a b = (if f32_nan a then b else if f32_lt a b then b else a)"

definition f32_inf :: f32 where
  "f32_inf = 0x7F800000"

definition f32_neg_inf :: f32 where
  "f32_neg_inf = 0xFF800000"

abbreviation max_key :: int where
  "max_key \<equiv> 0x7F800000"

lemma f32_consts [simp]:
  "\<not> f32_nan f32_inf" "\<not> f32_nan f32_neg_inf" "\<not> f32_nan 0"
  "f32_key f32_inf = max_key" "f32_key f32_neg_inf = - max_key" "f32_key 0 = 0"
  by (simp_all add: f32_nan_def f32_key_def f32_mag_def f32_inf_def f32_neg_inf_def)

lemma f32_mag_nonneg: "0 \<le> f32_mag w"
  by (simp add: f32_mag_def)

lemma f32_key_bounds: "\<not> f32_nan w \<Longrightarrow> - max_key \<le> f32_key w \<and> f32_key w \<le> max_key"
  using f32_mag_nonneg [of w] by (auto simp: f32_nan_def f32_key_def)

lemma f32_min_key:
  assumes "\<not> f32_nan a"
  shows "\<not> f32_nan (f32_min a b)"
    and "f32_key (f32_min a b) = (if f32_nan b then f32_key a else min (f32_key a) (f32_key b))"
  using assms by (auto simp: f32_min_def f32_lt_def)

lemma f32_max_key:
  assumes "\<not> f32_nan a"
  shows "\<not> f32_nan (f32_max a b)"
    and "f32_key (f32_max a b) = (if f32_nan b then f32_key a else max (f32_key a) (f32_key b))"
  using assms by (auto simp: f32_max_def f32_lt_def)

text \<open>The compare-and-select the vectorised code writes, \<open>if s < l { s } else { l }\<close>, is \<open>f32_min\<close>.\<close>

lemma select_min: "\<not> f32_nan l \<Longrightarrow> (if f32_lt s l then s else l) = f32_min l s"
  by (simp add: f32_min_def)

lemma select_max: "\<not> f32_nan h \<Longrightarrow> (if f32_lt h s then s else h) = f32_max h s"
  by (simp add: f32_max_def)

text \<open>Keys with a NaN read as the neutral element of the fold.\<close>

definition key_lo :: "f32 \<Rightarrow> int" where
  "key_lo s = (if f32_nan s then max_key else f32_key s)"

definition key_hi :: "f32 \<Rightarrow> int" where
  "key_hi s = (if f32_nan s then - max_key else f32_key s)"

lemma f32_min_key_lo: "\<not> f32_nan a \<Longrightarrow> f32_key (f32_min a b) = min (f32_key a) (key_lo b)"
  using f32_key_bounds [of a] by (auto simp: f32_min_key key_lo_def)

lemma f32_max_key_hi: "\<not> f32_nan a \<Longrightarrow> f32_key (f32_max a b) = max (f32_key a) (key_hi b)"
  using f32_key_bounds [of a] by (auto simp: f32_max_key key_hi_def)

definition min_keys :: "f32 list \<Rightarrow> int" where
  "min_keys xs = foldr (\<lambda>s. min (key_lo s)) xs max_key"

definition max_keys :: "f32 list \<Rightarrow> int" where
  "max_keys xs = foldr (\<lambda>s. max (key_hi s)) xs (- max_key)"

lemma min_keys_simps [simp]:
  "min_keys [] = max_key" "min_keys (x # xs) = min (key_lo x) (min_keys xs)"
  by (simp_all add: min_keys_def)

lemma max_keys_simps [simp]:
  "max_keys [] = - max_key" "max_keys (x # xs) = max (key_hi x) (max_keys xs)"
  by (simp_all add: max_keys_def)

lemma min_keys_le: "min_keys xs \<le> max_key"
  by (induction xs) auto

lemma max_keys_ge: "- max_key \<le> max_keys xs"
  by (induction xs) auto

lemma min_keys_append [simp]: "min_keys (xs @ ys) = min (min_keys xs) (min_keys ys)"
  using min_keys_le [of ys] by (induction xs) auto

lemma max_keys_append [simp]: "max_keys (xs @ ys) = max (max_keys xs) (max_keys ys)"
  using max_keys_ge [of ys] by (induction xs) auto

lemma min_keys_replicate [simp]: "min_keys (replicate n f32_inf) = max_key"
  by (induction n) (auto simp: key_lo_def)

lemma max_keys_replicate [simp]: "max_keys (replicate n f32_neg_inf) = - max_key"
  by (induction n) (auto simp: key_hi_def)

lemma min_keys_lower: "s \<in> set xs \<Longrightarrow> min_keys xs \<le> key_lo s"
  by (induction xs) auto

lemma max_keys_upper: "s \<in> set xs \<Longrightarrow> key_hi s \<le> max_keys xs"
  by (induction xs) auto

lemma min_keys_attained: "xs \<noteq> [] \<Longrightarrow> \<exists>s \<in> set xs. min_keys xs = key_lo s"
proof (induction xs)
  case (Cons x xs)
  have "key_lo x \<le> max_key" using f32_key_bounds [of x] by (simp add: key_lo_def)
  with Cons show ?case by (cases "xs = []") (auto simp: min_def)
qed simp

lemma max_keys_attained: "xs \<noteq> [] \<Longrightarrow> \<exists>s \<in> set xs. max_keys xs = key_hi s"
proof (induction xs)
  case (Cons x xs)
  have "- max_key \<le> key_hi x" using f32_key_bounds [of x] by (simp add: key_hi_def)
  with Cons show ?case by (cases "xs = []") (auto simp: max_def)
qed simp

lemma foldl_min_keys:
  "\<not> f32_nan a \<Longrightarrow> \<not> f32_nan (foldl f32_min a xs) \<and> f32_key (foldl f32_min a xs) = min (f32_key a) (min_keys xs)"
proof (induction xs arbitrary: a)
  case Nil
  then show ?case using f32_key_bounds [of a] by simp
next
  case (Cons x xs)
  from Cons.IH [of "f32_min a x"] Cons.prems show ?case by (simp add: f32_min_key(1) f32_min_key_lo min.assoc)
qed

lemma foldl_max_keys:
  "\<not> f32_nan a \<Longrightarrow> \<not> f32_nan (foldl f32_max a xs) \<and> f32_key (foldl f32_max a xs) = max (f32_key a) (max_keys xs)"
proof (induction xs arbitrary: a)
  case Nil
  then show ?case using f32_key_bounds [of a] by simp
next
  case (Cons x xs)
  from Cons.IH [of "f32_max a x"] Cons.prems show ?case by (simp add: f32_max_key(1) f32_max_key_hi max.assoc)
qed

end
