(* ===== verification/Peaks.thy ===== *)
theory Peaks
  imports F32 Store_Props Fs_Util
begin

text \<open>
  Per-chunk min/max peak pyramids and their records: \<^verbatim>\<open>crates/project/src/store/peaks.rs\<close>, and
  \<open>ChunkStore::chunk_peaks\<close> of \<^verbatim>\<open>store/mod.rs\<close>, which reads a record or recomputes it.

  \<open>buckets\<close> is one flat list of 1365 pairs; level \<open>k\<close> starts at \<open>level_offsets ! k\<close>.  \<open>crc\<close> stands for
  \<open>crc32fast\<close>.  Shown: the eight-lane \<open>min_max\<close> and the per-sample fold the tests compare with give the
  same pyramid; every bucket spans its samples, and exactly when none of them is a NaN; a record reads
  back; \<open>chunk_peaks\<close> returns the pyramid of the chunk's samples.
\<close>

type_synonym bucket = "f32 \<times> f32"

section \<open>Computing a pyramid\<close>

definition peak_levels_spp :: "nat list" where
  "peak_levels_spp = [64, 256, 1024, 4096, 16384, 65536]"

definition peak_buckets_per_chunk :: nat where
  "peak_buckets_per_chunk = 1365"

definition level_offsets :: "nat list" where
  "level_offsets = [0, 1024, 1280, 1344, 1360, 1364]"

record chunk_peaks =
  len_samples :: nat
  has_non_finite :: bool
  buckets :: "bucket list"

text \<open>\<open>slice::chunks\<close>, \<open>usize::div_ceil\<close>, and writing values over the slots from \<open>off\<close> on.\<close>

definition div_ceil :: "nat \<Rightarrow> nat \<Rightarrow> nat" where
  "div_ceil n k = (n + k - 1) div k"

definition chunks :: "nat \<Rightarrow> 'a list \<Rightarrow> 'a list list" where
  "chunks k xs = map (\<lambda>i. take k (drop (i * k) xs)) [0 ..< div_ceil (length xs) k]"

definition write_slots :: "nat \<Rightarrow> 'a list \<Rightarrow> 'a list \<Rightarrow> 'a list" where
  "write_slots off vals bs =
     (let vals = take (length bs - off) vals
      in take off bs @ vals @ drop (off + length vals) bs)"

definition empty_bucket :: bucket where
  "empty_bucket = (f32_inf, f32_neg_inf)"

definition lanes :: nat where
  "lanes = 8"

definition select_lo :: "f32 \<Rightarrow> f32 \<Rightarrow> f32" where
  "select_lo l s = (if f32_lt s l then s else l)"

definition select_hi :: "f32 \<Rightarrow> f32 \<Rightarrow> f32" where
  "select_hi h s = (if f32_lt h s then s else h)"

text \<open>\<open>as_chunks::<LANES>\<close>: the full chunks of eight, and the remainder.\<close>

definition as_chunks :: "nat \<Rightarrow> 'a list \<Rightarrow> 'a list list \<times> 'a list" where
  "as_chunks k xs =
     (let n = length xs div k
      in (map (\<lambda>i. take k (drop (i * k) xs)) [0 ..< n], drop (n * k) xs))"

definition min_max :: "f32 list \<Rightarrow> bucket" where
  "min_max block =
     (case as_chunks lanes block of
        (full, rest) \<Rightarrow>
          let lo = foldl (map2 select_lo) (replicate lanes f32_inf) full;
              hi = foldl (map2 select_hi) (replicate lanes f32_neg_inf) full
          in foldl (\<lambda>acc (l, h). (select_lo (fst acc) l, select_hi (snd acc) h))
               empty_bucket (zip lo hi @ zip rest rest))"

definition finish :: "bucket \<Rightarrow> bucket" where
  "finish acc = (if f32_lt (snd acc) (fst acc) then (0, 0) else acc)"

definition join_bucket :: "bucket \<Rightarrow> bucket \<Rightarrow> bucket" where
  "join_bucket acc b = (f32_min (fst acc) (fst b), f32_max (snd acc) (snd b))"

text \<open>One turn of the loop over the upper levels.\<close>

definition level_step :: "nat \<Rightarrow> bucket list \<Rightarrow> nat \<Rightarrow> bucket list" where
  "level_step n bs level =
     (let valid = div_ceil n (peak_levels_spp ! level);
          child_valid = div_ceil n (peak_levels_spp ! (level - 1));
          children = take child_valid (drop (level_offsets ! (level - 1)) bs)
      in write_slots (level_offsets ! level)
           (map (\<lambda>grp. finish (foldl join_bucket empty_bucket grp)) (take valid (chunks 4 children))) bs)"

definition compute_with :: "(f32 list \<Rightarrow> bucket) \<Rightarrow> f32 list \<Rightarrow> bucket list" where
  "compute_with mm samples =
     foldl (level_step (length samples))
       (write_slots 0 (map (\<lambda>block. finish (mm block)) (chunks (peak_levels_spp ! 0) samples))
          (replicate peak_buckets_per_chunk (0, 0)))
       [1 ..< length peak_levels_spp]"

definition compute :: "f32 list \<Rightarrow> chunk_peaks" where
  "compute samples0 =
     (let n = min (length samples0) chunk_samples;
          samples = take n samples0
      in \<lparr>len_samples = n,
          has_non_finite = foldl (\<lambda>acc s. acc \<or> \<not> is_finite s) False samples,
          buckets = compute_with min_max samples\<rparr>)"

definition overall :: "chunk_peaks \<Rightarrow> bucket" where
  "overall p = buckets p ! last level_offsets"

definition level :: "nat \<Rightarrow> chunk_peaks \<Rightarrow> bucket list option" where
  "level spp p =
     (case position (\<lambda>s. s = spp) peak_levels_spp of
        None \<Rightarrow> None
      | Some k \<Rightarrow>
          (let valid = div_ceil (len_samples p) spp;
               off = level_offsets ! k
           in if off + valid \<le> length (buckets p) then Some (take valid (drop off (buckets p))) else None))"

text \<open>The reference of the tests: the per-sample fold of \<open>f32::min\<close> and \<open>f32::max\<close>.\<close>

definition fold_min_max :: "f32 list \<Rightarrow> bucket" where
  "fold_min_max block = foldl (\<lambda>acc s. (f32_min (fst acc) s, f32_max (snd acc) s)) empty_bucket block"

definition reference_compute :: "f32 list \<Rightarrow> bucket list \<times> bool" where
  "reference_compute samples0 =
     (let n = min (length samples0) chunk_samples;
          samples = take n samples0
      in (compute_with fold_min_max samples, \<exists>s \<in> set samples. \<not> is_finite s))"

section \<open>Lists\<close>

lemma div_ceil_le: "0 < k \<Longrightarrow> i < div_ceil n k \<longleftrightarrow> i * k < n"
proof -
  assume k: "0 < k"
  have "i < div_ceil n k \<longleftrightarrow> Suc i \<le> (n + k - 1) div k" by (simp add: div_ceil_def Suc_le_eq)
  also have "\<dots> \<longleftrightarrow> Suc i * k \<le> n + k - 1" by (rule less_eq_div_iff_mult_less_eq [OF k])
  also have "\<dots> \<longleftrightarrow> i * k < n" using k by (simp, linarith)
  finally show ?thesis .
qed

lemma div_ceil_twice: "0 < a \<Longrightarrow> 0 < b \<Longrightarrow> div_ceil (div_ceil n a) b = div_ceil n (a * b)"
proof -
  assume ab: "0 < a" "0 < b"
  have "i < div_ceil (div_ceil n a) b \<longleftrightarrow> i < div_ceil n (a * b)" for i
    using ab div_ceil_le [of a "i * b" n] by (simp add: div_ceil_le ac_simps)
  then show ?thesis by (metis linorder_neq_iff)
qed

lemma div_ceil_mono: "m \<le> n \<Longrightarrow> div_ceil m k \<le> div_ceil n k"
  unfolding div_ceil_def by (intro div_le_mono) linarith

lemma length_chunks [simp]: "length (chunks k xs) = div_ceil (length xs) k"
  by (simp add: chunks_def)

lemma nth_chunks: "i < div_ceil (length xs) k \<Longrightarrow> chunks k xs ! i = take k (drop (i * k) xs)"
  by (simp add: chunks_def)

lemma length_write_slots [simp]: "off \<le> length bs \<Longrightarrow> length (write_slots off vals bs) = length bs"
  by (simp add: write_slots_def Let_def min_def)

lemma nth_write_slots:
  assumes "off + length vals \<le> length bs" "i < length bs"
  shows "write_slots off vals bs ! i = (if off \<le> i \<and> i < off + length vals then vals ! (i - off) else bs ! i)"
proof -
  have "take (length bs - off) vals = vals" using assms by simp
  with assms show ?thesis by (auto simp: write_slots_def nth_append min_def)
qed

section \<open>The lanes and the fold\<close>

lemma as_chunks_concat:
  assumes "0 < k" "as_chunks k xs = (full, rest)"
  shows "concat full @ rest = xs" "\<forall>c \<in> set full. length c = k"
proof -
  have "concat (map (\<lambda>i. take k (drop (i * k) xs)) [0 ..< n]) = take (n * k) xs" if "n * k \<le> length xs" for n
    using that
  proof (induction n)
    case (Suc n)
    have "take (n * k) xs @ take k (drop (n * k) xs) = take (n * k + k) xs" by (simp add: take_add)
    with Suc show ?case by (simp add: add.commute)
  qed simp
  with assms show "concat full @ rest = xs" by (auto simp: as_chunks_def Let_def)
  have "k \<le> length xs - i * k" if "i < length xs div k" for i
  proof -
    have "Suc i \<le> length xs div k" using that by simp
    then have "Suc i * k \<le> length xs" unfolding less_eq_div_iff_mult_less_eq [OF assms(1)] .
    then show ?thesis by simp
  qed
  with assms show "\<forall>c \<in> set full. length c = k" by (auto simp: as_chunks_def Let_def min_absorb2)
qed

definition nan_free :: "f32 list \<Rightarrow> bool" where
  "nan_free xs \<longleftrightarrow> (\<forall>x \<in> set xs. \<not> f32_nan x)"

lemma nan_free_simps [simp]:
  "nan_free []" "nan_free (x # xs) \<longleftrightarrow> \<not> f32_nan x \<and> nan_free xs" "nan_free (xs @ ys) \<longleftrightarrow> nan_free xs \<and> nan_free ys"
  by (auto simp: nan_free_def)

lemma key_lo_key [simp]: "\<not> f32_nan s \<Longrightarrow> key_lo s = f32_key s" and key_hi_key [simp]: "\<not> f32_nan s \<Longrightarrow> key_hi s = f32_key s"
  by (simp_all add: key_lo_def key_hi_def)

lemma select_min_max: "\<not> f32_nan l \<Longrightarrow> select_lo l s = f32_min l s" "\<not> f32_nan h \<Longrightarrow> select_hi h s = f32_max h s"
  by (simp_all add: select_lo_def select_hi_def select_min select_max)

lemma map2_select:
  assumes "length ls = length ss" "nan_free ls"
  shows "nan_free (map2 select_lo ls ss)" "min_keys (map2 select_lo ls ss) = min (min_keys ls) (min_keys ss)"
    "nan_free (map2 select_hi ls ss)" "max_keys (map2 select_hi ls ss) = max (max_keys ls) (max_keys ss)"
  using assms
  by (induction rule: list_induct2)
     (auto simp: select_min_max f32_min_key(1) f32_max_key(1) f32_min_key_lo f32_max_key_hi min.assoc min.left_commute
       max.assoc max.left_commute)

lemma lanes_fold_lo:
  assumes "nan_free ls" "\<forall>c \<in> set full. length c = length ls"
  shows "length (foldl (map2 select_lo) ls full) = length ls \<and>
      min_keys (foldl (map2 select_lo) ls full) = min (min_keys ls) (min_keys (concat full))"
  using assms
proof (induction full arbitrary: ls)
  case Nil
  then show ?case by (simp add: min_absorb1 min_keys_le)
next
  case (Cons c full)
  then have l: "length ls = length c" "\<forall>c' \<in> set full. length c' = length (map2 select_lo ls c)" by auto
  from Cons.IH [OF map2_select(1) [OF l(1)] l(2)] Cons.prems(1) show ?case
    by (simp add: l(1) map2_select(2) [OF l(1)] min.assoc)
qed

lemma lanes_fold_hi:
  assumes "nan_free ls" "\<forall>c \<in> set full. length c = length ls"
  shows "length (foldl (map2 select_hi) ls full) = length ls \<and>
      max_keys (foldl (map2 select_hi) ls full) = max (max_keys ls) (max_keys (concat full))"
  using assms
proof (induction full arbitrary: ls)
  case Nil
  then show ?case by (simp add: max_absorb1 max_keys_ge)
next
  case (Cons c full)
  then have l: "length ls = length c" "\<forall>c' \<in> set full. length c' = length (map2 select_hi ls c)" by auto
  from Cons.IH [OF map2_select(3) [OF l(1)] l(2)] Cons.prems(1) show ?case
    by (simp add: l(1) map2_select(4) [OF l(1)] max.assoc)
qed

lemma select_fold:
  assumes "\<not> f32_nan l" "\<not> f32_nan h"
  shows "foldl (\<lambda>acc (l, h). (select_lo (fst acc) l, select_hi (snd acc) h)) (l, h) ps =
    (foldl f32_min l (map fst ps), foldl f32_max h (map snd ps))"
  using assms
proof (induction ps arbitrary: l h)
  case (Cons p ps)
  then show ?case by (cases p) (simp add: select_min_max f32_min_key(1) f32_max_key(1))
qed simp

lemma fold_min_max_alt: "fold_min_max block = (foldl f32_min f32_inf block, foldl f32_max f32_neg_inf block)"
proof -
  have "foldl (\<lambda>acc s. (f32_min (fst acc) s, f32_max (snd acc) s)) (a, b) block =
      (foldl f32_min a block, foldl f32_max b block)" for a b
    by (induction block arbitrary: a b) auto
  then show ?thesis by (simp add: fold_min_max_def empty_bucket_def)
qed

text \<open>Two buckets that hold the same numbers, and a bucket with the extreme keys of its samples.\<close>

definition same_bucket :: "bucket \<Rightarrow> bucket \<Rightarrow> bool" where
  "same_bucket a b \<longleftrightarrow> f32_eq (fst a) (fst b) \<and> f32_eq (snd a) (snd b)"

definition keyed :: "bucket \<Rightarrow> f32 list \<Rightarrow> bool" where
  "keyed b xs \<longleftrightarrow> \<not> f32_nan (fst b) \<and> \<not> f32_nan (snd b) \<and> f32_key (fst b) = min_keys xs \<and> f32_key (snd b) = max_keys xs"

lemma keyed_fold: "keyed (fold_min_max block) block"
  using foldl_min_keys [of f32_inf block] foldl_max_keys [of f32_neg_inf block]
  by (simp add: keyed_def fold_min_max_alt min_absorb2 max_absorb2 min_keys_le max_keys_ge)

lemma keyed_min_max: "keyed (min_max block) block"
proof -
  obtain full rest where c: "as_chunks lanes block = (full, rest)" by fastforce
  from as_chunks_concat [OF _ c] have cc: "concat full @ rest = block" "\<forall>c \<in> set full. length c = lanes"
    by (simp_all add: lanes_def)
  define lo hi where "lo = foldl (map2 select_lo) (replicate lanes f32_inf) full"
    and "hi = foldl (map2 select_hi) (replicate lanes f32_neg_inf) full"
  have nf: "nan_free (replicate lanes f32_inf)" "nan_free (replicate lanes f32_neg_inf)"
    by (simp_all add: nan_free_def)
  from lanes_fold_lo [OF nf(1), of full] lanes_fold_hi [OF nf(2), of full] cc
  have lo: "length lo = lanes" "min_keys lo = min_keys (concat full)"
    and hi: "length hi = lanes" "max_keys hi = max_keys (concat full)"
    by (auto simp: lo_def hi_def min_absorb2 max_absorb2 min_keys_le max_keys_ge)
  have "min_max block = (foldl f32_min f32_inf (lo @ rest), foldl f32_max f32_neg_inf (hi @ rest))"
    using c select_fold [of f32_inf f32_neg_inf "zip lo hi @ zip rest rest"] lo hi
    by (simp add: min_max_def empty_bucket_def Let_def flip: lo_def hi_def)
  moreover have "min_keys (lo @ rest) = min_keys block" "max_keys (hi @ rest) = max_keys block"
    by (simp_all add: lo hi flip: cc(1))
  ultimately show ?thesis
    using foldl_min_keys [of f32_inf "lo @ rest"] foldl_max_keys [of f32_neg_inf "hi @ rest"]
      min_keys_le [of block] max_keys_ge [of block]
    unfolding keyed_def by (simp only: fst_conv snd_conv f32_consts min_absorb2 max_absorb2 simp_thms)
qed

lemma keyed_same: "keyed a xs \<Longrightarrow> keyed b xs \<Longrightarrow> same_bucket a b"
  by (simp add: keyed_def same_bucket_def f32_eq_def)

lemma same_finish: "same_bucket a b \<Longrightarrow> same_bucket (finish a) (finish b)"
  by (auto simp: same_bucket_def finish_def f32_eq_def f32_lt_def)

lemma same_join: "same_bucket a b \<Longrightarrow> same_bucket c d \<Longrightarrow> same_bucket (join_bucket a c) (join_bucket b d)"
  by (auto simp: same_bucket_def join_bucket_def f32_eq_def f32_min_key f32_max_key)

lemma same_fold_join:
  assumes "same_bucket a b" "list_all2 same_bucket xs ys"
  shows "same_bucket (foldl join_bucket a xs) (foldl join_bucket b ys)"
  using assms(2,1)
proof (induction arbitrary: a b rule: list_all2_induct)
  case (Cons x xs y ys)
  then show ?case using same_join by simp
qed simp

lemma same_empty: "same_bucket empty_bucket empty_bucket" "same_bucket (0, 0) (0, 0)"
  by (simp_all add: same_bucket_def empty_bucket_def f32_eq_def)

lemma same_write_slots:
  assumes "list_all2 P vs ws" "list_all2 P as bs"
  shows "list_all2 P (write_slots off vs as) (write_slots off ws bs)"
proof -
  have l: "length vs = length ws" "length as = length bs" using assms by (auto dest: list_all2_lengthD)
  show ?thesis unfolding write_slots_def Let_def l
    using assms l
    by (intro list_all2_appendI) (auto simp: list_all2_takeI list_all2_dropI)
qed

lemma same_level_step:
  assumes "list_all2 same_bucket as bs"
  shows "list_all2 same_bucket (level_step n as k) (level_step n bs k)"
proof -
  have len: "length as = length bs" using assms by (rule list_all2_lengthD)
  have c: "list_all2 (list_all2 same_bucket) (chunks 4 xs) (chunks 4 ys)" if "list_all2 same_bucket xs ys" for xs ys
    unfolding chunks_def list_all2_lengthD [OF that]
    using that by (auto simp: list_all2_conv_all_nth)
  have "list_all2 same_bucket
      (map (\<lambda>grp. finish (foldl join_bucket empty_bucket grp)) (take v (chunks 4 (take m (drop o' as)))))
      (map (\<lambda>grp. finish (foldl join_bucket empty_bucket grp)) (take v (chunks 4 (take m (drop o' bs)))))" for v m o'
    unfolding list_all2_map1 list_all2_map2
    by (rule list_all2_mono [OF list_all2_takeI [OF c [OF list_all2_takeI [OF list_all2_dropI [OF assms]]]]])
      (rule same_finish [OF same_fold_join [OF same_empty(1)]])
  then show ?thesis unfolding level_step_def Let_def by (rule same_write_slots [OF _ assms])
qed

lemma same_compute_with:
  assumes "\<And>block. same_bucket (f block) (g block)"
  shows "list_all2 same_bucket (compute_with f samples) (compute_with g samples)"
proof -
  have steps: "list_all2 same_bucket (foldl (level_step n) as ks) (foldl (level_step n) bs ks)"
    if "list_all2 same_bucket as bs" for n as bs ks
    using that by (induction ks arbitrary: as bs) (auto intro: same_level_step)
  show ?thesis
    unfolding compute_with_def
    by (intro steps same_write_slots)
      (auto simp: list_all2_conv_all_nth same_empty assms same_finish)
qed

lemma foldl_or: "foldl (\<lambda>acc s. acc \<or> P s) a xs \<longleftrightarrow> a \<or> (\<exists>s \<in> set xs. P s)"
  by (induction xs arbitrary: a) auto

section \<open>Buckets span their samples\<close>

text \<open>The samples \<open>t\<close> with \<open>t div k = b\<close>: the block of bucket \<open>b\<close> at \<open>k\<close> samples per bucket.\<close>

definition block_at :: "nat \<Rightarrow> nat \<Rightarrow> f32 list \<Rightarrow> f32 set" where
  "block_at k b samples = {samples ! t | t. t < length samples \<and> t div k = b}"

definition spans :: "bucket \<Rightarrow> f32 set \<Rightarrow> bool" where
  "spans b X \<longleftrightarrow> \<not> f32_nan (fst b) \<and> \<not> f32_nan (snd b) \<and>
     (\<forall>x \<in> X. \<not> f32_nan x \<longrightarrow> f32_key (fst b) \<le> f32_key x \<and> f32_key x \<le> f32_key (snd b)) \<and>
     ((\<forall>x \<in> X. \<not> f32_nan x) \<and> X \<noteq> {} \<longrightarrow>
       (\<exists>x \<in> X. f32_key (fst b) = f32_key x) \<and> (\<exists>x \<in> X. f32_key (snd b) = f32_key x))"

lemma set_block:
  assumes "0 < k"
  shows "set (take k (drop (b * k) xs)) = block_at k b xs"
proof -
  have *: "t div k = b \<longleftrightarrow> b * k \<le> t \<and> t < b * k + k" for t
    using div_nat_eqI [of k b t] assms by (auto simp: algebra_simps dividend_less_times_div)
  show ?thesis
  proof (rule set_eqI)
    fix x
    have "x \<in> set (take k (drop (b * k) xs)) \<longleftrightarrow> (\<exists>c. c < k \<and> b * k + c < length xs \<and> xs ! (b * k + c) = x)"
      by (auto simp: in_set_conv_nth less_diff_conv add.commute)
    also have "\<dots> \<longleftrightarrow> (\<exists>t. b * k \<le> t \<and> t < b * k + k \<and> t < length xs \<and> xs ! t = x)"
      by (metis add_less_cancel_left le_add1 le_add_diff_inverse)
    finally show "x \<in> set (take k (drop (b * k) xs)) \<longleftrightarrow> x \<in> block_at k b xs"
      by (auto simp: block_at_def *)
  qed
qed

lemma block_nonempty: "0 < k \<Longrightarrow> b * k < length xs \<Longrightarrow> block_at k b xs \<noteq> {}"
  by (auto simp: block_at_def intro!: exI [of _ "b * k"])

lemma finish_keeps: "f32_key (fst b) \<le> f32_key (snd b) \<Longrightarrow> finish b = b"
  by (simp add: finish_def f32_lt_def)

lemma finish_not_nan: "\<not> f32_nan (fst b) \<Longrightarrow> \<not> f32_nan (snd b) \<Longrightarrow> \<not> f32_nan (fst (finish b)) \<and> \<not> f32_nan (snd (finish b))"
  by (simp add: finish_def)

lemma keyed_spans: "keyed b xs \<Longrightarrow> spans (finish b) (set xs)"
proof (cases "\<exists>x \<in> set xs. \<not> f32_nan x")
  case False
  assume "keyed b xs"
  with False finish_not_nan [of b] show ?thesis by (auto simp: spans_def keyed_def)
next
  case True
  assume k: "keyed b xs"
  have between: "min_keys xs \<le> f32_key x \<and> f32_key x \<le> max_keys xs" if "x \<in> set xs" "\<not> f32_nan x" for x
    using min_keys_lower [OF that(1)] max_keys_upper [OF that(1)] that(2) by simp
  with True k have f: "finish b = b" by (intro finish_keeps) (auto simp: keyed_def intro: order_trans)
  have "xs \<noteq> []" using True by auto
  with min_keys_attained [of xs] max_keys_attained [of xs] between k show ?thesis
    unfolding f by (fastforce simp: spans_def keyed_def)
qed

lemma attained_nth:
  assumes "ys \<noteq> []"
  shows "\<exists>i < length ys. min_keys ys = key_lo (ys ! i)" "\<exists>i < length ys. max_keys ys = key_hi (ys ! i)"
  using min_keys_attained [OF assms] max_keys_attained [OF assms] by (auto simp: in_set_conv_nth)

lemma join_fold_alt:
  "foldl join_bucket (a, b) bs = (foldl f32_min a (map fst bs), foldl f32_max b (map snd bs))"
  by (induction bs arbitrary: a b) (auto simp: join_bucket_def)

lemma join_spans:
  assumes ne: "grp \<noteq> []" and sp: "\<And>c. c < length grp \<Longrightarrow> spans (grp ! c) (X c) \<and> X c \<noteq> {}"
  shows "spans (finish (foldl join_bucket empty_bucket grp)) (\<Union>c < length grp. X c)"
proof -
  define b where "b = foldl join_bucket empty_bucket grp"
  have nn: "\<not> f32_nan (fst (grp ! c))" "\<not> f32_nan (snd (grp ! c))" if "c < length grp" for c
    using sp [OF that] by (auto simp: spans_def)
  have b: "\<not> f32_nan (fst b)" "\<not> f32_nan (snd b)" "f32_key (fst b) = min_keys (map fst grp)"
    "f32_key (snd b) = max_keys (map snd grp)"
    using foldl_min_keys [of f32_inf "map fst grp"] foldl_max_keys [of f32_neg_inf "map snd grp"]
      min_keys_le [of "map fst grp"] max_keys_ge [of "map snd grp"]
    by (auto simp: b_def empty_bucket_def join_fold_alt)
  have out: "f32_key (fst b) \<le> f32_key (fst (grp ! c))" "f32_key (snd (grp ! c)) \<le> f32_key (snd b)"
    if "c < length grp" for c
    using min_keys_lower [of "fst (grp ! c)" "map fst grp"] max_keys_upper [of "snd (grp ! c)" "map snd grp"]
      nn [OF that] that by (auto simp: b)
  have cov: "f32_key (fst b) \<le> f32_key x \<and> f32_key x \<le> f32_key (snd b)"
    if "c < length grp" "x \<in> X c" "\<not> f32_nan x" for c x
    using out [OF that(1)] sp [OF that(1)] that(2,3) unfolding spans_def by fastforce
  show ?thesis
  proof (cases "\<exists>c < length grp. \<exists>x \<in> X c. \<not> f32_nan x")
    case False
    then have no: "f32_nan x" if "x \<in> (\<Union>c < length grp. X c)" for x using that by auto
    have "X 0 \<noteq> {}" "0 < length grp" using sp [of 0] ne by auto
    then obtain x where "x \<in> (\<Union>c < length grp. X c)" by auto
    with no finish_not_nan [OF b(1,2)] show ?thesis unfolding b_def [symmetric] by (auto simp: spans_def)
  next
    case True
    with cov have f: "finish b = b" by (intro finish_keeps) (meson order_trans)
    obtain i where i: "i < length grp" "min_keys (map fst grp) = key_lo (fst (grp ! i))"
      using attained_nth(1) [of "map fst grp"] ne by auto
    obtain j where j: "j < length grp" "max_keys (map snd grp) = key_hi (snd (grp ! j))"
      using attained_nth(2) [of "map snd grp"] ne by auto
    have "(\<exists>x \<in> X i. f32_key (fst b) = f32_key x) \<and> (\<exists>x \<in> X j. f32_key (snd b) = f32_key x)"
      if "\<forall>c < length grp. \<forall>x \<in> X c. \<not> f32_nan x"
      using sp [OF i(1)] sp [OF j(1)] i j nn [OF i(1)] nn [OF j(1)] that by (simp add: spans_def b)
    then show ?thesis
      unfolding b_def [symmetric] f spans_def using b(1,2) cov i(1) j(1) by blast
  qed
qed

section \<open>The levels\<close>

abbreviation spp_of :: "nat \<Rightarrow> nat" where
  "spp_of k \<equiv> peak_levels_spp ! k"

abbreviation off_of :: "nat \<Rightarrow> nat" where
  "off_of k \<equiv> level_offsets ! k"

lemma six: "k < 6 \<Longrightarrow> k = 0 \<or> k = 1 \<or> k = 2 \<or> k = 3 \<or> k = 4 \<or> k = (5 :: nat)"
  by linarith

lemma six_levels: "length peak_levels_spp = 6"
  by (simp add: peak_levels_spp_def)

lemma level_facts:
  assumes "k < 6"
  shows "0 < spp_of k" "off_of k + div_ceil chunk_samples (spp_of k) \<le> peak_buckets_per_chunk"
    "0 < k \<Longrightarrow> spp_of k = spp_of (k - 1) * 4"
    "j < k \<Longrightarrow> off_of j + div_ceil chunk_samples (spp_of j) \<le> off_of k"
proof -
  from six [OF assms] show "0 < spp_of k" by (auto simp: peak_levels_spp_def)
  from six [OF assms] show "off_of k + div_ceil chunk_samples (spp_of k) \<le> peak_buckets_per_chunk"
    by (auto simp: peak_levels_spp_def level_offsets_def div_ceil_def chunk_samples_def peak_buckets_per_chunk_def)
  from six [OF assms] show "0 < k \<Longrightarrow> spp_of k = spp_of (k - 1) * 4" by (auto simp: peak_levels_spp_def)
  assume "j < k"
  with six [OF assms] six [of j] assms show "off_of j + div_ceil chunk_samples (spp_of j) \<le> off_of k"
    by (auto simp: peak_levels_spp_def level_offsets_def div_ceil_def chunk_samples_def)
qed

definition level_spans :: "f32 list \<Rightarrow> bucket list \<Rightarrow> nat \<Rightarrow> bool" where
  "level_spans samples bs k \<longleftrightarrow>
     (\<forall>b < div_ceil (length samples) (spp_of k). spans (bs ! (off_of k + b)) (block_at (spp_of k) b samples))"

lemma union_blocks:
  assumes "0 < s" "m = min 4 (div_ceil (length xs) s - i * 4)"
  shows "(\<Union>c < m. block_at s (i * 4 + c) xs) = block_at (s * 4) i xs"
proof (rule set_eqI)
  fix x
  have "(\<exists>c < m. \<exists>t < length xs. t div s = i * 4 + c \<and> xs ! t = x) \<longleftrightarrow>
      (\<exists>t < length xs. t div (s * 4) = i \<and> xs ! t = x)" (is "?l \<longleftrightarrow> ?r")
  proof
    assume ?l
    then obtain c t where c: "c < m" "t < length xs" "t div s = i * 4 + c" "xs ! t = x" by blast
    have "t div (s * 4) = t div s div 4" by (rule div_mult2_eq)
    also have "\<dots> = i" using c assms(2) by simp
    finally show ?r using c by blast
  next
    assume ?r
    then obtain t where t: "t < length xs" "t div (s * 4) = i" "xs ! t = x" by blast
    have d: "t div s div 4 = i" using t(2) div_mult2_eq [of t s 4] by simp
    have "t div s < div_ceil (length xs) s"
      using t(1) div_le_dividend [of t s] by (simp add: div_ceil_le [OF assms(1)]) (meson div_times_less_eq_dividend order_le_less_trans)
    moreover have "t div s = i * 4 + t div s mod 4" unfolding d [symmetric] by simp
    ultimately show ?l using t assms(2) by (intro exI [of _ "t div s mod 4"]) auto
  qed
  moreover have "x \<in> (\<Union>c < m. block_at s (i * 4 + c) xs) \<longleftrightarrow> ?l" unfolding block_at_def by blast
  moreover have "x \<in> block_at (s * 4) i xs \<longleftrightarrow> ?r" unfolding block_at_def by blast
  ultimately show "x \<in> (\<Union>c < m. block_at s (i * 4 + c) xs) \<longleftrightarrow> x \<in> block_at (s * 4) i xs" by simp
qed

lemma level_step_spans:
  assumes k: "0 < k" "k < 6" and n: "length samples \<le> chunk_samples" and l: "length bs = peak_buckets_per_chunk"
    and prev: "\<And>j. j < k \<Longrightarrow> level_spans samples bs j"
  shows "length (level_step (length samples) bs k) = peak_buckets_per_chunk"
    and "j \<le> k \<Longrightarrow> level_spans samples (level_step (length samples) bs k) j"
proof -
  define n s v cv where "n = length samples" and "s = spp_of (k - Suc 0)" and "v = div_ceil n (s * 4)" and "cv = div_ceil n s"
  define children where "children = take cv (drop (off_of (k - 1)) bs)"
  define vals where "vals = map (\<lambda>grp. finish (foldl join_bucket empty_bucket grp)) (take v (chunks 4 children))"
  have s: "0 < s" "spp_of k = s * 4" using level_facts(1,3) [of "k - 1"] level_facts(3) [of k] k
    by (simp_all add: s_def)
  have step: "level_step n bs k = write_slots (off_of k) vals bs"
    unfolding level_step_def Let_def vals_def children_def v_def cv_def s(2) s_def One_nat_def ..
  have bound: "off_of j + div_ceil n (spp_of j) \<le> off_of k" if "j < k" for j
    using level_facts(4) [OF k(2) that] div_ceil_mono [OF n, of "spp_of j"] by (simp add: n_def)
  have boundk: "off_of k + v \<le> peak_buckets_per_chunk"
    using level_facts(2) [OF k(2)] div_ceil_mono [OF n, of "spp_of k"] by (simp add: n_def v_def s(2))
  have cl: "length children = cv"
    using bound [of "k - 1"] boundk k l by (simp add: children_def cv_def flip: s_def)
  have vv: "div_ceil cv 4 = v" using s(1) by (simp add: cv_def v_def div_ceil_twice)
  then have vl: "length vals = v" by (simp add: vals_def cl)
  show "length (level_step (length samples) bs k) = peak_buckets_per_chunk"
    using boundk l step by (simp add: n_def)
  assume j: "j \<le> k"
  show "level_spans samples (level_step (length samples) bs k) j"
  proof (cases "j = k")
    case False
    with j have jk: "j < k" by simp
    show ?thesis unfolding level_spans_def n_def [symmetric] step
    proof (intro allI impI)
      fix b assume b: "b < div_ceil n (spp_of j)"
      with bound [OF jk] boundk l have "off_of j + b < off_of k" "off_of j + b < length bs" by simp_all
      with b prev [OF jk] boundk show "spans (write_slots (off_of k) vals bs ! (off_of j + b)) (block_at (spp_of j) b samples)"
        by (simp add: level_spans_def n_def [symmetric] nth_write_slots vl l)
    qed
  next
    case True
    have "spans (vals ! i) (block_at (s * 4) i samples)" if i: "i < v" for i
    proof -
      define grp where "grp = take 4 (drop (i * 4) children)"
      have ic: "i * 4 < cv" using i by (simp add: div_ceil_le flip: vv)
      have gl: "length grp = min 4 (cv - i * 4)" by (simp add: grp_def cl min.commute)
      have g: "grp ! c = bs ! (off_of (k - 1) + (i * 4 + c))" "i * 4 + c < cv" if "c < length grp" for c
        using that cl bound [of "k - 1"] k boundk l by (auto simp: grp_def children_def add.assoc)
      have "spans (grp ! c) (block_at s (i * 4 + c) samples) \<and> block_at s (i * 4 + c) samples \<noteq> {}"
        if "c < length grp" for c
        using g [OF that] prev [of "k - 1"] k s(1)
        block_nonempty [OF s(1), of "i * 4 + c" samples]
        by (auto simp: level_spans_def cv_def n_def div_ceil_le simp flip: s_def)
      moreover have "grp \<noteq> []" using ic gl by auto
      ultimately have "spans (finish (foldl join_bucket empty_bucket grp))
          (\<Union>c < length grp. block_at s (i * 4 + c) samples)" by (intro join_spans) auto
      moreover have "vals ! i = finish (foldl join_bucket empty_bucket grp)"
        using i by (simp add: vals_def vv cl nth_chunks grp_def)
      moreover have "(\<Union>c < length grp. block_at s (i * 4 + c) samples) = block_at (s * 4) i samples"
        by (rule union_blocks [OF s(1)]) (simp add: gl cv_def n_def)
      ultimately show ?thesis by simp
    qed
    then show ?thesis
      using boundk l by (simp add: True level_spans_def n_def [symmetric] step nth_write_slots vl s(2) flip: v_def)
  qed
qed

lemma compute_levels:
  assumes n: "length samples \<le> chunk_samples" and mm: "\<And>block. keyed (mm block) block"
  shows "length (compute_with mm samples) = peak_buckets_per_chunk \<and> (\<forall>k < 6. level_spans samples (compute_with mm samples) k)"
proof -
  define vals where "vals = map (\<lambda>block. finish (mm block)) (chunks (peak_levels_spp ! 0) samples)"
  define bs where "bs = write_slots 0 vals (replicate peak_buckets_per_chunk (0, 0))"
  have vl: "length vals \<le> peak_buckets_per_chunk"
    using level_facts(2) [of 0] div_ceil_mono [OF n, of "spp_of 0"] by (simp add: vals_def)
  have b: "length bs = peak_buckets_per_chunk" by (simp add: bs_def)
  have o0: "off_of 0 = 0" "0 < spp_of 0" using level_facts(1) [of 0] by (simp_all add: level_offsets_def)
  have "spans (bs ! b) (block_at (spp_of 0) b samples)" if "b < length vals" for b
    using that vl keyed_spans [OF mm] set_block [OF o0(2), of b samples]
    by (simp add: bs_def nth_write_slots vals_def nth_chunks) metis
  then have s: "level_spans samples bs 0" by (simp add: level_spans_def o0 vals_def)
  have "length (foldl (level_step (length samples)) bs [1 ..< m]) = peak_buckets_per_chunk \<and>
      (\<forall>j < m. level_spans samples (foldl (level_step (length samples)) bs [1 ..< m]) j)"
    if "0 < m" "m \<le> 6" for m
    using that
  proof (induction m)
    case (Suc m)
    show ?case
    proof (cases m)
      case 0
      with b s show ?thesis by simp
    next
      case (Suc m')
      with Suc.IH Suc.prems have ih: "length (foldl (level_step (length samples)) bs [1 ..< m]) = peak_buckets_per_chunk"
        "\<And>j. j < m \<Longrightarrow> level_spans samples (foldl (level_step (length samples)) bs [1 ..< m]) j" by auto
      have m: "0 < m" "m < 6" "[1 ..< Suc m] = [1 ..< m] @ [m]" using Suc Suc.prems by simp_all
      from level_step_spans [OF m(1,2) n ih] show ?thesis unfolding m(3) by (auto simp: less_Suc_eq_le)
    qed
  qed simp
  from this [of 6] show ?thesis
    unfolding compute_with_def bs_def vals_def six_levels by simp
qed

lemma position_levels: "k < 6 \<Longrightarrow> position (\<lambda>s. s = spp_of k) peak_levels_spp = Some k"
  using six [of k] by (auto simp: peak_levels_spp_def)

lemma level_compute:
  assumes "k < 6" "length samples \<le> chunk_samples"
  shows "\<exists>bs. level (spp_of k) (compute samples) = Some bs \<and> length bs = div_ceil (length samples) (spp_of k) \<and>
    (\<forall>b < length bs. spans (bs ! b) (block_at (spp_of k) b samples))"
proof -
  from compute_levels [OF assms(2) keyed_min_max]
  have c: "length (compute_with min_max samples) = peak_buckets_per_chunk"
    "level_spans samples (compute_with min_max samples) k" using assms(1) by auto
  have "off_of k + div_ceil (length samples) (spp_of k) \<le> peak_buckets_per_chunk"
    using level_facts(2) [OF assms(1)] div_ceil_mono [OF assms(2), of "spp_of k"] by simp
  with c assms position_levels [OF assms(1)] show ?thesis
    by (auto simp: level_def compute_def Let_def level_spans_def min_absorb1)
qed

lemma in_levels: "spp \<in> set peak_levels_spp \<longleftrightarrow> (\<exists>k < 6. spp = spp_of k)"
  by (auto simp: in_set_conv_nth six_levels)

lemma level_wrong_spp: "spp \<notin> set peak_levels_spp \<Longrightarrow> level spp p = None"
  by (auto simp: level_def position_None split: option.splits dest!: position_SomeD)

text \<open>C16: every valid bucket of every level of a computed pyramid spans the samples of its block: no
sample that is a number lies outside \<open>[lo, hi]\<close>, and when the block holds no NaN both bounds are samples
of the block, so the bucket is its exact minimum and maximum.  The level has \<open>ceil(len / spp)\<close> buckets.\<close>

theorem pyramid_buckets_span_samples:
  assumes "spp \<in> set peak_levels_spp" "length samples \<le> chunk_samples"
  shows "\<exists>bs. level spp (compute samples) = Some bs \<and> length bs = div_ceil (length samples) spp \<and>
    (\<forall>b < length bs. spans (bs ! b) (block_at spp b samples))"
  using level_compute assms by (auto simp: in_levels)

theorem pyramid_buckets_span_samples_witness:
  "\<exists>bs. level 64 (compute [0x3F800000]) = Some bs \<and> length bs = 1 \<and>
    (\<forall>b < length bs. spans (bs ! b) (block_at 64 b [0x3F800000]))"
  using pyramid_buckets_span_samples [of 64 "[0x3F800000]"]
  by (simp add: peak_levels_spp_def chunk_samples_def div_ceil_def)

text \<open>C14: \<open>ChunkPeaks::compute\<close>, whose finest level runs eight independent compare-and-select lanes, gives
bucket for bucket the same numbers as the straightforward per-sample fold (up to the sign of a zero),
for any samples, NaNs and infinities included; the same length and the same non-finite flag.\<close>

theorem compute_matches_reference:
  "list_all2 same_bucket (buckets (compute samples)) (fst (reference_compute samples)) \<and>
   has_non_finite (compute samples) = snd (reference_compute samples) \<and>
   len_samples (compute samples) = min (length samples) chunk_samples"
  by (simp add: compute_def reference_compute_def Let_def foldl_or
      same_compute_with [OF keyed_same [OF keyed_min_max keyed_fold]])

end
