(* ===== verification/Peak_Records.thy ===== *)
theory Peak_Records
  imports Peaks
begin

text \<open>
  The peaks file: the record of \<^verbatim>\<open>crates/project/src/store/peaks.rs\<close> (write, read, decode), and its use
  in \<^verbatim>\<open>store/mod.rs\<close>: a commit writes the record of its chunk, \<open>chunk_peaks\<close> reads it or recomputes it.

  The file is a byte list.  A write error is ignored by the source; \<open>wrote\<close> is how many bytes of the
  record the operating system took.
\<close>

section \<open>Records\<close>

definition record_header_bytes :: nat where
  "record_header_bytes = 16"

definition peak_record_bytes :: nat where
  "peak_record_bytes = record_header_bytes + peak_buckets_per_chunk * 8"

definition bucket_le :: "bucket \<Rightarrow> byte list" where
  "bucket_le b = f32_le (fst b) @ f32_le (snd b)"

definition record_crc :: "(byte list \<Rightarrow> 32 word) \<Rightarrow> byte list \<Rightarrow> 32 word" where
  "record_crc crc buf = crc (take 4 (drop 4 buf) @ drop record_header_bytes buf)"

definition encode_record :: "(byte list \<Rightarrow> 32 word) \<Rightarrow> nat \<Rightarrow> chunk_peaks \<Rightarrow> byte list" where
  "encode_record crc i p =
     (let body = concat (map bucket_le (take peak_buckets_per_chunk (buckets p)));
          buf = u32_le i @ u32_le (len_samples p) @ replicate 4 0 @ u32_le (if has_non_finite p then 1 else 0) @
                body @ replicate (peak_record_bytes - record_header_bytes - length body) 0
      in take 8 buf @ f32_le (record_crc crc buf) @ drop 12 buf)"

definition write_record :: "(byte list \<Rightarrow> 32 word) \<Rightarrow> nat \<Rightarrow> chunk_peaks \<Rightarrow> nat \<Rightarrow> byte list \<Rightarrow> byte list" where
  "write_record crc i p wrote file =
     (let buf = take wrote (encode_record crc i p)
      in if buf = [] then file else write_at file (i * peak_record_bytes) buf)"

definition word_at :: "byte list \<Rightarrow> nat \<Rightarrow> 32 word option" where
  "word_at buf at0 = (if at0 + 4 \<le> length buf then Some (f32_of_le (take 4 (drop at0 buf))) else None)"

definition decode_record :: "(byte list \<Rightarrow> 32 word) \<Rightarrow> byte list \<Rightarrow> nat \<Rightarrow> chunk_peaks option" where
  "decode_record crc buf i =
     (if length buf \<noteq> peak_record_bytes then None
      else case word_at buf 0 of None \<Rightarrow> None | Some w0 \<Rightarrow>
        if unat w0 \<noteq> i then None
        else case word_at buf 4 of None \<Rightarrow> None | Some w1 \<Rightarrow>
          if w1 = 0 \<or> unat w1 > chunk_samples then None
          else case word_at buf 8 of None \<Rightarrow> None | Some w2 \<Rightarrow>
            if w2 \<noteq> record_crc crc buf then None
            else case word_at buf 12 of None \<Rightarrow> None | Some w3 \<Rightarrow>
              Some \<lparr>len_samples = unat w1, has_non_finite = (w3 AND 1 \<noteq> 0),
                    buckets = map (\<lambda>rec. (f32_of_le (take 4 rec), f32_of_le (drop 4 rec)))
                                (fst (as_chunks 8 (drop record_header_bytes buf)))\<rparr>)"

definition read_record :: "(byte list \<Rightarrow> 32 word) \<Rightarrow> byte list \<Rightarrow> nat \<Rightarrow> chunk_peaks option" where
  "read_record crc file i =
     (let off = i * peak_record_bytes
      in if off + peak_record_bytes \<le> length file
         then decode_record crc (take peak_record_bytes (drop off file)) i else None)"

section \<open>The store and its peaks file\<close>

text \<open>\<open>recompute_peaks\<close> is the tail of \<open>chunk_peaks\<close>, after a record that is missing, damaged or of another length.\<close>

definition recompute_peaks ::
    "(byte list \<Rightarrow> 32 word) \<Rightarrow> store_env \<Rightarrow> nat \<Rightarrow> nat \<Rightarrow> nat \<Rightarrow> (store \<times> byte list, chunk_peaks) op" where
  "recompute_peaks crc env wrote i n s =
     (case s of (st, file) \<Rightarrow>
        (case read_chunk crc env i 0 n st of
           (Inl e, st') \<Rightarrow> (Inl e, (st', file))
         | (Inr samples, st') \<Rightarrow>
             (let p = compute samples in (Inr p, (st', write_record crc i p wrote file)))))"

definition chunk_peaks_of ::
    "(byte list \<Rightarrow> 32 word) \<Rightarrow> store_env \<Rightarrow> nat \<Rightarrow> nat \<Rightarrow> (store \<times> byte list, chunk_peaks) op" where
  "chunk_peaks_of crc env wrote i s =
     (case location (fst s) i of
        None \<Rightarrow> (Inl (UnknownChunk i), s)
      | Some loc \<Rightarrow>
          (case read_record crc (snd s) i of
             Some p \<Rightarrow> if len_samples p = loc_len loc then (Inr p, s)
                       else recompute_peaks crc env wrote i (loc_len loc) s
           | None \<Rightarrow> recompute_peaks crc env wrote i (loc_len loc) s))"

text \<open>A commit: the pyramid is computed from the samples that are stored, and its record is written once the
chunk is in the index.\<close>

definition commit_chunk_peaks ::
    "(byte list \<Rightarrow> 32 word) \<Rightarrow> store_env \<Rightarrow> nat \<Rightarrow> f32 list \<Rightarrow> nat option \<Rightarrow>
     (store \<times> byte list, chunk_location) op" where
  "commit_chunk_peaks crc env wrote samples fixed_id s =
     (case commit_chunk_as crc env samples fixed_id (fst s) of
        (Inl e, st') \<Rightarrow> (Inl e, (st', snd s))
      | (Inr loc, st') \<Rightarrow>
          (Inr loc, (st', write_record crc (loc_id loc) (compute (sanitize samples)) wrote (snd s))))"

section \<open>A record reads back\<close>

definition peaks_wf :: "chunk_peaks \<Rightarrow> bool" where
  "peaks_wf p \<longleftrightarrow> 1 \<le> len_samples p \<and> len_samples p \<le> chunk_samples \<and> length (buckets p) = peak_buckets_per_chunk"

lemma compute_wf: "1 \<le> length xs \<Longrightarrow> length xs \<le> chunk_samples \<Longrightarrow> peaks_wf (compute xs) \<and> len_samples (compute xs) = length xs"
  using compute_levels [OF _ keyed_min_max, of xs] by (simp add: peaks_wf_def compute_def Let_def min_absorb1)

lemma length_bucket_le [simp]: "length (bucket_le b) = 8"
  by (simp add: bucket_le_def)

lemma take_drop_concat:
  assumes "\<forall>ys \<in> set xss. length ys = k" "i < length xss"
  shows "take k (drop (i * k) (concat xss)) = xss ! i"
  using assms
proof (induction xss arbitrary: i)
  case (Cons ys xss)
  then show ?case by (cases i) simp_all
qed simp

lemma length_concat_const: "\<forall>ys \<in> set xss. length ys = k \<Longrightarrow> length (concat xss) = length xss * k"
  by (induction xss) auto

lemma as_chunks_concat_back:
  assumes "0 < k" "\<forall>ys \<in> set xss. length ys = k"
  shows "fst (as_chunks k (concat xss)) = xss"
proof -
  have l: "length (concat xss) div k = length xss" using assms(1) length_concat_const [OF assms(2)] by simp
  show ?thesis unfolding as_chunks_def Let_def l fst_conv
    by (rule nth_equalityI) (simp_all add: take_drop_concat [OF assms(2)])
qed

lemma unat_u32: "n \<le> u32_max \<Longrightarrow> unat (word_of_nat n :: 32 word) = n"
  by (simp add: unat_of_nat u32_max_def)

lemma encode_wf:
  assumes "peaks_wf p"
  defines "body \<equiv> concat (map bucket_le (buckets p))"
  shows "encode_record crc i p = u32_le i @ u32_le (len_samples p) @ f32_le (crc (u32_le (len_samples p) @ body)) @
    u32_le (if has_non_finite p then 1 else 0) @ body" "length body = peak_buckets_per_chunk * 8"
proof -
  show l: "length body = peak_buckets_per_chunk * 8"
    using assms(1) length_concat_const [of "map bucket_le (buckets p)" 8] by (simp add: body_def peaks_wf_def)
  have t: "take peak_buckets_per_chunk (buckets p) = buckets p" using assms(1) by (simp add: peaks_wf_def)
  show "encode_record crc i p = u32_le i @ u32_le (len_samples p) @ f32_le (crc (u32_le (len_samples p) @ body)) @
    u32_le (if has_non_finite p then 1 else 0) @ body"
    unfolding encode_record_def t Let_def body_def [symmetric] l record_crc_def
    by (simp add: peak_record_bytes_def record_header_bytes_def)
qed

lemma length_encode: "peaks_wf p \<Longrightarrow> length (encode_record crc i p) = peak_record_bytes"
  by (simp add: encode_wf(1)) (simp add: encode_wf(2) peak_record_bytes_def record_header_bytes_def)

lemma decode_encode:
  assumes "peaks_wf p" "i \<le> u32_max"
  shows "decode_record crc (encode_record crc i p) i = Some p"
proof -
  define body where "body = concat (map bucket_le (buckets p))"
  note e = encode_wf(1) [OF assms(1), of crc i, folded body_def]
  define n where "n = len_samples p"
  have n: "n \<le> u32_max" "1 \<le> n" "n \<le> chunk_samples"
    using assms(1) by (auto simp: n_def peaks_wf_def chunk_samples_def u32_max_def)
  have words: "word_at (encode_record crc i p) 0 = Some (word_of_nat i)"
    "word_at (encode_record crc i p) 4 = Some (word_of_nat n)"
    "word_at (encode_record crc i p) 8 = Some (crc (u32_le n @ body))"
    "word_at (encode_record crc i p) 12 = Some (word_of_nat (if has_non_finite p then 1 else 0))"
    by (simp_all add: word_at_def e u32_le_def n_def)
  have c: "record_crc crc (encode_record crc i p) = crc (u32_le n @ body)"
    by (simp add: record_crc_def e record_header_bytes_def n_def)
  have d: "drop record_header_bytes (encode_record crc i p) = body"
    by (simp add: e record_header_bytes_def)
  have b: "map (\<lambda>rec. (f32_of_le (take 4 rec), f32_of_le (drop 4 rec))) (fst (as_chunks 8 body)) = buckets p"
    unfolding body_def by (subst as_chunks_concat_back) (auto simp: bucket_le_def o_def)
  have nz: "(word_of_nat n :: 32 word) \<noteq> 0" using unat_u32 [OF n(1)] n(2) by auto
  show ?thesis
    unfolding decode_record_def length_encode [OF assms(1)] words c d b
    using n nz unat_u32 [OF n(1)] unat_u32 [OF assms(2)] by (simp add: n_def)
qed

lemma read_record_full:
  "i * peak_record_bytes + peak_record_bytes \<le> length file \<Longrightarrow>
    read_record crc file i = decode_record crc (take peak_record_bytes (drop (i * peak_record_bytes) file)) i"
  by (simp add: read_record_def Let_def)

lemma decode_zeros: "decode_record crc (replicate peak_record_bytes 0) i = None"
proof -
  have "word_at (replicate peak_record_bytes 0) 4 = Some 0"
    by (simp add: word_at_def f32_of_le_def peak_record_bytes_def record_header_bytes_def peak_buckets_per_chunk_def numeral_eq_Suc)
  then show ?thesis by (auto simp: decode_record_def split: option.splits)
qed

lemma write_at_same:
  "take (length buf) (drop off (write_at f off buf)) = buf"
  by (simp add: write_at_def)

lemma nth_write_at:
  assumes "k < length f" "k < off \<or> off + length buf \<le> k"
  shows "write_at f off buf ! k = f ! k"
proof (cases "k < off")
  case True
  with assms(1) show ?thesis by (simp add: write_at_def nth_append)
next
  case False
  with assms have "length (take off f) = off" "off + length buf \<le> k" "\<not> k - off < length buf" by auto
  with assms(1) False show ?thesis by (simp add: write_at_def nth_append)
qed

lemma write_record_same:
  assumes "peaks_wf p" "i \<le> u32_max" "peak_record_bytes \<le> wrote"
  shows "read_record crc (write_record crc i p wrote file) i = Some p"
proof -
  note l = length_encode [OF assms(1), of crc i]
  have t: "take wrote (encode_record crc i p) = encode_record crc i p" using assms(3) l by simp
  have ne: "encode_record crc i p \<noteq> []" using l by (auto simp: peak_record_bytes_def record_header_bytes_def)
  show ?thesis
    using write_at_same [of "encode_record crc i p" "i * peak_record_bytes" "file"] decode_encode [OF assms(1,2), of crc] ne
    by (simp add: write_record_def t read_record_full length_write_at l)
qed

lemma write_record_other:
  assumes "peaks_wf p" "j \<noteq> i" "peak_record_bytes dvd length file" "peak_record_bytes \<le> wrote"
  shows "read_record crc (write_record crc i p wrote file) j = read_record crc file j"
    and "peak_record_bytes dvd length (write_record crc i p wrote file)"
proof -
  define R where "R = peak_record_bytes"
  have R: "0 < R" by (simp add: R_def peak_record_bytes_def record_header_bytes_def)
  define buf where "buf = encode_record crc i p"
  have l: "length buf = R" using length_encode [OF assms(1)] by (simp add: buf_def R_def)
  have w: "write_record crc i p wrote file = write_at file (i * R) buf"
    using assms(4) l R by (auto simp: write_record_def simp flip: buf_def R_def)
  obtain m where m: "length file = m * R" using assms(3) by (metis R_def dvdE mult.commute)
  have len: "length (write_at file (i * R) buf) = max m (Suc i) * R"
    by (simp add: length_write_at m l) (metis add.commute max_mult_distrib_right mult_Suc nat_mult_max_left)
  show "peak_record_bytes dvd length (write_record crc i p wrote file)" by (simp add: w len flip: R_def)
  have in_file: "k * R + R \<le> x * R \<longleftrightarrow> k < x" for k x
    using mult_le_cancel2 [of "Suc k" R x] R by (simp add: add.commute Suc_le_eq)
  show "read_record crc (write_record crc i p wrote file) j = read_record crc file j"
  proof (cases "j < m")
    case True
    have "take R (drop (j * R) (write_at file (i * R) buf)) = take R (drop (j * R) file)"
    proof (rule nth_equalityI)
      have "j * R + R \<le> m * R" "j * R + R \<le> max m (Suc i) * R"
        using in_file [of j m] in_file [of j "max m (Suc i)"] True by simp_all
      then show "length (take R (drop (j * R) (write_at file (i * R) buf))) = length (take R (drop (j * R) file))"
        by (simp add: len m min_absorb2)
      fix k assume "k < length (take R (drop (j * R) (write_at file (i * R) buf)))"
      then have k: "k < R" by simp
      have jm: "j * R + k < m * R" using in_file [of j m] True k by simp
      have "j * R + k < i * R \<or> i * R + R \<le> j * R + k"
        using in_file [of j i] in_file [of i j] assms(2) k by (metis add_le_cancel_left add_leD1 less_le_not_le linorder_neqE_nat nat_less_le not_less order_less_le_trans trans_le_add1)
      then have "write_at file (i * R) buf ! (j * R + k) = file ! (j * R + k)"
        using jm by (intro nth_write_at) (simp_all add: m l)
      moreover have "j * R \<le> length file" "j * R \<le> length (write_at file (i * R) buf)"
        using jm unfolding length_write_at m l by linarith+
      ultimately show "take R (drop (j * R) (write_at file (i * R) buf)) ! k = take R (drop (j * R) file) ! k"
        using k by simp
    qed
    then show ?thesis
      using True in_file [of j m] in_file [of j "max m (Suc i)"] unfolding w
      by (simp add: read_record_def Let_def len m less_max_iff_disj flip: R_def)
  next
    case False
    then have none: "read_record crc file j = None" using in_file [of j m] by (simp add: read_record_def Let_def m flip: R_def)
    show ?thesis
    proof (cases "j < i")
      case True
      have le: "j * R + R \<le> i * R" using in_file [of j i] True by simp
      have "take R (drop (j * R) (write_at file (i * R) buf)) = replicate R 0"
      proof -
        have mj: "m * R \<le> j * R" using False by simp
        then have "drop (j * R) (take (i * R) file) = []" "min (m * R) (i * R) - j * R = 0"
          unfolding drop_eq_Nil length_take m by linarith+
        then show ?thesis using le m by (simp add: write_at_def min_absorb1 min_absorb2)
      qed
      then show ?thesis using none decode_zeros [of crc j] in_file [of j "max m (Suc i)"] True
        unfolding w by (simp add: read_record_def Let_def len flip: R_def)
    next
      case ji: False
      with False assms(2) have "\<not> j < max m (Suc i)" by simp
      then show ?thesis unfolding w using none in_file [of j "max m (Suc i)"]
        by (simp add: read_record_def Let_def len flip: R_def)
    qed
  qed
qed

section \<open>The pyramid of a chunk\<close>

text \<open>The peaks file agrees with the store: a record of a chunk's length is the chunk's pyramid.\<close>

definition peaks_ok :: "(byte list \<Rightarrow> 32 word) \<Rightarrow> store \<times> byte list \<Rightarrow> bool" where
  "peaks_ok crc s \<longleftrightarrow> peak_record_bytes dvd length (snd s) \<and>
     (\<forall>i d p. chunk_data (fst s) i = Some d \<and> read_record crc (snd s) i = Some p \<and> len_samples p = length d \<longrightarrow>
        p = compute d)"

text \<open>A write takes the whole record or none of it.\<close>

definition whole_write :: "nat \<Rightarrow> bool" where
  "whole_write wrote \<longleftrightarrow> wrote = 0 \<or> peak_record_bytes \<le> wrote"

lemma write_record_none [simp]: "write_record crc i p 0 file = file"
  by (simp add: write_record_def)

lemma stored_wf:
  assumes "store_ok crc st" "chunk_data st i = Some d"
  shows "1 \<le> length d \<and> length d \<le> chunk_samples \<and> i < length (st_index st) \<and>
    (\<exists>loc. location st i = Some loc \<and> loc_len loc = length d)"
proof -
  obtain e where e: "lookup_entry st i = Some e" and d: "length d = loc_len (ce_loc e)"
    using assms(2) by (auto simp: chunk_data_def copy_le_f32_def)
  from assms(1) e have "entry_ok crc st i e" by (simp add: store_ok_def index_ok_def)
  with e d show ?thesis
    by (auto simp: entry_ok_def Let_def location_def lookup_entry_def split: if_splits)
qed

lemma write_record_peaks_ok:
  assumes ok: "peaks_ok crc (st, file)" and w: "whole_write wrote" and i: "i \<le> u32_max" and wf: "peaks_wf p"
    and data: "\<And>j d. chunk_data st' j = Some d \<Longrightarrow> j \<noteq> i \<Longrightarrow> chunk_data st j = Some d"
    and new: "\<And>d. chunk_data st' i = Some d \<Longrightarrow> p = compute d"
    and none: "wrote = 0 \<Longrightarrow> chunk_data st i = chunk_data st' i \<or> read_record crc file i = None"
  shows "peaks_ok crc (st', write_record crc i p wrote file)"
proof (cases "wrote = 0")
  case True
  with ok data none show ?thesis by (fastforce simp: peaks_ok_def)
next
  case False
  with w have wr: "peak_record_bytes \<le> wrote" by (simp add: whole_write_def)
  have dv: "peak_record_bytes dvd length file" using ok by (simp add: peaks_ok_def)
  show ?thesis unfolding peaks_ok_def fst_conv snd_conv
  proof (intro conjI allI impI)
    show "peak_record_bytes dvd length (write_record crc i p wrote file)"
      using write_record_other(2) [OF wf _ dv wr, of "Suc i" i] by simp
    fix j d q
    assume q: "chunk_data st' j = Some d \<and> read_record crc (write_record crc i p wrote file) j = Some q \<and> len_samples q = length d"
    show "q = compute d"
    proof (cases "j = i")
      case True
      with q new write_record_same [OF wf i wr, of crc "file"] show ?thesis by simp
    next
      case False
      with q write_record_other(1) [OF wf False dv wr, of crc] data [OF _ False]
      have "chunk_data st j = Some d" "read_record crc file j = Some q" by auto
      with ok q show ?thesis unfolding peaks_ok_def fst_conv snd_conv by blast
    qed
  qed
qed

lemma chunk_id_bound: "store_ok crc st \<Longrightarrow> chunk_data st i = Some d \<Longrightarrow> length (st_index st) \<le> u32_max \<Longrightarrow> i \<le> u32_max"
  using stored_wf [of crc st i d] by simp

lemma recompute_spec:
  assumes ok: "store_ok crc st" "peaks_ok crc (st, file)" and d: "chunk_data st i = Some d" and i: "i \<le> u32_max"
    and w: "whole_write wrote" and r: "recompute_peaks crc env wrote i (length d) (st, file) = (r, s')"
  shows "(\<forall>p. r = Inr p \<longrightarrow> p = compute d) \<and> ((\<forall>seg. env_mmap env seg = None) \<longrightarrow> r = Inr (compute d)) \<and>
    store_ok crc (fst s') \<and> chunk_data (fst s') = chunk_data st \<and> peaks_ok crc s'"
proof -
  obtain r1 st1 where rd: "read_chunk crc env i 0 (length d) st = (r1, st1)" by (metis surj_pair)
  note sp = read_chunk_spec [OF ok(1) rd]
  have wf: "peaks_wf (compute d)" using stored_wf [OF ok(1) d] compute_wf [of d] by simp
  show ?thesis
  proof (cases r1)
    case (Inl e)
    with r rd have "r = Inl e" "s' = (st1, file)" by (simp_all add: recompute_peaks_def)
    with sp d ok(2) Inl show ?thesis by (auto simp: peaks_ok_def)
  next
    case (Inr xs)
    with sp d have xs: "xs = d" by auto
    with r rd Inr have "r = Inr (compute d)" "s' = (st1, write_record crc i (compute d) wrote file)"
      by (simp_all add: recompute_peaks_def Let_def)
    moreover have "peaks_ok crc (st1, write_record crc i (compute d) wrote file)"
      using sp d by (intro write_record_peaks_ok [OF ok(2) w i wf]) auto
    ultimately show ?thesis using sp by simp
  qed
qed

lemma chunk_peaks_spec:
  assumes ok: "store_ok crc (fst s)" "peaks_ok crc s" and d: "chunk_data (fst s) i = Some d" and i: "i \<le> u32_max"
    and w: "whole_write wrote" and r: "chunk_peaks_of crc env wrote i s = (r, s')"
  shows "(\<forall>p. r = Inr p \<longrightarrow> p = compute d) \<and> ((\<forall>seg. env_mmap env seg = None) \<longrightarrow> r = Inr (compute d)) \<and>
    store_ok crc (fst s') \<and> chunk_data (fst s') = chunk_data (fst s) \<and> peaks_ok crc s'"
proof -
  obtain loc where loc: "location (fst s) i = Some loc" "loc_len loc = length d"
    using stored_wf [OF ok(1) d] by auto
  show ?thesis
  proof (cases "\<exists>p. read_record crc (snd s) i = Some p \<and> len_samples p = length d")
    case True
    then obtain p where p: "read_record crc (snd s) i = Some p" "len_samples p = length d" by blast
    with ok(2) d have "p = compute d" unfolding peaks_ok_def by blast
    with p loc r ok show ?thesis by (auto simp: chunk_peaks_of_def)
  next
    case False
    then have "chunk_peaks_of crc env wrote i s = recompute_peaks crc env wrote i (length d) s"
      using loc by (cases "read_record crc (snd s) i") (auto simp: chunk_peaks_of_def)
    with r have "recompute_peaks crc env wrote i (length d) (fst s, snd s) = (r, s')" by simp
    moreover have "peaks_ok crc (fst s, snd s)" using ok(2) by simp
    ultimately show ?thesis by (intro recompute_spec [OF ok(1) _ d i w])
  qed
qed

text \<open>Records exist for chunks of the store only, so a chunk whose record could not be written has none.\<close>

definition peaks_inv :: "(byte list \<Rightarrow> 32 word) \<Rightarrow> store \<times> byte list \<Rightarrow> bool" where
  "peaks_inv crc s \<longleftrightarrow> store_ok crc (fst s) \<and> peaks_ok crc s \<and>
     (\<forall>i. read_record crc (snd s) i \<noteq> None \<longrightarrow> chunk_data (fst s) i \<noteq> None) \<and>
     (\<forall>i. chunk_data (fst s) i \<noteq> None \<longrightarrow> i \<le> u32_max)"

lemma peaks_inv_create: "peaks_inv crc (store_create budget, [])"
proof -
  have "0 < peak_record_bytes" by (simp add: peak_record_bytes_def record_header_bytes_def)
  then have "read_record crc [] i = None" for i by (auto simp: read_record_def Let_def)
  moreover have "chunk_data (store_create budget) i = None" for i
    by (simp add: chunk_data_def lookup_entry_def store_create_def)
  ultimately show ?thesis by (simp add: peaks_inv_def peaks_ok_def store_ok_create)
qed

lemma write_record_live:
  assumes "peaks_wf p" "whole_write wrote" "peak_record_bytes dvd length file"
    "read_record crc (write_record crc i p wrote file) j \<noteq> None"
  shows "j = i \<or> read_record crc file j \<noteq> None"
proof (cases "wrote = 0")
  case False
  with assms(2) have "peak_record_bytes \<le> wrote" by (simp add: whole_write_def)
  from write_record_other(1) [OF assms(1) _ assms(3) this, of j i crc] assms(4) show ?thesis
    by (cases "j = i") simp_all
qed (use assms in simp)

lemma chunk_peaks_keeps:
  assumes inv: "peaks_inv crc s" and d: "chunk_data (fst s) i = Some d"
    and w: "whole_write wrote" and r: "chunk_peaks_of crc env wrote i s = (r, s')"
  shows "peaks_inv crc s' \<and> chunk_data (fst s') = chunk_data (fst s)"
proof -
  have i: "i \<le> u32_max" using inv d unfolding peaks_inv_def by blast
  from inv have ok: "store_ok crc (fst s)" "peaks_ok crc s" by (auto simp: peaks_inv_def)
  note sp = chunk_peaks_spec [OF ok d i w r]
  have fl: "snd s' = snd s \<or> snd s' = write_record crc i (compute d) wrote (snd s)"
  proof (cases "snd s' = snd s")
    case False
    from r False have "\<exists>n. recompute_peaks crc env wrote i n s = (r, s')"
      by (auto simp: chunk_peaks_of_def split: option.splits if_splits)
    then obtain n where n: "recompute_peaks crc env wrote i n s = (r, s')" by blast
    with False obtain xs where "r = Inr (compute xs)" "snd s' = write_record crc i (compute xs) wrote (snd s)"
      by (auto simp: recompute_peaks_def Let_def split: prod.splits sum.splits)
    with sp show ?thesis by auto
  qed simp
  have "chunk_data (fst s') j \<noteq> None" if "read_record crc (snd s') j \<noteq> None" for j
  proof -
    have wf: "peaks_wf (compute d)" using stored_wf [OF ok(1) d] compute_wf [of d] by simp
    have "j = i \<or> read_record crc (snd s) j \<noteq> None"
      using fl that write_record_live [OF wf w, of "snd s" crc i j] ok(2) by (auto simp: peaks_ok_def)
    with inv sp d show ?thesis unfolding peaks_inv_def by auto
  qed
  with sp inv show ?thesis by (simp add: peaks_inv_def)
qed

lemma commit_id_bound:
  assumes "commit_chunk_as crc env xs fid st = (Inr loc, st')" "\<And>k. fid = Some k \<Longrightarrow> k \<le> u32_max"
  shows "loc_id loc \<le> u32_max"
proof -
  have "loc_id l \<le> u32_max" if "publish fid mk s = (Inr l, s')" "\<And>i. loc_id (mk i) = i" for mk s l s'
    using that assms(2) by (auto simp: publish_def Let_def split: option.splits if_splits)
  with assms(1) show ?thesis
    by (auto simp: commit_chunk_as_def commit_eq split: sum.splits prod.splits)
qed

lemma commit_peaks_keeps:
  assumes inv: "peaks_inv crc s" and w: "whole_write wrote" and fid: "\<And>k. fid = Some k \<Longrightarrow> k \<le> u32_max"
    and c: "commit_chunk_peaks crc env wrote xs fid s = (r, s')"
  shows "peaks_inv crc s' \<and> (\<forall>e. r = Inl e \<longrightarrow> chunk_data (fst s') = chunk_data (fst s)) \<and>
    (\<forall>loc. r = Inr loc \<longrightarrow> chunk_data (fst s') = (chunk_data (fst s))(loc_id loc \<mapsto> sanitize xs))"
proof -
  obtain r1 st1 where cm: "commit_chunk_as crc env xs fid (fst s) = (r1, st1)" by (metis surj_pair)
  from inv have ok: "store_ok crc (fst s)" "peaks_ok crc (fst s, snd s)" by (auto simp: peaks_inv_def)
  note sp = commit_as_spec [OF ok(1) cm]
  show ?thesis
  proof (cases r1)
    case (Inl e)
    with c cm sp inv show ?thesis by (auto simp: commit_chunk_peaks_def peaks_inv_def peaks_ok_def)
  next
    case (Inr loc)
    with c cm have r: "r = Inr loc" "s' = (st1, write_record crc (loc_id loc) (compute (sanitize xs)) wrote (snd s))"
      by (auto simp: commit_chunk_peaks_def)
    from sp Inr have st1: "store_ok crc st1" "chunk_data (fst s) (loc_id loc) = None"
      "chunk_data st1 = (chunk_data (fst s))(loc_id loc \<mapsto> sanitize xs)" by auto
    have i: "loc_id loc \<le> u32_max" using commit_id_bound [OF _ fid] cm Inr by blast
    have wf: "peaks_wf (compute (sanitize xs))"
      using stored_wf [OF st1(1), of "loc_id loc" "sanitize xs"] st1(3) compute_wf [of "sanitize xs"] by simp
    have none: "read_record crc (snd s) (loc_id loc) = None" using inv st1(2) unfolding peaks_inv_def by blast
    have "peaks_ok crc s'" unfolding r
      by (rule write_record_peaks_ok [OF ok(2) w i wf]) (use st1(3) none in auto)
    moreover have "chunk_data st1 j \<noteq> None" if "read_record crc (snd s') j \<noteq> None" for j
      using write_record_live [OF wf w, of "snd s" crc "loc_id loc" j] that ok(2) inv st1(3) r
      by (auto simp: peaks_ok_def peaks_inv_def)
    moreover have "j \<le> u32_max" if "chunk_data st1 j \<noteq> None" for j
      using that i inv st1(3) by (cases "j = loc_id loc") (auto simp: peaks_inv_def)
    ultimately show ?thesis using st1 r by (simp add: peaks_inv_def)
  qed
qed

inductive peaks_step :: "(byte list \<Rightarrow> 32 word) \<Rightarrow> store \<times> byte list \<Rightarrow> store \<times> byte list \<Rightarrow> bool" for crc where
  commit: "commit_chunk_peaks crc env wrote xs None s = (r, s') \<Longrightarrow> whole_write wrote \<Longrightarrow> peaks_step crc s s'"
| ask: "chunk_peaks_of crc env wrote i s = (r, s') \<Longrightarrow> whole_write wrote \<Longrightarrow> peaks_step crc s s'"
| read: "read_chunk crc env i off n st = (r, st') \<Longrightarrow> peaks_step crc (st, f) (st', f)"

lemma peaks_step_keeps: "peaks_step crc s s' \<Longrightarrow> peaks_inv crc s \<Longrightarrow> peaks_inv crc s'"
proof (induction rule: peaks_step.induct)
  case (commit env wrote xs s r s')
  with commit_peaks_keeps [of crc s wrote None env xs r s'] show ?case by simp
next
  case (ask env wrote i s r s')
  show ?case
  proof (cases "chunk_data (fst s) i")
    case None
    then have "location (fst s) i = None" by (simp add: chunk_data_def location_def)
    with ask show ?thesis by (simp add: chunk_peaks_of_def)
  next
    case (Some d)
    with ask chunk_peaks_keeps show ?thesis by blast
  qed
next
  case (read env i off n st r st' f)
  with read_chunk_spec [of crc st env i off n r st'] show ?case by (simp add: peaks_inv_def peaks_ok_def)
qed

definition peaks_reached :: "(byte list \<Rightarrow> 32 word) \<Rightarrow> store \<times> byte list \<Rightarrow> bool" where
  "peaks_reached crc s \<longleftrightarrow> (\<exists>budget. (peaks_step crc)\<^sup>*\<^sup>* (store_create budget, []) s)"

lemma peaks_reached_inv: "peaks_reached crc s \<Longrightarrow> peaks_inv crc s"
proof -
  assume "peaks_reached crc s"
  then obtain budget where "(peaks_step crc)\<^sup>*\<^sup>* (store_create budget, []) s" unfolding peaks_reached_def by blast
  then show ?thesis by (induction rule: rtranclp_induct) (auto intro: peaks_inv_create peaks_step_keeps)
qed


lemma example_peaks_reached: "peaks_reached sum_crc (example_store, [])"
proof -
  have "commit_chunk_peaks sum_crc calm_env 0 example_samples None (store_create 0, []) =
      (Inr \<lparr>loc_id = 0, loc_offset = 0, loc_len = 2, loc_crc = 191\<rparr>, (example_store, []))"
    using example_commit_eq by (simp add: commit_chunk_peaks_def commit_chunk_def)
  from peaks_step.commit [OF this] have "peaks_step sum_crc (store_create 0, []) (example_store, [])"
    by (simp add: whole_write_def)
  then show ?thesis unfolding peaks_reached_def by blast
qed

lemma example_data: "chunk_data example_store 0 = Some [0x3F800000, 0]"
proof -
  have "chunk_data example_store 0 = Some (sanitize example_samples)"
    using commit_as_spec [OF store_ok_create example_commit_eq [unfolded commit_chunk_def]] by simp
  then show ?thesis by (simp add: sanitize_def example_samples_def is_finite_def)
qed


end
