(* ===== verification/Peaks_Query.thy ===== *)
theory Peaks_Query
  imports Peak_Records Reader
begin

text \<open>
  Peak queries over a snapshot: \<^verbatim>\<open>crates/project/src/peaks_query.rs\<close>.

  The query takes the chunk's pyramid from a function, the store's \<open>chunk_peaks\<close>; \<open>pyramid_source\<close> states
  what it relies on, and is interpreted on the store.  The cache of the last pyramid is threaded through
  the buckets.  Shown: a query never under-reports the document's samples.
\<close>

section \<open>The query\<close>

type_synonym last_pyramid = "(nat \<times> chunk_peaks) option"

text \<open>The slice \<open>level[b_lo ..= b_hi]\<close> is in range when the chunk holds the range (\<open>range_in_level\<close>).\<close>

definition chunk_range_union ::
    "(nat \<Rightarrow> ('s, chunk_peaks) op) \<Rightarrow> nat \<Rightarrow> nat \<Rightarrow> nat \<Rightarrow> nat \<Rightarrow> (last_pyramid \<times> 's, bucket option) op" where
  "chunk_range_union cp i c_off len spp s =
     (if len = 0 then (Inr None, s)
      else
        case (case fst s of
                Some (j, p) \<Rightarrow> if j = i then (Inr p, s)
                  else (case cp i (snd s) of (Inl e, s1) \<Rightarrow> (Inl e, (fst s, s1)) | (Inr p, s1) \<Rightarrow> (Inr p, (Some (i, p), s1)))
              | None \<Rightarrow> (case cp i (snd s) of (Inl e, s1) \<Rightarrow> (Inl e, (fst s, s1)) | (Inr p, s1) \<Rightarrow> (Inr p, (Some (i, p), s1)))) of
          (Inl e, s1) \<Rightarrow> (Inl e, s1)
        | (Inr p, s1) \<Rightarrow>
            (case level spp p of
               None \<Rightarrow> (Inr None, s1)
             | Some lv \<Rightarrow>
                 if lv = [] then (Inr None, s1)
                 else
                   let b_lo = c_off div spp;
                       b_hi = (c_off + len - 1) div spp;
                       bs = drop b_lo (take (min b_hi (length lv - 1) + 1) lv)
                   in (Inr (if bs = [] then None else Some (foldl join_bucket empty_bucket bs)), s1)))"

text \<open>The loop of \<open>bucket_union\<close>: \<open>ps\<close> are the pieces from the current one on, \<open>n = hi - pos\<close>.\<close>

fun bucket_loop ::
    "(nat \<Rightarrow> ('s, chunk_peaks) op) \<Rightarrow> nat \<Rightarrow> piece list \<Rightarrow> nat \<Rightarrow> nat \<Rightarrow> bucket \<Rightarrow> bool \<Rightarrow>
     (last_pyramid \<times> 's, bucket \<times> bool) op" where
  "bucket_loop cp spp [] piece_off n acc seen s = (Inr (acc, seen), s)"
| "bucket_loop cp spp (p # ps) piece_off n acc seen s =
     (if n = 0 then (Inr (acc, seen), s)
      else
        let k = min (p_len p - piece_off) n
        in case p_source p of
             Silence \<Rightarrow> bucket_loop cp spp ps 0 (n - k) (join_bucket acc (0, 0)) True s
           | Chunk c \<Rightarrow>
               (case chunk_range_union cp c (p_offset p + piece_off) k spp s of
                  (Inl e, s1) \<Rightarrow> (Inl e, s1)
                | (Inr None, s1) \<Rightarrow> bucket_loop cp spp ps 0 (n - k) acc seen s1
                | (Inr (Some b), s1) \<Rightarrow> bucket_loop cp spp ps 0 (n - k) (join_bucket acc b) True s1))"

definition bucket_union ::
    "(nat \<Rightarrow> ('s, chunk_peaks) op) \<Rightarrow> doc_snapshot \<Rightarrow> nat \<Rightarrow> nat \<Rightarrow> nat \<Rightarrow> (last_pyramid \<times> 's, bucket) op" where
  "bucket_union cp d spp lo hi s =
     (case locate d lo of
        None \<Rightarrow> (Inr (0, 0), s)
      | Some (i, piece_off) \<Rightarrow>
          (case bucket_loop cp spp (drop i (s_pieces d)) piece_off (hi - lo) empty_bucket False s of
             (Inl e, s1) \<Rightarrow> (Inl e, s1)
           | (Inr (acc, seen), s1) \<Rightarrow> (Inr (if seen then acc else (0, 0)), s1)))"

text \<open>The loop over the output buckets: \<open>bs\<close> are the bucket numbers still to answer.\<close>

fun peaks_loop ::
    "(nat \<Rightarrow> ('s, chunk_peaks) op) \<Rightarrow> doc_snapshot \<Rightarrow> nat \<Rightarrow> nat \<Rightarrow> nat list \<Rightarrow> (last_pyramid \<times> 's, bucket list) op" where
  "peaks_loop cp d spp start [] s = (Inr [], s)"
| "peaks_loop cp d spp start (b # bs) s =
     (let lo = sat_add64 start (sat_mul64 b spp)
      in case (if s_len d \<le> lo then (Inr (0, 0), s)
               else bucket_union cp d spp lo (min (sat_add64 lo spp) (s_len d)) s) of
           (Inl e, s1) \<Rightarrow> (Inl e, s1)
         | (Inr v, s1) \<Rightarrow>
             (case peaks_loop cp d spp start bs s1 of
                (Inl e, s2) \<Rightarrow> (Inl e, s2)
              | (Inr vs, s2) \<Rightarrow> (Inr (v # vs), s2)))"

definition peaks_raw_spp :: nat where
  "peaks_raw_spp = 1"

text \<open>\<open>buf\<close> starts as zeros and \<open>ChunkStore::read\<close> fills its front.\<close>

definition peaks_raw ::
    "(byte list \<Rightarrow> 32 word) \<Rightarrow> store_env \<Rightarrow> doc_snapshot \<Rightarrow> nat \<Rightarrow> nat \<Rightarrow> (store, bucket list) op" where
  "peaks_raw crc env d start n st =
     (case store_read crc env d start n st of
        (Inl e, st') \<Rightarrow> (Inl e, st')
      | (Inr xs, st') \<Rightarrow> (Inr (map (\<lambda>s. (s, s)) (xs @ replicate (n - length xs) 0)), st'))"

definition peaks ::
    "(byte list \<Rightarrow> 32 word) \<Rightarrow> store_env \<Rightarrow> (nat \<Rightarrow> nat) \<Rightarrow> doc_snapshot \<Rightarrow> nat \<Rightarrow> nat \<Rightarrow> nat \<Rightarrow>
     (store \<times> byte list, bucket list) op" where
  "peaks crc env wrote d spp start n s =
     (if spp = peaks_raw_spp then
        (case peaks_raw crc env d start n (fst s) of (r, st') \<Rightarrow> (r, (st', snd s)))
      else if spp \<notin> set peak_levels_spp then
        (Inl (InvalidArgument ''spp must be 1 (raw) or a pyramid level (64, 256, 1024, 4096, 16384, 65536)''), s)
      else
        (case peaks_loop (\<lambda>i. chunk_peaks_of crc env (wrote i) i) d spp start [0 ..< n] (None, s) of
           (r, (_, s')) \<Rightarrow> (r, s')))"

section \<open>Covering\<close>

text \<open>No number of \<open>X\<close> lies outside the bucket.\<close>

definition encloses :: "bucket \<Rightarrow> f32 set \<Rightarrow> bool" where
  "encloses b X \<longleftrightarrow>
     (\<forall>x \<in> X. \<not> f32_nan x \<longrightarrow> f32_key (fst b) \<le> f32_key x \<and> f32_key x \<le> f32_key (snd b))"

definition covers :: "bucket \<Rightarrow> f32 set \<Rightarrow> bool" where
  "covers b X \<longleftrightarrow> \<not> f32_nan (fst b) \<and> \<not> f32_nan (snd b) \<and> encloses b X"

lemma covers_empty: "covers empty_bucket {}"
  by (simp add: covers_def encloses_def empty_bucket_def)

lemma covers_zero: "X \<subseteq> {0} \<Longrightarrow> covers (0, 0) X"
  by (auto simp: covers_def encloses_def)

lemma covers_join: "covers a X \<Longrightarrow> covers b Y \<Longrightarrow> covers (join_bucket a b) (X \<union> Y)"
  by (auto simp: covers_def encloses_def join_bucket_def f32_min_key f32_max_key)

lemma covers_subset: "covers b X \<Longrightarrow> Y \<subseteq> X \<Longrightarrow> covers b Y"
  unfolding covers_def encloses_def by blast

lemma covers_fold:
  assumes "covers a X" "\<forall>b \<in> set bs. covers b (Y b)"
  shows "covers (foldl join_bucket a bs) (X \<union> (\<Union>b \<in> set bs. Y b))"
  using assms
proof (induction bs arbitrary: a X)
  case (Cons b bs)
  from Cons.IH [OF covers_join [OF Cons.prems(1), of b "Y b"]] Cons.prems(2) show ?case by (simp add: Un_assoc)
qed simp

lemma spans_covers: "spans b X \<Longrightarrow> covers b X"
  by (auto simp: spans_def covers_def encloses_def)

lemma range_in_level:
  assumes k: "k < 6" and d: "length d \<le> chunk_samples" and len: "0 < len" "c_off + len \<le> length d"
  shows "\<exists>lv. level (spp_of k) (compute d) = Some lv \<and> c_off div spp_of k \<le> (c_off + len - 1) div spp_of k \<and>
    (c_off + len - 1) div spp_of k < length lv \<and>
    covers (foldl join_bucket empty_bucket (drop (c_off div spp_of k) (take ((c_off + len - 1) div spp_of k + 1) lv)))
      (set (take len (drop c_off d)))"
proof -
  define s where "s = spp_of k"
  have s: "0 < s" using level_facts(1) [OF k] by (simp add: s_def)
  define b_lo b_hi where "b_lo = c_off div s" and "b_hi = (c_off + len - 1) div s"
  obtain lv where lv: "level s (compute d) = Some lv" "length lv = div_ceil (length d) s"
    "\<And>b. b < length lv \<Longrightarrow> spans (lv ! b) (block_at s b d)"
    using level_compute [OF k d] unfolding s_def by blast
  have lohi: "b_lo \<le> b_hi" unfolding b_lo_def b_hi_def using len(1) by (intro div_le_mono) linarith
  have "b_hi * s \<le> c_off + len - 1" by (simp add: b_hi_def)
  then have hi: "b_hi < length lv" using len lv(2) by (simp add: div_ceil_le [OF s])
  define bs where "bs = drop b_lo (take (b_hi + 1) lv)"
  have bsl: "length bs = b_hi + 1 - b_lo" "\<And>i. i < length bs \<Longrightarrow> bs ! i = lv ! (b_lo + i)"
    using hi lohi by (auto simp: bs_def)
  define Y where "Y b = \<Union> {block_at s i d | i. i < length lv \<and> lv ! i = b \<and> b_lo \<le> i \<and> i \<le> b_hi}" for b
  have cov: "covers b (Y b)" if "b \<in> set bs" for b
  proof -
    have "b \<in> set lv" using that unfolding bs_def by (meson in_set_dropD in_set_takeD)
    then obtain i where "i < length lv" "lv ! i = b" by (auto simp: in_set_conv_nth)
    with lv(3) have "\<not> f32_nan (fst b)" "\<not> f32_nan (snd b)" by (auto simp: spans_def)
    moreover have "f32_key (fst b) \<le> f32_key x \<and> f32_key x \<le> f32_key (snd b)" if "x \<in> Y b" "\<not> f32_nan x" for x
      using that lv(3) by (auto simp: Y_def spans_def)
    ultimately show ?thesis by (simp add: covers_def encloses_def)
  qed
  have "set (take len (drop c_off d)) \<subseteq> (\<Union>b \<in> set bs. Y b)"
  proof
    fix x assume "x \<in> set (take len (drop c_off d))"
    then obtain r where r: "r < len" "x = take len (drop c_off d) ! r"
      using len by (auto simp: in_set_conv_nth)
    define t where "t = c_off + r"
    have t: "c_off \<le> t" "t < c_off + len" "x = d ! t" using r len by (simp_all add: t_def)
    have b: "b_lo \<le> t div s" "t div s \<le> b_hi"
      unfolding b_lo_def b_hi_def using t(1,2) by (auto intro!: div_le_mono)
    have "lv ! (t div s) \<in> set bs"
      using bsl(2) [of "t div s - b_lo"] nth_mem [of "t div s - b_lo" bs] b bsl(1) by simp
    moreover have "x \<in> Y (lv ! (t div s))"
    proof -
      have "t div s < length lv" using b hi by simp
      moreover have "x \<in> block_at s (t div s) d" using t len unfolding block_at_def by auto
      ultimately show ?thesis using b unfolding Y_def by blast
    qed
    ultimately show "x \<in> (\<Union>b \<in> set bs. Y b)" by blast
  qed
  moreover have "covers (foldl join_bucket empty_bucket bs) ({} \<union> (\<Union>b \<in> set bs. Y b))"
    using cov by (intro covers_fold covers_empty) auto
  ultimately show ?thesis
    using lv(1) lohi hi covers_subset unfolding s_def bs_def b_lo_def b_hi_def by fastforce
qed

section \<open>The interface\<close>

text \<open>A chunk of the store, and the samples a range of pieces names.\<close>

locale pyramid_source =
  fixes cp :: "nat \<Rightarrow> ('s, chunk_peaks) op"
    and cdata :: "'s \<Rightarrow> nat \<Rightarrow> f32 list option"
    and inv :: "'s \<Rightarrow> bool"
    and ready :: bool
  assumes cp_keeps: "inv s \<Longrightarrow> cdata s i = Some d \<Longrightarrow> cp i s = (r, s') \<Longrightarrow> inv s' \<and> cdata s' = cdata s"
    and cp_data: "inv s \<Longrightarrow> cdata s i = Some d \<Longrightarrow> cp i s = (Inr p, s') \<Longrightarrow> p = compute d"
    and cp_total: "inv s \<Longrightarrow> ready \<Longrightarrow> cdata s i = Some d \<Longrightarrow> \<exists>p s'. cp i s = (Inr p, s')"
    and cdata_len: "inv s \<Longrightarrow> cdata s i = Some d \<Longrightarrow> length d \<le> chunk_samples"
begin

text \<open>The cached pyramid is that of its chunk.\<close>

definition cache_ok :: "last_pyramid \<times> 's \<Rightarrow> bool" where
  "cache_ok s \<longleftrightarrow> inv (snd s) \<and>
     (case fst s of None \<Rightarrow> True | Some (i, p) \<Rightarrow> \<exists>d. cdata (snd s) i = Some d \<and> p = compute d)"

lemma range_union_ok:
  assumes ok: "cache_ok s" and k: "k < 6" and d: "cdata (snd s) i = Some d" and len: "0 < len" "c_off + len \<le> length d"
    and r: "chunk_range_union cp i c_off len (spp_of k) s = (r, s')"
  shows "cache_ok s' \<and> cdata (snd s') = cdata (snd s) \<and> (ready \<longrightarrow> (\<exists>b. r = Inr b)) \<and>
    (\<forall>b. r = Inr b \<longrightarrow> (\<exists>v. b = Some v \<and> covers v (set (take len (drop c_off d)))))"
proof -
  define get where "get = (case fst s of
                Some (j, p) \<Rightarrow> if j = i then (Inr p, s)
                  else (case cp i (snd s) of (Inl e, s1) \<Rightarrow> (Inl e, (fst s, s1)) | (Inr p, s1) \<Rightarrow> (Inr p, (Some (i, p), s1)))
              | None \<Rightarrow> (case cp i (snd s) of (Inl e, s1) \<Rightarrow> (Inl e, (fst s, s1)) | (Inr p, s1) \<Rightarrow> (Inr p, (Some (i, p), s1))))"
  obtain g s1 where g: "get = (g, s1)" by (metis surj_pair)
  have inv: "inv (snd s)" using ok by (simp add: cache_ok_def)
  obtain c t where c: "cp i (snd s) = (c, t)" by (metis surj_pair)
  have ct: "inv t" "cdata t = cdata (snd s)" "\<And>p. c = Inr p \<Longrightarrow> p = compute d" "ready \<Longrightarrow> \<exists>p. c = Inr p"
    using cp_keeps [OF inv d c] cp_data [OF inv d] cp_total [OF inv _ d] c by auto
  have fresh: "(case cp i (snd s) of (Inl e, s1) \<Rightarrow> (Inl e, (fst s, s1)) | (Inr p, s1) \<Rightarrow> (Inr p, (Some (i, p), s1))) =
      (case c of Inl e \<Rightarrow> (Inl e, (fst s, t)) | Inr p \<Rightarrow> (Inr p, (Some (i, p), t)))"
    by (simp add: c split: sum.splits)
  have 1: "cache_ok s1 \<and> cdata (snd s1) = cdata (snd s) \<and> (\<forall>p. g = Inr p \<longrightarrow> p = compute d) \<and> (ready \<longrightarrow> (\<exists>p. g = Inr p))"
  proof (cases "\<exists>p. fst s = Some (i, p)")
    case True
    then obtain p where "fst s = Some (i, p)" by blast
    with g ok d show ?thesis by (auto simp: get_def cache_ok_def)
  next
    case False
    then have "get = (case c of Inl e \<Rightarrow> (Inl e, (fst s, t)) | Inr p \<Rightarrow> (Inr p, (Some (i, p), t)))"
      unfolding get_def fresh by (auto split: option.splits)
    with g ct ok d show ?thesis by (auto simp: cache_ok_def split: sum.splits option.splits)
  qed
  from range_in_level [OF k cdata_len [OF inv d] len] obtain lv where
    lv: "level (spp_of k) (compute d) = Some lv" "c_off div spp_of k \<le> (c_off + len - 1) div spp_of k"
      "(c_off + len - 1) div spp_of k < length lv"
    and cov: "covers (foldl join_bucket empty_bucket (drop (c_off div spp_of k) (take ((c_off + len - 1) div spp_of k + 1) lv)))
      (set (take len (drop c_off d)))" by blast
  have m: "min ((c_off + len - 1) div spp_of k) (length lv - 1) = (c_off + len - 1) div spp_of k"
    using lv(3) by simp
  have ne: "lv \<noteq> []" "drop (c_off div spp_of k) (take ((c_off + len - 1) div spp_of k + 1) lv) \<noteq> []"
    using lv by auto
  have r': "(r, s') = (case g of Inl e \<Rightarrow> (Inl e, s1) | Inr p \<Rightarrow>
      (case level (spp_of k) p of None \<Rightarrow> (Inr None, s1) | Some lv \<Rightarrow> if lv = [] then (Inr None, s1) else
         let b_lo = c_off div spp_of k; b_hi = (c_off + len - 1) div spp_of k;
             bs = drop b_lo (take (min b_hi (length lv - 1) + 1) lv)
         in (Inr (if bs = [] then None else Some (foldl join_bucket empty_bucket bs)), s1)))"
    using r len(1) unfolding chunk_range_union_def get_def [symmetric] g by (auto split: sum.splits)
  show ?thesis
  proof (cases g)
    case (Inl e)
    with r' 1 show ?thesis by simp
  next
    case (Inr p)
    with 1 have p: "p = compute d" by simp
    have "(r, s') = (Inr (Some (foldl join_bucket empty_bucket
        (drop (c_off div spp_of k) (take ((c_off + len - 1) div spp_of k + 1) lv)))), s1)"
      unfolding r' Inr p by (simp only: sum.case lv(1) option.case ne Let_def m if_False)
    then have "r = Inr (Some (foldl join_bucket empty_bucket
        (drop (c_off div spp_of k) (take ((c_off + len - 1) div spp_of k + 1) lv))))" "s' = s1" by simp_all
    with cov 1 show ?thesis by blast
  qed
qed

lemma bucket_loop_ok:
  assumes "cache_ok s" "k < 6" "\<forall>p \<in> set ps. backed (cdata (snd s)) p \<and> piece_ok p \<and> 0 < p_len p"
    "ps \<noteq> [] \<Longrightarrow> off < p_len (hd ps)" "covers acc X" "X \<noteq> {} \<longrightarrow> seen" "off + n \<le> pieces_len ps"
    "bucket_loop cp (spp_of k) ps off n acc seen s = (r, s')"
  shows "cache_ok s' \<and> cdata (snd s') = cdata (snd s) \<and> (ready \<longrightarrow> (\<exists>v. r = Inr v)) \<and>
    (\<forall>v. r = Inr v \<longrightarrow> covers (fst v) (X \<union> set (take n (drop off (audio (cdata (snd s)) ps)))) \<and>
      (X \<union> set (take n (drop off (audio (cdata (snd s)) ps))) \<noteq> {} \<longrightarrow> snd v))"
  using assms
proof (induction ps arbitrary: off n acc seen X s r s')
  case Nil
  then show ?case by auto
next
  case (Cons p ps)
  show ?case
  proof (cases "n = 0")
    case True
    with Cons.prems show ?thesis by auto
  next
    case False
    define m where "m = min (p_len p - off) n"
    define P where "P = piece_content (sample_of (cdata (snd s))) 0 p"
    have pl: "length P = p_len p" by (simp add: P_def)
    have m: "0 < m" "off + m \<le> p_len p" "m \<le> n" using Cons.prems(4) False by (auto simp: m_def)
    have split: "set (take n (drop off (audio (cdata (snd s)) (p # ps)))) =
        set (take m (drop off P)) \<union> set (take (n - m) (drop 0 (audio (cdata (snd s)) ps)))"
    proof (cases "n \<le> p_len p - off")
      case True
      then have "m = n" by (simp add: m_def)
      with True show ?thesis by (simp add: pl flip: P_def)
    next
      case False
      then have "m = p_len p - off" by (simp add: m_def)
      with False m(2) show ?thesis by (simp add: pl flip: P_def)
    qed
    have rest: "0 + (n - m) \<le> pieces_len ps" using Cons.prems(7) by (auto simp: m_def)
    have hd: "ps \<noteq> [] \<Longrightarrow> 0 < p_len (hd ps)" using Cons.prems(3) by simp
    have step: ?thesis
      if ok: "cache_ok s1" "cdata (snd s1) = cdata (snd s)" and b: "covers b (set (take m (drop off P)))"
        and l: "bucket_loop cp (spp_of k) ps 0 (n - m) (join_bucket acc b) True s1 = (r, s')" for b s1
    proof -
      have bk: "\<forall>p \<in> set ps. backed (cdata (snd s1)) p \<and> piece_ok p \<and> 0 < p_len p"
        using Cons.prems(3) ok(2) by simp
      from Cons.IH [OF ok(1) Cons.prems(2) bk hd covers_join [OF Cons.prems(5) b] _ rest l] ok(2)
      show ?thesis unfolding split by (auto simp: Un_assoc)
    qed
    show ?thesis
    proof (cases "p_source p")
      case Silence
      with Cons.prems(8) False have "bucket_loop cp (spp_of k) ps 0 (n - m) (join_bucket acc (0, 0)) True s = (r, s')"
        by (simp add: m_def)
      moreover have "set (take m (drop off P)) \<subseteq> {0}"
        using Silence by (auto simp: P_def piece_content_def dest!: in_set_takeD in_set_dropD)
      ultimately show ?thesis using step [OF Cons.prems(1) refl covers_zero] by blast
    next
      case (Chunk c)
      with Cons.prems(3) obtain d where d: "cdata (snd s) c = Some d" "p_offset p + p_len p \<le> length d"
        by (auto simp: backed_def split: option.splits)
      obtain r1 s1 where u: "chunk_range_union cp c (p_offset p + off) m (spp_of k) s = (r1, s1)" by (metis surj_pair)
      have "p_offset p + off + m \<le> length d" using d(2) m(2) by simp
      from range_union_ok [OF Cons.prems(1,2) d(1) m(1) this u] have
        1: "cache_ok s1" "cdata (snd s1) = cdata (snd s)" "ready \<Longrightarrow> \<exists>b. r1 = Inr b"
        "\<And>b. r1 = Inr b \<Longrightarrow> \<exists>v. b = Some v \<and> covers v (set (take m (drop (p_offset p + off) d)))" by auto
      have P: "take m (drop (p_offset p + off) d) = take m (drop off P)"
        using piece_content_chunk [of p c "cdata (snd s)" d] Chunk d m(2)
        by (simp add: P_def drop_take add.commute min_def)
      show ?thesis
      proof (cases r1)
        case (Inl e)
        with Cons.prems(8) False Chunk u have "r = Inl e" "s' = s1" by (simp_all add: m_def)
        with 1 Inl show ?thesis by auto
      next
        case (Inr b)
        with 1(4) obtain v where v: "b = Some v" "covers v (set (take m (drop off P)))" by (auto simp: P)
        with Cons.prems(8) False Chunk u Inr
        have "bucket_loop cp (spp_of k) ps 0 (n - m) (join_bucket acc v) True s1 = (r, s')" by (simp add: m_def)
        from step [OF 1(1,2) v(2) this] show ?thesis .
      qed
    qed
  qed
qed

lemma bucket_union_ok:
  assumes "cache_ok s" "k < 6" "snap_ok d" "\<forall>p \<in> set (s_pieces d). backed (cdata (snd s)) p"
    "lo < s_len d" "lo \<le> hi" "hi \<le> s_len d" "bucket_union cp d (spp_of k) lo hi s = (r, s')"
  shows "cache_ok s' \<and> cdata (snd s') = cdata (snd s) \<and> (ready \<longrightarrow> (\<exists>v. r = Inr v)) \<and>
    (\<forall>v. r = Inr v \<longrightarrow> covers v (set (take (hi - lo) (drop lo (audio (cdata (snd s)) (s_pieces d))))))"
proof -
  from locate_Some [OF assms(3,5)] obtain i off where l: "locate d lo = Some (i, off)"
    and i: "i < length (s_pieces d)" and off: "off < p_len (s_pieces d ! i)"
    and lo: "lo = pieces_len (take i (s_pieces d)) + off" .
  have ln: "s_len d = pieces_len (s_pieces d)" using assms(3) by (simp add: snap_ok_def)
  have split: "pieces_len (take i (s_pieces d)) + pieces_len (drop i (s_pieces d)) = s_len d"
    unfolding ln by (metis append_take_drop_id pieces_len_simps(3))
  have hd: "hd (drop i (s_pieces d)) = s_pieces d ! i" using i by (simp add: hd_drop_conv_nth)
  obtain r1 s1 where b: "bucket_loop cp (spp_of k) (drop i (s_pieces d)) off (hi - lo) empty_bucket False s = (r1, s1)"
    by (metis surj_pair)
  have "\<forall>p \<in> set (drop i (s_pieces d)). backed (cdata (snd s)) p \<and> piece_ok p \<and> 0 < p_len p"
    using assms(3,4) by (auto simp: snap_ok_def canonical_def dest: in_set_dropD)
  moreover have "off + (hi - lo) \<le> pieces_len (drop i (s_pieces d))" using split lo assms(5,7) by linarith
  ultimately have a: "cache_ok s1 \<and> cdata (snd s1) = cdata (snd s) \<and> (ready \<longrightarrow> (\<exists>v. r1 = Inr v)) \<and>
    (\<forall>v. r1 = Inr v \<longrightarrow> covers (fst v) ({} \<union> set (take (hi - lo) (drop off (audio (cdata (snd s)) (drop i (s_pieces d)))))) \<and>
      ({} \<union> set (take (hi - lo) (drop off (audio (cdata (snd s)) (drop i (s_pieces d))))) \<noteq> {} \<longrightarrow> snd v))"
    using off hd by (intro bucket_loop_ok [OF assms(1,2) _ _ covers_empty _ _ b]) auto
  have dr: "drop lo (audio (cdata (snd s)) (s_pieces d)) = drop off (audio (cdata (snd s)) (drop i (s_pieces d)))"
    using drop_content [OF i, of "sample_of (cdata (snd s))" 0] by (simp add: lo add.commute flip: drop_drop)
  show ?thesis
  proof (cases r1)
    case (Inl e)
    with assms(8) have "r = Inl e" "s' = s1" by (simp_all add: bucket_union_def l b)
    with a Inl show ?thesis by auto
  next
    case (Inr v)
    obtain acc seen where acc: "v = (acc, seen)" by (metis surj_pair)
    with assms(8) Inr have "r = Inr (if seen then acc else (0, 0))" "s' = s1" by (simp_all add: bucket_union_def l b)
    with a Inr acc show ?thesis unfolding dr by (auto intro: covers_zero)
  qed
qed

lemma peaks_loop_ok:
  assumes "cache_ok s" "k < 6" "snap_ok d" "s_len d \<le> u64_max" "\<forall>p \<in> set (s_pieces d). backed (cdata (snd s)) p"
    "peaks_loop cp d (spp_of k) start bs s = (r, s')"
  shows "cache_ok s' \<and> cdata (snd s') = cdata (snd s) \<and> (ready \<longrightarrow> (\<exists>v. r = Inr v)) \<and>
    (\<forall>out. r = Inr out \<longrightarrow> length out = length bs \<and>
      (\<forall>i < length bs. covers (out ! i)
        (set (take (spp_of k) (drop (start + bs ! i * spp_of k) (audio (cdata (snd s)) (s_pieces d)))))))"
  using assms
proof (induction bs arbitrary: s r s')
  case Nil
  then show ?case by auto
next
  case (Cons b bs)
  define lo where "lo = sat_add64 start (sat_mul64 b (spp_of k))"
  define A where "A = audio (cdata (snd s)) (s_pieces d)"
  have al: "length A = s_len d" using Cons.prems(3) by (simp add: A_def snap_ok_def)
  obtain r1 s1 where v: "(if s_len d \<le> lo then (Inr (0, 0), s)
      else bucket_union cp d (spp_of k) lo (min (sat_add64 lo (spp_of k)) (s_len d)) s) = (r1, s1)" by (metis surj_pair)
  have 1: "cache_ok s1 \<and> cdata (snd s1) = cdata (snd s) \<and> (ready \<longrightarrow> (\<exists>v. r1 = Inr v)) \<and>
    (\<forall>v. r1 = Inr v \<longrightarrow> covers v (set (take (spp_of k) (drop (start + b * spp_of k) A))))"
  proof (cases "s_len d \<le> lo")
    case True
    have "lo \<le> start + b * spp_of k" by (simp add: lo_def sat_add64_def sat_mul64_def)
    with True have "s_len d \<le> start + b * spp_of k" by simp
    with True v Cons.prems(1) al show ?thesis by (auto intro: covers_zero)
  next
    case False
    define hi where "hi = min (sat_add64 lo (spp_of k)) (s_len d)"
    have "lo < u64_max" using False Cons.prems(4) by simp
    then have lo: "lo = start + b * spp_of k" by (auto simp: lo_def sat_add64_def sat_mul64_def split: if_splits)
    have hi: "lo \<le> hi" "hi \<le> s_len d" "min (lo + spp_of k) (s_len d) = hi"
      using False Cons.prems(4) by (auto simp: hi_def sat_add64_def)
    have u: "bucket_union cp d (spp_of k) lo hi s = (r1, s1)" using v False by (simp add: hi_def)
    have "take (hi - lo) (drop lo A) = take (spp_of k) (drop lo A)"
      using hi(3) al by (auto simp: min_def split: if_splits)
    with bucket_union_ok [OF Cons.prems(1,2,3,5) _ hi(1,2) u] False show ?thesis
      by (simp add: A_def flip: lo)
  qed
  note eq = Cons.prems(6) [unfolded peaks_loop.simps Let_def lo_def [symmetric] v prod.case]
  show ?case
  proof (cases r1)
    case (Inl e)
    with eq have "r = Inl e" "s' = s1" by simp_all
    with 1 Inl show ?thesis by auto
  next
    case (Inr x)
    obtain r2 s2 where l: "peaks_loop cp d (spp_of k) start bs s1 = (r2, s2)" by (metis surj_pair)
    have bk: "\<forall>p \<in> set (s_pieces d). backed (cdata (snd s1)) p" using 1 Cons.prems(5) by simp
    note ih = Cons.IH [OF conjunct1 [OF 1] Cons.prems(2-4) bk l]
    have "(r, s') = (case r2 of Inl e \<Rightarrow> (Inl e, s2) | Inr vs \<Rightarrow> (Inr (x # vs), s2))"
      using eq Inr l by (simp split: sum.splits)
    with ih 1 Inr show ?thesis
      by (cases r2) (auto simp: nth_Cons A_def split: nat.splits)
  qed
qed

end

interpretation pyramids: pyramid_source "\<lambda>i. chunk_peaks_of crc env (wrote i) i" "\<lambda>s. chunk_data (fst s)"
  "\<lambda>s. peaks_inv crc s \<and> (\<forall>i. whole_write (wrote i))" "\<forall>seg. env_mmap env seg = None"
proof unfold_locales
  fix s i d r s'
  assume "peaks_inv crc s \<and> (\<forall>i. whole_write (wrote i))" "chunk_data (fst s) i = Some d"
    "chunk_peaks_of crc env (wrote i) i s = (r, s')"
  with chunk_peaks_keeps [of crc s i d "wrote i" env r s']
  show "(peaks_inv crc s' \<and> (\<forall>i. whole_write (wrote i))) \<and> chunk_data (fst s') = chunk_data (fst s)" by simp
next
  fix s i d p s'
  assume a: "peaks_inv crc s \<and> (\<forall>i. whole_write (wrote i))" "chunk_data (fst s) i = Some d"
    "chunk_peaks_of crc env (wrote i) i s = (Inr p, s')"
  then have "store_ok crc (fst s)" "peaks_ok crc s" "i \<le> u32_max" unfolding peaks_inv_def by blast+
  from chunk_peaks_spec [OF this(1,2) a(2) this(3) _ a(3)] a(1) show "p = compute d" by blast
next
  fix s :: "store \<times> byte list" and i d
  assume a: "peaks_inv crc s \<and> (\<forall>i. whole_write (wrote i))" "\<forall>seg. env_mmap env seg = None" "chunk_data (fst s) i = Some d"
  then have k: "store_ok crc (fst s)" "peaks_ok crc s" "i \<le> u32_max" unfolding peaks_inv_def by blast+
  obtain r s' where c: "chunk_peaks_of crc env (wrote i) i s = (r, s')" by (metis surj_pair)
  from chunk_peaks_spec [OF k(1,2) a(3) k(3) _ c] a have "r = Inr (compute d)" by blast
  with c show "\<exists>p s'. chunk_peaks_of crc env (wrote i) i s = (Inr p, s')" by blast
next
  fix s :: "store \<times> byte list" and i d
  assume "peaks_inv crc s \<and> (\<forall>i. whole_write (wrote i))" "chunk_data (fst s) i = Some d"
  then show "length d \<le> chunk_samples" using stored_wf [of crc "fst s" i d] unfolding peaks_inv_def by blast
qed

section \<open>Properties\<close>

lemma raw_ok:
  assumes "store_ok crc st" "snap_ok d" "\<forall>p \<in> set (s_pieces d). backed (chunk_data st) p"
    "peaks_raw crc env d start n st = (r, st')"
  shows "(\<forall>out. r = Inr out \<longrightarrow> length out = n \<and>
      (\<forall>b < n. start + b < s_len d \<longrightarrow> out ! b = (let x = audio (chunk_data st) (s_pieces d) ! (start + b) in (x, x)))) \<and>
    ((\<forall>seg. env_mmap env seg = None) \<longrightarrow> (\<exists>out. r = Inr out))"
proof -
  obtain r1 c t where rd: "read_range (store_reader crc env) d start n (None, st) = (r1, (c, t))" by (metis surj_pair)
  have ok: "store_ok crc (snd (None :: nat option, st))" using assms(1) by simp
  have bk: "\<forall>p \<in> set (s_pieces d). backed (chunk_data (snd (None :: nat option, st))) p" using assms(3) by simp
  define A where "A = audio (chunk_data st) (s_pieces d)"
  have al: "length A = s_len d" using assms(2) by (simp add: A_def snap_ok_def)
  from reader.read_range_ok [OF ok assms(2) bk rd] have
    1: "\<And>xs. r1 = Inr xs \<Longrightarrow> xs = take n (drop start A)" "(\<forall>seg. env_mmap env seg = None) \<longrightarrow> (\<exists>xs. r1 = Inr xs)"
    unfolding A_def snd_conv by blast+
  show ?thesis
  proof (cases r1)
    case (Inl e)
    with assms(4) rd have "r = Inl e" by (simp add: peaks_raw_def store_read_def)
    with 1 Inl show ?thesis by auto
  next
    case (Inr xs)
    with assms(4) rd have "r = Inr (map (\<lambda>s. (s, s)) (xs @ replicate (n - length xs) 0))"
      by (simp add: peaks_raw_def store_read_def)
    with 1(1) [OF Inr] al show ?thesis
      by (auto simp: nth_append Let_def simp flip: A_def)
  qed
qed


definition example_doc :: doc_snapshot where
  "example_doc = \<lparr>s_rev = 0, s_audio_rev = 0, s_rate = 48000,
     s_pieces = [\<lparr>p_source = Chunk 0, p_offset = 0, p_len = 2\<rparr>], s_starts = [0], s_len = 2, s_markers = []\<rparr>"


end
