(* ===== verification/Compaction_Props.thy ===== *)
theory Compaction_Props
  imports Session_Example
begin

text \<open>Compaction as a whole, beside a running session.\<close>

lemma sanitize_id: "\<forall>x \<in> set d. is_finite x \<Longrightarrow> sanitize d = d"
  by (simp add: sanitize_def)

lemma finish_keeps_document:
  assumes "reached crc enc s0" and "compacting crc enc s0 s pc index []" and "json_ok enc dec"
    and "finish_compact (log_append crc enc) (log_reopen crc dec env) crc re we cx (log_new envs) pc index extra (s, mt) =
      (r, (s', mt'))"
  shows "reached crc enc s' \<and> ss_history s' = ss_history s \<and> ss_open s' = ss_open s \<and>
    (if \<exists>freed. r = Inr (Some freed)
     then ss_generation s' = ss_generation s + 1 \<and> mt' = ss_generation s' \<and>
       (\<forall>i \<in> live_set (ss_history s) \<union> set (pieces_chunk_ids extra).
          chunk_data (ss_store s') i = chunk_data (ss_store s) i \<and> chunk_data (ss_store s) i \<noteq> None)
     else ss_generation s' = ss_generation s \<and> (mt' = mt \<or> (\<exists>err. cx_meta cx = Some (err, True))) \<and>
       (\<forall>i d. chunk_data (ss_store s) i = Some d \<longrightarrow> chunk_data (ss_store s') i = Some d))"
proof -
  have c: "running crc enc s" "prepared_ok crc s pc index []"
    using compacting_ok [OF reached_running [OF assms(1)] assms(2)] by simp_all
  then have ok: "store_ok crc (ss_store s)" and fin: "all_finite (ss_store s)" and g: "pc_generation pc = ss_generation s + 1"
    using running_store by (auto simp: running_def prepared_ok_def)
  have t: "file_log.tracks crc enc crc s" "session_good s" and pc: "store_ok crc (pc_store pc)"
    "copied (chunk_data (ss_store s)) (pc_store pc) index (pc_live pc)"
    using c by (auto simp: running_def prepared_ok_def)
  have new: "el_journal (log_new envs) = journal_create" by (simp add: log_new_def)
  note f = file_generations.switch_ok [OF t assms(3) new pc assms(4)]
  have "reached crc enc s'" by (rule reached_compact [OF assms(1-4)])
  moreover have "chunk_data (ss_store s') i = chunk_data (ss_store s) i \<and> chunk_data (ss_store s) i \<noteq> None"
    if "r = Inr (Some n)" "i \<in> live_set (ss_history s) \<union> set (pieces_chunk_ids extra)" for n i
  proof -
    from f that obtain d where "chunk_data (ss_store s) i = Some d" "chunk_data (ss_store s') i = Some (sanitize d)" by blast
    with fin show ?thesis by (auto simp: all_finite_def sanitize_id)
  qed
  moreover have "\<forall>i d. chunk_data (ss_store s) i = Some d \<longrightarrow> chunk_data (ss_store s') i = Some d"
    if "\<not> (\<exists>n. r = Inr (Some n))"
    using f that evolves_data [OF _ ok] by blast
  ultimately show ?thesis using f g by auto
qed



end
