(* ===== verification/Budget.thy ===== *)
theory Budget
  imports Compaction_Props
begin

text \<open>
  The disk budget: \<^verbatim>\<open>crates/project/src/budget.rs\<close>, \<open>disk_usage\<close>, \<open>decide\<close> and \<open>housekeep\<close>.

  The size of the session directory and the free space of the volume are parameters.  A level of the
  accounting is \<open>usize::MAX\<close> (\<open>always\<close>) or one more than the newest undo entry that needs the chunk.
  Byte counts stay far below \<open>u64::MAX\<close>; the saturating operations are written out.
\<close>

section \<open>The policy\<close>

definition gib :: nat where
  "gib = 1024 * 1024 * 1024"

definition min_soft_limit_bytes :: nat where
  "min_soft_limit_bytes = 8 * gib"

definition soft_limit_document_factor :: nat where
  "soft_limit_document_factor = 8"

definition disk_free_floor_bytes :: nat where
  "disk_free_floor_bytes = 2 * gib"

definition compact_threshold_pct :: nat where
  "compact_threshold_pct = 25"

definition soft_limit_bytes :: "nat \<Rightarrow> nat" where
  "soft_limit_bytes document_bytes = max min_soft_limit_bytes (sat_mul64 document_bytes soft_limit_document_factor)"

record disk_limits =
  dl_soft :: "nat option"
  dl_floor :: nat

definition default_limits :: disk_limits where
  "default_limits = \<lparr>dl_soft = None, dl_floor = disk_free_floor_bytes\<rparr>"

record disk_usage =
  du_session :: nat
  du_chunk_file :: nat
  du_document :: nat
  du_history :: nat
  du_unreachable :: nat
  du_live :: "nat list"

datatype disk_action = NoAction | CompactChunks | DropOldest nat | AlmostFull

definition compacted_file :: "nat \<Rightarrow> nat" where
  "compacted_file live = next_multiple_of live segment_bytes"

definition soft_limit :: "disk_usage \<Rightarrow> disk_limits \<Rightarrow> nat" where
  "soft_limit usage limits = (case dl_soft limits of Some b \<Rightarrow> b | None \<Rightarrow> soft_limit_bytes (du_document usage))"

definition fits_limits :: "disk_usage \<Rightarrow> nat \<Rightarrow> disk_limits \<Rightarrow> nat \<Rightarrow> bool" where
  "fits_limits usage free_bytes limits live =
     (let after = (du_session usage - du_chunk_file usage) + compacted_file live;
          freed = du_session usage - after
      in after \<le> soft_limit usage limits \<and> sat_add64 free_bytes freed \<ge> dl_floor limits)"

definition decide :: "disk_usage \<Rightarrow> nat \<Rightarrow> disk_limits \<Rightarrow> disk_action" where
  "decide usage free_bytes limits =
     (if du_session usage \<le> soft_limit usage limits \<and> free_bytes \<ge> dl_floor limits then NoAction
      else
        let live0 = (case du_live usage of [] \<Rightarrow> 0 | l # _ \<Rightarrow> l);
            shrinks = du_chunk_file usage > compacted_file live0;
            total = live0 + du_unreachable usage
        in if shrinks \<and> total > 0 \<and> du_unreachable usage * 100 \<ge> total * compact_threshold_pct then CompactChunks
           else
             let k = position (fits_limits usage free_bytes limits) (du_live usage)
             in if k = Some 0 \<and> shrinks then CompactChunks
                else case (if k = Some 0 then None else k) of
                       Some k \<Rightarrow> DropOldest k
                     | None \<Rightarrow>
                         let depth = length (du_live usage) - 1
                         in if depth > 0 \<and> du_live usage ! depth < live0 then DropOldest depth
                            else if shrinks \<and> du_unreachable usage > 0 then CompactChunks
                            else if free_bytes < dl_floor limits then AlmostFull else NoAction)"

section \<open>Measuring\<close>

definition always :: nat where
  "always = u64_max"

definition chunk_cost :: "store \<Rightarrow> nat \<Rightarrow> nat" where
  "chunk_cost st i =
     (case location st i of None \<Rightarrow> 0 | Some l \<Rightarrow> next_multiple_of (loc_len l * 4) chunk_align_bytes)"

text \<open>The hash map of levels, kept sorted: the sums do not depend on its order.\<close>

definition level_always :: "nat list \<Rightarrow> nat btree \<Rightarrow> nat btree" where
  "level_always is m = foldl (\<lambda>m i. bt_insert i always m) m is"

definition raise_level :: "nat \<Rightarrow> nat btree \<Rightarrow> nat \<Rightarrow> nat btree" where
  "raise_level lv m i =
     (let l = (case map_of m i of None \<Rightarrow> 0 | Some l \<Rightarrow> l)
      in bt_insert i (if l \<noteq> always then max l lv else l) m)"

fun level_undo :: "nat \<Rightarrow> entry list \<Rightarrow> nat btree \<Rightarrow> nat btree" where
  "level_undo i [] m = m"
| "level_undo i (e # es) m = level_undo (i + 1) es (foldl (raise_level (i + 1)) m (chunk_ids (en_snapshot e)))"

definition chunk_levels :: "history \<Rightarrow> piece list \<Rightarrow> nat btree" where
  "chunk_levels h extra =
     level_undo 0 (h_undo h)
       (level_always (chunk_ids (h_current h) @ concat (map (\<lambda>e. chunk_ids (en_snapshot e)) (h_redo h)) @ pieces_chunk_ids extra) [])"

fun cost_by_level :: "store \<Rightarrow> (nat \<times> nat) list \<Rightarrow> nat \<times> nat list \<Rightarrow> nat \<times> nat list" where
  "cost_by_level st [] acc = acc"
| "cost_by_level st ((i, l) # m) (al, by) =
     cost_by_level st m (if l = always then (al + chunk_cost st i, by) else (al, by[l := by ! l + chunk_cost st i]))"

text \<open>\<open>for k in (0..=depth).rev()\<close>: from the last level down.\<close>

fun accumulate :: "nat \<Rightarrow> nat list \<Rightarrow> nat list" where
  "accumulate acc [] = []"
| "accumulate acc (b # bs) = acc # accumulate (acc + b) bs"

definition live_after_drop :: "store \<Rightarrow> history \<Rightarrow> piece list \<Rightarrow> nat list" where
  "live_after_drop st h extra =
     (let (al, by) = cost_by_level st (chunk_levels h extra) (0, replicate (length (h_undo h) + 1) 0)
      in rev (accumulate al (rev by)))"

definition disk_usage_of :: "nat \<Rightarrow> piece list \<Rightarrow> ('v, 'j) session \<Rightarrow> disk_usage" where
  "disk_usage_of session_bytes extra s =
     (let live = live_after_drop (ss_store s) (ss_history s) extra;
          document = sum_list (map (chunk_cost (ss_store s)) (bt_set (chunk_ids (h_current (ss_history s)))));
          live0 = live ! 0;
          all = sum_list (map (\<lambda>l. next_multiple_of (loc_len l * 4) chunk_align_bytes) (locations (ss_store s)))
      in \<lparr>du_session = session_bytes, du_chunk_file = chunk_file_bytes (ss_store s), du_document = document,
          du_history = live0 - document, du_unreachable = all - live0, du_live = live\<rparr>)"

section \<open>Housekeeping\<close>

record housekeeping_report =
  hr_skipped :: bool
  hr_compacted :: bool
  hr_dropped :: nat
  hr_freed :: nat
  hr_almost_full :: bool

text \<open>What one round finds: the directory's size, the free space of the volume (if it can be asked) and what the
compaction of the round meets.\<close>

record 'j round_env =
  rn_session :: nat
  rn_free :: "nat option"
  rn_reads :: store_env
  rn_writes :: store_env
  rn_files :: compact_env
  rn_journal :: 'j
  rn_reopen :: "'j \<Rightarrow> project_error + 'j"

definition compact_round ::
    "('v, 'j) appender \<Rightarrow> (byte list \<Rightarrow> 32 word) \<Rightarrow> 'j round_env \<Rightarrow> piece list \<Rightarrow> (('v, 'j) session \<times> nat, nat) op" where
  "compact_round ap crc e extra sm =
     compact ap (rn_reopen e) crc (rn_reads e) (rn_writes e) (rn_files e) (rn_journal e) extra sm"

fun housekeep_loop ::
    "('v, 'j) appender \<Rightarrow> (byte list \<Rightarrow> 32 word) \<Rightarrow> piece list \<Rightarrow> disk_limits \<Rightarrow> 'j round_env list \<Rightarrow> housekeeping_report \<Rightarrow>
     (('v, 'j) session \<times> nat, housekeeping_report) op" where
  "housekeep_loop ap crc extra limits [] rep sm = (Inr rep, sm)"
| "housekeep_loop ap crc extra limits (e # es) rep sm =
     (let usage = disk_usage_of (rn_session e) extra (fst sm);
          free_bytes = sat_add64 (unwrap_or (rn_free e) u64_max) (hr_freed rep)
      in case decide usage free_bytes limits of
           NoAction \<Rightarrow> (Inr rep, sm)
         | AlmostFull \<Rightarrow> (Inr (rep\<lparr>hr_almost_full := True\<rparr>), sm)
         | CompactChunks \<Rightarrow>
             (case compact_round ap crc e extra sm of
                (Inl err, sm1) \<Rightarrow> (Inl err, sm1)
              | (Inr freed, sm1) \<Rightarrow>
                  housekeep_loop ap crc extra limits es (rep\<lparr>hr_freed := hr_freed rep + freed, hr_compacted := True\<rparr>) sm1)
         | DropOldest k \<Rightarrow>
             (case session_drop_undo ap k (fst sm) of
                (Inl err, s1) \<Rightarrow> (Inl err, (s1, snd sm))
              | (Inr n, s1) \<Rightarrow>
                  (case compact_round ap crc e extra (s1, snd sm) of
                     (Inl err, sm1) \<Rightarrow> (Inl err, sm1)
                   | (Inr freed, sm1) \<Rightarrow>
                       housekeep_loop ap crc extra limits es
                         (rep\<lparr>hr_dropped := hr_dropped rep + n, hr_freed := hr_freed rep + freed, hr_compacted := True\<rparr>) sm1)))"

definition empty_report :: housekeeping_report where
  "empty_report = \<lparr>hr_skipped = False, hr_compacted = False, hr_dropped = 0, hr_freed = 0, hr_almost_full = False\<rparr>"

definition housekeep ::
    "('v, 'j) appender \<Rightarrow> (byte list \<Rightarrow> 32 word) \<Rightarrow> piece list \<Rightarrow> (nat \<Rightarrow> 'j round_env) \<Rightarrow> disk_limits \<Rightarrow>
     (('v, 'j) session \<times> nat, housekeeping_report) op" where
  "housekeep ap crc extra envs limits sm =
     (if ss_open (fst sm) \<noteq> None then (Inr (empty_report\<lparr>hr_skipped := True\<rparr>), sm)
      else housekeep_loop ap crc extra limits (map envs [0 ..< 3]) empty_report sm)"

section \<open>The accounting\<close>

text \<open>\<open>above m k i\<close>: the level of \<open>i\<close> is above \<open>k\<close>, so dropping the \<open>k\<close> oldest entries does not free it.\<close>

definition above :: "nat btree \<Rightarrow> nat \<Rightarrow> nat \<Rightarrow> bool" where
  "above m k i \<longleftrightarrow> (\<exists>l. map_of m i = Some l \<and> k < l)"

lemma above_insert: "above (bt_insert y l m) k i \<longleftrightarrow> (if i = y then k < l else above m k i)"
  by (simp add: above_def)

lemma above_always: "k < always \<Longrightarrow> above (level_always ys m) k i \<longleftrightarrow> i \<in> set ys \<or> above m k i"
proof -
  assume k: "k < always"
  have "above (foldl (\<lambda>m i. bt_insert i always m) m ys) k i \<longleftrightarrow> i \<in> set ys \<or> above m k i"
    by (induction ys arbitrary: m) (auto simp: above_insert k)
  then show ?thesis by (simp add: level_always_def)
qed

lemma above_raise: "lv \<le> always \<Longrightarrow> above (raise_level lv m y) k i \<longleftrightarrow> above m k i \<or> (i = y \<and> k < lv)"
  by (auto simp: raise_level_def above_insert Let_def above_def split: option.splits)

lemma above_raises: "lv \<le> always \<Longrightarrow> above (foldl (raise_level lv) m ys) k i \<longleftrightarrow> above m k i \<or> (i \<in> set ys \<and> k < lv)"
  by (induction ys arbitrary: m) (auto simp: above_raise)

lemma above_undo:
  "n + length es \<le> always \<Longrightarrow>
   above (level_undo n es m) k i \<longleftrightarrow> above m k i \<or> (\<exists>j < length es. i \<in> set (chunk_ids (en_snapshot (es ! j))) \<and> k \<le> n + j)"
proof (induction es arbitrary: n m)
  case (Cons e es)
  then have "above (level_undo n (e # es) m) k i \<longleftrightarrow> above m k i \<or> (i \<in> set (chunk_ids (en_snapshot e)) \<and> k < n + 1) \<or>
      (\<exists>j < length es. i \<in> set (chunk_ids (en_snapshot (es ! j))) \<and> k \<le> (n + 1) + j)"
    by (auto simp: above_raises)
  also have "\<dots> \<longleftrightarrow> above m k i \<or> (\<exists>j < length (e # es). i \<in> set (chunk_ids (en_snapshot ((e # es) ! j))) \<and> k \<le> n + j)"
    unfolding length_Cons Ex_less_Suc2 by (simp add: less_Suc_eq_le)
  finally show ?case .
qed simp

lemma above_levels:
  assumes "length (h_undo h) < u64_max" "k \<le> length (h_undo h)"
  shows "above (chunk_levels h extra) k i \<longleftrightarrow> i \<in> set (live_chunk_ids (snd (drop_oldest_undo h k)) extra)"
proof -
  have "(\<exists>j < length us. P (us ! j) \<and> k \<le> j) \<longleftrightarrow> (\<exists>e \<in> set (drop k us). P e)" for us :: "entry list" and P
  proof
    assume "\<exists>j < length us. P (us ! j) \<and> k \<le> j"
    then obtain j where "j < length us" "P (us ! j)" "k \<le> j" by blast
    then have "us ! j = drop k us ! (j - k)" "j - k < length (drop k us)" "P (us ! j)" by auto
    then show "\<exists>e \<in> set (drop k us). P e" by (metis nth_mem)
  next
    assume "\<exists>e \<in> set (drop k us). P e"
    then obtain n where "n < length us - k" "P (drop k us ! n)" by (auto simp: in_set_conv_nth)
    then show "\<exists>j < length us. P (us ! j) \<and> k \<le> j" by (intro exI [of _ "k + n"]) auto
  qed
  note ex = this [of "h_undo h" "\<lambda>e. i \<in> set (chunk_ids (en_snapshot e))"]
  show ?thesis
    using assms by (auto simp: chunk_levels_def above_undo above_always always_def live_set_def drop_oldest_undo_def ex)
      (simp_all add: above_def)
qed

lemma bt_ok_fold: "(\<And>m y. bt_ok m \<Longrightarrow> bt_ok (f m y)) \<Longrightarrow> bt_ok m \<Longrightarrow> bt_ok (foldl f m ys)"
  by (induction ys arbitrary: m) simp_all

lemma bt_ok_levels: "bt_ok (chunk_levels h extra)"
proof -
  have r: "bt_ok m \<Longrightarrow> bt_ok (raise_level lv m y)" for lv m y by (simp add: raise_level_def Let_def bt_ok_insert)
  have "bt_ok m \<Longrightarrow> bt_ok (level_undo n es m)" for n es m
    by (induction es arbitrary: n m) (auto intro!: bt_ok_fold r)
  moreover have "bt_ok (level_always ys [])" for ys
    unfolding level_always_def by (rule bt_ok_fold) (simp_all add: bt_ok_insert, simp add: bt_ok_def)
  ultimately show ?thesis by (simp add: chunk_levels_def)
qed

lemma level_bound:
  assumes "length (h_undo h) < u64_max" "(i, l) \<in> set (chunk_levels h extra)" "l \<noteq> always"
  shows "l \<le> length (h_undo h)"
proof -
  define ok where "ok m \<longleftrightarrow> (\<forall>l \<in> snd ` set m. l = always \<or> l \<le> length (h_undo h))" for m :: "nat btree"
  have ins: "ok (bt_insert y l m)" if "ok m" "l = always \<or> l \<le> length (h_undo h)" for y l m
  proof -
    have "p \<in> set (bt_insert y l m) \<Longrightarrow> snd p = l \<or> p \<in> set m" for p by (induction m) (auto split: if_splits)
    then show ?thesis using that unfolding ok_def by blast
  qed
  have get: "ok m \<Longrightarrow> map_of m y = Some l \<Longrightarrow> l = always \<or> l \<le> length (h_undo h)" for m y l
    by (force simp: ok_def dest: map_of_SomeD)
  have raise: "ok (foldl (raise_level lv) m ys)" if "ok m" "lv \<le> length (h_undo h)" for lv m ys
    using that(1)
  proof (induction ys arbitrary: m)
    case (Cons y ys)
    have "ok (raise_level lv m y)"
      unfolding raise_level_def Let_def
      by (rule ins [OF Cons.prems]) (use get [OF Cons.prems] that(2) in \<open>auto split: option.splits\<close>)
    with Cons.IH show ?case by simp
  qed simp
  have "ok (level_undo n es m)" if "ok m" "n + length es \<le> length (h_undo h)" for n es m
    using that by (induction es arbitrary: n m) (simp_all add: raise)
  moreover have "ok (level_always ys [])" for ys
  proof -
    have "ok m \<Longrightarrow> ok (foldl (\<lambda>m i. bt_insert i always m) m ys)" for m by (induction ys arbitrary: m) (simp_all add: ins)
    from this [of "[]"] show ?thesis by (simp add: level_always_def) (simp add: ok_def)
  qed
  ultimately have "ok (chunk_levels h extra)" by (simp add: chunk_levels_def)
  with assms show ?thesis by (force simp: ok_def)
qed

lemma cost_by_level_sum:
  assumes "\<forall>(i, l) \<in> set m. l \<noteq> always \<longrightarrow> l < length bys" "k < length bys" "length bys \<le> always"
    and "cost_by_level st m (al, bys) = (al', bys')"
  shows "length bys' = length bys \<and>
    al' + sum_list (drop (k + 1) bys') = al + sum_list (drop (k + 1) bys) + sum_list (map (chunk_cost st \<circ> fst) (filter (\<lambda>(i, l). k < l) m))"
  using assms
proof (induction m arbitrary: al bys)
  case (Cons a m)
  obtain i l where a: "a = (i, l)" by fastforce
  show ?case
  proof (cases "l = always")
    case True
    with Cons.prems a have "cost_by_level st m (al + chunk_cost st i, bys) = (al', bys')" by simp
    from Cons.IH [OF _ _ _ this] Cons.prems True a show ?thesis by auto
  next
    case False
    let ?b = "bys[l := bys ! l + chunk_cost st i]"
    from Cons.prems(1) a False have l: "l < length bys" by auto
    from False Cons.prems a have c: "cost_by_level st m (al, ?b) = (al', bys')" by simp
    have "sum_list (drop (k + 1) ?b) = sum_list (drop (k + 1) bys) + (if k < l then chunk_cost st i else 0)"
    proof (cases "k < l")
      case True
      then have "drop (k + 1) ?b = (drop (k + 1) bys)[l - (k + 1) := drop (k + 1) bys ! (l - (k + 1)) + chunk_cost st i]"
        using l by (simp add: drop_update_swap)
      moreover have "l - (k + 1) < length (drop (k + 1) bys)" using l True by simp
      ultimately show ?thesis using True by (simp add: sum_list_update elem_le_sum_list)
    qed simp
    with Cons.IH [OF _ _ _ c] Cons.prems a show ?thesis by auto
  qed
qed simp

lemma nth_accumulate: "n < length bs \<Longrightarrow> accumulate a bs ! n = a + sum_list (take n bs)"
  by (induction bs arbitrary: a n) (auto simp: nth_Cons split: nat.splits)

lemma length_accumulate [simp]: "length (accumulate a bs) = length bs"
  by (induction bs arbitrary: a) simp_all

text \<open>C36: The one-pass accounting of the undo history is exact: for every \<open>k\<close>, the bytes it predicts to stay live after
  the \<open>k\<close> oldest undo steps are dropped are the bytes of the chunks that are live once they really are dropped,
  whatever chunks the document, the undo and redo steps and the clipboard share.\<close>

theorem usage_matches_drop:
  assumes "length (h_undo h) < u64_max" and "k \<le> length (h_undo h)"
  shows "live_after_drop st h extra ! k =
    sum_list (map (chunk_cost st) (live_chunk_ids (snd (drop_oldest_undo h k)) extra))"
proof -
  let ?m = "chunk_levels h extra"
  let ?by = "replicate (length (h_undo h) + 1) (0 :: nat)"
  obtain al bys where c: "cost_by_level st ?m (0, ?by) = (al, bys)" by fastforce
  have "\<forall>(i, l) \<in> set ?m. l \<noteq> always \<longrightarrow> l < length ?by" using level_bound [OF assms(1)] by fastforce
  from cost_by_level_sum [OF this _ _ c, of k] assms have
    b: "length bys = length (h_undo h) + 1"
      "al + sum_list (drop (k + 1) bys) = sum_list (map (chunk_cost st \<circ> fst) (filter (\<lambda>(i, l). k < l) ?m))"
    by (simp_all add: always_def)
  have "live_after_drop st h extra ! k = al + sum_list (take (length bys - Suc k) (rev bys))"
    using assms(2) b(1) by (simp add: live_after_drop_def c [simplified] rev_nth nth_accumulate)
  also have "take (length bys - Suc k) (rev bys) = rev (drop (k + 1) bys)" using assms(2) b(1) by (simp add: take_rev)
  finally have "live_after_drop st h extra ! k = sum_list (map (chunk_cost st) (map fst (filter (\<lambda>(i, l). k < l) ?m)))"
    using b(2) by simp
  moreover have "distinct (map fst ?m)" using bt_ok_levels by (auto simp: bt_ok_def strict_sorted_iff)
  then have "distinct (map fst (filter (\<lambda>(i, l). k < l) ?m))" by (simp add: distinct_map_filter)
  moreover have "set (map fst (filter (\<lambda>(i, l). k < l) ?m)) = set (live_chunk_ids (snd (drop_oldest_undo h k)) extra)"
    using above_levels [OF assms, of extra] \<open>distinct (map fst ?m)\<close> by (force simp: above_def)
  moreover have "distinct (live_chunk_ids h' extra)" for h' by (simp add: live_chunk_ids_def)
  ultimately show ?thesis by (simp only: sum_list_distinct_conv_sum_set)
qed

theorem usage_matches_drop_witness:
  "live_after_drop (store_create 0) (history_new (snapshot_empty 8000)) [piece_chunk 0 0 2] ! 0 = 0"
proof -
  have "live_after_drop (store_create 0) (history_new (snapshot_empty 8000)) [piece_chunk 0 0 2] ! 0 =
    sum_list (map (chunk_cost (store_create 0))
      (live_chunk_ids (snd (drop_oldest_undo (history_new (snapshot_empty 8000)) 0)) [piece_chunk 0 0 2]))"
    by (rule usage_matches_drop) (simp_all add: u64_max_def history_new_def)
  also have "\<dots> = 0" by (simp add: chunk_cost_def location_def lookup_entry_def store_create_def)
  finally show ?thesis .
qed

section \<open>What the policy asks for\<close>

text \<open>C37: The policy never drops more of the undo history than it has to.  It drops nothing within the limits.  When it
  asks for \<open>k\<close> steps, there are that many, no smaller number would get under the limits, and either \<open>k\<close> does or
  nothing does and dropping all of them frees something.\<close>

theorem decide_drops_fewest:
  assumes "decide usage free_bytes limits = DropOldest k"
  shows "0 < k \<and> k < length (du_live usage) \<and>
    (soft_limit usage limits < du_session usage \<or> free_bytes < dl_floor limits) \<and>
    (\<forall>j < k. \<not> fits_limits usage free_bytes limits (du_live usage ! j)) \<and>
    (fits_limits usage free_bytes limits (du_live usage ! k) \<or> du_live usage ! k < du_live usage ! 0)"
proof -
  define fits where "fits = fits_limits usage free_bytes limits"
  define live0 where "live0 = (case du_live usage of [] \<Rightarrow> 0 | l # _ \<Rightarrow> l)"
  have over: "soft_limit usage limits < du_session usage \<or> free_bytes < dl_floor limits"
    by (rule ccontr) (use assms in \<open>simp add: decide_def\<close>)
  have nofit: "\<not> fits live0" if "\<not> du_chunk_file usage > compacted_file live0"
  proof
    assume f: "fits live0"
    have "du_session usage - du_chunk_file usage + compacted_file live0 \<ge> du_session usage" using that by simp
    with f over show False by (auto simp: fits_def fits_limits_def Let_def sat_add64_def)
  qed
  have "position fits (du_live usage) = Some k \<and> k \<noteq> 0 \<or>
      (position fits (du_live usage) = None \<or> position fits (du_live usage) = Some 0 \<and> \<not> du_chunk_file usage > compacted_file live0) \<and>
      k = length (du_live usage) - 1 \<and> 0 < k \<and> du_live usage ! k < live0"
    using assms unfolding decide_def Let_def fits_def [symmetric] live0_def [symmetric] by (auto split: if_splits option.splits)
  moreover have "\<not> (position fits (du_live usage) = Some 0 \<and> \<not> du_chunk_file usage > compacted_file live0)" if "0 < length (du_live usage)"
  proof -
    have "fits live0" if "position fits (du_live usage) = Some 0"
      using that by (cases "du_live usage") (auto simp: live0_def split: if_splits)
    with nofit show ?thesis by blast
  qed
  ultimately have "position fits (du_live usage) = Some k \<and> k \<noteq> 0 \<or>
      position fits (du_live usage) = None \<and> k = length (du_live usage) - 1 \<and> 0 < k \<and> du_live usage ! k < live0"
    by (cases "du_live usage") auto
  then show ?thesis
    using over position_SomeD [of fits "du_live usage" k] unfolding fits_def [symmetric] position_None all_set_conv_all_nth
    by (cases "du_live usage") (auto simp: live0_def)
qed

definition full_disk :: disk_usage where
  "full_disk = \<lparr>du_session = 3 * segment_bytes + 10, du_chunk_file = 3 * segment_bytes, du_document = segment_bytes,
     du_history = 2 * segment_bytes, du_unreachable = 0, du_live = [3 * segment_bytes, 2 * segment_bytes, segment_bytes]\<rparr>"

theorem decide_drops_fewest_witness:
  "decide full_disk 5 \<lparr>dl_soft = Some (2 * segment_bytes + 10), dl_floor = 0\<rparr> = DropOldest 1 \<and>
   \<not> fits_limits full_disk 5 \<lparr>dl_soft = Some (2 * segment_bytes + 10), dl_floor = 0\<rparr> (3 * segment_bytes)"
proof -
  let ?l = "\<lparr>dl_soft = Some (2 * segment_bytes + 10), dl_floor = 0\<rparr> :: disk_limits"
  have "decide full_disk 5 ?l = DropOldest 1"
    by (simp add: decide_def full_disk_def soft_limit_def fits_limits_def compacted_file_def next_multiple_of_def sat_add64_def
        segment_bytes_def compact_threshold_pct_def)
  from decide_drops_fewest [OF this] this show ?thesis by (simp add: full_disk_def)
qed

end
