(* ===== verification/Housekeeping.thy ===== *)
theory Housekeeping
  imports Budget
begin

text \<open>Compaction from beginning to end and the housekeeping of a running session.\<close>

section \<open>Compaction without a pause\<close>

lemma copy_reads:
  "copy_live_chunks crc re we is (ss_store s, new) = (r, (old, new')) \<Longrightarrow>
   (session_step crc enc)\<^sup>*\<^sup>* s (s\<lparr>ss_store := old\<rparr>)"
proof (induction "is" arbitrary: s new r old new')
  case Nil
  then have "s\<lparr>ss_store := old\<rparr> = s" by simp
  then show ?case by simp
next
  case (Cons i "is")
  show ?case
  proof (cases "location (ss_store s) i")
    case None
    with Cons.prems have "s\<lparr>ss_store := old\<rparr> = s" by simp
    then show ?thesis by simp
  next
    case (Some loc)
    obtain r1 old1 where rd: "read_chunk crc re i 0 (loc_len loc) (ss_store s) = (r1, old1)" by fastforce
    have st: "session_step crc enc s (s\<lparr>ss_store := old1\<rparr>)" by (rule step_chunk_read [OF rd])
    show ?thesis
    proof (cases "\<exists>xs l new1. r1 = Inr xs \<and> commit_chunk_with_id crc we i xs new = (Inr l, new1)")
      case False
      then have "old = old1"
        using Cons.prems Some rd by (auto split: sum.splits prod.splits)
      with st show ?thesis by auto
    next
      case True
      then obtain xs l new1 where t: "r1 = Inr xs" "commit_chunk_with_id crc we i xs new = (Inr l, new1)" by blast
      obtain r3 o3 n3 where cl: "copy_live_chunks crc re we is (old1, new1) = (r3, (o3, n3))" by (metis prod_cases3)
      have "old = o3" using Cons.prems Some rd t cl by (auto split: sum.splits)
      moreover have "(session_step crc enc)\<^sup>*\<^sup>* (s\<lparr>ss_store := old1\<rparr>) (s\<lparr>ss_store := old1\<rparr>\<lparr>ss_store := o3\<rparr>)"
        using Cons.IH [of "s\<lparr>ss_store := old1\<rparr>" new1 r3 o3 n3] cl by simp
      ultimately show ?thesis using st by (auto intro: converse_rtranclp_into_rtranclp)
    qed
  qed
qed

lemma reached_steps: "(session_step crc enc)\<^sup>*\<^sup>* s s' \<Longrightarrow> reached crc enc s \<Longrightarrow> reached crc enc s'"
  by (induction rule: rtranclp_induct) (auto intro: reached_step)

text \<open>What compaction and housekeeping keep of a document: \<open>is\<close> are the chunks that stay referred to.\<close>

definition keeps_chunks :: "nat set \<Rightarrow> ('v, 'j) session \<Rightarrow> ('v, 'j) session \<Rightarrow> bool" where
  "keeps_chunks is s s' \<longleftrightarrow> (\<forall>i \<in> is. \<forall>d. chunk_data (ss_store s) i = Some d \<longrightarrow> chunk_data (ss_store s') i = Some d)"

lemma keeps_chunks_trans: "keeps_chunks is s t \<Longrightarrow> keeps_chunks is t u \<Longrightarrow> keeps_chunks is s u"
  by (simp add: keeps_chunks_def)

lemma keeps_chunks_mono: "keeps_chunks is s t \<Longrightarrow> js \<subseteq> is \<Longrightarrow> keeps_chunks js s t"
  by (auto simp: keeps_chunks_def)

definition log_round :: "(byte list \<Rightarrow> 32 word) \<Rightarrow> (byte list \<Rightarrow> 'v journal_record option) \<Rightarrow> env_log round_env \<Rightarrow> bool" where
  "log_round crc dec e \<longleftrightarrow> (\<exists>envs. rn_journal e = log_new envs) \<and> (\<exists>env. rn_reopen e = log_reopen crc dec env)"

lemma compact_ok:
  assumes "reached crc enc s" "json_ok enc dec" "log_round crc dec e"
    and "compact_round (log_append crc enc) crc e extra (s, mt) = (r, (s', mt'))"
  shows "reached crc enc s' \<and> ss_history s' = ss_history s \<and> ss_open s' = ss_open s \<and>
    keeps_chunks (live_set (ss_history s) \<union> set (pieces_chunk_ids extra)) s s'"
proof -
  obtain envs env where e: "rn_journal e = log_new envs" "rn_reopen e = log_reopen crc dec env"
    using assms(3) by (auto simp: log_round_def)
  let ?ap = "log_append crc enc" and ?re = "rn_reads e" and ?we = "rn_writes e" and ?cx = "rn_files e"
  note c = assms(4) [unfolded compact_round_def compact_def fst_conv snd_conv]
  show ?thesis
  proof (cases "begin_compact ?cx extra s")
    case (Inl err)
    with c assms(1) show ?thesis by (auto simp: keeps_chunks_def)
  next
    case (Inr pc)
    obtain r1 old new where cp: "copy_live_chunks crc ?re ?we (pc_live pc) (ss_store s, pc_store pc) = (r1, (old, new))"
      by (metis prod_cases3)
    let ?s1 = "s\<lparr>ss_store := old\<rparr>" and ?pc = "pc\<lparr>pc_store := new\<rparr>"
    have cc: "copy_chunks crc ?re ?we (s, pc) = (r1, (?s1, ?pc))" by (simp add: copy_chunks_def cp)
    note run = reached_running [OF assms(1)]
    note p = compacting_ok [OF run compacting_begin [OF Inr]]
    have cd: "chunk_data old = chunk_data (ss_store s)"
      using copy_live_ok [OF running_store [OF run] _ cp] p by (simp add: prepared_ok_def)
    show ?thesis
    proof (cases r1)
      case (Inl err)
      with c Inr cc have "s' = ?s1" by simp
      then show ?thesis using reached_steps [OF copy_reads [OF cp] assms(1)] by (simp add: keeps_chunks_def cd)
    next
      case r1: (Inr index)
      have b: "compacting crc enc s s pc [] (pc_live pc @ [])" using compacting_begin [OF Inr] by simp
      from compacting_copy [OF b cp [unfolded r1]] have run1: "compacting crc enc s ?s1 ?pc index []" by simp
      obtain r2 s2 mt2 where f: "finish_compact ?ap (log_reopen crc dec env) crc ?re ?we ?cx (log_new envs) ?pc index extra (?s1, mt) =
          (r2, (s2, mt2))" by (metis prod_cases3)
      have "s' = s2" using c Inr cc r1 f e by (auto split: sum.splits)
      then show ?thesis
        using finish_keeps_document [OF assms(1) run1 assms(2) f] cd
        by (cases "\<exists>n. r2 = Inr (Some n)") (auto simp: keeps_chunks_def)
    qed
  qed
qed

section \<open>Housekeeping\<close>

lemma drop_facts:
  assumes "session_drop_undo ap k s = (r, s')"
  shows "ss_store s' = ss_store s \<and> ss_open s' = ss_open s \<and>
    (\<exists>n. ss_history s' = (ss_history s)\<lparr>h_undo := drop n (h_undo (ss_history s))\<rparr> \<and> (\<forall>m. r = Inr m \<longrightarrow> m = n))"
proof -
  have e: "\<exists>n. h = h\<lparr>h_undo := drop n (h_undo h)\<rparr>" for h :: history by (rule exI [of _ 0]) simp
  from assms show ?thesis
    by (auto simp: session_drop_undo_def drop_oldest_undo_def undo_depth_def write_log_def Let_def min_def
        split: if_splits prod.splits sum.splits intro: e)
qed

text \<open>The state of a session after housekeeping that dropped \<open>n\<close> steps.\<close>

definition tidied :: "nat \<Rightarrow> piece list \<Rightarrow> ('v, 'j) session \<Rightarrow> ('v, 'j) session \<Rightarrow> bool" where
  "tidied n extra s s' \<longleftrightarrow>
     ss_history s' = (ss_history s)\<lparr>h_undo := drop n (h_undo (ss_history s))\<rparr> \<and> ss_open s' = ss_open s \<and>
     keeps_chunks (live_set (ss_history s') \<union> set (pieces_chunk_ids extra)) s s'"

lemma tidied_refl: "tidied 0 extra s s"
  by (simp add: tidied_def keeps_chunks_def)

lemma tidied_trans:
  assumes "tidied n extra s t" "tidied m extra t u"
  shows "tidied (n + m) extra s u"
proof -
  have "live_set (ss_history u) \<subseteq> live_set (ss_history t)"
    using assms(2) by (auto simp: tidied_def live_set_def dest: in_set_dropD)
  then have "keeps_chunks (live_set (ss_history u) \<union> set (pieces_chunk_ids extra)) s t"
    using assms(1) by (auto simp: tidied_def keeps_chunks_def)
  then have "keeps_chunks (live_set (ss_history u) \<union> set (pieces_chunk_ids extra)) s u"
    using assms(2) keeps_chunks_trans by (auto simp: tidied_def)
  then show ?thesis using assms by (simp add: tidied_def add.commute)
qed

lemma compact_tidied:
  assumes "reached crc enc s" "json_ok enc dec" "log_round crc dec e"
    and "compact_round (log_append crc enc) crc e extra (s, mt) = (r, (s', mt'))"
  shows "reached crc enc s' \<and> tidied 0 extra s s'"
  using compact_ok [OF assms] by (simp add: tidied_def)

lemma drop_tidied:
  assumes "reached crc enc s" "session_drop_undo (log_append crc enc) k s = (r, s')"
  shows "reached crc enc s' \<and> (\<exists>n. tidied n extra s s' \<and> (\<forall>m. r = Inr m \<longrightarrow> m = n))"
  using drop_facts [OF assms(2)] reached_step [OF assms(1) step_drop [OF assms(2)]]
  by (auto simp: tidied_def keeps_chunks_def)

lemma freed_report:
  "hr_dropped (rep\<lparr>hr_freed := f, hr_compacted := c\<rparr>) = hr_dropped rep" "hr_skipped (rep\<lparr>hr_freed := f, hr_compacted := c\<rparr>) = hr_skipped rep"
  by simp_all

lemma loop_tidied:
  assumes "reached crc enc s" "json_ok enc dec" "\<forall>e \<in> set es. log_round crc dec e"
    and "housekeep_loop (log_append crc enc) crc extra limits es rep (s, mt) = (r, (s', mt'))"
  shows "reached crc enc s' \<and> (\<exists>n. tidied n extra s s' \<and> (\<forall>rep'. r = Inr rep' \<longrightarrow> hr_dropped rep' = hr_dropped rep + n \<and>
    hr_skipped rep' = hr_skipped rep))"
  using assms(1,3,4)
proof (induction es arbitrary: s mt rep)
  case Nil
  then show ?case using tidied_refl by auto
next
  case (Cons e es)
  let ?ap = "log_append crc enc"
  define act where "act = decide (disk_usage_of (rn_session e) extra s) (sat_add64 (unwrap_or (rn_free e) u64_max) (hr_freed rep)) limits"
  note l = Cons.prems(3) [unfolded housekeep_loop.simps Let_def fst_conv snd_conv, folded act_def]
  have round: "log_round crc dec e" and rest: "\<forall>e \<in> set es. log_round crc dec e" using Cons.prems(2) by simp_all
  have compacted: ?case
    if c: "compact_round ?ap crc e extra (t, mt) = (r1, (s1, mt1))" and t: "reached crc enc t" "tidied n extra s t"
      and e: "case r1 of Inl err \<Rightarrow> (r, (s', mt')) = (Inl err, (s1, mt1)) | Inr freed \<Rightarrow>
        housekeep_loop ?ap crc extra limits es (rep1\<lparr>hr_freed := hr_freed rep + freed, hr_compacted := True\<rparr>) (s1, mt1) = (r, (s', mt'))"
      and rep1: "hr_dropped rep1 = hr_dropped rep + n" "hr_skipped rep1 = hr_skipped rep" for t r1 s1 mt1 n rep1
  proof -
    from compact_tidied [OF t(1) assms(2) round c] tidied_trans [OF t(2)] have s1: "reached crc enc s1" "tidied n extra s s1"
      by force+
    show ?thesis
    proof (cases r1)
      case (Inl err)
      with e s1 show ?thesis by auto
    next
      case (Inr freed)
      with e have "housekeep_loop ?ap crc extra limits es (rep1\<lparr>hr_freed := hr_freed rep + freed, hr_compacted := True\<rparr>) (s1, mt1) =
        (r, (s', mt'))" by simp
      note ih = Cons.IH [OF s1(1) rest this]
      then obtain m where m: "reached crc enc s'" "tidied m extra s1 s'"
        "\<forall>rep'. r = Inr rep' \<longrightarrow> hr_dropped rep' = hr_dropped (rep1\<lparr>hr_freed := hr_freed rep + freed, hr_compacted := True\<rparr>) + m \<and>
          hr_skipped rep' = hr_skipped (rep1\<lparr>hr_freed := hr_freed rep + freed, hr_compacted := True\<rparr>)" by blast
      have "\<forall>rep'. r = Inr rep' \<longrightarrow> hr_dropped rep' = hr_dropped rep + (n + m) \<and> hr_skipped rep' = hr_skipped rep"
      proof (intro allI impI)
        fix rep' assume "r = Inr rep'"
        from m(3) [rule_format, OF this] have "hr_dropped rep' = hr_dropped rep1 + m \<and> hr_skipped rep' = hr_skipped rep1"
          unfolding freed_report .
        then show "hr_dropped rep' = hr_dropped rep + (n + m) \<and> hr_skipped rep' = hr_skipped rep" unfolding rep1 by simp
      qed
      with m(1) tidied_trans [OF s1(2) m(2)] show ?thesis by blast
    qed
  qed
  show ?case
  proof (cases act)
    case CompactChunks
    obtain r1 s1 mt1 where c: "compact_round ?ap crc e extra (s, mt) = (r1, (s1, mt1))" by (metis prod_cases3)
    show ?thesis by (rule compacted [OF c Cons.prems(1) tidied_refl, where ?rep1.0 = rep])
      (use l CompactChunks c in \<open>auto split: sum.splits\<close>)
  next
    case (DropOldest k)
    obtain r0 t where d: "session_drop_undo ?ap k s = (r0, t)" by fastforce
    from drop_tidied [OF Cons.prems(1) d, of extra] obtain n where t: "reached crc enc t" "tidied n extra s t" "\<forall>m. r0 = Inr m \<longrightarrow> m = n"
      by auto
    show ?thesis
    proof (cases r0)
      case (Inl err)
      with l DropOldest d t show ?thesis by auto
    next
      case (Inr m)
      with t(3) have m: "m = n" by blast
      obtain r1 s1 mt1 where c: "compact_round ?ap crc e extra (t, mt) = (r1, (s1, mt1))" by (metis prod_cases3)
      show ?thesis by (rule compacted [OF c t(1,2), where ?rep1.0 = "rep\<lparr>hr_dropped := hr_dropped rep + n\<rparr>"])
        (use l [unfolded DropOldest disk_action.case d prod.case Inr sum.case c] m in \<open>simp_all split: sum.splits\<close>)
    qed
  qed (use l Cons.prems(1) tidied_refl in auto)
qed

text \<open>C5: Housekeeping only ever gives up the oldest undo steps, and says how many.  Whatever it decides and whatever
  fails on the way, the session stays one that crash recovery restores; the document, the redo steps and the
  remaining undo steps are as they were with all their samples, and so are the clipboard's.  While a take is
  open it does nothing.\<close>

theorem housekeeping_keeps_document:
  assumes "reached crc enc s" and "json_ok enc dec" and "\<And>i. log_round crc dec (envs i)"
    and "housekeep (log_append crc enc) crc extra envs limits (s, mt) = (r, (s', mt'))"
  shows "reached crc enc s' \<and>
    (\<exists>n. ss_history s' = (ss_history s)\<lparr>h_undo := drop n (h_undo (ss_history s))\<rparr> \<and>
       (\<forall>rep. r = Inr rep \<longrightarrow> hr_dropped rep = n \<and> (hr_skipped rep \<longleftrightarrow> ss_open s \<noteq> None)) \<and>
       (ss_open s \<noteq> None \<longrightarrow> s' = s)) \<and>
    (\<forall>i \<in> live_set (ss_history s') \<union> set (pieces_chunk_ids extra). \<forall>d.
       chunk_data (ss_store s) i = Some d \<longrightarrow> chunk_data (ss_store s') i = Some d)"
proof (cases "ss_open s = None")
  case True
  with assms(4) have "housekeep_loop (log_append crc enc) crc extra limits (map envs [0 ..< 3]) empty_report (s, mt) = (r, (s', mt'))"
    by (simp add: housekeep_def)
  from loop_tidied [OF assms(1,2) _ this] assms(3) True show ?thesis
    by (auto simp: tidied_def keeps_chunks_def empty_report_def)
next
  case False
  with assms(1,4) show ?thesis
    by (auto simp: housekeep_def empty_report_def intro!: exI [of _ 0])
qed

theorem housekeeping_keeps_document_witness:
  "\<exists>s' mt' rep. housekeep (log_append sum_crc tiny_enc) sum_crc []
       (\<lambda>_. \<lparr>rn_session = 100, rn_free = Some 3000000000, rn_reads = calm_env, rn_writes = calm_env,
          rn_files = \<lparr>cx_create = None, cx_journal = None, cx_meta = None\<rparr>, rn_journal = log_new (\<lambda>_. calm_log),
          rn_reopen = log_reopen sum_crc tiny_dec calm_log\<rparr>) default_limits (tiny_session, 0) = (Inr rep, (s', mt')) \<and>
     h_current (ss_history s') = h_current (ss_history tiny_session)"
proof -
  let ?e = "\<lparr>rn_session = 100, rn_free = Some 3000000000, rn_reads = calm_env, rn_writes = calm_env,
          rn_files = \<lparr>cx_create = None, cx_journal = None, cx_meta = None\<rparr>, rn_journal = log_new (\<lambda>_. calm_log),
          rn_reopen = log_reopen sum_crc tiny_dec calm_log\<rparr>"
  have "decide u (sat_add64 3000000000 0) default_limits = NoAction" if "du_session u = 100" for u
    using that by (simp add: decide_def soft_limit_def default_limits_def soft_limit_bytes_def min_soft_limit_bytes_def
        gib_def disk_free_floor_bytes_def sat_add64_def u64_max_def le_max_iff_disj)
  moreover have "du_session (disk_usage_of 100 [] tiny_session) = 100" by (simp add: disk_usage_of_def Let_def)
  ultimately have "decide (disk_usage_of 100 [] tiny_session) (sat_add64 3000000000 0) default_limits = NoAction" by blast
  then have h: "housekeep (log_append sum_crc tiny_enc) sum_crc [] (\<lambda>_. ?e) default_limits (tiny_session, 0) =
      (Inr empty_report, (tiny_session, 0))"
    by (simp add: housekeep_def tiny_facts(5) upt_rec empty_report_def)
  have "log_round sum_crc tiny_dec ?e" by (auto simp: log_round_def)
  from housekeeping_keeps_document [OF tiny_facts(3) tiny_json this h] h show ?thesis by auto
qed

end
