(* ===== verification/Ipc_Layout.thy ===== *)
theory Ipc_Layout
  imports Prelude
begin

text \<open>
  The shared-memory segment of a sandboxed plugin: \<^verbatim>\<open>crates/sandbox-ipc/src/layout.rs\<close>, and the header half of
  \<^verbatim>\<open>channel.rs\<close>.

  The control block is a record of its words.  Sizes, capacities, cursors and positions are \<open>nat\<close>; floating point
  values stay bit patterns.  A segment is its control block and its length; the rings are modelled where they are used.
\<close>

section \<open>Constants\<close>

definition magic :: nat where
  "magic = 0x4350495842535650"

definition layout_version :: nat where "layout_version = 1"
definition control_size :: nat where "control_size = 512"
definition event_slot_size :: nat where "event_slot_size = 32"
definition ring_blocks :: nat where "ring_blocks = 8"
definition min_ring_capacity :: nat where "min_ring_capacity = 64"
definition max_block_limit :: nat where "max_block_limit = 8192"
definition max_event_capacity :: nat where "max_event_capacity = 65536"
definition region_align :: nat where "region_align = 4096"
definition cmd_run :: nat where "cmd_run = 0"
definition cmd_shutdown :: nat where "cmd_shutdown = 1"

lemmas layout_consts = layout_version_def control_size_def event_slot_size_def ring_blocks_def min_ring_capacity_def
  max_block_limit_def max_event_capacity_def region_align_def

datatype peer_state = Created | Running | Stopped | PeerFailed

fun peer_state_to_u32 :: "peer_state \<Rightarrow> nat" where
  "peer_state_to_u32 Created = 0"
| "peer_state_to_u32 Running = 1"
| "peer_state_to_u32 Stopped = 2"
| "peer_state_to_u32 PeerFailed = 3"

definition peer_state_from_u32 :: "nat \<Rightarrow> peer_state" where
  "peer_state_from_u32 v = (if v = 0 then Created else if v = 1 then Running else if v = 2 then Stopped else PeerFailed)"

definition peer_is_done :: "peer_state \<Rightarrow> bool" where
  "peer_is_done s \<longleftrightarrow> s = Stopped \<or> s = PeerFailed"

lemma peer_state_roundtrip [simp]: "peer_state_from_u32 (peer_state_to_u32 s) = s"
  by (cases s) (simp_all add: peer_state_from_u32_def)

section \<open>Layout\<close>

record layout =
  ly_max_block :: nat
  ly_ring :: nat
  ly_events :: nat
  ly_input :: nat
  ly_output :: nat
  ly_events_in :: nat
  ly_events_out :: nat
  ly_total :: nat

datatype layout_error = BadMaxBlock nat | BadEventCapacity nat

definition is_power_of_two :: "nat \<Rightarrow> bool" where
  "is_power_of_two n \<longleftrightarrow> n > 0 \<and> n AND (n - 1) = 0"

text \<open>\<open>u32::next_power_of_two\<close>: the first power of two that is not below.\<close>

function next_pow2_from :: "nat \<Rightarrow> nat \<Rightarrow> nat" where
  "next_pow2_from p n = (if n \<le> p \<or> p = 0 then p else next_pow2_from (2 * p) n)"
  by auto
termination
  by (relation "measure (\<lambda>(p, n). n - p)") auto

declare next_pow2_from.simps [simp del]

definition next_power_of_two :: "nat \<Rightarrow> nat" where
  "next_power_of_two n = next_pow2_from 1 n"

definition layout_new :: "nat \<Rightarrow> nat \<Rightarrow> layout_error + layout" where
  "layout_new max_block event_capacity =
     (if max_block = 0 \<or> max_block > max_block_limit then Inl (BadMaxBlock max_block)
      else if \<not> (2 \<le> event_capacity \<and> event_capacity \<le> max_event_capacity) \<or> \<not> is_power_of_two event_capacity
      then Inl (BadEventCapacity event_capacity)
      else
        let ring_capacity = max (next_power_of_two (max_block * ring_blocks)) min_ring_capacity;
            ring_bytes = ring_capacity * 4;
            event_bytes = event_capacity * event_slot_size;
            input_offset = control_size;
            output_offset = input_offset + ring_bytes;
            events_in_offset = output_offset + ring_bytes;
            events_out_offset = events_in_offset + event_bytes;
            finish = events_out_offset + event_bytes
        in Inr \<lparr>ly_max_block = max_block, ly_ring = ring_capacity, ly_events = event_capacity,
                ly_input = input_offset, ly_output = output_offset, ly_events_in = events_in_offset,
                ly_events_out = events_out_offset, ly_total = next_multiple_of finish region_align\<rparr>)"

section \<open>Configuration\<close>

record channel_config =
  cc_rate :: "64 word"
  cc_max_block :: nat
  cc_latency :: nat
  cc_events :: nat

datatype channel_error =
    IpcIo string
  | IpcLayout layout_error
  | IpcConfig string
  | BadMagic
  | BadVersion nat
  | TooSmall nat nat
  | BadHeader string

definition default_event_capacity :: nat where
  "default_event_capacity = 512"

definition pipelined :: "64 word \<Rightarrow> nat \<Rightarrow> channel_config" where
  "pipelined rate max_block =
     \<lparr>cc_rate = rate, cc_max_block = max_block, cc_latency = max_block, cc_events = default_event_capacity\<rparr>"

definition synchronous :: "64 word \<Rightarrow> nat \<Rightarrow> channel_config" where
  "synchronous rate max_block = (pipelined rate max_block)\<lparr>cc_latency := 0\<rparr>"

text \<open>\<open>is_finite\<close> and \<open>> 0.0\<close> on the bits of an \<open>f64\<close>.\<close>

definition f64_finite :: "64 word \<Rightarrow> bool" where
  "f64_finite w \<longleftrightarrow> w AND 0x7FF0000000000000 \<noteq> 0x7FF0000000000000"

definition f64_positive :: "64 word \<Rightarrow> bool" where
  "f64_positive w \<longleftrightarrow> \<not> bit w 63 \<and> w \<noteq> 0"

definition config_layout :: "channel_config \<Rightarrow> channel_error + layout" where
  "config_layout c =
     (if \<not> (f64_finite (cc_rate c) \<and> f64_positive (cc_rate c)) then Inl (IpcConfig ''sample_rate must be finite and positive'')
      else if cc_latency c > cc_max_block c then Inl (IpcConfig ''latency_samples must be <= max_block'')
      else case layout_new (cc_max_block c) (cc_events c) of Inl e \<Rightarrow> Inl (IpcLayout e) | Inr l \<Rightarrow> Inr l)"

section \<open>The control block\<close>

record control_block =
  cb_magic :: nat
  cb_version :: nat
  cb_control_size :: nat
  cb_total_size :: nat
  cb_rate :: "64 word"
  cb_max_block :: nat
  cb_ring :: nat
  cb_event_capacity :: nat
  cb_latency :: nat
  cb_start :: nat
  cb_host_pid :: nat
  cb_flags :: nat
  cb_in_write :: nat
  cb_ev_in_write :: nat
  cb_ev_out_read :: nat
  cb_host_command :: nat
  cb_in_read :: nat
  cb_out_write :: nat
  cb_out_valid_from :: nat
  cb_ev_in_read :: nat
  cb_ev_out_write :: nat
  cb_overruns :: nat
  cb_chunks :: nat
  cb_state :: nat
  cb_plugin_pid :: nat
  cb_heartbeat :: nat
  cb_in_call :: nat

record segment =
  sm_control :: control_block
  sm_len :: nat

text \<open>\<open>Channel::create_in\<close> on a region of \<open>sm_len\<close> bytes.\<close>

definition create_in :: "nat \<Rightarrow> segment \<Rightarrow> channel_config \<Rightarrow> channel_error + segment" where
  "create_in pid seg c =
     (case config_layout c of
        Inl e \<Rightarrow> Inl e
      | Inr l \<Rightarrow>
          if sm_len seg < ly_total l then Inl (TooSmall (sm_len seg) (ly_total l))
          else
            let start = cc_latency c
            in Inr (seg\<lparr>sm_control :=
                 \<lparr>cb_magic = magic, cb_version = layout_version, cb_control_size = control_size,
                  cb_total_size = ly_total l, cb_rate = cc_rate c, cb_max_block = cc_max_block c, cb_ring = ly_ring l,
                  cb_event_capacity = ly_events l, cb_latency = cc_latency c, cb_start = start, cb_host_pid = pid,
                  cb_flags = 0, cb_in_write = start, cb_ev_in_write = 0, cb_ev_out_read = 0, cb_host_command = cmd_run,
                  cb_in_read = start, cb_out_write = start, cb_out_valid_from = 0, cb_ev_in_read = 0, cb_ev_out_write = 0,
                  cb_overruns = 0, cb_chunks = 0, cb_state = peer_state_to_u32 Created, cb_plugin_pid = 0,
                  cb_heartbeat = 0, cb_in_call = 0\<rparr>\<rparr>))"

definition read_header :: "segment \<Rightarrow> channel_error + channel_config \<times> layout" where
  "read_header seg =
     (if sm_len seg < control_size then Inl (TooSmall (sm_len seg) control_size)
      else
        let cb = sm_control seg
        in if cb_magic cb \<noteq> magic then Inl BadMagic
           else if cb_version cb \<noteq> layout_version then Inl (BadVersion (cb_version cb))
           else if cb_control_size cb \<noteq> control_size then Inl (BadHeader ''control_size'')
           else
             let config = \<lparr>cc_rate = cb_rate cb, cc_max_block = cb_max_block cb, cc_latency = cb_latency cb,
                           cc_events = cb_event_capacity cb\<rparr>
             in case config_layout config of
                  Inl e \<Rightarrow> Inl e
                | Inr l \<Rightarrow>
                    if cb_ring cb \<noteq> ly_ring l then Inl (BadHeader ''ring_capacity'')
                    else if cb_total_size cb \<noteq> ly_total l then Inl (BadHeader ''total_size'')
                    else if cb_start cb \<noteq> cc_latency config then Inl (BadHeader ''start_pos'')
                    else if sm_len seg < ly_total l then Inl (TooSmall (sm_len seg) (ly_total l))
                    else Inr (config, l))"

section \<open>Powers of two\<close>

lemma power_of_two_and: "(2 :: nat) ^ k AND (2 ^ k - 1) = 0"
proof -
  have "(2 :: nat) ^ k AND mask k = 0" by (simp flip: take_bit_eq_mask)
  then show ?thesis by (simp add: mask_eq_exp_minus_1)
qed

lemma is_power_of_two_iff: "is_power_of_two n \<longleftrightarrow> (\<exists>k. n = 2 ^ k)"
proof
  assume p: "is_power_of_two n"
  then have n: "0 < n" "n AND (n - 1) = 0" by (simp_all add: is_power_of_two_def)
  obtain k where k: "2 ^ k \<le> n" "n < 2 ^ (k + 1)" using ex_power_ivl1 [of 2 n] n(1) by auto
  have "n = 2 ^ k"
  proof (rule ccontr)
    assume "n \<noteq> 2 ^ k"
    then have lt: "2 ^ k \<le> n - 1" "n - 1 < 2 ^ (k + 1)" using k by linarith+
    have b: "bit m k" if "2 ^ k \<le> m" "m < 2 ^ (k + 1)" for m :: nat
    proof -
      have "m div 2 ^ k = 1" using that by (intro div_nat_eqI) simp_all
      then show ?thesis by (simp add: bit_iff_odd)
    qed
    have "bit (n AND (n - 1)) k" using b [OF k] b [OF lt] by (simp add: bit_and_iff)
    with n(2) show False by simp
  qed
  then show "\<exists>k. n = 2 ^ k" ..
next
  assume "\<exists>k. n = 2 ^ k"
  then show "is_power_of_two n" using power_of_two_and by (auto simp: is_power_of_two_def)
qed

lemma next_pow2_from_spec:
  "p = 2 ^ k \<Longrightarrow> (\<exists>j. next_pow2_from p n = 2 ^ j) \<and> n \<le> next_pow2_from p n \<and>
   (p \<le> n \<and> 0 < n \<longrightarrow> next_pow2_from p n < 2 * n) \<and> (n \<le> p \<longrightarrow> next_pow2_from p n = p)"
proof (induction p n arbitrary: k rule: next_pow2_from.induct)
  case (1 p n)
  show ?case
  proof (cases "n \<le> p")
    case True
    then have "next_pow2_from p n = p" by (subst next_pow2_from.simps) simp
    with True "1.prems" show ?thesis by auto
  next
    case False
    have "p \<noteq> 0" using "1.prems" by simp
    with False have e: "next_pow2_from p n = next_pow2_from (2 * p) n" and c: "\<not> (n \<le> p \<or> p = 0)"
      by (simp_all add: next_pow2_from.simps [of p n])
    from "1.IH" [OF c, of "Suc k"] "1.prems" show ?thesis
      unfolding e using False by (cases "2 * p \<le> n") auto
  qed
qed

lemma next_power_of_two_spec:
  "\<exists>j. next_power_of_two n = 2 ^ j" "n \<le> next_power_of_two n" "1 \<le> n \<Longrightarrow> next_power_of_two n < 2 * n"
  using next_pow2_from_spec [of 1 0 n] by (auto simp: next_power_of_two_def)

section \<open>Laid out segments\<close>

text \<open>What the mapped views rely on: the arrays follow one another from the control block on, aligned and inside.\<close>

definition layout_ok :: "layout \<Rightarrow> bool" where
  "layout_ok l \<longleftrightarrow>
     0 < ly_max_block l \<and> (\<exists>k. ly_ring l = 2 ^ k) \<and> (\<exists>k. ly_events l = 2 ^ k) \<and>
     ring_blocks * ly_max_block l \<le> ly_ring l \<and> min_ring_capacity \<le> ly_ring l \<and> ly_ring l \<le> u32_max \<and> 2 \<le> ly_events l \<and>
     control_size \<le> ly_input l \<and> ly_input l + 4 * ly_ring l \<le> ly_output l \<and> ly_output l + 4 * ly_ring l \<le> ly_events_in l \<and>
     ly_events_in l + event_slot_size * ly_events l \<le> ly_events_out l \<and>
     ly_events_out l + event_slot_size * ly_events l \<le> ly_total l \<and>
     8 dvd ly_input l \<and> 8 dvd ly_output l \<and> 8 dvd ly_events_in l \<and> 8 dvd ly_events_out l \<and> region_align dvd ly_total l"

definition config_ok :: "channel_config \<Rightarrow> bool" where
  "config_ok c \<longleftrightarrow> f64_finite (cc_rate c) \<and> f64_positive (cc_rate c) \<and> 0 < cc_max_block c \<and> cc_max_block c \<le> max_block_limit \<and>
     cc_latency c \<le> cc_max_block c \<and> 2 \<le> cc_events c \<and> cc_events c \<le> max_event_capacity \<and> is_power_of_two (cc_events c)"

lemma layout_new_ok:
  assumes "layout_new max_block events = Inr l"
  shows "layout_ok l \<and> ly_max_block l = max_block \<and> ly_events l = events"
proof -
  have b: "0 < max_block" "max_block \<le> 8192" "2 \<le> events" "events \<le> 65536" "is_power_of_two events"
    using assms by (auto simp: layout_new_def layout_consts split: if_splits)
  define ring where "ring = max (next_power_of_two (max_block * ring_blocks)) min_ring_capacity"
  have n: "\<exists>j. next_power_of_two (max_block * 8) = 2 ^ j" "max_block * 8 \<le> next_power_of_two (max_block * 8)"
    "next_power_of_two (max_block * 8) < 2 * (max_block * 8)"
    using next_power_of_two_spec [of "max_block * 8"] b(1) by simp_all
  have "\<exists>k. (2 :: nat) ^ k = 64" by (rule exI [of _ 6]) simp
  then have r: "\<exists>k. ring = 2 ^ k" "8 * max_block \<le> ring" "64 \<le> ring" "ring \<le> u32_max"
    using n b(2) unfolding ring_def layout_consts by (auto simp: max_def u32_max_def)
  then obtain k where k: "ring = 2 ^ k" by blast
  have l: "l = \<lparr>ly_max_block = max_block, ly_ring = ring, ly_events = events, ly_input = 512, ly_output = 512 + ring * 4,
      ly_events_in = 512 + ring * 4 + ring * 4, ly_events_out = 512 + ring * 4 + ring * 4 + events * 32,
      ly_total = next_multiple_of (512 + ring * 4 + ring * 4 + events * 32 + events * 32) 4096\<rparr>"
    using assms b by (simp add: layout_new_def Let_def ring_def [symmetric] control_size_def event_slot_size_def region_align_def split: if_splits)
  have ring8: "2 dvd ring" unfolding k using r(3) by (cases k) (simp_all add: k)
  have al: "8 dvd 512 + ring * 4" "8 dvd 512 + ring * 4 + ring * 4" "8 dvd 512 + ring * 4 + ring * 4 + events * 32"
    using ring8 by presburger+
  show ?thesis
    unfolding l layout_ok_def using b r al next_multiple_of_ge [of "512 + ring * 4 + ring * 4 + events * 32 + events * 32" 4096]
    by (auto simp: layout_consts is_power_of_two_iff next_multiple_of_dvd)
qed

lemma layout_new_accepts:
  assumes "0 < max_block" "max_block \<le> max_block_limit" "2 \<le> events" "events \<le> max_event_capacity" "is_power_of_two events"
  obtains l where "layout_new max_block events = Inr l"
  using assms by (auto simp: layout_new_def Let_def)

lemma config_layout_iff: "(\<exists>l. config_layout c = Inr l) \<longleftrightarrow> config_ok c"
proof
  assume "\<exists>l. config_layout c = Inr l"
  then show "config_ok c"
    by (auto simp: config_layout_def layout_new_def config_ok_def Let_def split: if_splits sum.splits)
next
  assume "config_ok c"
  then show "\<exists>l. config_layout c = Inr l"
    using layout_new_accepts [of "cc_max_block c" "cc_events c"] by (fastforce simp: config_layout_def config_ok_def)
qed

lemma config_layout_ok:
  "config_layout c = Inr l \<Longrightarrow> layout_ok l \<and> ly_max_block l = cc_max_block c \<and> ly_events l = cc_events c"
  using layout_new_ok [of "cc_max_block c" "cc_events c" l] by (auto simp: config_layout_def split: if_splits sum.splits)

definition tone_config :: channel_config where
  "tone_config = pipelined 0x40E7700000000000 256"

definition blank_control :: control_block where
  "blank_control = \<lparr>cb_magic = 0, cb_version = 0, cb_control_size = 0, cb_total_size = 0, cb_rate = 0, cb_max_block = 0,
     cb_ring = 0, cb_event_capacity = 0, cb_latency = 0, cb_start = 0, cb_host_pid = 0, cb_flags = 0, cb_in_write = 0,
     cb_ev_in_write = 0, cb_ev_out_read = 0, cb_host_command = 0, cb_in_read = 0, cb_out_write = 0, cb_out_valid_from = 0,
     cb_ev_in_read = 0, cb_ev_out_write = 0, cb_overruns = 0, cb_chunks = 0, cb_state = 0, cb_plugin_pid = 0,
     cb_heartbeat = 0, cb_in_call = 0\<rparr>"

lemma tone_config_ok: "config_ok tone_config"
  by (simp add: config_ok_def tone_config_def pipelined_def f64_finite_def f64_positive_def max_block_limit_def
      max_event_capacity_def default_event_capacity_def is_power_of_two_def)

text \<open>C26: A plugin process never trusts a segment's sizes.  Whatever bytes are in the header, \<open>read_header\<close> accepts it only
  when the configuration is valid and the arrays laid out for it are disjoint, aligned and inside the mapping, each
  ring a power of two of at least eight blocks; everything else is an error.\<close>

theorem accepted_header_is_sound:
  assumes "read_header seg = Inr (c, l)"
  shows "config_ok c \<and> layout_ok l \<and> ly_max_block l = cc_max_block c \<and> ly_events l = cc_events c \<and> ly_total l \<le> sm_len seg"
proof -
  have "config_layout c = Inr l" "ly_total l \<le> sm_len seg"
    using assms by (auto simp: read_header_def Let_def split: if_splits sum.splits)
  then show ?thesis using config_layout_ok config_layout_iff by blast
qed

lemma create_reads_back:
  assumes "create_in pid seg c = Inr seg'"
  shows "\<exists>l. config_layout c = Inr l \<and> read_header seg' = Inr (c, l) \<and> sm_len seg' = sm_len seg"
proof -
  obtain l where l: "config_layout c = Inr l" "ly_total l \<le> sm_len seg"
    using assms by (auto simp: create_in_def split: sum.splits if_splits)
  note ok = config_layout_ok [OF l(1)]
  have "512 \<le> ly_total l" using ok by (auto simp: layout_ok_def layout_consts)
  then have big: "\<not> sm_len seg < control_size" using l(2) by (simp add: control_size_def)
  have "\<lparr>cc_rate = cc_rate c, cc_max_block = cc_max_block c, cc_latency = cc_latency c, cc_events = ly_events l\<rparr> = c" using ok by simp
  then show ?thesis
    using assms l big by (auto simp: create_in_def read_header_def Let_def)
qed

text \<open>What the host writes into a segment the plugin reads back: the same configuration and the same layout, at every
  valid configuration and for any process ids.\<close>

theorem header_roundtrip:
  assumes "create_in pid seg c = Inr seg'"
  shows "\<exists>l. config_layout c = Inr l \<and> read_header seg' = Inr (c, l) \<and> sm_len seg' = sm_len seg"
  by (rule create_reads_back [OF assms])

lemma tone_segment: "\<exists>seg. create_in 7 \<lparr>sm_control = blank_control, sm_len = 1048576\<rparr> tone_config = Inr seg"
proof -
  have "config_layout tone_config = Inr (\<lparr>ly_max_block = 256, ly_ring = 2048, ly_events = 512, ly_input = 512,
      ly_output = 8704, ly_events_in = 16896, ly_events_out = 33280, ly_total = 53248\<rparr>)"
    using tone_config_ok
    by (simp add: config_layout_def config_ok_def) (simp add: tone_config_def pipelined_def default_event_capacity_def
        layout_new_def layout_consts Let_def next_power_of_two_def next_pow2_from.simps is_power_of_two_def next_multiple_of_def)
  then show ?thesis by (simp add: create_in_def Let_def)
qed

theorem accepted_header_is_sound_witness:
  "\<exists>seg l. create_in 7 \<lparr>sm_control = blank_control, sm_len = 1048576\<rparr> tone_config = Inr seg \<and>
     layout_ok l \<and> ly_total l \<le> sm_len seg"
proof -
  obtain seg where seg: "create_in 7 \<lparr>sm_control = blank_control, sm_len = 1048576\<rparr> tone_config = Inr seg"
    using tone_segment by blast
  from create_reads_back [OF seg] obtain l where "read_header seg = Inr (tone_config, l)" by blast
  from accepted_header_is_sound [OF this] seg show ?thesis by blast
qed

theorem header_roundtrip_witness:
  "\<exists>seg l. create_in 7 \<lparr>sm_control = blank_control, sm_len = 1048576\<rparr> tone_config = Inr seg \<and>
     read_header seg = Inr (tone_config, l)"
  using tone_segment header_roundtrip by blast

end
