(* ===== verification/Ipc_Ring.thy ===== *)
theory Ipc_Ring
  imports Ipc_Layout
begin

text \<open>
  The event rings between the host and a sandboxed plugin: \<^verbatim>\<open>push_event\<close> and \<^verbatim>\<open>pop_output_event\<close> of
  \<^verbatim>\<open>host.rs\<close>, \<^verbatim>\<open>push_out\<close> and the event half of a chunk in \<^verbatim>\<open>plugin.rs\<close>.

  One side writes slots and publishes \<open>er_write\<close>, the other reads slots and publishes \<open>er_read\<close>, with no lock.
  \<open>ring_step\<close> interleaves them at single atomic accesses: a slot is written and read one word at a time.
  Accesses are taken one after another; the orderings the code asks for (acquire, release) are what makes that
  right on the hardware.
\<close>

section \<open>Cursors\<close>

text \<open>\<open>u64::wrapping_sub\<close>, and a position masked by the capacity less one.\<close>

definition wsub64 :: "nat \<Rightarrow> nat \<Rightarrow> nat" where
  "wsub64 a b = nat ((int a - int b) mod 2 ^ 64)"

definition masked :: "nat \<Rightarrow> nat \<Rightarrow> nat" where
  "masked cap q = q AND (cap - 1)"

lemma wsub64_sub: "b \<le> a \<Longrightarrow> a - b < 2 ^ 64 \<Longrightarrow> wsub64 a b = a - b"
  by (simp add: wsub64_def of_nat_diff flip: nat_diff_distrib')

lemma masked_mod: "cap = 2 ^ k \<Longrightarrow> masked cap q = q mod cap"
  unfolding masked_def by (simp only: mask_eq_exp_minus_1 [symmetric] take_bit_eq_mask [symmetric] take_bit_eq_mod)

lemma mod_neq: "i < j \<Longrightarrow> j < i + (cap :: nat) \<Longrightarrow> i mod cap \<noteq> j mod cap"
proof
  assume a: "i < j" "j < i + cap" "i mod cap = j mod cap"
  then have "cap dvd j - i" by (metis less_imp_le_nat mod_eq_dvd_iff_nat)
  with a show False by (metis add_diff_cancel_left' diff_less_mono less_imp_le_nat nat_dvd_not_less zero_less_diff)
qed

section \<open>Events\<close>

record wire_event =
  we_pos :: nat
  we_id :: nat
  we_kind :: nat
  we_value :: "64 word"

definition param_value :: nat where "param_value = 1"
definition gesture_begin :: nat where "gesture_begin = 2"
definition gesture_end :: nat where "gesture_end = 3"
definition reset_event :: nat where "reset_event = 4"
definition restart_request :: nat where "restart_request = 5"

definition event_param :: "nat \<Rightarrow> nat \<Rightarrow> 64 word \<Rightarrow> wire_event" where
  "event_param p i v = \<lparr>we_pos = p, we_id = i, we_kind = param_value, we_value = v\<rparr>"

text \<open>\<open>WireEvent::store\<close> and \<open>load\<close>: four words, in this order.\<close>

definition store_field :: "nat \<Rightarrow> wire_event \<Rightarrow> wire_event \<Rightarrow> wire_event" where
  "store_field k e slot =
     (if k = 0 then slot\<lparr>we_pos := we_pos e\<rparr> else if k = 1 then slot\<lparr>we_id := we_id e\<rparr>
      else if k = 2 then slot\<lparr>we_kind := we_kind e\<rparr> else slot\<lparr>we_value := we_value e\<rparr>)"

definition store_event :: "wire_event \<Rightarrow> wire_event \<Rightarrow> wire_event" where
  "store_event e slot = store_field 3 e (store_field 2 e (store_field 1 e (store_field 0 e slot)))"

lemma store_event_eq [simp]: "store_event e slot = e"
  by (simp add: store_event_def store_field_def)

text \<open>The first \<open>k\<close> words of a slot.\<close>

definition same_fields :: "nat \<Rightarrow> wire_event \<Rightarrow> wire_event \<Rightarrow> bool" where
  "same_fields k a b \<longleftrightarrow> (0 < k \<longrightarrow> we_pos a = we_pos b) \<and> (1 < k \<longrightarrow> we_id a = we_id b) \<and> (2 < k \<longrightarrow> we_kind a = we_kind b) \<and>
     (3 < k \<longrightarrow> we_value a = we_value b)"

lemma same_fields_0 [simp]: "same_fields 0 a b"
  by (simp add: same_fields_def)

lemma same_fields_store: "same_fields k a b \<Longrightarrow> k < 4 \<Longrightarrow> same_fields (Suc k) (store_field k b a) b"
  by (auto simp: same_fields_def store_field_def)

lemma same_fields_4: "same_fields 4 a b \<Longrightarrow> a = b"
  by (cases a; cases b) (simp add: same_fields_def)

section \<open>The operations\<close>

record event_ring =
  er_slots :: "wire_event list"
  er_write :: nat
  er_read :: nat

definition ring_cap :: "event_ring \<Rightarrow> nat" where
  "ring_cap r = length (er_slots r)"

lemma ring_cap_simps [simp]:
  "ring_cap (r\<lparr>er_write := w\<rparr>) = ring_cap r" "ring_cap (r\<lparr>er_read := d\<rparr>) = ring_cap r"
  "ring_cap (r\<lparr>er_slots := (er_slots r)[i := e]\<rparr>) = ring_cap r"
  by (simp_all add: ring_cap_def)

text \<open>\<open>push_event\<close> and \<open>push_out\<close>; the writer's own copy of the cursor is the published one.\<close>

definition push_event :: "wire_event \<Rightarrow> event_ring \<Rightarrow> bool \<times> event_ring" where
  "push_event e r =
     (let write = er_write r; idx = masked (ring_cap r) write
      in if wsub64 write (er_read r) \<ge> ring_cap r then (False, r)
         else (True, r\<lparr>er_slots := (er_slots r)[idx := store_event e (er_slots r ! idx)], er_write := write + 1\<rparr>))"

text \<open>\<open>pop_output_event\<close> with the reader's copy of its cursor.\<close>

definition pop_event :: "nat \<Rightarrow> event_ring \<Rightarrow> wire_event option \<times> nat \<times> event_ring" where
  "pop_event rd r =
     (let w = er_write r; available = wsub64 w rd
      in if available = 0 then (None, rd, r)
         else if available > ring_cap r then (None, w, r\<lparr>er_read := w\<rparr>)
         else (Some (er_slots r ! masked (ring_cap r) rd), rd + 1, r\<lparr>er_read := rd + 1\<rparr>))"

text \<open>The events of a chunk: those before its end, at most \<open>room\<close> of them.\<close>

fun drain_loop :: "nat \<Rightarrow> nat \<Rightarrow> nat \<Rightarrow> nat \<Rightarrow> event_ring \<Rightarrow> wire_event list \<times> nat" where
  "drain_loop 0 ev_w fin rd r = ([], rd)"
| "drain_loop (Suc room) ev_w fin rd r =
     (if rd = ev_w then ([], rd)
      else let ev = er_slots r ! masked (ring_cap r) rd
           in if we_pos ev \<ge> fin then ([], rd)
              else case drain_loop room ev_w fin (rd + 1) r of (es, rd1) \<Rightarrow> (ev # es, rd1))"

definition drain_events :: "nat \<Rightarrow> nat \<Rightarrow> event_ring \<Rightarrow> wire_event list \<times> nat \<times> event_ring" where
  "drain_events fin rd r =
     (let ev_w = er_write r; rd0 = (if wsub64 ev_w rd > ring_cap r then ev_w else rd)
      in case drain_loop (ring_cap r) ev_w fin rd0 r of (es, rd1) \<Rightarrow> (es, rd1, r\<lparr>er_read := rd1\<rparr>))"

text \<open>\<open>reset_barrier\<close>: the position of the first reset strictly inside the chunk.\<close>

function barrier_loop :: "nat \<Rightarrow> nat \<Rightarrow> nat \<Rightarrow> nat \<Rightarrow> event_ring \<Rightarrow> nat" where
  "barrier_loop rd ev_w start fin r =
     (if ev_w \<le> rd then fin
      else let ev = er_slots r ! masked (ring_cap r) rd
           in if we_pos ev \<ge> fin then fin
              else if we_kind ev = reset_event \<and> we_pos ev > start then we_pos ev
              else barrier_loop (rd + 1) ev_w start fin r)"
  by auto
termination
  by (relation "measure (\<lambda>(rd, ev_w, _). ev_w - rd)") auto

declare barrier_loop.simps [simp del]

definition reset_barrier :: "nat \<Rightarrow> nat \<Rightarrow> nat \<Rightarrow> event_ring \<Rightarrow> nat" where
  "reset_barrier rd start fin r =
     (let ev_w = er_write r
      in barrier_loop (if wsub64 ev_w rd > ring_cap r then ev_w else rd) ev_w start fin r)"

lemma barrier_loop_bounds: "start < fin \<Longrightarrow> start < barrier_loop rd ev_w start fin r \<and> barrier_loop rd ev_w start fin r \<le> fin"
  by (induction rd ev_w start fin r rule: barrier_loop.induct) (subst (1 2) barrier_loop.simps, auto simp: Let_def)

lemma reset_barrier_bounds: "start < fin \<Longrightarrow> start < reset_barrier rd start fin r \<and> reset_barrier rd start fin r \<le> fin"
  using barrier_loop_bounds by (simp add: reset_barrier_def Let_def)

section \<open>Both sides at work\<close>

datatype writer_phase = WIdle | WStore wire_event nat
datatype reader_phase = RIdle | RLoad nat wire_event

text \<open>
  \<open>rg_cr\<close> is the reader's own cursor and \<open>rg_cw\<close> the write cursor it has loaded.  \<open>rg_pushed\<close> and \<open>rg_popped\<close>
  record what was accepted and what was delivered.
\<close>

record ring_run =
  rg_ring :: event_ring
  rg_writer :: writer_phase
  rg_reader :: reader_phase
  rg_cr :: nat
  rg_cw :: nat
  rg_pushed :: "wire_event list"
  rg_popped :: "wire_event list"

definition ring_start :: "nat \<Rightarrow> wire_event \<Rightarrow> ring_run" where
  "ring_start cap e0 =
     \<lparr>rg_ring = \<lparr>er_slots = replicate cap e0, er_write = 0, er_read = 0\<rparr>, rg_writer = WIdle, rg_reader = RIdle,
      rg_cr = 0, rg_cw = 0, rg_pushed = [], rg_popped = []\<rparr>"

text \<open>
  The writer: the check, the four stores, the publication.  The reader: loading the write cursor (resynchronising on a
  garbage one), the four loads of a slot, taking the event or leaving it, publishing its cursor.
\<close>

inductive ring_step :: "ring_run \<Rightarrow> ring_run \<Rightarrow> bool" where
  push_check: "rg_writer s = WIdle \<Longrightarrow> wsub64 (er_write (rg_ring s)) (er_read (rg_ring s)) < ring_cap (rg_ring s) \<Longrightarrow>
    ring_step s (s\<lparr>rg_writer := WStore e 0\<rparr>)"
| push_store: "rg_writer s = WStore e k \<Longrightarrow> k < 4 \<Longrightarrow> i = masked (ring_cap (rg_ring s)) (er_write (rg_ring s)) \<Longrightarrow>
    ring_step s (s\<lparr>rg_ring := (rg_ring s)\<lparr>er_slots := (er_slots (rg_ring s))[i := store_field k e (er_slots (rg_ring s) ! i)]\<rparr>,
      rg_writer := WStore e (Suc k)\<rparr>)"
| push_publish: "rg_writer s = WStore e 4 \<Longrightarrow>
    ring_step s (s\<lparr>rg_ring := (rg_ring s)\<lparr>er_write := er_write (rg_ring s) + 1\<rparr>, rg_writer := WIdle,
      rg_pushed := rg_pushed s @ [e]\<rparr>)"
| pop_load: "rg_reader s = RIdle \<Longrightarrow> wsub64 (er_write (rg_ring s)) (rg_cr s) \<le> ring_cap (rg_ring s) \<Longrightarrow>
    ring_step s (s\<lparr>rg_cw := er_write (rg_ring s)\<rparr>)"
| pop_resync: "rg_reader s = RIdle \<Longrightarrow> wsub64 (er_write (rg_ring s)) (rg_cr s) > ring_cap (rg_ring s) \<Longrightarrow>
    ring_step s (s\<lparr>rg_cw := er_write (rg_ring s), rg_cr := er_write (rg_ring s)\<rparr>)"
| pop_start: "rg_reader s = RIdle \<Longrightarrow> rg_cr s \<noteq> rg_cw s \<Longrightarrow> ring_step s (s\<lparr>rg_reader := RLoad 0 e\<rparr>)"
| pop_field: "rg_reader s = RLoad k e \<Longrightarrow> k < 4 \<Longrightarrow>
    ring_step s (s\<lparr>rg_reader := RLoad (Suc k) (store_field k (er_slots (rg_ring s) ! masked (ring_cap (rg_ring s)) (rg_cr s)) e)\<rparr>)"
| pop_take: "rg_reader s = RLoad 4 e \<Longrightarrow>
    ring_step s (s\<lparr>rg_reader := RIdle, rg_cr := rg_cr s + 1, rg_popped := rg_popped s @ [e]\<rparr>)"
| pop_leave: "rg_reader s = RLoad 4 e \<Longrightarrow> ring_step s (s\<lparr>rg_reader := RIdle\<rparr>)"
| pop_publish: "rg_reader s = RIdle \<Longrightarrow> ring_step s (s\<lparr>rg_ring := (rg_ring s)\<lparr>er_read := rg_cr s\<rparr>\<rparr>)"

inductive_cases ring_stepE: "ring_step s s'"

definition ring_inv :: "ring_run \<Rightarrow> bool" where
  "ring_inv s \<longleftrightarrow>
     (let r = rg_ring s; cap = ring_cap r
      in (\<exists>k. cap = 2 ^ k \<and> cap < 2 ^ 64) \<and> er_read r \<le> rg_cr s \<and> rg_cr s \<le> rg_cw s \<and> rg_cw s \<le> er_write r \<and>
         er_write r \<le> er_read r + cap \<and> length (rg_pushed s) = er_write r \<and> rg_popped s = take (rg_cr s) (rg_pushed s) \<and>
         (\<forall>i. er_read r \<le> i \<and> i < er_write r \<longrightarrow> er_slots r ! (i mod cap) = rg_pushed s ! i) \<and>
         (case rg_writer s of WIdle \<Rightarrow> True
          | WStore e k \<Rightarrow> k \<le> 4 \<and> er_write r < er_read r + cap \<and> same_fields k (er_slots r ! (er_write r mod cap)) e) \<and>
         (case rg_reader s of RIdle \<Rightarrow> True
          | RLoad k e \<Rightarrow> k \<le> 4 \<and> rg_cr s < rg_cw s \<and> same_fields k e (rg_pushed s ! rg_cr s)))"

lemma ring_start_inv: "0 < k \<Longrightarrow> k < 64 \<Longrightarrow> ring_inv (ring_start (2 ^ k) e0)"
  using power_strict_increasing [of k 64 "2 :: nat"] by (auto simp: ring_inv_def ring_start_def ring_cap_def Let_def)

lemma ring_step_inv:
  assumes "ring_step s s'" "ring_inv s"
  shows "ring_inv s'"
proof -
  define r where "r = rg_ring s"
  define cap where "cap = ring_cap r"
  note i = assms(2) [unfolded ring_inv_def Let_def, folded r_def, folded cap_def]
  then obtain kk where kk: "cap = 2 ^ kk" "cap < 2 ^ 64" by blast
  have inv: "er_read r \<le> rg_cr s" "rg_cr s \<le> rg_cw s" "rg_cw s \<le> er_write r"
    "er_write r \<le> er_read r + cap" "length (rg_pushed s) = er_write r" "rg_popped s = take (rg_cr s) (rg_pushed s)"
    "\<forall>i. er_read r \<le> i \<and> i < er_write r \<longrightarrow> er_slots r ! (i mod cap) = rg_pushed s ! i"
    "case rg_writer s of WIdle \<Rightarrow> True
     | WStore e k \<Rightarrow> k \<le> 4 \<and> er_write r < er_read r + cap \<and> same_fields k (er_slots r ! (er_write r mod cap)) e"
    "case rg_reader s of RIdle \<Rightarrow> True | RLoad k e \<Rightarrow> k \<le> 4 \<and> rg_cr s < rg_cw s \<and> same_fields k e (rg_pushed s ! rg_cr s)"
    using i by blast+
  have c2: "\<exists>k. cap = 2 ^ k \<and> cap < 2 ^ 64" using kk by blast
  have cap0: "0 < cap" using kk(1) by simp
  have idx: "masked cap q = q mod cap" for q using masked_mod [OF kk(1)] .
  have sub: "wsub64 (er_write r) c = er_write r - c" if "er_read r \<le> c" "c \<le> er_write r" for c
    using that kk(2) inv(4) by (intro wsub64_sub) linarith+
  show ?thesis
    using assms(1)
  proof cases
    case (push_check e)
    then show ?thesis using c2 inv sub [of "er_read r"]
      by (auto simp: ring_inv_def Let_def r_def [symmetric] cap_def [symmetric] split: reader_phase.splits)
  next
    case (push_store e k i)
    then have w: "er_write r < er_read r + cap" "same_fields k (er_slots r ! (er_write r mod cap)) e" "i = er_write r mod cap"
      using inv(8) by (simp_all add: idx cap_def [symmetric] r_def [symmetric])
    have i: "i < length (er_slots r)" using w(3) cap0 by (simp add: cap_def ring_cap_def)
    have other: "i \<noteq> j mod cap" if "er_read r \<le> j" "j < er_write r" for j
      using mod_neq [of j "er_write r" cap] that w(1,3) by simp
    define r' where "r' = r\<lparr>er_slots := (er_slots r)[i := store_field k e (er_slots r ! i)]\<rparr>"
    have s': "s' = s\<lparr>rg_ring := r', rg_writer := WStore e (Suc k)\<rparr>"
      using push_store(1) by (simp add: r'_def r_def)
    have r': "ring_cap r' = cap" "er_read r' = er_read r" "er_write r' = er_write r" "er_slots r' ! i = store_field k e (er_slots r ! i)"
      "\<forall>j. er_read r \<le> j \<and> j < er_write r \<longrightarrow> er_slots r' ! (j mod cap) = er_slots r ! (j mod cap)"
      using i other by (simp_all add: r'_def ring_cap_def cap_def)
    show ?thesis
      unfolding ring_inv_def Let_def s'
      using c2 inv r' w(1,3) same_fields_store [OF w(2) push_store(3)] push_store(3) by (auto split: reader_phase.splits)
  next
    case (push_publish e)
    then have w: "er_write r < er_read r + cap" "er_slots r ! (er_write r mod cap) = e"
      using inv(8) same_fields_4 by (simp_all add: r_def [symmetric])
    have "er_slots r ! (i mod cap) = (rg_pushed s @ [e]) ! i" if "er_read r \<le> i" "i < er_write r + 1" for i
      using that inv(5,7) w by (cases "i = er_write r") (auto simp: nth_append)
    then show ?thesis
      using push_publish c2 inv w(1)
      by (auto simp: ring_inv_def Let_def r_def [symmetric] cap_def [symmetric] nth_append split: reader_phase.splits)
  next
    case pop_load
    then show ?thesis using c2 inv by (auto simp: ring_inv_def Let_def r_def [symmetric] cap_def [symmetric] split: writer_phase.splits reader_phase.splits)
  next
    case pop_resync
    with sub [of "rg_cr s"] inv have False by (simp add: r_def [symmetric] cap_def [symmetric])
    then show ?thesis ..
  next
    case (pop_start e)
    then show ?thesis using c2 inv by (auto simp: ring_inv_def Let_def r_def [symmetric] cap_def [symmetric] split: writer_phase.splits reader_phase.splits)
  next
    case (pop_field k e)
    then have c: "rg_cr s < rg_cw s" "same_fields k e (rg_pushed s ! rg_cr s)" using inv(9) by simp_all
    have "er_slots r ! (rg_cr s mod cap) = rg_pushed s ! rg_cr s" using inv(1,3,7) c(1) by simp
    then show ?thesis
      using pop_field c2 inv c2 c same_fields_store [OF c(2) pop_field(3)]
      by (auto simp: ring_inv_def Let_def r_def [symmetric] cap_def [symmetric] idx split: writer_phase.splits)
  next
    case (pop_take e)
    then have c: "rg_cr s < rg_cw s" "e = rg_pushed s ! rg_cr s" using inv(9) same_fields_4 by simp_all
    then have "rg_popped s @ [e] = take (rg_cr s + 1) (rg_pushed s)"
      using inv(3,5,6) by (simp add: take_Suc_conv_app_nth)
    then show ?thesis
      using pop_take c2 inv c(1) by (auto simp: ring_inv_def Let_def r_def [symmetric] cap_def [symmetric] split: writer_phase.splits reader_phase.splits)
  next
    case (pop_leave e)
    then show ?thesis using c2 inv by (auto simp: ring_inv_def Let_def r_def [symmetric] cap_def [symmetric] split: writer_phase.splits reader_phase.splits)
  next
    case pop_publish
    then show ?thesis
      using c2 inv by (auto simp: ring_inv_def Let_def r_def [symmetric] cap_def [symmetric] split: writer_phase.splits)
  qed
qed

section \<open>The ring is a queue\<close>

text \<open>The specification: a bounded first-in first-out queue with what was accepted and delivered.\<close>

record fifo =
  ff_queue :: "wire_event list"
  ff_pushed :: "wire_event list"
  ff_popped :: "wire_event list"

inductive fifo_step :: "nat \<Rightarrow> fifo \<Rightarrow> fifo \<Rightarrow> bool" for cap where
  fifo_push: "length (ff_queue q) < cap \<Longrightarrow> fifo_step cap q (q\<lparr>ff_queue := ff_queue q @ [e], ff_pushed := ff_pushed q @ [e]\<rparr>)"
| fifo_pop: "ff_queue q = e # es \<Longrightarrow> fifo_step cap q (q\<lparr>ff_queue := es, ff_popped := ff_popped q @ [e]\<rparr>)"

text \<open>The queue a ring in shared memory stands for: its slots from the reader's cursor to the published one.\<close>

definition ring_abs :: "ring_run \<Rightarrow> fifo" where
  "ring_abs s =
     \<lparr>ff_queue = map (\<lambda>i. er_slots (rg_ring s) ! masked (ring_cap (rg_ring s)) i) [rg_cr s ..< er_write (rg_ring s)],
      ff_pushed = rg_pushed s, ff_popped = rg_popped s\<rparr>"

lemma ring_abs_eq:
  assumes "ring_inv s"
  shows "ring_abs s = \<lparr>ff_queue = drop (rg_cr s) (rg_pushed s), ff_pushed = rg_pushed s, ff_popped = take (rg_cr s) (rg_pushed s)\<rparr>"
proof -
  let ?r = "rg_ring s"
  note i = assms [unfolded ring_inv_def Let_def]
  then obtain k where "ring_cap ?r = 2 ^ k" by blast
  note m = masked_mod [OF this]
  have "map (\<lambda>i. er_slots ?r ! masked (ring_cap ?r) i) [rg_cr s ..< er_write ?r] = map ((!) (rg_pushed s)) [rg_cr s ..< er_write ?r]"
    using i by (intro map_cong) (simp_all add: m)
  also have "\<dots> = drop (rg_cr s) (rg_pushed s)"
    using i by (intro nth_equalityI) (simp_all)
  finally show ?thesis using i by (simp add: ring_abs_def)
qed

lemma ring_step_refines:
  assumes "ring_step s s'" "ring_inv s"
  shows "ring_cap (rg_ring s') = ring_cap (rg_ring s) \<and>
    (fifo_step (ring_cap (rg_ring s)) (ring_abs s) (ring_abs s') \<or> ring_abs s' = ring_abs s)"
proof -
  note i = assms(2) [unfolded ring_inv_def Let_def]
  note a = ring_abs_eq [OF assms(2)] ring_abs_eq [OF ring_step_inv [OF assms]]
  show ?thesis
    using assms(1)
  proof cases
    case (push_publish e)
    have c: "rg_cr s \<le> length (rg_pushed s)" using i by linarith
    have "fifo_step (ring_cap (rg_ring s)) (ring_abs s)
        (ring_abs s\<lparr>ff_queue := ff_queue (ring_abs s) @ [e], ff_pushed := ff_pushed (ring_abs s) @ [e]\<rparr>)"
      by (rule fifo_push) (use push_publish(2) i in \<open>auto simp: a\<close>)
    moreover have "ring_abs s' = ring_abs s\<lparr>ff_queue := ff_queue (ring_abs s) @ [e], ff_pushed := ff_pushed (ring_abs s) @ [e]\<rparr>"
      unfolding a using push_publish(1) c by simp
    ultimately show ?thesis using push_publish(1) by simp
  next
    case (pop_take e)
    have c: "rg_cr s < length (rg_pushed s)" "e = rg_pushed s ! rg_cr s"
      using pop_take(2) i same_fields_4 by auto
    then have d: "drop (rg_cr s) (rg_pushed s) = e # drop (rg_cr s + 1) (rg_pushed s)" by (simp add: Cons_nth_drop_Suc)
    have "fifo_step (ring_cap (rg_ring s)) (ring_abs s)
        (ring_abs s\<lparr>ff_queue := drop (rg_cr s + 1) (rg_pushed s), ff_popped := ff_popped (ring_abs s) @ [e]\<rparr>)"
      by (rule fifo_pop) (simp add: a d)
    moreover have "ring_abs s' = ring_abs s\<lparr>ff_queue := drop (rg_cr s + 1) (rg_pushed s), ff_popped := ff_popped (ring_abs s) @ [e]\<rparr>"
      unfolding a using pop_take(1) c by (simp add: take_Suc_conv_app_nth)
    ultimately show ?thesis using pop_take(1) by simp
  next
    case pop_resync
    obtain k where "ring_cap (rg_ring s) < 2 ^ 64" using i by blast
    then have "wsub64 (er_write (rg_ring s)) (rg_cr s) = er_write (rg_ring s) - rg_cr s"
      using i by (intro wsub64_sub) linarith+
    with pop_resync(3) i show ?thesis by linarith
  qed (unfold a, simp_all)
qed

text \<open>C24: The event rings are lossless first-in first-out queues.  Whatever the interleaving of the single memory accesses of
  the two sides, the ring refines a bounded queue: an event is delivered whole, once, in the order of the accepted
  pushes, and no more than the capacity is ever outstanding.\<close>

theorem ring_refines_fifo:
  assumes "ring_step\<^sup>*\<^sup>* (ring_start (2 ^ k) e0) s" and "0 < k" and "k < 64"
  shows "(fifo_step (2 ^ k))\<^sup>*\<^sup>* \<lparr>ff_queue = [], ff_pushed = [], ff_popped = []\<rparr> (ring_abs s) \<and>
    rg_pushed s = rg_popped s @ ff_queue (ring_abs s) \<and> length (ff_queue (ring_abs s)) \<le> 2 ^ k"
proof -
  from assms(1) have "ring_inv s \<and> ring_cap (rg_ring s) = 2 ^ k \<and>
      (fifo_step (2 ^ k))\<^sup>*\<^sup>* \<lparr>ff_queue = [], ff_pushed = [], ff_popped = []\<rparr> (ring_abs s)"
  proof (induction rule: rtranclp_induct)
    case base
    show ?case using ring_start_inv [OF assms(2,3)] by (simp add: ring_start_def ring_abs_def ring_cap_def)
  next
    case (step s s')
    then show ?case using ring_step_refines [OF step(2)] ring_step_inv [OF step(2)] by (auto intro: rtranclp.rtrancl_into_rtrancl)
  qed
  moreover from this have "rg_pushed s = rg_popped s @ ff_queue (ring_abs s)" "length (ff_queue (ring_abs s)) \<le> 2 ^ k"
    by (auto simp: ring_abs_eq ring_inv_def Let_def)
  ultimately show ?thesis by blast
qed

section \<open>The operations are runs of the steps\<close>

lemma store_run:
  assumes "rg_writer s = WStore e 0" "er_write (rg_ring s) = w"
  shows "ring_step\<^sup>*\<^sup>* s (s\<lparr>rg_ring := (rg_ring s)\<lparr>er_slots := (er_slots (rg_ring s))[masked (ring_cap (rg_ring s)) w := e]\<rparr>, rg_writer := WStore e 4\<rparr>)"
proof -
  define i where "i = masked (ring_cap (rg_ring s)) w"
  define at where "at k x = s\<lparr>rg_ring := (rg_ring s)\<lparr>er_slots := (er_slots (rg_ring s))[i := x]\<rparr>, rg_writer := WStore e k\<rparr>" for k x
  show ?thesis
  proof (cases "i < length (er_slots (rg_ring s))")
    case True
    have st: "ring_step (at k x) (at (Suc k) (store_field k e x))" if "k < 4" for k x
      using push_store [of "at k x" e k i] that assms(2) True by (simp add: at_def i_def ring_cap_def)
    let ?x = "er_slots (rg_ring s) ! i"
    have "ring_step\<^sup>*\<^sup>* (at 0 ?x) (at 4 (store_event e ?x))"
      using st [of 0 ?x] st [of 1 "store_field 0 e ?x"] st [of 2 "store_field 1 e (store_field 0 e ?x)"]
        st [of 3 "store_field 2 e (store_field 1 e (store_field 0 e ?x))"]
      unfolding store_event_def by (simp add: numeral_eq_Suc)
    moreover have "at 0 ?x = s" using assms(1) by (simp add: at_def)
    ultimately show ?thesis by (simp add: at_def i_def)
  next
    case False
    define at where "at k = s\<lparr>rg_writer := WStore e k\<rparr>" for k
    have st: "ring_step (at k) (at (Suc k))" if "k < 4" for k
      using push_store [of "at k" e k i] that assms(2) False by (simp add: at_def i_def ring_cap_def list_update_beyond)
    have "ring_step\<^sup>*\<^sup>* (at 0) (at 4)"
      using st [of 0] st [of 1] st [of 2] st [of 3] by (simp add: numeral_eq_Suc)
    moreover have "at 0 = s" using assms(1) by (simp add: at_def)
    ultimately show ?thesis using False by (simp add: at_def i_def list_update_beyond)
  qed
qed

text \<open>A push that nobody interrupts is the function.\<close>

lemma push_event_runs:
  assumes "rg_writer s = WIdle" "push_event e (rg_ring s) = (b, r')"
  shows "ring_step\<^sup>*\<^sup>* s (s\<lparr>rg_ring := r', rg_pushed := (if b then rg_pushed s @ [e] else rg_pushed s)\<rparr>)"
proof (cases b)
  case False
  with assms(2) have "r' = rg_ring s" by (auto simp: push_event_def Let_def split: if_splits)
  with False show ?thesis by simp
next
  case True
  with assms(2) have c: "wsub64 (er_write (rg_ring s)) (er_read (rg_ring s)) < ring_cap (rg_ring s)"
    and r': "r' = rg_ring s\<lparr>er_slots := (er_slots (rg_ring s))[masked (ring_cap (rg_ring s)) (er_write (rg_ring s)) := e],
      er_write := er_write (rg_ring s) + 1\<rparr>" by (auto simp: push_event_def Let_def split: if_splits)
  let ?s1 = "s\<lparr>rg_writer := WStore e 0\<rparr>"
  let ?r = "(rg_ring s)\<lparr>er_slots := (er_slots (rg_ring s))[masked (ring_cap (rg_ring s)) (er_write (rg_ring s)) := e]\<rparr>"
  let ?s2 = "s\<lparr>rg_ring := ?r, rg_writer := WStore e 4\<rparr>"
  let ?s3 = "s\<lparr>rg_ring := r', rg_writer := WIdle, rg_pushed := rg_pushed s @ [e]\<rparr>"
  have "ring_step s ?s1" by (rule push_check [OF assms(1) c])
  moreover have "ring_step\<^sup>*\<^sup>* ?s1 ?s2" using store_run [of ?s1 e "er_write (rg_ring s)"] by simp
  moreover have "ring_step ?s2 ?s3" using push_publish [of ?s2 e] by (simp add: r')
  ultimately have "ring_step\<^sup>*\<^sup>* s ?s3" by (meson converse_rtranclp_into_rtranclp rtranclp.rtrancl_into_rtrancl)
  moreover have "?s3 = s\<lparr>rg_ring := r', rg_pushed := rg_pushed s @ [e]\<rparr>" using assms(1) by (cases s) simp
  ultimately show ?thesis using True by simp
qed

lemma load_run:
  assumes "rg_reader s = RIdle" "rg_cr s \<noteq> rg_cw s"
  shows "ring_step\<^sup>*\<^sup>* s (s\<lparr>rg_reader := RLoad 4 (er_slots (rg_ring s) ! masked (ring_cap (rg_ring s)) (rg_cr s))\<rparr>)"
proof -
  define ev where "ev = er_slots (rg_ring s) ! masked (ring_cap (rg_ring s)) (rg_cr s)"
  define at where "at k x = s\<lparr>rg_reader := RLoad k x\<rparr>" for k x
  have st: "ring_step (at k x) (at (Suc k) (store_field k ev x))" if "k < 4" for k x
    using pop_field [of "at k x" k x] that by (simp add: at_def ev_def)
  have "ring_step s (at 0 ev)" using pop_start [OF assms, of ev] by (simp add: at_def)
  moreover have "ring_step\<^sup>*\<^sup>* (at 0 ev) (at 4 (store_event ev ev))"
    using st [of 0 ev] st [of 1 "store_field 0 ev ev"] st [of 2 "store_field 1 ev (store_field 0 ev ev)"]
      st [of 3 "store_field 2 ev (store_field 1 ev (store_field 0 ev ev))"]
    unfolding store_event_def by (simp add: numeral_eq_Suc)
  ultimately show ?thesis unfolding at_def ev_def [symmetric] by (simp add: converse_rtranclp_into_rtranclp)
qed

text \<open>So is a pop, resynchronisation included.\<close>

lemma pop_event_runs:
  assumes "rg_reader s = RIdle" "pop_event (rg_cr s) (rg_ring s) = (x, rd, r')"
  shows "ring_step\<^sup>*\<^sup>* s (s\<lparr>rg_ring := r', rg_cr := rd, rg_cw := er_write (rg_ring s),
    rg_popped := rg_popped s @ (case x of None \<Rightarrow> [] | Some e \<Rightarrow> [e])\<rparr>)"
proof -
  let ?r = "rg_ring s" and ?w = "er_write (rg_ring s)"
  have idle: "s\<lparr>rg_reader := RIdle\<rparr> = s" using assms(1) by (cases s) simp
  consider "wsub64 ?w (rg_cr s) = 0" | "ring_cap ?r < wsub64 ?w (rg_cr s)" | "0 < wsub64 ?w (rg_cr s)" "wsub64 ?w (rg_cr s) \<le> ring_cap ?r"
    by linarith
  then show ?thesis
  proof cases
    case 1
    with assms(2) have "x = None" "rd = rg_cr s" "r' = ?r" by (simp_all add: pop_event_def Let_def)
    then show ?thesis using pop_load [OF assms(1)] 1 by simp
  next
    case 2
    with assms(2) have e: "x = None" "rd = ?w" "r' = ?r\<lparr>er_read := ?w\<rparr>" by (auto simp: pop_event_def Let_def)
    let ?s1 = "s\<lparr>rg_cw := ?w, rg_cr := ?w\<rparr>"
    have "ring_step s ?s1" by (rule pop_resync [OF assms(1) 2])
    moreover have "ring_step ?s1 (?s1\<lparr>rg_ring := ?r\<lparr>er_read := ?w\<rparr>\<rparr>)" using pop_publish [of ?s1] assms(1) by simp
    ultimately have "ring_step\<^sup>*\<^sup>* s (?s1\<lparr>rg_ring := ?r\<lparr>er_read := ?w\<rparr>\<rparr>)"
      by (meson converse_rtranclp_into_rtranclp rtranclp.rtrancl_refl)
    then show ?thesis unfolding e by (cases s) simp
  next
    case 3
    let ?ev = "er_slots ?r ! masked (ring_cap ?r) (rg_cr s)"
    from 3 assms(2) have e: "x = Some ?ev" "rd = rg_cr s + 1" "r' = ?r\<lparr>er_read := rg_cr s + 1\<rparr>"
      by (auto simp: pop_event_def Let_def)
    let ?s1 = "s\<lparr>rg_cw := ?w\<rparr>" and ?s3 = "s\<lparr>rg_cw := ?w, rg_cr := rg_cr s + 1, rg_popped := rg_popped s @ [?ev]\<rparr>"
    have ne: "rg_cr s \<noteq> ?w" using 3(1) by (auto simp: wsub64_def)
    have "ring_step s ?s1" by (rule pop_load [OF assms(1) 3(2)])
    moreover have "ring_step\<^sup>*\<^sup>* ?s1 (?s1\<lparr>rg_reader := RLoad 4 ?ev\<rparr>)" using load_run [of ?s1] assms(1) ne by simp
    moreover have "ring_step (?s1\<lparr>rg_reader := RLoad 4 ?ev\<rparr>) ?s3"
      using pop_take [of "?s1\<lparr>rg_reader := RLoad 4 ?ev\<rparr>" ?ev] assms(1) by (cases s) simp
    moreover have "ring_step ?s3 (?s3\<lparr>rg_ring := ?r\<lparr>er_read := rg_cr s + 1\<rparr>\<rparr>)" using pop_publish [of ?s3] assms(1) by simp
    ultimately have "ring_step\<^sup>*\<^sup>* s (?s3\<lparr>rg_ring := ?r\<lparr>er_read := rg_cr s + 1\<rparr>\<rparr>)"
      by (meson converse_rtranclp_into_rtranclp rtranclp.rtrancl_into_rtrancl)
    then show ?thesis unfolding e by (cases s) simp
  qed
qed

theorem ring_refines_fifo_witness:
  "\<exists>s. ring_step\<^sup>*\<^sup>* (ring_start (2 ^ 1) (event_param 0 0 0)) s \<and> rg_pushed s = [event_param 5 1 0] \<and>
     (fifo_step 2)\<^sup>*\<^sup>* \<lparr>ff_queue = [], ff_pushed = [], ff_popped = []\<rparr> (ring_abs s) \<and> ff_queue (ring_abs s) = [event_param 5 1 0]"
proof -
  let ?s = "ring_start (2 ^ 1) (event_param 0 0 0)" and ?e = "event_param 5 1 0"
  obtain r' where p: "push_event ?e (rg_ring ?s) = (True, r')"
    by (simp add: push_event_def ring_start_def wsub64_def ring_cap_def Let_def)
  have "rg_writer ?s = WIdle" by (simp add: ring_start_def)
  from push_event_runs [OF this p] have run: "ring_step\<^sup>*\<^sup>* ?s (?s\<lparr>rg_ring := r', rg_pushed := [?e]\<rparr>)"
    by (simp add: ring_start_def)
  from ring_refines_fifo [OF run] run show ?thesis
    by (intro exI [of _ "?s\<lparr>rg_ring := r', rg_pushed := [?e]\<rparr>"]) (simp add: ring_start_def)
qed

end
