(* ===== verification/Ipc_Channel.thy ===== *)
theory Ipc_Channel
  imports Ipc_Ring
begin

text \<open>
  The audio path between the host's audio thread and a sandboxed plugin: \<^verbatim>\<open>HostEnd::process_chunk\<close> of \<^verbatim>\<open>host.rs\<close>
  and \<^verbatim>\<open>PluginEnd::service_with_events\<close> of \<^verbatim>\<open>plugin.rs\<close>, interleaved at single memory accesses.

  Both sample rings have \<open>cap\<close> words, blocks have at most \<open>blk\<close> samples and the host reads \<open>lat\<close> samples behind.
  What the plugin answers for a chunk, whether the host waits or gives up, and what the event ring holds when a chunk
  is cut at a reset are left open.  \<open>cn_input\<close>, \<open>cn_log\<close> and \<open>cn_played\<close> record the host's input, the chunks processed
  and the blocks returned.  A position does not reach \<open>2 ^ 64\<close>.
\<close>

type_synonym sample = "32 word"

section \<open>State\<close>

text \<open>
  \<open>HWrite xs i\<close>: \<open>i\<close> samples of the block are stored.  \<open>HPoll n\<close>: the block is published, its output is waited for.
  \<open>HValid n w\<close>: \<open>wet_ready\<close> has loaded \<open>out_write_pos\<close>.  \<open>HRead n ws\<close>: the output is being read.
\<close>

datatype host_phase = HIdle | HWrite "sample list" nat | HPoll nat | HValid nat nat | HRead nat "sample list"

text \<open>
  \<open>PTop w k\<close>: the head of the chunk loop with the cursor \<open>w\<close> loaded, after \<open>k\<close> rounds.  \<open>PRead e w k xs\<close>: the chunk up to
  \<open>e\<close> is being read.  \<open>PWrite e k ys j\<close>: its output is being stored.  \<open>PPublished\<close>: \<open>out_write_pos\<close> is stored.
  \<open>PNext\<close>: the chunk is done.  \<open>PSync w i k\<close>: \<open>resync\<close> to \<open>w\<close> before its \<open>i\<close>th store.
\<close>

datatype plugin_phase =
    PIdle
  | PTop nat nat
  | PRead nat nat nat "sample list"
  | PWrite nat nat "sample list" nat
  | PPublished nat nat
  | PNext nat
  | PSync nat nat nat

record channel_run =
  cn_in :: "sample list"
  cn_out :: "sample list"
  cn_in_write :: nat
  cn_in_read :: nat
  cn_out_write :: nat
  cn_valid :: nat
  cn_overruns :: nat
  cn_pos :: nat
  cn_dry :: "sample list"
  cn_host :: host_phase
  cn_rd :: nat
  cn_plugin :: plugin_phase
  cn_input :: "sample list"
  cn_log :: "(nat \<times> sample list \<times> sample list) list"
  cn_played :: "(nat \<times> sample list \<times> sample list option) list"

text \<open>\<open>Channel::create_in\<close> and the two ends on it.\<close>

definition channel_start :: "nat \<Rightarrow> nat \<Rightarrow> channel_run" where
  "channel_start cap lat =
     \<lparr>cn_in = replicate cap 0, cn_out = replicate cap 0, cn_in_write = lat, cn_in_read = lat, cn_out_write = lat, cn_valid = 0,
      cn_overruns = 0, cn_pos = lat, cn_dry = replicate cap 0, cn_host = HIdle, cn_rd = lat, cn_plugin = PIdle,
      cn_input = [], cn_log = [], cn_played = []\<rparr>"

definition max_chunks_per_service :: nat where
  "max_chunks_per_service = 2 * ring_blocks"

section \<open>The host\<close>

text \<open>The first position of the output that belongs to the block just published.\<close>

definition block_from :: "nat \<Rightarrow> nat \<Rightarrow> channel_run \<Rightarrow> nat" where
  "block_from lat n s = cn_pos s - n - lat"

definition wet_ready :: "nat \<Rightarrow> nat \<Rightarrow> nat \<Rightarrow> nat \<Rightarrow> channel_run \<Rightarrow> bool" where
  "wet_ready w from' to published s \<longleftrightarrow> w \<ge> to \<and> cn_valid s \<le> from' \<and> w \<le> published"

definition dry_block :: "nat \<Rightarrow> nat \<Rightarrow> nat \<Rightarrow> channel_run \<Rightarrow> sample list" where
  "dry_block cap lat n s = map (\<lambda>i. cn_dry s ! masked cap (block_from lat n s + i)) [0 ..< n]"

inductive host_step :: "nat \<Rightarrow> nat \<Rightarrow> nat \<Rightarrow> channel_run \<Rightarrow> channel_run \<Rightarrow> bool" for cap blk lat where
  h_begin: "cn_host s = HIdle \<Longrightarrow> xs \<noteq> [] \<Longrightarrow> length xs \<le> blk \<Longrightarrow> cn_pos s + length xs < 2 ^ 64 \<Longrightarrow>
    host_step cap blk lat s (s\<lparr>cn_host := HWrite xs 0\<rparr>)"
| h_write: "cn_host s = HWrite xs i \<Longrightarrow> i < length xs \<Longrightarrow> idx = masked cap (cn_pos s + i) \<Longrightarrow>
    host_step cap blk lat s (s\<lparr>cn_in := (cn_in s)[idx := xs ! i], cn_dry := (cn_dry s)[idx := xs ! i],
      cn_input := cn_input s @ [xs ! i], cn_host := HWrite xs (Suc i)\<rparr>)"
| h_publish: "cn_host s = HWrite xs (length xs) \<Longrightarrow>
    host_step cap blk lat s (s\<lparr>cn_in_write := cn_pos s + length xs, cn_pos := cn_pos s + length xs, cn_host := HPoll (length xs)\<rparr>)"
| h_poll: "cn_host s = HPoll n \<Longrightarrow> host_step cap blk lat s (s\<lparr>cn_host := HValid n (cn_out_write s)\<rparr>)"
| h_ready: "cn_host s = HValid n w \<Longrightarrow> wet_ready w (block_from lat n s) (block_from lat n s + n) (cn_pos s) s \<Longrightarrow>
    host_step cap blk lat s (s\<lparr>cn_host := HRead n []\<rparr>)"
| h_late: "cn_host s = HValid n w \<Longrightarrow> \<not> wet_ready w (block_from lat n s) (block_from lat n s + n) (cn_pos s) s \<Longrightarrow>
    host_step cap blk lat s (s\<lparr>cn_host := HPoll n\<rparr>)"
| h_dry: "cn_host s = HPoll n \<Longrightarrow>
    host_step cap blk lat s (s\<lparr>cn_host := HIdle, cn_played := cn_played s @ [(block_from lat n s, dry_block cap lat n s, None)]\<rparr>)"
| h_read: "cn_host s = HRead n ws \<Longrightarrow> length ws < n \<Longrightarrow>
    host_step cap blk lat s (s\<lparr>cn_host := HRead n (ws @ [cn_out s ! masked cap (block_from lat n s + length ws)])\<rparr>)"
| h_wet: "cn_host s = HRead n ws \<Longrightarrow> length ws = n \<Longrightarrow>
    host_step cap blk lat s (s\<lparr>cn_host := HIdle, cn_played := cn_played s @ [(block_from lat n s, dry_block cap lat n s, Some ws)]\<rparr>)"

section \<open>The plugin\<close>

text \<open>The plugin may lag by at most \<open>window\<close> samples.\<close>

definition window :: "nat \<Rightarrow> nat \<Rightarrow> nat" where
  "window cap blk = cap - blk"

inductive plugin_step :: "nat \<Rightarrow> nat \<Rightarrow> channel_run \<Rightarrow> channel_run \<Rightarrow> bool" for cap blk where
  p_load: "cn_plugin s = PIdle \<Longrightarrow> cn_in_write s \<noteq> cn_rd s \<Longrightarrow> plugin_step cap blk s (s\<lparr>cn_plugin := PTop (cn_in_write s) 0\<rparr>)"
| p_done: "cn_plugin s = PTop w k \<Longrightarrow> w = cn_rd s \<or> k = max_chunks_per_service \<Longrightarrow> plugin_step cap blk s (s\<lparr>cn_plugin := PIdle\<rparr>)"
| p_overrun: "cn_plugin s = PTop w k \<Longrightarrow> w \<noteq> cn_rd s \<Longrightarrow> k < max_chunks_per_service \<Longrightarrow> wsub64 w (cn_rd s) > window cap blk \<Longrightarrow>
    plugin_step cap blk s (s\<lparr>cn_plugin := PSync w 0 k\<rparr>)"
| p_chunk: "cn_plugin s = PTop w k \<Longrightarrow> w \<noteq> cn_rd s \<Longrightarrow> k < max_chunks_per_service \<Longrightarrow> \<not> wsub64 w (cn_rd s) > window cap blk \<Longrightarrow>
    e = reset_barrier ev_rd (cn_rd s) (min w (cn_rd s + blk)) evs \<Longrightarrow> plugin_step cap blk s (s\<lparr>cn_plugin := PRead e w k []\<rparr>)"
| p_read: "cn_plugin s = PRead e w k xs \<Longrightarrow> length xs < e - cn_rd s \<Longrightarrow>
    plugin_step cap blk s (s\<lparr>cn_plugin := PRead e w k (xs @ [cn_in s ! masked cap (cn_rd s + length xs)])\<rparr>)"
| p_torn: "cn_plugin s = PRead e w k xs \<Longrightarrow> length xs = e - cn_rd s \<Longrightarrow> wsub64 (cn_in_write s) (cn_rd s) > window cap blk \<Longrightarrow>
    plugin_step cap blk s (s\<lparr>cn_plugin := PSync (cn_in_write s) 0 k\<rparr>)"
| p_call: "cn_plugin s = PRead e w k xs \<Longrightarrow> length xs = e - cn_rd s \<Longrightarrow> \<not> wsub64 (cn_in_write s) (cn_rd s) > window cap blk \<Longrightarrow>
    length ys = length xs \<Longrightarrow>
    plugin_step cap blk s (s\<lparr>cn_plugin := PWrite e k ys 0, cn_log := cn_log s @ [(cn_rd s, xs, ys)]\<rparr>)"
| p_write: "cn_plugin s = PWrite e k ys j \<Longrightarrow> j < length ys \<Longrightarrow> idx = masked cap (cn_rd s + j) \<Longrightarrow>
    plugin_step cap blk s (s\<lparr>cn_out := (cn_out s)[idx := ys ! j], cn_plugin := PWrite e k ys (Suc j)\<rparr>)"
| p_publish: "cn_plugin s = PWrite e k ys (length ys) \<Longrightarrow>
    plugin_step cap blk s (s\<lparr>cn_out_write := e, cn_plugin := PPublished e k\<rparr>)"
| p_advance: "cn_plugin s = PPublished e k \<Longrightarrow>
    plugin_step cap blk s (s\<lparr>cn_in_read := e, cn_rd := e, cn_plugin := PNext (Suc k)\<rparr>)"
| p_next: "cn_plugin s = PNext k \<Longrightarrow> plugin_step cap blk s (s\<lparr>cn_plugin := PTop (cn_in_write s) k\<rparr>)"
| p_sync_valid: "cn_plugin s = PSync w 0 k \<Longrightarrow> plugin_step cap blk s (s\<lparr>cn_valid := w, cn_plugin := PSync w 1 k\<rparr>)"
| p_sync_write: "cn_plugin s = PSync w 1 k \<Longrightarrow> plugin_step cap blk s (s\<lparr>cn_out_write := w, cn_plugin := PSync w 2 k\<rparr>)"
| p_sync_read: "cn_plugin s = PSync w 2 k \<Longrightarrow>
    plugin_step cap blk s (s\<lparr>cn_in_read := w, cn_overruns := cn_overruns s + 1, cn_rd := w, cn_plugin := PTop w (Suc k)\<rparr>)"

inductive_cases host_stepE: "host_step cap blk lat s s'"
inductive_cases plugin_stepE: "plugin_step cap blk s s'"

definition channel_step :: "nat \<Rightarrow> nat \<Rightarrow> nat \<Rightarrow> channel_run \<Rightarrow> channel_run \<Rightarrow> bool" where
  "channel_step cap blk lat s s' \<longleftrightarrow> host_step cap blk lat s s' \<or> plugin_step cap blk s s'"

definition channel_reached :: "nat \<Rightarrow> nat \<Rightarrow> nat \<Rightarrow> channel_run \<Rightarrow> bool" where
  "channel_reached cap blk lat s \<longleftrightarrow> (channel_step cap blk lat)\<^sup>*\<^sup>* (channel_start cap lat) s"

text \<open>What a layout and a configuration give.\<close>

definition geometry :: "nat \<Rightarrow> nat \<Rightarrow> nat \<Rightarrow> bool" where
  "geometry cap blk lat \<longleftrightarrow> (\<exists>k. cap = 2 ^ k) \<and> cap < 2 ^ 64 \<and> 0 < blk \<and> 8 * blk \<le> cap \<and> lat \<le> blk"

section \<open>Invariant of the input\<close>

definition sample_at :: "nat \<Rightarrow> channel_run \<Rightarrow> nat \<Rightarrow> sample" where
  "sample_at lat s q = (if q < lat then 0 else cn_input s ! (q - lat))"

definition host_end :: "channel_run \<Rightarrow> nat" where
  "host_end s = cn_pos s + (case cn_host s of HWrite _ i \<Rightarrow> i | _ \<Rightarrow> 0)"

definition host_ok :: "nat \<Rightarrow> nat \<Rightarrow> nat \<Rightarrow> channel_run \<Rightarrow> bool" where
  "host_ok cap blk lat s \<longleftrightarrow>
     length (cn_in s) = cap \<and> length (cn_dry s) = cap \<and> cn_in_write s = cn_pos s \<and> lat \<le> cn_pos s \<and> cn_pos s < 2 ^ 64 \<and>
     length (cn_input s) = host_end s - lat \<and>
     (\<forall>q < host_end s. host_end s \<le> q + cap \<longrightarrow>
        cn_in s ! (q mod cap) = sample_at lat s q \<and> cn_dry s ! (q mod cap) = sample_at lat s q) \<and>
     (case cn_host s of HIdle \<Rightarrow> True
      | HWrite xs i \<Rightarrow> i \<le> length xs \<and> length xs \<le> blk \<and> cn_pos s + length xs < 2 ^ 64
      | HPoll n \<Rightarrow> n \<le> blk \<and> lat + n \<le> cn_pos s
      | HValid n _ \<Rightarrow> n \<le> blk \<and> lat + n \<le> cn_pos s
      | HRead n _ \<Rightarrow> n \<le> blk \<and> lat + n \<le> cn_pos s)"

lemma host_step_host:
  assumes "host_step cap blk lat s s'" "host_ok cap blk lat s" "geometry cap blk lat"
  shows "host_ok cap blk lat s'"
  using assms(1)
proof cases
  case (h_write xs i idx)
  from assms(3) obtain k where g: "cap = 2 ^ k" "0 < cap" "8 * blk \<le> cap" by (auto simp: geometry_def)
  have p: "host_end s = cn_pos s + i" using h_write(2) by (simp add: host_end_def)
  have idx: "idx = host_end s mod cap" using h_write(4) masked_mod [OF g(1)] p by simp
  then have lt: "idx < cap" using g(2) by simp
  note ok = assms(2) [unfolded host_ok_def]
  have e: "host_end s' = Suc (host_end s)" using h_write p by (simp add: host_end_def)
  have len: "length (cn_input s) = host_end s - lat" "lat \<le> host_end s" using ok p by auto
  have old: "sample_at lat s' q = sample_at lat s q" if "q < host_end s" for q
    using h_write(1) len that by (auto simp: sample_at_def nth_append)
  have new: "sample_at lat s' (host_end s) = xs ! i"
    using h_write(1) len by (auto simp: sample_at_def nth_append)
  have cells: "cn_in s' ! (q mod cap) = sample_at lat s' q \<and> cn_dry s' ! (q mod cap) = sample_at lat s' q"
    if "q < Suc (host_end s)" "Suc (host_end s) \<le> q + cap" for q
  proof (cases "q = host_end s")
    case True
    then show ?thesis using new h_write(1) idx lt ok by simp
  next
    case False
    then have "q mod cap \<noteq> idx" using that mod_neq [of q "host_end s" cap] by (simp add: idx)
    moreover have "cn_in s ! (q mod cap) = sample_at lat s q" "cn_dry s ! (q mod cap) = sample_at lat s q"
      using ok that False by auto
    ultimately show ?thesis using old [of q] h_write(1) that False by (simp add: nth_list_update)
  qed
  have "length (cn_input s') = host_end s' - lat" using h_write(1) len e by simp
  then show ?thesis
    using ok h_write(1,2,3) cells unfolding host_ok_def e by simp
qed (use assms(2) in \<open>auto simp: host_ok_def host_end_def sample_at_def split: host_phase.splits\<close>)

text \<open>What each side leaves alone.\<close>

lemma plugin_frame:
  "plugin_step cap blk s s' \<Longrightarrow> cn_in s' = cn_in s \<and> cn_dry s' = cn_dry s \<and> cn_in_write s' = cn_in_write s \<and> cn_pos s' = cn_pos s \<and>
     cn_input s' = cn_input s \<and> cn_host s' = cn_host s \<and> cn_played s' = cn_played s"
  by (erule plugin_step.cases) simp_all

lemma host_frame:
  "host_step cap blk lat s s' \<Longrightarrow> cn_out s' = cn_out s \<and> cn_out_write s' = cn_out_write s \<and> cn_valid s' = cn_valid s \<and>
     cn_rd s' = cn_rd s \<and> cn_plugin s' = cn_plugin s \<and> cn_log s' = cn_log s"
  by (erule host_step.cases) simp_all

lemma plugin_step_host:
  assumes "plugin_step cap blk s s'" "host_ok cap blk lat s"
  shows "host_ok cap blk lat s'"
proof -
  note f = plugin_frame [OF assms(1)]
  have e: "host_end s' = host_end s" by (simp only: host_end_def f)
  have sa: "sample_at lat s' = sample_at lat s" by (simp add: sample_at_def fun_eq_iff f)
  have "cn_pos s' = cn_pos s" using f by simp
  then show ?thesis using assms(2) unfolding host_ok_def e sa by (simp add: f split: host_phase.splits)
qed

lemma host_grows:
  assumes "host_step cap blk lat s s'" "host_ok cap blk lat s"
  shows "cn_in_write s \<le> cn_in_write s' \<and> host_end s \<le> host_end s' \<and>
    (\<forall>q < host_end s. sample_at lat s' q = sample_at lat s q)"
  using assms(1)
proof cases
  case (h_write xs i idx)
  have "length (cn_input s) = host_end s - lat" using assms(2) by (simp add: host_ok_def)
  with h_write show ?thesis by (auto simp: host_end_def sample_at_def nth_append)
qed (use assms(2) in \<open>auto simp: host_ok_def host_end_def sample_at_def\<close>)

lemma host_end_bounds:
  "host_ok cap blk lat s \<Longrightarrow> cn_in_write s \<le> host_end s \<and> host_end s \<le> cn_in_write s + blk"
  by (auto simp: host_ok_def host_end_def split: host_phase.splits)

section \<open>Invariant of the plugin\<close>

definition plugin_ok :: "nat \<Rightarrow> nat \<Rightarrow> nat \<Rightarrow> channel_run \<Rightarrow> bool" where
  "plugin_ok cap blk lat s \<longleftrightarrow>
     lat \<le> cn_rd s \<and> cn_rd s \<le> cn_in_write s \<and> length (cn_out s) = cap \<and>
     (case cn_plugin s of
        PIdle \<Rightarrow> cn_out_write s = cn_rd s
      | PTop w k \<Rightarrow> cn_out_write s = cn_rd s \<and> cn_rd s \<le> w \<and> w \<le> cn_in_write s \<and> k \<le> max_chunks_per_service
      | PRead e w k xs \<Rightarrow> cn_out_write s = cn_rd s \<and> cn_rd s < e \<and> e \<le> cn_in_write s \<and> e \<le> cn_rd s + blk \<and>
          length xs \<le> e - cn_rd s \<and> k < max_chunks_per_service \<and>
          (\<forall>t < length xs. xs ! t = sample_at lat s (cn_rd s + t) \<or> cn_rd s + window cap blk < cn_in_write s)
      | PWrite e k ys j \<Rightarrow> cn_out_write s = cn_rd s \<and> cn_rd s < e \<and> e \<le> cn_in_write s \<and> e \<le> cn_rd s + blk \<and>
          length ys = e - cn_rd s \<and> j \<le> length ys \<and> k < max_chunks_per_service \<and> (\<exists>xs. (cn_rd s, xs, ys) \<in> set (cn_log s))
      | PPublished e k \<Rightarrow> cn_out_write s = e \<and> cn_rd s < e \<and> e \<le> cn_in_write s \<and> k < max_chunks_per_service
      | PNext k \<Rightarrow> cn_out_write s = cn_rd s \<and> k \<le> max_chunks_per_service
      | PSync w i k \<Rightarrow> cn_rd s + window cap blk < w \<and> w \<le> cn_in_write s \<and> k < max_chunks_per_service \<and> i \<le> 2 \<and>
          cn_out_write s = (if i < 2 then cn_rd s else w) \<and> (0 < i \<longrightarrow> cn_valid s = w))"

lemma host_step_plugin:
  assumes "host_step cap blk lat s s'" "host_ok cap blk lat s" "plugin_ok cap blk lat s"
  shows "plugin_ok cap blk lat s'"
proof -
  note f = host_frame [OF assms(1)] and g = host_grows [OF assms(1,2)] and b = host_end_bounds [OF assms(2)]
  show ?thesis
  proof (cases "cn_plugin s")
    case (PRead e w k xs)
    have "xs ! t = sample_at lat s' (cn_rd s + t) \<or> cn_rd s + window cap blk < cn_in_write s'" if "t < length xs" for t
    proof -
      have "cn_rd s + t < host_end s" using assms(3) PRead that b by (auto simp: plugin_ok_def)
      then have "sample_at lat s' (cn_rd s + t) = sample_at lat s (cn_rd s + t)" using g by blast
      moreover have "xs ! t = sample_at lat s (cn_rd s + t) \<or> cn_rd s + window cap blk < cn_in_write s"
        using assms(3) PRead that by (auto simp: plugin_ok_def)
      ultimately show ?thesis using g by auto
    qed
    then show ?thesis using assms(3) PRead f g by (simp add: plugin_ok_def)
  qed (use assms(3) f g in \<open>auto simp: plugin_ok_def\<close>)
qed

lemma plugin_step_plugin:
  assumes "plugin_step cap blk s s'" "host_ok cap blk lat s" "plugin_ok cap blk lat s" "geometry cap blk lat"
  shows "plugin_ok cap blk lat s'"
proof -
  from assms(4) obtain k where g: "cap = 2 ^ k" "0 < blk" "8 * blk \<le> cap" "lat \<le> blk" by (auto simp: geometry_def)
  note hb = host_end_bounds [OF assms(2)] and fr = plugin_frame [OF assms(1)]
  have sa: "sample_at lat s' q = sample_at lat s q" for q using fr by (simp add: sample_at_def)
  have big: "cn_in_write s < 2 ^ 64" using assms(2) by (simp add: host_ok_def)
  have sub: "wsub64 w (cn_rd s) = w - cn_rd s" if "cn_rd s \<le> w" "w \<le> cn_in_write s" for w
    using that big by (intro wsub64_sub) linarith+
  show ?thesis
    using assms(1)
  proof cases
    case (p_chunk w k e ev_rd evs)
    then have w: "cn_rd s < w" "w \<le> cn_in_write s" using assms(3) by (auto simp: plugin_ok_def)
    then have "cn_rd s < min w (cn_rd s + blk)" using g(2) by simp
    from reset_barrier_bounds [OF this, of ev_rd evs] p_chunk(6) have "cn_rd s < e" "e \<le> min w (cn_rd s + blk)" by simp_all
    then show ?thesis using p_chunk(1-4) w assms(3) by (auto simp: plugin_ok_def)
  next
    case (p_read e w k xs)
    then have r: "cn_rd s < e" "e \<le> cn_in_write s" "e \<le> cn_rd s + blk" using assms(3) by (auto simp: plugin_ok_def)
    let ?q = "cn_rd s + length xs"
    have q: "?q < e" using p_read(3) r by simp
    have "cn_in s ! masked cap ?q = sample_at lat s ?q" if "\<not> cn_rd s + window cap blk < cn_in_write s"
    proof -
      have "host_end s \<le> ?q + cap" using that hb g(2,3) unfolding window_def by linarith
      moreover have "?q < host_end s" using q r hb by linarith
      ultimately show ?thesis using assms(2) by (simp add: masked_mod [OF g(1)] host_ok_def)
    qed
    then have "(xs @ [cn_in s ! masked cap ?q]) ! t = sample_at lat s (cn_rd s + t) \<or> cn_rd s + window cap blk < cn_in_write s"
      if "t \<le> length xs" for t
      using that assms(3) p_read(2) by (cases "t = length xs") (auto simp: plugin_ok_def nth_append)
    moreover have "cn_plugin s' = PRead e w k (xs @ [cn_in s ! masked cap ?q])" "cn_rd s' = cn_rd s" "cn_out_write s' = cn_out_write s"
      "cn_out s' = cn_out s" "cn_in_write s' = cn_in_write s"
      using p_read(1) by simp_all
    ultimately show ?thesis using p_read(2,3) assms(3) q by (simp add: plugin_ok_def sa less_Suc_eq_le)
  next
    case (p_torn e w k xs)
    then have "cn_rd s \<le> cn_in_write s" using assms(3) by (auto simp: plugin_ok_def)
    then have "cn_rd s + window cap blk < cn_in_write s" using p_torn(4) sub [of "cn_in_write s"] by simp
    then show ?thesis using p_torn(1,2) assms(3) by (auto simp: plugin_ok_def)
  next
    case (p_overrun w k)
    then have "cn_rd s \<le> w" "w \<le> cn_in_write s" using assms(3) by (auto simp: plugin_ok_def)
    then have "cn_rd s + window cap blk < w" using p_overrun(5) sub [of w] by simp
    then show ?thesis using p_overrun(1-4) assms(3) by (auto simp: plugin_ok_def)
  next
    case (p_sync_read w k)
    then show ?thesis using assms(3) by (auto simp: plugin_ok_def)
  qed (use assms(3) in \<open>auto simp: plugin_ok_def max_chunks_per_service_def\<close>)
qed

section \<open>What was processed\<close>

definition chunk_done :: "channel_run \<Rightarrow> nat" where
  "chunk_done s = (case cn_plugin s of PWrite e _ _ _ \<Rightarrow> e | PPublished e _ \<Rightarrow> e | _ \<Rightarrow> cn_rd s)"

definition log_ok :: "nat \<Rightarrow> nat \<Rightarrow> channel_run \<Rightarrow> bool" where
  "log_ok blk lat s \<longleftrightarrow>
     (\<forall>(st, xs, ys) \<in> set (cn_log s). lat \<le> st \<and> length ys = length xs \<and> 0 < length xs \<and> length xs \<le> blk \<and>
        st + length xs \<le> chunk_done s \<and> (\<forall>t < length xs. xs ! t = sample_at lat s (st + t))) \<and>
     sorted_wrt (\<lambda>(a, xs, _) (b, _, _). a + length xs \<le> b) (cn_log s)"

lemma chunk_done_le: "plugin_ok cap blk lat s \<Longrightarrow> cn_rd s \<le> chunk_done s \<and> chunk_done s \<le> cn_in_write s"
  by (auto simp: plugin_ok_def chunk_done_def split: plugin_phase.splits)

lemma host_step_log:
  assumes "host_step cap blk lat s s'" "host_ok cap blk lat s" "plugin_ok cap blk lat s" "log_ok blk lat s"
  shows "log_ok blk lat s'"
proof -
  note f = host_frame [OF assms(1)] and g = host_grows [OF assms(1,2)]
  have "chunk_done s \<le> host_end s" using chunk_done_le [OF assms(3)] host_end_bounds [OF assms(2)] by linarith
  then have "sample_at lat s' (st + t) = sample_at lat s (st + t)" if "st + length xs \<le> chunk_done s" "t < length xs" for st t xs
    using g that by simp
  moreover have "chunk_done s' = chunk_done s" by (simp only: chunk_done_def f)
  ultimately show ?thesis using assms(4) f by (fastforce simp: log_ok_def)
qed

lemma plugin_step_log:
  assumes "plugin_step cap blk s s'" "host_ok cap blk lat s" "plugin_ok cap blk lat s" "log_ok blk lat s"
  shows "log_ok blk lat s'"
proof -
  note fr = plugin_frame [OF assms(1)]
  have sa: "sample_at lat s' q = sample_at lat s q" for q using fr by (simp add: sample_at_def)
  have keep: ?thesis if "cn_log s' = cn_log s" "chunk_done s \<le> chunk_done s'"
    using assms(4) that by (fastforce simp: log_ok_def sa)
  show ?thesis
    using assms(1)
  proof cases
    case (p_call e w k xs ys)
    then have r: "cn_rd s < e" "e \<le> cn_rd s + blk" "lat \<le> cn_rd s" "e \<le> cn_in_write s" "chunk_done s = cn_rd s"
      using assms(3) by (auto simp: plugin_ok_def chunk_done_def)
    have "wsub64 (cn_in_write s) (cn_rd s) = cn_in_write s - cn_rd s"
      using r assms(2) by (intro wsub64_sub) (auto simp: host_ok_def)
    then have "\<not> cn_rd s + window cap blk < cn_in_write s" using p_call(4) by simp
    then have "\<forall>t < length xs. xs ! t = sample_at lat s (cn_rd s + t)" using assms(3) p_call(2) by (auto simp: plugin_ok_def)
    moreover have "chunk_done s' = e" using p_call(1) by (simp add: chunk_done_def)
    ultimately have new: "lat \<le> cn_rd s \<and> length ys = length xs \<and> 0 < length xs \<and> length xs \<le> blk \<and>
        cn_rd s + length xs \<le> chunk_done s' \<and> (\<forall>t < length xs. xs ! t = sample_at lat s (cn_rd s + t))"
      using p_call(3,5) r by auto
    have old: "\<forall>(st, xs, ys) \<in> set (cn_log s). st + length xs \<le> cn_rd s" using assms(4) r(5) by (auto simp: log_ok_def)
    then have "\<forall>(st, xs, ys) \<in> set (cn_log s). st + length xs \<le> chunk_done s'" using new by fastforce
    moreover have "cn_log s' = cn_log s @ [(cn_rd s, xs, ys)]" using p_call(1) by simp
    ultimately show ?thesis
      using new old assms(4) unfolding log_ok_def sa by (auto simp: sorted_wrt_append)
  next
    case (p_advance e k)
    then show ?thesis using assms(3) by (intro keep) (auto simp: chunk_done_def plugin_ok_def)
  next
    case (p_sync_read w k)
    then show ?thesis using assms(3) by (intro keep) (auto simp: chunk_done_def plugin_ok_def)
  next
    case (p_publish e k ys)
    then show ?thesis by (intro keep) (auto simp: chunk_done_def)
  next
    case (p_write e k ys j idx)
    then show ?thesis by (intro keep) (auto simp: chunk_done_def)
  qed (rule keep; auto simp: chunk_done_def)+
qed

section \<open>What the host hears\<close>

text \<open>\<open>answered\<close>: \<open>x\<close> is the plugin's output for position \<open>q\<close>, or the silence before the first input.\<close>

definition answered :: "nat \<Rightarrow> channel_run \<Rightarrow> nat \<Rightarrow> sample \<Rightarrow> bool" where
  "answered lat s q x \<longleftrightarrow> (q < lat \<and> x = 0) \<or>
     (\<exists>st xs ys. (st, xs, ys) \<in> set (cn_log s) \<and> st \<le> q \<and> q < st + length ys \<and> x = ys ! (q - st))"

definition out_end :: "channel_run \<Rightarrow> nat" where
  "out_end s = cn_out_write s + (case cn_plugin s of PWrite _ _ _ j \<Rightarrow> j | _ \<Rightarrow> 0)"

definition out_ok :: "nat \<Rightarrow> nat \<Rightarrow> channel_run \<Rightarrow> bool" where
  "out_ok cap lat s \<longleftrightarrow>
     (\<forall>q. cn_valid s \<le> q \<and> q < out_end s \<and> out_end s \<le> q + cap \<longrightarrow> answered lat s q (cn_out s ! (q mod cap)))"

definition hears_ok :: "nat \<Rightarrow> nat \<Rightarrow> channel_run \<Rightarrow> bool" where
  "hears_ok cap lat s \<longleftrightarrow>
     (case cn_host s of
        HValid n w \<Rightarrow> w \<le> cn_out_write s
      | HRead n ws \<Rightarrow> block_from lat n s + n \<le> cn_out_write s \<and> length ws \<le> n \<and>
          (\<forall>q. block_from lat n s \<le> q \<and> q < block_from lat n s + n \<longrightarrow> answered lat s q (cn_out s ! (q mod cap))) \<and>
          (\<forall>t < length ws. answered lat s (block_from lat n s + t) (ws ! t))
      | _ \<Rightarrow> True)"

definition played_ok :: "nat \<Rightarrow> nat \<Rightarrow> channel_run \<Rightarrow> bool" where
  "played_ok blk lat s \<longleftrightarrow>
     (\<forall>(from', dry, wet) \<in> set (cn_played s). length dry \<le> blk \<and> from' + length dry \<le> cn_pos s \<and>
        (\<forall>t < length dry. dry ! t = sample_at lat s (from' + t)) \<and>
        (\<forall>ws. wet = Some ws \<longrightarrow> length ws = length dry \<and> (\<forall>t < length ws. answered lat s (from' + t) (ws ! t))))"

lemma answered_mono: "answered lat s q x \<Longrightarrow> set (cn_log s) \<subseteq> set (cn_log s') \<Longrightarrow> answered lat s' q x"
  by (auto simp: answered_def)

lemma answered_log: "cn_log s' = cn_log s \<Longrightarrow> answered lat s' = answered lat s"
  by (simp add: answered_def fun_eq_iff)

lemma log_grows: "plugin_step cap blk s s' \<Longrightarrow> set (cn_log s) \<subseteq> set (cn_log s')"
  by (erule plugin_step.cases) auto

lemma out_write_grows: "plugin_step cap blk s s' \<Longrightarrow> plugin_ok cap blk lat s \<Longrightarrow> cn_out_write s \<le> cn_out_write s'"
  by (erule plugin_step.cases) (auto simp: plugin_ok_def)

lemma host_step_out:
  assumes "host_step cap blk lat s s'" "out_ok cap lat s"
  shows "out_ok cap lat s'"
proof -
  note f = host_frame [OF assms(1)]
  have "out_end s' = out_end s" by (simp only: out_end_def f)
  moreover have "answered lat s' = answered lat s" using f by (intro answered_log) simp
  ultimately show ?thesis using assms(2) f by (simp add: out_ok_def)
qed

lemma plugin_step_out:
  assumes "plugin_step cap blk s s'" "plugin_ok cap blk lat s" "geometry cap blk lat" "out_ok cap lat s"
  shows "out_ok cap lat s'"
proof -
  from assms(3) obtain k where g: "cap = 2 ^ k" "0 < cap" by (auto simp: geometry_def)
  have keep: ?thesis if "cn_out s' = cn_out s" "cn_valid s \<le> cn_valid s'" "out_end s' = out_end s"
    using assms(4) answered_mono [OF _ log_grows [OF assms(1)]] that by (auto simp: out_ok_def)
  show ?thesis
    using assms(1)
  proof cases
    case (p_write e k ys j idx)
    then obtain xs where p: "cn_out_write s = cn_rd s" "(cn_rd s, xs, ys) \<in> set (cn_log s)" "length (cn_out s) = cap"
      using assms(2) by (auto simp: plugin_ok_def)
    have oe: "out_end s = cn_rd s + j" "out_end s' = Suc (out_end s)" using p_write p by (simp_all add: out_end_def)
    have idx: "idx = out_end s mod cap" "idx < cap" using p_write(4) masked_mod [OF g(1)] oe(1) g(2) by simp_all
    have an: "answered lat s' = answered lat s" using p_write(1) by (intro answered_log) simp
    have "answered lat s q (cn_out s' ! (q mod cap))" if "cn_valid s \<le> q" "q < Suc (out_end s)" "Suc (out_end s) \<le> q + cap" for q
    proof (cases "q = out_end s")
      case True
      then have "cn_out s' ! (q mod cap) = ys ! j" using p_write(1) idx p(3) by simp
      moreover have "answered lat s q (ys ! j)"
        unfolding answered_def using p(2) p_write(3) True oe(1)
        by (intro disjI2 exI [of _ "cn_rd s"] exI [of _ xs] exI [of _ ys]) simp
      ultimately show ?thesis by simp
    next
      case False
      then have "q mod cap \<noteq> idx" using that mod_neq [of q "out_end s" cap] by (simp add: idx(1))
      then have "cn_out s' ! (q mod cap) = cn_out s ! (q mod cap)" using p_write(1) by (simp add: nth_list_update)
      then show ?thesis using assms(4) that False by (simp add: out_ok_def)
    qed
    moreover have "cn_valid s' = cn_valid s" using p_write(1) by simp
    ultimately show ?thesis unfolding out_ok_def oe(2) an by simp
  next
    case (p_publish e k ys)
    then have "out_end s' = out_end s" using assms(2) by (simp add: out_end_def plugin_ok_def)
    then show ?thesis using p_publish by (intro keep) simp_all
  next
    case (p_sync_valid w k)
    then have "cn_valid s' = w" "out_end s' = cn_rd s" "cn_rd s < w" using assms(2) by (auto simp: out_end_def plugin_ok_def)
    then show ?thesis unfolding out_ok_def by (metis leD less_trans)
  next
    case (p_sync_write w k)
    then have "cn_valid s' = w" "out_end s' = w" using assms(2) by (auto simp: out_end_def plugin_ok_def)
    then show ?thesis unfolding out_ok_def by (metis leD)
  next
    case (p_call e w k xs ys)
    then show ?thesis by (intro keep) (simp_all add: out_end_def)
  qed (rule keep; simp add: out_end_def)+
qed

lemma block_from_end: "lat + n \<le> cn_pos s \<Longrightarrow> block_from lat n s + n + lat = cn_pos s"
  by (simp add: block_from_def)

lemma host_step_hears:
  assumes "host_step cap blk lat s s'" "host_ok cap blk lat s" "plugin_ok cap blk lat s" "geometry cap blk lat"
    "out_ok cap lat s" "hears_ok cap lat s"
  shows "hears_ok cap lat s'"
proof -
  from assms(4) obtain k where g: "cap = 2 ^ k" "8 * blk \<le> cap" "lat \<le> blk" by (auto simp: geometry_def)
  have an: "answered lat s' = answered lat s" using host_frame [OF assms(1)] by (intro answered_log) simp
  show ?thesis
    using assms(1)
  proof cases
    case (h_ready n w)
    then have w: "w \<le> cn_out_write s" "n \<le> blk" "lat + n \<le> cn_pos s" "cn_in_write s = cn_pos s"
      using assms(2,6) by (auto simp: hears_ok_def host_ok_def)
    note e = block_from_end [OF w(3)]
    have oe: "cn_out_write s \<le> out_end s" "out_end s \<le> cn_in_write s"
      using assms(3) by (auto simp: out_end_def plugin_ok_def split: plugin_phase.splits)
    have r: "cn_valid s \<le> block_from lat n s" "block_from lat n s + n \<le> w" using h_ready(3) by (simp_all add: wet_ready_def)
    have "answered lat s q (cn_out s ! (q mod cap))" if "block_from lat n s \<le> q" "q < block_from lat n s + n" for q
      using assms(5) that r w oe e g by (simp add: out_ok_def)
    moreover have "block_from lat n s' = block_from lat n s" "cn_out s' = cn_out s" "cn_host s' = HRead n []"
      "cn_out_write s' = cn_out_write s" using h_ready(1) by (simp_all add: block_from_def)
    ultimately show ?thesis using r w(1) by (simp add: hears_ok_def an)
  next
    case (h_read n ws)
    let ?q = "block_from lat n s + length ws"
    have e: "block_from lat n s' = block_from lat n s" "cn_out s' = cn_out s" "cn_out_write s' = cn_out_write s"
      "cn_host s' = HRead n (ws @ [cn_out s ! (?q mod cap)])"
      using h_read(1) masked_mod [OF g(1)] by (simp_all add: block_from_def)
    have "answered lat s (block_from lat n s + t) ((ws @ [cn_out s ! (?q mod cap)]) ! t)" if "t < Suc (length ws)" for t
      using assms(6) h_read(2,3) that by (cases "t = length ws") (auto simp: hears_ok_def nth_append)
    then show ?thesis using assms(6) h_read(2,3) by (simp add: hears_ok_def e an)
  qed (auto simp: hears_ok_def)
qed

lemma plugin_step_hears:
  assumes "plugin_step cap blk s s'" "host_ok cap blk lat s" "plugin_ok cap blk lat s" "geometry cap blk lat"
    "hears_ok cap lat s"
  shows "hears_ok cap lat s'"
proof -
  from assms(4) obtain k where g: "cap = 2 ^ k" "8 * blk \<le> cap" "lat \<le> blk" "0 < blk" by (auto simp: geometry_def)
  note f = plugin_frame [OF assms(1)] and ow = out_write_grows [OF assms(1,3)] and lg = log_grows [OF assms(1)]
  have bf: "block_from lat n s' = block_from lat n s" for n using f by (simp add: block_from_def)
  show ?thesis
  proof (cases "cn_host s")
    case (HRead n ws)
    have h: "block_from lat n s + n \<le> cn_out_write s" "n \<le> blk" "lat + n \<le> cn_pos s" "cn_in_write s = cn_pos s"
      using assms(2,5) HRead by (auto simp: hears_ok_def host_ok_def)
    note e = block_from_end [OF h(3)]
    have "cn_out s' ! (q mod cap) = cn_out s ! (q mod cap)" if q: "block_from lat n s \<le> q" "q < block_from lat n s + n" for q
      using assms(1)
    proof cases
      case (p_write e' k ys j idx)
      then have p: "cn_out_write s = cn_rd s" "cn_rd s + j < cn_in_write s" using assms(3) by (auto simp: plugin_ok_def)
      have "q < cn_rd s + j" "cn_rd s + j < q + cap" using q h e g p by linarith+
      from mod_neq [OF this] have "idx \<noteq> q mod cap" using p_write(4) masked_mod [OF g(1)] by simp
      then show ?thesis using p_write(1) by simp
    qed simp_all
    then have "\<forall>q. block_from lat n s \<le> q \<and> q < block_from lat n s + n \<longrightarrow> answered lat s' q (cn_out s' ! (q mod cap))"
      using assms(5) HRead answered_mono [OF _ lg] by (simp add: hears_ok_def)
    moreover have "\<forall>t < length ws. answered lat s' (block_from lat n s + t) (ws ! t)"
      using assms(5) HRead answered_mono [OF _ lg] by (simp add: hears_ok_def)
    moreover have "cn_host s' = HRead n ws" using f HRead by simp
    ultimately show ?thesis using assms(5) HRead ow by (simp add: hears_ok_def bf)
  next
    case (HValid n w)
    then show ?thesis using assms(5) f ow by (simp add: hears_ok_def)
  qed (use f in \<open>simp_all add: hears_ok_def\<close>)
qed

lemma plugin_step_played:
  assumes "plugin_step cap blk s s'" "played_ok blk lat s"
  shows "played_ok blk lat s'"
proof -
  note f = plugin_frame [OF assms(1)] and am = answered_mono [OF _ log_grows [OF assms(1)]]
  have sa: "sample_at lat s' = sample_at lat s" by (simp add: sample_at_def fun_eq_iff f)
  have "cn_played s' = cn_played s" "cn_pos s' = cn_pos s" using f by simp_all
  then show ?thesis using assms(2) am unfolding played_ok_def sa by (simp only:) fast
qed

lemma host_step_played:
  assumes "host_step cap blk lat s s'" "host_ok cap blk lat s" "geometry cap blk lat" "hears_ok cap lat s" "played_ok blk lat s"
  shows "played_ok blk lat s'"
proof -
  from assms(3) obtain k where g: "cap = 2 ^ k" "8 * blk \<le> cap" "lat \<le> blk" by (auto simp: geometry_def)
  note gr = host_grows [OF assms(1,2)]
  have an: "answered lat s' = answered lat s" using host_frame [OF assms(1)] by (intro answered_log) simp
  have pos: "cn_pos s \<le> cn_pos s'" using assms(1) by cases simp_all
  have he: "cn_pos s \<le> host_end s" by (simp add: host_end_def)
  have sa: "sample_at lat s' q = sample_at lat s q" if "q < cn_pos s" for q using gr he that by simp
  have old: "\<forall>(from', dry, wet) \<in> set (cn_played s). length dry \<le> blk \<and> from' + length dry \<le> cn_pos s' \<and>
        (\<forall>t < length dry. dry ! t = sample_at lat s' (from' + t)) \<and>
        (\<forall>ws. wet = Some ws \<longrightarrow> length ws = length dry \<and> (\<forall>t < length ws. answered lat s' (from' + t) (ws ! t)))"
    using assms(5) pos sa unfolding played_ok_def an by fastforce
  have new: "length (dry_block cap lat n s) \<le> blk \<and> block_from lat n s + length (dry_block cap lat n s) \<le> cn_pos s' \<and>
      (\<forall>t < length (dry_block cap lat n s). dry_block cap lat n s ! t = sample_at lat s' (block_from lat n s + t))"
    if n: "n \<le> blk" "lat + n \<le> cn_pos s" "host_end s = cn_pos s" for n
  proof -
    note e = block_from_end [OF n(2)]
    have "cn_dry s ! ((block_from lat n s + t) mod cap) = sample_at lat s' (block_from lat n s + t)" if "t < n" for t
      using assms(2) that n e g sa [of "block_from lat n s + t"] by (simp add: host_ok_def)
    then show ?thesis using n e pos by (simp add: dry_block_def masked_mod [OF g(1)])
  qed
  show ?thesis
    using assms(1)
  proof cases
    case (h_dry n)
    then have "n \<le> blk" "lat + n \<le> cn_pos s" "host_end s = cn_pos s" using assms(2) by (auto simp: host_ok_def host_end_def)
    note n = new [OF this]
    have "cn_played s' = cn_played s @ [(block_from lat n s, dry_block cap lat n s, None)]" using h_dry(1) by simp
    with old n show ?thesis unfolding played_ok_def by auto
  next
    case (h_wet n ws)
    then have b: "n \<le> blk" "lat + n \<le> cn_pos s" "host_end s = cn_pos s" using assms(2) by (auto simp: host_ok_def host_end_def)
    note n = new [OF this]
    have p: "cn_played s' = cn_played s @ [(block_from lat n s, dry_block cap lat n s, Some ws)]" using h_wet(1) by simp
    have "length ws = length (dry_block cap lat n s)" "\<forall>t < length ws. answered lat s' (block_from lat n s + t) (ws ! t)"
      using assms(4) h_wet(2,3) by (simp_all add: hears_ok_def an dry_block_def)
    with old n show ?thesis unfolding played_ok_def p by auto
  qed (use old in \<open>simp_all add: played_ok_def\<close>)
qed

section \<open>Reachable states\<close>

definition channel_ok :: "nat \<Rightarrow> nat \<Rightarrow> nat \<Rightarrow> channel_run \<Rightarrow> bool" where
  "channel_ok cap blk lat s \<longleftrightarrow> host_ok cap blk lat s \<and> plugin_ok cap blk lat s \<and> log_ok blk lat s \<and> out_ok cap lat s \<and>
     hears_ok cap lat s \<and> played_ok blk lat s"

lemma channel_step_ok:
  assumes "channel_step cap blk lat s s'" "geometry cap blk lat" "channel_ok cap blk lat s"
  shows "channel_ok cap blk lat s'"
  using assms(1) unfolding channel_step_def
proof
  assume h: "host_step cap blk lat s s'"
  show ?thesis
    using assms(3) host_step_host [OF h _ assms(2)] host_step_plugin [OF h] host_step_log [OF h] host_step_out [OF h]
      host_step_hears [OF h _ _ assms(2)] host_step_played [OF h _ assms(2)] by (simp add: channel_ok_def)
next
  assume p: "plugin_step cap blk s s'"
  show ?thesis
    using assms(3) plugin_step_host [OF p] plugin_step_plugin [OF p _ _ assms(2)] plugin_step_log [OF p]
      plugin_step_out [OF p _ assms(2)] plugin_step_hears [OF p _ _ assms(2)] plugin_step_played [OF p]
    by (simp add: channel_ok_def)
qed

lemma channel_start_ok:
  assumes "geometry cap blk lat"
  shows "channel_ok cap blk lat (channel_start cap lat)"
proof -
  from assms have "0 < cap" "lat \<le> cap" "cap < 2 ^ 64" by (auto simp: geometry_def)
  then show ?thesis
    by (auto simp: channel_ok_def channel_start_def host_ok_def host_end_def plugin_ok_def log_ok_def out_ok_def out_end_def
        hears_ok_def played_ok_def sample_at_def answered_def)
qed

lemma channel_reached_ok:
  assumes "geometry cap blk lat" "channel_reached cap blk lat s"
  shows "channel_ok cap blk lat s"
  using assms(2) unfolding channel_reached_def
  by (induction rule: rtranclp_induct) (auto intro: channel_start_ok [OF assms(1)] channel_step_ok [OF _ assms(1)])

end
