(* ===== verification/Ipc_Audio.thy ===== *)
theory Ipc_Audio
  imports Ipc_Channel
begin

text \<open>
  What the audio path promises: the plugin is handed exactly the host's samples, the host plays exactly the plugin's
  output for the positions it asks for, and a host that waits is served.  \<open>work\<close> bounds the number of memory accesses
  the plugin makes before it waits again.
\<close>

section \<open>Input and output\<close>

lemma log_sound:
  assumes "geometry cap blk lat" "channel_reached cap blk lat s" "(st, xs, ys) \<in> set (cn_log s)"
  shows "lat \<le> st \<and> 0 < length xs \<and> length xs \<le> blk \<and> st + length xs \<le> cn_in_write s \<and>
    (\<forall>t < length xs. xs ! t = cn_input s ! (st + t - lat))"
proof -
  from channel_reached_ok [OF assms(1,2)] have ok: "host_ok cap blk lat s" "plugin_ok cap blk lat s" "log_ok blk lat s"
    by (simp_all add: channel_ok_def)
  have "lat \<le> st \<and> 0 < length xs \<and> length xs \<le> blk \<and> st + length xs \<le> chunk_done s \<and> (\<forall>t < length xs. xs ! t = sample_at lat s (st + t))"
    using ok(3) assms(3) by (auto simp: log_ok_def)
  then show ?thesis using chunk_done_le [OF ok(2)] by (auto simp: sample_at_def)
qed

lemma log_in_order:
  assumes "geometry cap blk lat" "channel_reached cap blk lat s"
  shows "sorted_wrt (\<lambda>(a, xs, _) (b, _, _). a + length xs \<le> b) (cn_log s)"
  using channel_reached_ok [OF assms] by (simp add: channel_ok_def log_ok_def)

lemma played_sound:
  assumes "geometry cap blk lat" "channel_reached cap blk lat s" "(from', dry, wet) \<in> set (cn_played s)"
  shows "(\<forall>t < length dry. dry ! t = sample_at lat s (from' + t)) \<and>
    (\<forall>ws. wet = Some ws \<longrightarrow> length ws = length dry \<and> (\<forall>t < length ws. answered lat s (from' + t) (ws ! t)))"
  using channel_reached_ok [OF assms(1,2)] assms(3) by (fastforce simp: channel_ok_def played_ok_def)

section \<open>Progress\<close>

definition phase_rank :: "nat \<Rightarrow> channel_run \<Rightarrow> nat" where
  "phase_rank blk s =
     (case cn_plugin s of
        PIdle \<Rightarrow> 2 * blk + 9
      | PTop w k \<Rightarrow> if w = cn_rd s \<or> k = max_chunks_per_service then 2 * blk + 10 else 2 * blk + 8
      | PRead _ _ _ xs \<Rightarrow> 2 * blk + 7 - length xs
      | PWrite _ _ _ j \<Rightarrow> blk + 6 - j
      | PPublished _ _ \<Rightarrow> 5
      | PNext _ \<Rightarrow> 2 * blk + 11
      | PSync _ i _ \<Rightarrow> 4 - i)"

definition work :: "nat \<Rightarrow> channel_run \<Rightarrow> nat" where
  "work blk s = (cn_in_write s - cn_rd s) * (2 * blk + 16) + phase_rank blk s"

lemma work_ahead:
  assumes "cn_in_write s' = cn_in_write s" "cn_rd s < cn_rd s'" "cn_rd s' \<le> cn_in_write s" "phase_rank blk s' \<le> 2 * blk + 11"
  shows "work blk s' < work blk s"
proof -
  have "Suc (cn_in_write s - cn_rd s') \<le> cn_in_write s - cn_rd s" using assms by simp
  then have "Suc (cn_in_write s - cn_rd s') * (2 * blk + 16) \<le> (cn_in_write s - cn_rd s) * (2 * blk + 16)"
    by (rule mult_le_mono1)
  then show ?thesis using assms(1,4) by (simp add: work_def)
qed

lemma plugin_step_work:
  assumes "plugin_step cap blk s s'" "plugin_ok cap blk lat s"
  shows "work blk s' < work blk s"
proof -
  have same: ?thesis if "cn_in_write s' = cn_in_write s" "cn_rd s' = cn_rd s" "phase_rank blk s' < phase_rank blk s"
    using that by (simp add: work_def)
  show ?thesis
    using assms(1)
  proof cases
    case (p_advance e k)
    then show ?thesis using assms(2) by (intro work_ahead) (auto simp: plugin_ok_def phase_rank_def)
  next
    case (p_sync_read w k)
    then show ?thesis using assms(2) by (intro work_ahead) (auto simp: plugin_ok_def phase_rank_def)
  next
    case (p_load)
    then show ?thesis by (intro same) (auto simp: phase_rank_def max_chunks_per_service_def ring_blocks_def)
  next
    case (p_read e w k xs)
    then have "length xs < blk" using assms(2) by (auto simp: plugin_ok_def)
    then show ?thesis using p_read(1,2) by (intro same) (simp_all add: phase_rank_def)
  next
    case (p_torn e w k xs)
    then have "length xs \<le> blk" using assms(2) by (auto simp: plugin_ok_def)
    then show ?thesis using p_torn(1,2) by (intro same) (simp_all add: phase_rank_def)
  next
    case (p_call e w k xs ys)
    then have "length xs \<le> blk" using assms(2) by (auto simp: plugin_ok_def)
    then show ?thesis using p_call(1,2) by (intro same) (simp_all add: phase_rank_def)
  next
    case (p_write e k ys j idx)
    then have "j < blk" using assms(2) by (auto simp: plugin_ok_def)
    then show ?thesis using p_write(1,2) by (intro same) (simp_all add: phase_rank_def)
  next
    case (p_publish e k ys)
    then have "length ys \<le> blk" using assms(2) by (auto simp: plugin_ok_def)
    then show ?thesis using p_publish by (intro same) (simp_all add: phase_rank_def)
  qed (rule same; simp add: phase_rank_def)+
qed

text \<open>The plugin waits only when everything the host published is answered.\<close>

lemma plugin_waits:
  assumes "plugin_ok cap blk lat s" "\<nexists>s'. plugin_step cap blk s s'"
  shows "cn_plugin s = PIdle \<and> cn_out_write s = cn_in_write s"
proof (cases "cn_plugin s")
  case PIdle
  then have "cn_in_write s = cn_rd s" using assms(2) plugin_step.p_load [of s cap blk] by blast
  with PIdle show ?thesis using assms(1) by (simp add: plugin_ok_def)
next
  case (PTop w k)
  show ?thesis
  proof (cases "w = cn_rd s \<or> k = max_chunks_per_service")
    case False
    then have "w \<noteq> cn_rd s" "k < max_chunks_per_service" using assms(1) PTop by (auto simp: plugin_ok_def)
    then show ?thesis using assms(2) PTop plugin_step.p_overrun [of s w k cap blk] plugin_step.p_chunk [of s w k cap blk] by blast
  qed (use assms(2) PTop plugin_step.p_done in blast)
next
  case (PRead e w k xs)
  have l: "length xs \<le> e - cn_rd s" using assms(1) PRead by (simp add: plugin_ok_def)
  obtain ys :: "sample list" where "length ys = length xs" by blast
  then show ?thesis
    using assms(2) PRead l plugin_step.p_read [of s e w k xs cap blk] plugin_step.p_torn [of s e w k xs cap blk]
      plugin_step.p_call [of s e w k xs cap blk ys]
    by (metis le_neq_implies_less)
next
  case (PWrite e k ys j)
  then have "j \<le> length ys" using assms(1) by (simp add: plugin_ok_def)
  then show ?thesis
    using assms(2) PWrite plugin_step.p_write [of s e k ys j] plugin_step.p_publish [of s e k ys cap blk]
    by (metis le_neq_implies_less)
next
  case (PSync w i k)
  then have "i = 0 \<or> i = 1 \<or> i = 2" using assms(1) by (auto simp: plugin_ok_def)
  then show ?thesis
    using assms(2) PSync plugin_step.p_sync_valid [of s w k] plugin_step.p_sync_write [of s w k] plugin_step.p_sync_read [of s w k] by blast
qed (use assms(2) plugin_step.p_advance plugin_step.p_next in blast)+

lemma plugin_run_ok:
  assumes "(plugin_step cap blk ^^ m) s t" "geometry cap blk lat" "channel_ok cap blk lat s"
  shows "channel_ok cap blk lat t \<and> m + work blk t \<le> work blk s \<and> cn_host t = cn_host s \<and> cn_pos t = cn_pos s \<and>
    cn_in_write t = cn_in_write s"
  using assms(1)
proof (induction m arbitrary: t)
  case (Suc m)
  then obtain u where u: "(plugin_step cap blk ^^ m) s u" "plugin_step cap blk u t" by auto
  note ih = Suc.IH [OF u(1)] and fr = plugin_frame [OF u(2)]
  then have "plugin_ok cap blk lat u" by (simp add: channel_ok_def)
  from plugin_step_work [OF u(2) this] ih fr channel_step_ok [of cap blk lat u t] u(2) assms(2)
  show ?case by (auto simp: channel_step_def)
qed (use assms in simp)

text \<open>A plugin within its window never resynchronises.\<close>

lemma plugin_step_keeps_valid:
  assumes "plugin_step cap blk s s'" "plugin_ok cap blk lat s" "host_ok cap blk lat s" "cn_in_write s \<le> cn_rd s + window cap blk"
  shows "cn_valid s' = cn_valid s \<and> cn_in_write s' \<le> cn_rd s' + window cap blk"
proof -
  have big: "cn_in_write s < 2 ^ 64" using assms(3) by (simp add: host_ok_def)
  have rd: "cn_rd s \<le> cn_in_write s" using assms(2) by (simp add: plugin_ok_def)
  have sub: "wsub64 w (cn_rd s) \<le> window cap blk" if "cn_rd s \<le> w" "w \<le> cn_in_write s" for w
    using that big assms(4) wsub64_sub [of "cn_rd s" w] by simp
  show ?thesis
    using assms(1)
  proof cases
    case (p_overrun w k)
    then show ?thesis using assms(2) sub [of w] by (auto simp: plugin_ok_def)
  next
    case (p_torn e w k xs)
    then show ?thesis using rd sub [of "cn_in_write s"] by auto
  qed (use assms(2,4) in \<open>auto simp: plugin_ok_def\<close>)
qed

lemma plugin_run_keeps_valid:
  assumes "(plugin_step cap blk ^^ m) s t" "geometry cap blk lat" "channel_ok cap blk lat s" "cn_in_write s \<le> cn_rd s + window cap blk"
  shows "cn_valid t = cn_valid s \<and> cn_in_write t \<le> cn_rd t + window cap blk"
  using assms(1)
proof (induction m arbitrary: t)
  case (Suc m)
  then obtain u where u: "(plugin_step cap blk ^^ m) s u" "plugin_step cap blk u t" by auto
  from plugin_run_ok [OF u(1) assms(2,3)] have "plugin_ok cap blk lat u" "host_ok cap blk lat u" by (simp_all add: channel_ok_def)
  from plugin_step_keeps_valid [OF u(2) this] Suc.IH [OF u(1)] show ?case by simp
qed (use assms in simp)

lemma served:
  assumes "geometry cap blk lat" "channel_ok cap blk lat s" "cn_host s = HPoll n" "cn_valid s \<le> block_from lat n s"
    "cn_in_write s \<le> cn_rd s + window cap blk" "(plugin_step cap blk ^^ m) s t" "\<nexists>u. plugin_step cap blk t u"
  shows "wet_ready (cn_out_write t) (block_from lat n t) (block_from lat n t + n) (cn_pos t) t"
proof -
  note r = plugin_run_ok [OF assms(6,1,2)]
  have ok: "plugin_ok cap blk lat t" "host_ok cap blk lat t" using r by (simp_all add: channel_ok_def)
  have "cn_out_write t = cn_pos t" using plugin_waits [OF ok(1) assms(7)] ok(2) by (simp add: host_ok_def)
  moreover have "lat + n \<le> cn_pos t" using ok(2) r assms(3) by (simp add: host_ok_def)
  moreover have "cn_valid t = cn_valid s" "block_from lat n t = block_from lat n s"
    using plugin_run_keeps_valid [OF assms(6,1,2,5)] r by (simp_all add: block_from_def)
  ultimately show ?thesis using assms(4) block_from_end [of lat n t] by (simp add: wet_ready_def)
qed

section \<open>Properties\<close>

text \<open>C20: In every interleaving of the host's and the plugin's memory accesses, each chunk the plugin processes is exactly
  the samples the host published for those positions, never a block the host was overwriting, and at most \<open>max_block\<close> long;
  the chunks are in order and do not overlap.\<close>

theorem sandbox_input_not_torn:
  assumes "geometry cap blk lat" "channel_reached cap blk lat s"
  shows "(\<forall>(st, xs, ys) \<in> set (cn_log s). lat \<le> st \<and> 0 < length xs \<and> length xs \<le> blk \<and> st + length xs \<le> cn_in_write s \<and>
      xs = map (\<lambda>t. cn_input s ! (st + t - lat)) [0 ..< length xs]) \<and>
    sorted_wrt (\<lambda>(a, xs, _) (b, _, _). a + length xs \<le> b) (cn_log s)"
  using log_sound [OF assms] log_in_order [OF assms] by (auto intro!: nth_equalityI)



text \<open>C22: A host that waits for its block gets it: if the plugin has not lost it (its lag is within the window and no
  resynchronisation skipped the block), every run of the plugin reaches the block within \<open>work\<close> steps: it is no longer
  than that, and when it cannot go on the block's output is ready to be read.\<close>

theorem waiting_host_is_served:
  assumes "geometry cap blk lat" "channel_reached cap blk lat s" "cn_host s = HPoll n" "cn_valid s \<le> block_from lat n s"
    "cn_in_write s \<le> cn_rd s + window cap blk" "(plugin_step cap blk ^^ m) s t"
  shows "m \<le> work blk s \<and>
    ((\<exists>u. plugin_step cap blk t u) \<or>
     wet_ready (cn_out_write t) (block_from lat n t) (block_from lat n t + n) (cn_pos t) t)"
proof -
  note ok = channel_reached_ok [OF assms(1,2)]
  show ?thesis using plugin_run_ok [OF assms(6,1) ok] served [OF assms(1) ok assms(3-6)] by auto
qed

section \<open>A run\<close>

text \<open>Every configuration a segment accepts has a channel's geometry.\<close>

lemma config_geometry:
  assumes "config_layout c = Inr l"
  shows "geometry (ly_ring l) (cc_max_block c) (cc_latency c)"
proof -
  have "layout_ok l" "ly_max_block l = cc_max_block c" "cc_latency c \<le> cc_max_block c"
    using config_layout_ok [OF assms] config_layout_iff assms by (auto simp: config_ok_def)
  then show ?thesis by (auto simp: geometry_def layout_ok_def ring_blocks_def u32_max_def)
qed

lemma reach_host: "channel_reached cap blk lat s \<Longrightarrow> host_step cap blk lat s s' \<Longrightarrow> channel_reached cap blk lat s'"
  unfolding channel_reached_def channel_step_def by (auto intro: rtranclp.rtrancl_into_rtrancl)

lemma reach_plugin: "channel_reached cap blk lat s \<Longrightarrow> plugin_step cap blk s s' \<Longrightarrow> channel_reached cap blk lat s'"
  unfolding channel_reached_def channel_step_def by (auto intro: rtranclp.rtrancl_into_rtrancl)

text \<open>One block of one sample, with no latency, through a ring of eight.\<close>

lemma small_geometry: "geometry 8 1 0"
proof -
  have "\<exists>k. (8 :: nat) = 2 ^ k" by (rule exI [of _ 3]) simp
  then show ?thesis by (simp add: geometry_def)
qed

definition polled :: channel_run where
  "polled = (channel_start 8 0)\<lparr>cn_in := (replicate 8 0)[0 := 5], cn_dry := (replicate 8 0)[0 := 5], cn_input := [5],
     cn_in_write := 1, cn_pos := 1, cn_host := HPoll 1\<rparr>"

lemma polled_reached: "channel_reached 8 1 0 polled"
proof -
  let ?s0 = "channel_start 8 0"
  let ?s1 = "?s0\<lparr>cn_host := HWrite [5] 0\<rparr>"
  let ?s2 = "?s1\<lparr>cn_in := (cn_in ?s1)[0 := 5], cn_dry := (cn_dry ?s1)[0 := 5], cn_input := [5], cn_host := HWrite [5] 1\<rparr>"
  have "channel_reached 8 1 0 ?s0" by (simp add: channel_reached_def)
  then have "channel_reached 8 1 0 ?s1"
    by (rule reach_host) (rule h_begin, simp_all add: channel_start_def)
  then have "channel_reached 8 1 0 ?s2"
    by (rule reach_host) (use h_write [of ?s1 "[5]" 0 0 8 1 0] in \<open>simp add: channel_start_def masked_def\<close>)
  then show ?thesis
    by (rule reach_host) (use h_publish [of ?s2 "[5]" 8 1 0] in \<open>simp add: polled_def channel_start_def\<close>)
qed

lemma polled_step: "(plugin_step 8 1 ^^ 1) polled (polled\<lparr>cn_plugin := PTop 1 0\<rparr>)"
  unfolding relpowp_1 using p_load [of polled 8 1] by (simp add: polled_def channel_start_def)

lemma no_barrier: "reset_barrier 0 start fin \<lparr>er_slots = [], er_write = 0, er_read = 0\<rparr> = fin"
  by (simp add: reset_barrier_def wsub64_def ring_cap_def barrier_loop.simps)

definition answered_run :: channel_run where
  "answered_run = polled\<lparr>cn_plugin := PWrite 1 0 [7] 1, cn_log := [(0, [5], [7])], cn_out := (replicate 8 0)[0 := 7]\<rparr>"

lemma answered_run_reached: "channel_reached 8 1 0 answered_run"
proof -
  let ?s1 = "polled\<lparr>cn_plugin := PTop 1 0\<rparr>"
  let ?s2 = "polled\<lparr>cn_plugin := PRead 1 1 0 []\<rparr>"
  let ?s3 = "polled\<lparr>cn_plugin := PRead 1 1 0 [5]\<rparr>"
  let ?s4 = "polled\<lparr>cn_plugin := PWrite 1 0 [7] 0, cn_log := [(0, [5], [7])]\<rparr>"
  note d = polled_def channel_start_def max_chunks_per_service_def ring_blocks_def wsub64_def window_def masked_def
  have "channel_reached 8 1 0 ?s1"
    by (rule reach_plugin [OF polled_reached]) (use p_load [of polled 8 1] in \<open>simp add: d\<close>)
  then have "channel_reached 8 1 0 ?s2"
    by (rule reach_plugin)
      (use p_chunk [of ?s1 1 0 8 1 1 0 "\<lparr>er_slots = [], er_write = 0, er_read = 0\<rparr>"] in \<open>simp add: d no_barrier\<close>)
  then have "channel_reached 8 1 0 ?s3"
    by (rule reach_plugin) (use p_read [of ?s2 1 1 0 "[]" 8 1] in \<open>simp add: d\<close>)
  then have "channel_reached 8 1 0 ?s4"
    by (rule reach_plugin) (use p_call [of ?s3 1 1 0 "[5]" 8 1 "[7]"] in \<open>simp add: d\<close>)
  then show ?thesis
    by (rule reach_plugin) (use p_write [of ?s4 1 0 "[7]" 0 0 8 1] in \<open>simp add: d answered_run_def\<close>)
qed

lemma played_run: "\<exists>s. channel_reached 8 1 0 s \<and> cn_played s = [(0, [5], Some [7])] \<and> cn_log s = [(0, [5], [7])]"
proof -
  let ?s1 = "answered_run\<lparr>cn_out_write := 1, cn_plugin := PPublished 1 0\<rparr>"
  let ?s2 = "?s1\<lparr>cn_host := HValid 1 1\<rparr>"
  let ?s3 = "?s1\<lparr>cn_host := HRead 1 []\<rparr>"
  let ?s4 = "?s1\<lparr>cn_host := HRead 1 [7]\<rparr>"
  let ?s5 = "?s1\<lparr>cn_host := HIdle, cn_played := [(0, [5], Some [7])]\<rparr>"
  note d = answered_run_def polled_def channel_start_def block_from_def masked_def
  have "channel_reached 8 1 0 ?s1"
    by (rule reach_plugin [OF answered_run_reached]) (use p_publish [of answered_run 1 0 "[7]" 8 1] in \<open>simp add: d\<close>)
  then have "channel_reached 8 1 0 ?s2"
    by (rule reach_host) (use h_poll [of ?s1 1 8 1 0] in \<open>simp add: d\<close>)
  then have "channel_reached 8 1 0 ?s3"
    by (rule reach_host) (use h_ready [of ?s2 1 1 0 8 1] in \<open>simp add: d wet_ready_def\<close>)
  then have "channel_reached 8 1 0 ?s4"
    by (rule reach_host) (use h_read [of ?s3 1 "[]" 8 1 0] in \<open>simp add: d\<close>)
  then have "channel_reached 8 1 0 ?s5"
    by (rule reach_host) (use h_wet [of ?s4 1 "[7]" 8 1 0] in \<open>simp add: d dry_block_def\<close>)
  then show ?thesis by (rule exI [of _ ?s5, OF conjI]) (simp add: d)
qed

theorem sandbox_input_not_torn_witness:
  "\<exists>s. channel_reached 8 1 0 s \<and> cn_log s = [(0, [5], [7])] \<and> cn_input s ! 0 = 5"
proof -
  obtain s where s: "channel_reached 8 1 0 s" "cn_log s = [(0, [5], [7])]" using played_run by blast
  from sandbox_input_not_torn [OF small_geometry s(1)] s show ?thesis by auto
qed



theorem waiting_host_is_served_witness:
  "(plugin_step 8 1 ^^ 1) polled (polled\<lparr>cn_plugin := PTop 1 0\<rparr>) \<and> cn_host polled = HPoll 1 \<and> (1 :: nat) \<le> work 1 polled"
proof -
  have "(plugin_step 8 1 ^^ 1) polled (polled\<lparr>cn_plugin := PTop 1 0\<rparr>)"
    by (rule polled_step)
  moreover have "cn_host polled = HPoll 1" "cn_valid polled \<le> block_from 0 1 polled" "cn_in_write polled \<le> cn_rd polled + window 8 1"
    by (simp_all add: polled_def channel_start_def window_def)
  ultimately show ?thesis using waiting_host_is_served [OF small_geometry polled_reached] by blast
qed

end
