(* ===== verification/Ipc_Doorbell.thy ===== *)
theory Ipc_Doorbell
  imports Prelude
begin

text \<open>
  The doorbells of \<^verbatim>\<open>crates/sandbox-ipc/src/wakeup.rs\<close>: \<open>Doorbell::ring\<close> and \<open>Doorbell::wait_until\<close>, interleaved
  at single memory accesses, over a futex (\<open>FutexWakeup\<close>).

  One side waits, any number of ringers publish and ring.  \<open>db_ready\<close> is the condition waited for: ringers make it true
  before they ring, and it is another one in the next wait.  The kernel compares the word and parks in one step; \<open>wake\<close> unparks.  \<open>db_seq\<close> is the \<open>u32\<close> word;
  \<open>db_rings\<close> counts the rings and \<open>db_sampled\<close> holds their number when the waiter last sampled the word.
\<close>

definition max_wait_rounds :: nat where
  "max_wait_rounds = 64"

text \<open>\<open>RPublished\<close>: the data is out (it may or may not be what is waited for).  \<open>RRung\<close>: the word is bumped.  \<open>RWake\<close>: waiters were seen.\<close>

datatype ringer_phase = RQuiet | RPublished | RRung | RWake

text \<open>
  Round \<open>k\<close> of the waiter: \<open>WRound\<close> at its head, \<open>WSampled\<close> with the word, \<open>WNotReady\<close> after the check, \<open>WAnnounced\<close> in
  \<open>waiters\<close>, \<open>WWait\<close> about to park, \<open>WParked\<close>, \<open>WLeave\<close> (timed out or not) still announced, \<open>WLast\<close> before the final
  check.
\<close>

datatype waiter_phase =
    WRound nat
  | WSampled "32 word" nat
  | WNotReady "32 word" nat
  | WAnnounced "32 word" nat
  | WWait "32 word" nat
  | WParked "32 word" nat
  | WLeave bool nat
  | WLast
  | WReturned bool

record doorbell =
  db_seq :: "32 word"
  db_waiters :: nat
  db_ready :: bool
  db_waiter :: waiter_phase
  db_ringers :: "nat \<Rightarrow> ringer_phase"
  db_rings :: nat
  db_sampled :: nat

definition doorbell_start :: doorbell where
  "doorbell_start = \<lparr>db_seq = 0, db_waiters = 0, db_ready = False, db_waiter = WRound 0, db_ringers = (\<lambda>_. RQuiet),
     db_rings = 0, db_sampled = 0\<rparr>"

inductive ringer_step :: "doorbell \<Rightarrow> doorbell \<Rightarrow> bool" where
  r_publish: "db_ringers s i = RQuiet \<Longrightarrow> ringer_step s (s\<lparr>db_ready := db_ready s \<or> b, db_ringers := (db_ringers s)(i := RPublished)\<rparr>)"
| r_ring: "db_ringers s i = RPublished \<Longrightarrow>
    ringer_step s (s\<lparr>db_seq := db_seq s + 1, db_rings := db_rings s + 1, db_ringers := (db_ringers s)(i := RRung)\<rparr>)"
| r_none: "db_ringers s i = RRung \<Longrightarrow> db_waiters s = 0 \<Longrightarrow> ringer_step s (s\<lparr>db_ringers := (db_ringers s)(i := RQuiet)\<rparr>)"
| r_some: "db_ringers s i = RRung \<Longrightarrow> db_waiters s \<noteq> 0 \<Longrightarrow> ringer_step s (s\<lparr>db_ringers := (db_ringers s)(i := RWake)\<rparr>)"
| r_wake: "db_ringers s i = RWake \<Longrightarrow>
    ringer_step s (s\<lparr>db_ringers := (db_ringers s)(i := RQuiet),
      db_waiter := (case db_waiter s of WParked q k \<Rightarrow> WLeave False k | w \<Rightarrow> w)\<rparr>)"

inductive waiter_step :: "doorbell \<Rightarrow> doorbell \<Rightarrow> bool" where
  w_sample: "db_waiter s = WRound k \<Longrightarrow> k < max_wait_rounds \<Longrightarrow>
    waiter_step s (s\<lparr>db_waiter := WSampled (db_seq s) k, db_sampled := db_rings s\<rparr>)"
| w_rounds: "db_waiter s = WRound k \<Longrightarrow> \<not> k < max_wait_rounds \<Longrightarrow> waiter_step s (s\<lparr>db_waiter := WLast\<rparr>)"
| w_ready: "db_waiter s = WSampled q k \<Longrightarrow> db_ready s \<Longrightarrow> waiter_step s (s\<lparr>db_waiter := WReturned True\<rparr>)"
| w_unready: "db_waiter s = WSampled q k \<Longrightarrow> \<not> db_ready s \<Longrightarrow> waiter_step s (s\<lparr>db_waiter := WNotReady q k\<rparr>)"
| w_announce: "db_waiter s = WNotReady q k \<Longrightarrow>
    waiter_step s (s\<lparr>db_waiters := db_waiters s + 1, db_waiter := WAnnounced q k\<rparr>)"
| w_same: "db_waiter s = WAnnounced q k \<Longrightarrow> db_seq s = q \<Longrightarrow> waiter_step s (s\<lparr>db_waiter := WWait q k\<rparr>)"
| w_changed: "db_waiter s = WAnnounced q k \<Longrightarrow> db_seq s \<noteq> q \<Longrightarrow> waiter_step s (s\<lparr>db_waiter := WLeave False k\<rparr>)"
| w_park: "db_waiter s = WWait q k \<Longrightarrow> db_seq s = q \<Longrightarrow> waiter_step s (s\<lparr>db_waiter := WParked q k\<rparr>)"
| w_refused: "db_waiter s = WWait q k \<Longrightarrow> db_seq s \<noteq> q \<Longrightarrow> waiter_step s (s\<lparr>db_waiter := WLeave False k\<rparr>)"
| w_leave: "db_waiter s = WLeave late k \<Longrightarrow>
    waiter_step s (s\<lparr>db_waiters := db_waiters s - 1, db_waiter := (if late then WLast else WRound (k + 1))\<rparr>)"
| w_last: "db_waiter s = WLast \<Longrightarrow> waiter_step s (s\<lparr>db_waiter := WReturned (db_ready s)\<rparr>)"
| w_again: "db_waiter s = WReturned b \<Longrightarrow> waiter_step s (s\<lparr>db_waiter := WRound 0, db_ready := r\<rparr>)"

text \<open>The kernel's side of a park: spurious returns and the deadline.\<close>

inductive park_step :: "doorbell \<Rightarrow> doorbell \<Rightarrow> bool" where
  "db_waiter s = WParked q k \<Longrightarrow> park_step s (s\<lparr>db_waiter := WLeave late k\<rparr>)"

definition doorbell_step :: "doorbell \<Rightarrow> doorbell \<Rightarrow> bool" where
  "doorbell_step s s' \<longleftrightarrow> ringer_step s s' \<or> waiter_step s s' \<or> park_step s s'"

definition doorbell_reached :: "doorbell \<Rightarrow> bool" where
  "doorbell_reached s \<longleftrightarrow> doorbell_step\<^sup>*\<^sup>* doorbell_start s"

section \<open>No lost wake-up\<close>

definition announced :: "waiter_phase \<Rightarrow> bool" where
  "announced w = (case w of WAnnounced _ _ \<Rightarrow> True | WWait _ _ \<Rightarrow> True | WParked _ _ \<Rightarrow> True | WLeave _ _ \<Rightarrow> True | _ \<Rightarrow> False)"

definition sampled_word :: "waiter_phase \<Rightarrow> 32 word option" where
  "sampled_word w = (case w of WSampled q _ \<Rightarrow> Some q | WNotReady q _ \<Rightarrow> Some q | WAnnounced q _ \<Rightarrow> Some q | WWait q _ \<Rightarrow> Some q
     | WParked q _ \<Rightarrow> Some q | _ \<Rightarrow> None)"

definition found_unready :: "waiter_phase \<Rightarrow> bool" where
  "found_unready w = (case w of WNotReady _ _ \<Rightarrow> True | WAnnounced _ _ \<Rightarrow> True | WWait _ _ \<Rightarrow> True | WParked _ _ \<Rightarrow> True | _ \<Rightarrow> False)"

text \<open>Fewer than \<open>2 ^ 32\<close> rings since the waiter's sample: the word has not come round.\<close>

definition no_wrap :: "doorbell \<Rightarrow> bool" where
  "no_wrap s \<longleftrightarrow> sampled_word (db_waiter s) \<noteq> None \<longrightarrow> db_rings s < db_sampled s + 2 ^ 32"

definition doorbell_inv :: "doorbell \<Rightarrow> bool" where
  "doorbell_inv s \<longleftrightarrow>
     db_seq s = word_of_nat (db_rings s) \<and> db_sampled s \<le> db_rings s \<and>
     db_waiters s = (if announced (db_waiter s) then 1 else 0) \<and>
     (\<forall>q. sampled_word (db_waiter s) = Some q \<longrightarrow> q = word_of_nat (db_sampled s)) \<and>
     (found_unready (db_waiter s) \<and> db_ready s \<longrightarrow> (\<exists>i. db_ringers s i = RPublished) \<or> db_sampled s < db_rings s) \<and>
     (no_wrap s \<and> (\<exists>q k. db_waiter s = WParked q k) \<and> db_sampled s < db_rings s \<longrightarrow>
        (\<exists>i. db_ringers s i = RRung \<or> db_ringers s i = RWake))"

lemmas waiter_phase_defs = announced_def sampled_word_def found_unready_def

lemma word_eq_rings:
  assumes "(word_of_nat a :: 32 word) = word_of_nat b" "a \<le> b" "b < a + 2 ^ 32"
  shows "a = b"
proof -
  have "a mod 2 ^ 32 = b mod 2 ^ 32" using assms(1) by (simp add: word_of_nat_eq_iff take_bit_eq_mod)
  then have "2 ^ 32 dvd b - a" using assms(2) by (metis mod_eq_dvd_iff_nat)
  moreover have "b - a < 2 ^ 32" using assms(2,3) by simp
  ultimately have "b - a = 0" by (metis dvd_imp_le gr0I leD)
  then show ?thesis using assms(2) by simp
qed

lemma ex_other: "\<exists>j. P (f j) \<Longrightarrow> \<not> P (f i) \<Longrightarrow> \<exists>j. P ((f(i := x)) j)"
  by (metis fun_upd_other)

definition waking :: "ringer_phase \<Rightarrow> bool" where
  "waking p \<longleftrightarrow> p = RRung \<or> p = RWake"

lemma ringer_step_inv:
  assumes "ringer_step s s'" "doorbell_inv s"
  shows "doorbell_inv s'"
proof -
  have pub: "\<exists>j. db_ringers s j = RPublished \<Longrightarrow> db_ringers s i \<noteq> RPublished \<Longrightarrow> \<exists>j. ((db_ringers s)(i := x)) j = RPublished" for i x
    using ex_other [of "\<lambda>p. p = RPublished" "db_ringers s" i x] by blast
  have wak: "\<exists>j. waking (db_ringers s j) \<Longrightarrow> \<not> waking (db_ringers s i) \<Longrightarrow> \<exists>j. waking (((db_ringers s)(i := x)) j)" for i x
    using ex_other [of waking "db_ringers s" i x] by blast
  note inv = assms(2) [unfolded doorbell_inv_def no_wrap_def, folded waking_def]
  show ?thesis
    using assms(1)
  proof cases
    case (r_publish i b)
    have "\<exists>j. waking (((db_ringers s)(i := RPublished)) j)" if "\<exists>j. waking (db_ringers s j)"
      by (rule wak [OF that]) (simp add: waking_def r_publish(2))
    moreover have "\<exists>j. ((db_ringers s)(i := RPublished)) j = RPublished" by (rule exI [of _ i]) simp
    ultimately show ?thesis using inv unfolding r_publish(1) doorbell_inv_def no_wrap_def waking_def [symmetric] by simp
  next
    case (r_ring i)
    have "\<exists>j. waking (((db_ringers s)(i := RRung)) j)" by (rule exI [of _ i]) (simp add: waking_def)
    then show ?thesis using inv unfolding r_ring(1) doorbell_inv_def no_wrap_def waking_def [symmetric] by simp
  next
    case (r_none i)
    then have "\<not> announced (db_waiter s)" using inv by (simp split: if_splits)
    then have "\<nexists>q k. db_waiter s = WParked q k" by (auto simp: announced_def)
    moreover have "\<exists>j. ((db_ringers s)(i := RQuiet)) j = RPublished" if "\<exists>j. db_ringers s j = RPublished"
      by (rule pub [OF that]) (simp add: r_none(2))
    ultimately show ?thesis using inv unfolding r_none(1) doorbell_inv_def by (auto simp del: fun_upd_apply)
  next
    case (r_some i)
    have "\<exists>j. waking (((db_ringers s)(i := RWake)) j)" by (rule exI [of _ i]) (simp add: waking_def)
    moreover have "\<exists>j. ((db_ringers s)(i := RWake)) j = RPublished" if "\<exists>j. db_ringers s j = RPublished"
      by (rule pub [OF that]) (simp add: r_some(2))
    ultimately show ?thesis using inv unfolding r_some(1) doorbell_inv_def no_wrap_def waking_def [symmetric]
      by (auto simp del: fun_upd_apply)
  next
    case (r_wake i)
    have p: "\<exists>j. ((db_ringers s)(i := RQuiet)) j = RPublished" if "\<exists>j. db_ringers s j = RPublished"
      by (rule pub [OF that]) (simp add: r_wake(2))
    show ?thesis
    proof (cases "\<exists>q k. db_waiter s = WParked q k")
      case True
      then show ?thesis using inv unfolding r_wake(1) doorbell_inv_def by (auto simp: waiter_phase_defs)
    next
      case False
      then have "(case db_waiter s of WParked q k \<Rightarrow> WLeave False k | w \<Rightarrow> w) = db_waiter s" by (cases "db_waiter s") auto
      then show ?thesis using False inv p unfolding r_wake(1) doorbell_inv_def by (auto simp del: fun_upd_apply)
    qed
  qed
qed

lemma waiter_step_inv:
  assumes "waiter_step s s'" "doorbell_inv s"
  shows "doorbell_inv s'"
  using assms(1)
proof cases
  case (w_park q k)
  then have "(word_of_nat (db_sampled s) :: 32 word) = word_of_nat (db_rings s)" "db_sampled s \<le> db_rings s"
    using assms(2) by (auto simp: doorbell_inv_def waiter_phase_defs)
  note same = word_eq_rings [OF this]
  show ?thesis using w_park assms(2) same by (auto simp: doorbell_inv_def no_wrap_def waiter_phase_defs)
next
  case (w_leave late k)
  then show ?thesis using assms(2) by (cases late) (simp_all add: doorbell_inv_def waiter_phase_defs)
qed (use assms(2) in \<open>simp_all add: doorbell_inv_def waiter_phase_defs\<close>)

lemma park_step_inv: "park_step s s' \<Longrightarrow> doorbell_inv s \<Longrightarrow> doorbell_inv s'"
  by (erule park_step.cases) (auto simp: doorbell_inv_def waiter_phase_defs)

lemma doorbell_reached_inv: "doorbell_reached s \<Longrightarrow> doorbell_inv s"
  unfolding doorbell_reached_def
proof (induction rule: rtranclp_induct)
  case base
  show ?case by (simp add: doorbell_start_def doorbell_inv_def waiter_phase_defs)
next
  case (step s s')
  then show ?case using ringer_step_inv waiter_step_inv park_step_inv by (auto simp: doorbell_step_def)
qed

section \<open>Rounds\<close>

text \<open>The accesses a wait has left.\<close>

definition wait_left :: "waiter_phase \<Rightarrow> nat" where
  "wait_left w =
     (let before = \<lambda>k. 7 * (max_wait_rounds - k)
      in case w of
           WRound k \<Rightarrow> before k + 3
         | WSampled _ k \<Rightarrow> before k + 2
         | WNotReady _ k \<Rightarrow> before k + 1
         | WAnnounced _ k \<Rightarrow> before k
         | WWait _ k \<Rightarrow> before k - 1
         | WParked _ k \<Rightarrow> before k - 2
         | WLeave _ k \<Rightarrow> before k - 3
         | WLast \<Rightarrow> 2
         | WReturned _ \<Rightarrow> 0)"

definition in_round :: "waiter_phase \<Rightarrow> bool" where
  "in_round w = (case w of WSampled _ k \<Rightarrow> k < max_wait_rounds | WNotReady _ k \<Rightarrow> k < max_wait_rounds
     | WAnnounced _ k \<Rightarrow> k < max_wait_rounds | WWait _ k \<Rightarrow> k < max_wait_rounds | WParked _ k \<Rightarrow> k < max_wait_rounds
     | WLeave _ k \<Rightarrow> k < max_wait_rounds | WReturned _ \<Rightarrow> False | _ \<Rightarrow> True)"

lemma wait_left_decreases:
  assumes "waiter_step s s' \<or> park_step s s'" "in_round (db_waiter s)"
  shows "wait_left (db_waiter s') < wait_left (db_waiter s) \<and> (in_round (db_waiter s') \<or> (\<exists>b. db_waiter s' = WReturned b))"
  using assms(1)
proof
  assume "waiter_step s s'"
  then show ?thesis
    by cases (use assms(2) in \<open>auto simp: wait_left_def in_round_def Let_def max_wait_rounds_def\<close>)
next
  assume "park_step s s'"
  then show ?thesis
    by cases (use assms(2) in \<open>auto simp: wait_left_def in_round_def Let_def max_wait_rounds_def\<close>)
qed

section \<open>Properties\<close>

text \<open>C25: No wake-up is lost: whenever the waiter is parked although its condition holds, some ringer that published is still
  on its way to wake it, it will see the waiter and its wake takes the waiter out of the park (as long as fewer than
  \<open>2 ^ 32\<close> rings fall into one round).\<close>

theorem no_lost_wakeup:
  assumes "doorbell_reached s" "db_waiter s = WParked q k" "db_ready s" "db_rings s < db_sampled s + 2 ^ 32"
  shows "(\<exists>i. db_ringers s i \<in> {RPublished, RRung, RWake}) \<and> db_waiters s \<noteq> 0 \<and>
    (\<forall>i s'. db_ringers s i = RWake \<and> ringer_step s s' \<and> db_ringers s' i = RQuiet \<longrightarrow> db_waiter s' = WLeave False k)"
proof -
  note inv = doorbell_reached_inv [OF assms(1), unfolded doorbell_inv_def]
  have "\<exists>i. db_ringers s i \<in> {RPublished, RRung, RWake}"
    using inv assms(2-4) by (auto simp: waiter_phase_defs no_wrap_def)
  moreover have "db_waiters s \<noteq> 0" using inv assms(2) by (simp add: waiter_phase_defs)
  moreover have "db_waiter s' = WLeave False k" if "db_ringers s i = RWake" "ringer_step s s'" "db_ringers s' i = RQuiet" for i s'
    using that(2)
  proof cases
    case (r_wake j)
    then show ?thesis using assms(2) by simp
  qed (use that(1,3) in \<open>auto split: if_splits\<close>)
  ultimately show ?thesis by blast
qed

definition parked_early :: doorbell where
  "parked_early = doorbell_start\<lparr>db_waiters := 1, db_waiter := WParked 0 0, db_ready := True,
     db_ringers := (\<lambda>_. RQuiet)(0 := RPublished)\<rparr>"

lemma parked_early_reached: "doorbell_reached parked_early"
proof -
  let ?s = "\<lambda>w n. doorbell_start\<lparr>db_waiters := n, db_waiter := w\<rparr>"
  have go: "doorbell_reached s'" if "doorbell_reached s" "waiter_step s s' \<or> ringer_step s s'" for s s'
    using that unfolding doorbell_reached_def doorbell_step_def by (auto intro: rtranclp.rtrancl_into_rtrancl)
  have "doorbell_reached doorbell_start" by (simp add: doorbell_reached_def)
  from go [OF this] have "doorbell_reached (?s (WSampled 0 0) 0)"
    using w_sample [of doorbell_start 0] by (simp add: doorbell_start_def max_wait_rounds_def)
  from go [OF this] have "doorbell_reached (?s (WNotReady 0 0) 0)"
    using w_unready [of "?s (WSampled 0 0) 0" 0 0] by (simp add: doorbell_start_def)
  from go [OF this] have "doorbell_reached (?s (WAnnounced 0 0) 1)"
    using w_announce [of "?s (WNotReady 0 0) 0" 0 0] by (simp add: doorbell_start_def)
  from go [OF this] have "doorbell_reached (?s (WWait 0 0) 1)"
    using w_same [of "?s (WAnnounced 0 0) 1" 0 0] by (simp add: doorbell_start_def)
  from go [OF this] have "doorbell_reached (?s (WParked 0 0) 1)"
    using w_park [of "?s (WWait 0 0) 1" 0 0] by (simp add: doorbell_start_def)
  from go [OF this] show ?thesis
    using r_publish [of "?s (WParked 0 0) 1" 0 True] by (simp add: doorbell_start_def parked_early_def)
qed

theorem no_lost_wakeup_witness: "(\<exists>i. db_ringers parked_early i \<in> {RPublished, RRung, RWake}) \<and> db_waiters parked_early \<noteq> 0"
proof -
  have "db_waiter parked_early = WParked 0 0" "db_ready parked_early" "db_rings parked_early < db_sampled parked_early + 2 ^ 32"
    by (simp_all add: parked_early_def doorbell_start_def)
  from no_lost_wakeup [OF parked_early_reached this] show ?thesis by blast
qed

end
