(* ===== verification/Ipc_Monitor.thy ===== *)
theory Ipc_Monitor
  imports Ipc_Layout
begin

text \<open>
  The host's supervision of a sandbox: \<^verbatim>\<open>crates/sandbox-ipc/src/monitor.rs\<close> and the counters of
  \<^verbatim>\<open>host.rs\<close>.  A poll reads the control block and the counters at one moment; times are nanoseconds on one clock,
  so \<open>saturating_duration_since\<close> is \<open>-\<close>.  \<open>mo_bypass\<close> is the flag shared with the host's audio end, and
  \<open>mo_rings\<close> counts the rings of \<open>to_host\<close>, \<open>mo_command\<close> is the segment's \<open>host_command\<close>.
\<close>

datatype peer_status = PeerAlive | PeerExited

datatype fault = Crashed | ExitedUnasked | FailedItself | Hung nat bool

record host_counters =
  hc_blocks :: nat
  hc_wet :: nat
  hc_missed :: nat
  hc_bypassed :: nat
  hc_waited :: nat
  hc_events_dropped :: nat
  hc_misses :: nat
  hc_max_misses :: nat

datatype block_outcome = Wet | Missed | Bypassed

text \<open>The end of \<open>process_chunk\<close>: the counters after a chunk (\<open>consecutive_misses\<close> is a saturating \<open>u32\<close>).\<close>

definition count_chunk :: "bool \<Rightarrow> block_outcome \<Rightarrow> host_counters \<Rightarrow> host_counters" where
  "count_chunk waited outcome c =
     (let c1 = c\<lparr>hc_blocks := hc_blocks c + 1\<rparr>;
          c2 = (if waited then c1\<lparr>hc_waited := hc_waited c1 + 1\<rparr> else c1)
      in case outcome of
           Wet \<Rightarrow> c2\<lparr>hc_wet := hc_wet c2 + 1, hc_misses := 0\<rparr>
         | Missed \<Rightarrow>
             let m = min (hc_misses c2 + 1) u32_max
             in c2\<lparr>hc_missed := hc_missed c2 + 1, hc_misses := m, hc_max_misses := max (hc_max_misses c2) m\<rparr>
         | Bypassed \<Rightarrow> c2\<lparr>hc_bypassed := hc_bypassed c2 + 1\<rparr>)"

text \<open>What one poll sees.\<close>

record sighting =
  sg_heartbeat :: nat
  sg_state :: nat
  sg_in_call :: nat
  sg_overruns :: nat
  sg_pid :: nat
  sg_counters :: host_counters
  sg_peer :: peer_status
  sg_now :: nat

record monitor =
  mo_timeout :: nat
  mo_last_heartbeat :: nat
  mo_last_change :: nat
  mo_last_missed :: nat
  mo_shutdown :: bool
  mo_fault :: "fault option"
  mo_bypass :: bool
  mo_rings :: nat
  mo_command :: nat

definition monitor_new :: "nat \<Rightarrow> nat \<Rightarrow> monitor" where
  "monitor_new hang_timeout now =
     \<lparr>mo_timeout = hang_timeout, mo_last_heartbeat = 0, mo_last_change = now, mo_last_missed = 0, mo_shutdown = False,
      mo_fault = None, mo_bypass = False, mo_rings = 0, mo_command = cmd_run\<rparr>"

record health =
  he_fault :: "fault option"
  he_new_fault :: "fault option"
  he_state :: peer_state
  he_heartbeat :: nat
  he_counters :: host_counters
  he_new_misses :: nat
  he_overruns :: nat
  he_pid :: nat

definition bypass_now :: "monitor \<Rightarrow> monitor" where
  "bypass_now m = (if mo_bypass m then m else m\<lparr>mo_bypass := True, mo_rings := mo_rings m + 1\<rparr>)"

definition detect :: "sighting \<Rightarrow> monitor \<Rightarrow> fault option" where
  "detect g m =
     (let state = peer_state_from_u32 (sg_state g)
      in if sg_peer g = PeerExited \<or> peer_is_done state then
           (if state = PeerFailed then Some FailedItself
            else if mo_shutdown m then None
            else if state = Stopped then Some ExitedUnasked
            else Some Crashed)
         else if state = Running \<and> \<not> mo_shutdown m then
           let stale = sg_now g - mo_last_change m
           in (if stale \<ge> mo_timeout m then Some (Hung stale (sg_in_call g \<noteq> 0)) else None)
         else None)"

definition poll_at :: "sighting \<Rightarrow> monitor \<Rightarrow> health \<times> monitor" where
  "poll_at g m =
     (let state = peer_state_from_u32 (sg_state g);
          m1 = (if sg_heartbeat g \<noteq> mo_last_heartbeat m \<or> state = Created
                then m\<lparr>mo_last_heartbeat := sg_heartbeat g, mo_last_change := sg_now g\<rparr> else m);
          m2 = (if sg_peer g = PeerExited then bypass_now m1 else m1);
          (new_fault, m3) =
            (if mo_fault m2 = None then
               case detect g m2 of
                 Some f \<Rightarrow> (Some f, (bypass_now m2)\<lparr>mo_fault := Some f\<rparr>)
               | None \<Rightarrow> (None, m2)
             else (None, m2));
          missed = hc_missed (sg_counters g)
      in (\<lparr>he_fault = mo_fault m3, he_new_fault = new_fault, he_state = state, he_heartbeat = sg_heartbeat g,
           he_counters = sg_counters g, he_new_misses = missed - mo_last_missed m3, he_overruns = sg_overruns g,
           he_pid = sg_pid g\<rparr>,
          m3\<lparr>mo_last_missed := missed\<rparr>))"

definition request_shutdown :: "monitor \<Rightarrow> monitor" where
  "request_shutdown m = m\<lparr>mo_shutdown := True, mo_command := cmd_shutdown\<rparr>"

definition force_bypass :: "monitor \<Rightarrow> monitor" where
  "force_bypass m = bypass_now m"

section \<open>A monitor at work\<close>

datatype monitor_op = Poll sighting | Shutdown | ForceBypass

fun monitor_run :: "monitor_op list \<Rightarrow> monitor \<Rightarrow> health list \<times> monitor" where
  "monitor_run [] m = ([], m)"
| "monitor_run (Poll g # ops) m =
     (case poll_at g m of (h, m1) \<Rightarrow> case monitor_run ops m1 of (hs, m2) \<Rightarrow> (h # hs, m2))"
| "monitor_run (Shutdown # ops) m = monitor_run ops (request_shutdown m)"
| "monitor_run (ForceBypass # ops) m = monitor_run ops (force_bypass m)"

lemma bypass_now_simps [simp]:
  "mo_bypass (bypass_now m)" "mo_fault (bypass_now m) = mo_fault m" "mo_shutdown (bypass_now m) = mo_shutdown m"
  "mo_last_heartbeat (bypass_now m) = mo_last_heartbeat m" "mo_last_change (bypass_now m) = mo_last_change m"
  "mo_timeout (bypass_now m) = mo_timeout m" "mo_last_missed (bypass_now m) = mo_last_missed m"
  by (simp_all add: bypass_now_def)

text \<open>A known fault bypasses, and stays.\<close>

definition faults_bypass :: "monitor \<Rightarrow> bool" where
  "faults_bypass m \<longleftrightarrow> (mo_fault m \<noteq> None \<longrightarrow> mo_bypass m)"

lemma poll_at_fault:
  assumes "poll_at g m = (h, m')"
  shows "he_fault h = mo_fault m'" "mo_fault m \<noteq> None \<Longrightarrow> mo_fault m' = mo_fault m \<and> he_new_fault h = None"
    "mo_fault m = None \<Longrightarrow> he_new_fault h = mo_fault m'" "faults_bypass m \<Longrightarrow> faults_bypass m'" "mo_bypass m \<Longrightarrow> mo_bypass m'"
  using assms by (auto simp: poll_at_def Let_def faults_bypass_def bypass_now_def split: if_splits option.splits)

lemma monitor_run_sticky:
  assumes "monitor_run ops m = (hs, m')"
  shows "(faults_bypass m \<longrightarrow> faults_bypass m') \<and> (mo_bypass m \<longrightarrow> mo_bypass m') \<and>
    (mo_fault m \<noteq> None \<longrightarrow> mo_fault m' = mo_fault m \<and> (\<forall>h \<in> set hs. he_fault h = mo_fault m \<and> he_new_fault h = None))"
  using assms
proof (induction ops m arbitrary: hs m' rule: monitor_run.induct)
  case (2 g ops m)
  obtain h m1 where p: "poll_at g m = (h, m1)" by fastforce
  obtain hs2 where r: "monitor_run ops m1 = (hs2, m')" "hs = h # hs2" using 2 p by (auto split: prod.splits)
  from "2.IH" [OF p [symmetric] r(1)] poll_at_fault [OF p] r(2) show ?case by auto
qed (auto simp: request_shutdown_def force_bypass_def faults_bypass_def)

definition fault_reports :: "health list \<Rightarrow> fault list" where
  "fault_reports hs = List.map_filter he_new_fault hs"

lemma monitor_run_reports:
  assumes "monitor_run ops m = (hs, m')" "mo_fault m = None"
  shows "fault_reports hs = (case mo_fault m' of None \<Rightarrow> [] | Some f \<Rightarrow> [f])"
  using assms
proof (induction ops m arbitrary: hs m' rule: monitor_run.induct)
  case (2 g ops m)
  obtain h m1 where p: "poll_at g m = (h, m1)" by fastforce
  obtain hs2 where r: "monitor_run ops m1 = (hs2, m')" "hs = h # hs2" using 2 p by (auto split: prod.splits)
  note nf = poll_at_fault(3) [OF p "2.prems"(2)]
  show ?case
  proof (cases "mo_fault m1")
    case None
    then show ?thesis using "2.IH" [OF p [symmetric] r(1)] nf r(2) by (simp add: fault_reports_def List.map_filter_simps)
  next
    case (Some f)
    then have s: "mo_fault m' = Some f" "\<forall>h \<in> set hs2. he_new_fault h = None" using monitor_run_sticky [OF r(1)] by auto
    from s(2) have "List.map_filter he_new_fault hs2 = []"
      by (induction hs2) (simp_all add: List.map_filter_simps)
    then show ?thesis using nf s(1) Some r(2) by (simp add: fault_reports_def List.map_filter_simps)
  qed
qed (auto simp: fault_reports_def List.map_filter_simps request_shutdown_def force_bypass_def)

section \<open>Hangs\<close>

text \<open>What the polls see while the plugin hangs: it runs, its process is there and its heartbeat stands at \<open>b\<close>.\<close>

definition hanging :: "nat \<Rightarrow> sighting \<Rightarrow> bool" where
  "hanging b g \<longleftrightarrow> sg_heartbeat g = b \<and> peer_state_from_u32 (sg_state g) = Running \<and> sg_peer g = PeerAlive"

lemma poll_hanging:
  assumes "poll_at g m = (h, m')" "hanging b g" "\<not> mo_shutdown m" "mo_fault m = None"
  shows "mo_last_heartbeat m' = b" "mo_timeout m' = mo_timeout m" "\<not> mo_shutdown m'"
    "mo_last_change m' = (if b = mo_last_heartbeat m then mo_last_change m else sg_now g)"
    "mo_fault m' = (if sg_now g - mo_last_change m' \<ge> mo_timeout m
       then Some (Hung (sg_now g - mo_last_change m') (sg_in_call g \<noteq> 0)) else None)"
  using assms
  by (auto simp: poll_at_def Let_def hanging_def detect_def peer_is_done_def split: if_splits option.splits)

lemma hang_found:
  assumes "monitor_run (map Poll gs) m = (hs, m')" "\<forall>g \<in> set gs. hanging b g" "\<not> mo_shutdown m" "mo_fault m = None"
    "mo_last_heartbeat m = b"
  shows "if \<exists>g \<in> set gs. mo_timeout m \<le> sg_now g - mo_last_change m
    then \<exists>g \<in> set gs. mo_timeout m \<le> sg_now g - mo_last_change m \<and>
      mo_fault m' = Some (Hung (sg_now g - mo_last_change m) (sg_in_call g \<noteq> 0))
    else mo_fault m' = None"
  using assms
proof (induction gs arbitrary: m hs)
  case (Cons g gs)
  obtain h m1 where p: "poll_at g m = (h, m1)" by fastforce
  obtain hs2 where r: "monitor_run (map Poll gs) m1 = (hs2, m')" using Cons.prems(1) p by (auto split: prod.splits)
  have hg: "hanging b g" "\<forall>g \<in> set gs. hanging b g" using Cons.prems(2) by simp_all
  note ph = poll_hanging [OF p hg(1) Cons.prems(3,4)]
  have lc: "mo_last_change m1 = mo_last_change m" using ph(4) Cons.prems(5) by simp
  show ?case
  proof (cases "mo_fault m1")
    case None
    then have n: "\<not> mo_timeout m \<le> sg_now g - mo_last_change m" using ph(5) lc by (auto split: if_splits)
    from Cons.IH [OF r hg(2) ph(3) None ph(1), unfolded lc ph(2)] n show ?thesis by (auto split: if_splits)
  next
    case (Some f)
    then have "mo_fault m' = Some f" using monitor_run_sticky [OF r] by simp
    then show ?thesis using Some ph(5) lc by (auto split: if_splits)
  qed
qed simp

section \<open>Properties\<close>

text \<open>A sandbox's fault is reported exactly once, never replaced or forgotten, and from then on the audio end is bypassed,
  whatever is polled, shut down or forced afterwards.\<close>

theorem fault_reported_once:
  assumes "monitor_run ops (monitor_new timeout now) = (hs, m)" "monitor_run later m = (hs2, m2)"
  shows "fault_reports hs = (case mo_fault m of None \<Rightarrow> [] | Some f \<Rightarrow> [f]) \<and>
    (mo_fault m \<noteq> None \<longrightarrow> mo_bypass m2 \<and> mo_fault m2 = mo_fault m \<and> fault_reports hs2 = [])"
proof -
  have n: "mo_fault (monitor_new timeout now) = None" "faults_bypass (monitor_new timeout now)"
    by (simp_all add: monitor_new_def faults_bypass_def)
  have "fault_reports hs2 = []" if "\<forall>h \<in> set hs2. he_new_fault h = None"
    using that by (induction hs2) (simp_all add: fault_reports_def List.map_filter_simps)
  then show ?thesis
    using monitor_run_reports [OF assms(1) n(1)] monitor_run_sticky [OF assms(1)] monitor_run_sticky [OF assms(2)] n
    by (auto simp: faults_bypass_def)
qed

text \<open>C28: A hang is found: once a running plugin's heartbeat stands still, the first poll at least the hang timeout after the
  last change seen reports \<open>Hung\<close> with how long it stood; and no hang is reported before the timeout has passed.\<close>

theorem hang_is_reported:
  assumes "monitor_run (map Poll gs) m = (hs, m')" "\<forall>g \<in> set gs. hanging (mo_last_heartbeat m) g" "\<not> mo_shutdown m"
    "mo_fault m = None"
  shows "if \<exists>g \<in> set gs. mo_timeout m \<le> sg_now g - mo_last_change m
    then \<exists>g \<in> set gs. mo_timeout m \<le> sg_now g - mo_last_change m \<and>
      mo_fault m' = Some (Hung (sg_now g - mo_last_change m) (sg_in_call g \<noteq> 0))
    else mo_fault m' = None"
  by (rule hang_found [OF assms refl])

definition no_counts :: host_counters where
  "no_counts = \<lparr>hc_blocks = 0, hc_wet = 0, hc_missed = 0, hc_bypassed = 0, hc_waited = 0, hc_events_dropped = 0, hc_misses = 0,
     hc_max_misses = 0\<rparr>"

definition running_at :: "nat \<Rightarrow> nat \<Rightarrow> sighting" where
  "running_at beat now = \<lparr>sg_heartbeat = beat, sg_state = 1, sg_in_call = 1, sg_overruns = 0, sg_pid = 9, sg_counters = no_counts,
     sg_peer = PeerAlive, sg_now = now\<rparr>"

theorem fault_reported_once_witness:
  "\<exists>hs m. monitor_run [Poll (running_at 5 10), Poll (running_at 5 400)] (monitor_new 250 0) = (hs, m) \<and>
     fault_reports hs = [Hung 390 True]"
proof -
  obtain hs m where r: "monitor_run [Poll (running_at 5 10), Poll (running_at 5 400)] (monitor_new 250 0) = (hs, m)" by fastforce
  have "mo_fault m = Some (Hung 390 True)"
    using r by (auto simp: poll_at_def detect_def Let_def monitor_new_def running_at_def peer_state_from_u32_def peer_is_done_def
        bypass_now_def)
  with fault_reported_once [OF r, of "[]"] r show ?thesis by auto
qed

theorem hang_is_reported_witness:
  "\<exists>hs m. monitor_run (map Poll [running_at 5 100, running_at 5 400]) ((monitor_new 250 0)\<lparr>mo_last_heartbeat := 5\<rparr>) = (hs, m) \<and>
     mo_fault m = Some (Hung 400 True)"
proof -
  let ?m = "(monitor_new 250 0)\<lparr>mo_last_heartbeat := 5\<rparr>"
  let ?gs = "[running_at 5 100, running_at 5 400]"
  obtain hs m where r: "monitor_run (map Poll ?gs) ?m = (hs, m)" by fastforce
  have "\<forall>g \<in> set ?gs. hanging (mo_last_heartbeat ?m) g"
    by (simp add: hanging_def running_at_def peer_state_from_u32_def monitor_new_def)
  from hang_is_reported [OF r this] show ?thesis
    unfolding r by (simp add: monitor_new_def running_at_def)
qed

end
