(* ===== verification/Ipc_Control.thy ===== *)
theory Ipc_Control
  imports Store_Data
begin

text \<open>
  The control channel of a sandboxed plugin: the frames of \<^verbatim>\<open>crates/sandbox-ipc/src/control.rs\<close>.

  A pipe is the list of what its next reads answer: some bytes, an interruption or an error; past the last answer a
  read returns no bytes, the end of the stream.  \<open>read\<close> hands out at most the bytes asked for and keeps the rest.
  The writer is a parameter: \<open>put\<close> is its \<open>write_all\<close> and \<open>flush\<close> its \<open>flush\<close>.
\<close>

datatype pipe_error = Interrupted | UnexpectedEof | InvalidData string | PipeFailed nat

datatype read_answer = Gives "byte list" | Interrupts | Breaks pipe_error

type_synonym pipe = "read_answer list"

definition max_frame_bytes :: nat where
  "max_frame_bytes = 67108864"

record ctl_frame =
  fr_json :: "byte list"
  fr_payload :: "byte list"

section \<open>Writing\<close>

definition write_frame ::
    "(byte list \<Rightarrow> 'w \<Rightarrow> (pipe_error + unit) \<times> 'w) \<Rightarrow> ('w \<Rightarrow> (pipe_error + unit) \<times> 'w) \<Rightarrow> byte list \<Rightarrow> byte list \<Rightarrow>
     'w \<Rightarrow> (pipe_error + unit) \<times> 'w" where
  "write_frame put flush json payload w =
     (let total = 4 + length json + length payload
      in if total > max_frame_bytes then (Inl (InvalidData ''control frame too large''), w)
         else let header = u32_le total @ u32_le (length json)
              in case put header w of
                   (Inl e, w1) \<Rightarrow> (Inl e, w1)
                 | (Inr _, w1) \<Rightarrow>
                     (case put json w1 of
                        (Inl e, w2) \<Rightarrow> (Inl e, w2)
                      | (Inr _, w2) \<Rightarrow>
                          (case put payload w2 of
                             (Inl e, w3) \<Rightarrow> (Inl e, w3)
                           | (Inr _, w3) \<Rightarrow> flush w3)))"

section \<open>Reading\<close>

fun read_some :: "nat \<Rightarrow> pipe \<Rightarrow> (pipe_error + byte list) \<times> pipe" where
  "read_some want [] = (Inr [], [])"
| "read_some want (Gives bs # r) = (Inr (take want bs), if want < length bs then Gives (drop want bs) # r else r)"
| "read_some want (Interrupts # r) = (Inl Interrupted, r)"
| "read_some want (Breaks e # r) = (Inl e, r)"

lemma read_some_le: "length (snd (read_some want r)) \<le> length r"
  by (cases "(want, r)" rule: read_some.cases) auto

lemma read_some_error: "read_some want r = (Inl e, r') \<Longrightarrow> length r' < length r"
  by (cases "(want, r)" rule: read_some.cases) auto

lemma read_some_bytes: "read_some want r = (Inr bs, r') \<Longrightarrow> length bs \<le> want \<and> length r' \<le> length r"
  by (cases "(want, r)" rule: read_some.cases) (auto split: if_splits)

text \<open>The length loop of \<open>read_frame\<close>: an end of stream before the first byte is a clean one.\<close>

function read_len :: "byte list \<Rightarrow> pipe \<Rightarrow> (pipe_error + byte list option) \<times> pipe" where
  "read_len got r =
     (if length got < 4 then
        case read_some (4 - length got) r of
          (Inr bs, r') \<Rightarrow>
            if bs = [] then (if got = [] then (Inr None, r') else (Inl UnexpectedEof, r'))
            else read_len (got @ bs) r'
        | (Inl e, r') \<Rightarrow> if e = Interrupted then read_len got r' else (Inl e, r')
      else (Inr (Some got), r))"
  by pat_completeness auto
termination
proof (relation "measure (\<lambda>(got, r). length r + (4 - length got))", goal_cases)
  case (2 got r x r' e)
  then have "read_some (4 - length got) r = (Inl e, r')" by simp
  from read_some_error [OF this] show ?case by simp
next
  case (3 got r x r' bs)
  then have "read_some (4 - length got) r = (Inr bs, r')" by simp
  from read_some_bytes [OF this] 3 show ?case by (cases bs) auto
qed simp

text \<open>\<open>Read::read_exact\<close>.\<close>

function read_exact :: "nat \<Rightarrow> byte list \<Rightarrow> pipe \<Rightarrow> (pipe_error + byte list) \<times> pipe" where
  "read_exact n got r =
     (if length got < n then
        case read_some (n - length got) r of
          (Inr bs, r') \<Rightarrow> if bs = [] then (Inl UnexpectedEof, r') else read_exact n (got @ bs) r'
        | (Inl e, r') \<Rightarrow> if e = Interrupted then read_exact n got r' else (Inl e, r')
      else (Inr got, r))"
  by pat_completeness auto
termination
proof (relation "measure (\<lambda>(n, got, r). length r + (n - length got))", goal_cases)
  case (2 n got r x r' e)
  then have "read_some (n - length got) r = (Inl e, r')" by simp
  from read_some_error [OF this] show ?case by simp
next
  case (3 n got r x r' bs)
  then have "read_some (n - length got) r = (Inr bs, r')" by simp
  from read_some_bytes [OF this] 3 show ?case by (cases bs) auto
qed simp

declare read_len.simps [simp del] read_exact.simps [simp del]

definition read_frame :: "pipe \<Rightarrow> (pipe_error + ctl_frame option) \<times> pipe" where
  "read_frame r =
     (case read_len [] r of
        (Inl e, r1) \<Rightarrow> (Inl e, r1)
      | (Inr None, r1) \<Rightarrow> (Inr None, r1)
      | (Inr (Some len), r1) \<Rightarrow>
          let total = u32_of_le len
          in if \<not> (4 \<le> total \<and> total \<le> max_frame_bytes) then (Inl (InvalidData ''bad control frame length''), r1)
             else case read_exact total [] r1 of
                    (Inl e, r2) \<Rightarrow> (Inl e, r2)
                  | (Inr body, r2) \<Rightarrow>
                      let json_len = u32_of_le (take 4 body)
                      in if json_len > total - 4 then (Inl (InvalidData ''bad control frame json length''), r2)
                         else (Inr (Some \<lparr>fr_json = drop 4 (take (4 + json_len) body), fr_payload = drop (4 + json_len) body\<rparr>), r2))"

section \<open>A pipe that works\<close>

definition answer_bytes :: "read_answer \<Rightarrow> byte list" where
  "answer_bytes a = (case a of Gives bs \<Rightarrow> bs | _ \<Rightarrow> [])"

definition pipe_bytes :: "pipe \<Rightarrow> byte list" where
  "pipe_bytes r = concat (map answer_bytes r)"

text \<open>Any cuts into reads, with any interruptions, and no error.\<close>

definition steady :: "pipe \<Rightarrow> bool" where
  "steady r \<longleftrightarrow> (\<forall>a \<in> set r. case a of Gives bs \<Rightarrow> bs \<noteq> [] | Interrupts \<Rightarrow> True | Breaks _ \<Rightarrow> False)"

lemma pipe_bytes_simps [simp]:
  "pipe_bytes [] = []" "pipe_bytes (Gives bs # r) = bs @ pipe_bytes r" "pipe_bytes (Interrupts # r) = pipe_bytes r"
  by (simp_all add: pipe_bytes_def answer_bytes_def)

lemma steady_simps [simp]:
  "steady []" "steady (Gives bs # r) \<longleftrightarrow> bs \<noteq> [] \<and> steady r" "steady (Interrupts # r) \<longleftrightarrow> steady r" "\<not> steady (Breaks e # r)"
  by (auto simp: steady_def)

text \<open>One read of a working pipe: interrupted, at the end, or some of the next bytes.\<close>

lemma read_some_steady:
  assumes "steady r" "0 < want"
  obtains r' where "read_some want r = (Inl Interrupted, r')" "pipe_bytes r' = pipe_bytes r" "steady r'"
  | "read_some want r = (Inr [], [])" "pipe_bytes r = []"
  | bs r' where "read_some want r = (Inr bs, r')" "bs \<noteq> []" "length bs \<le> want" "pipe_bytes r = bs @ pipe_bytes r'" "steady r'"
proof (cases "(want, r)" rule: read_some.cases)
  case (2 w bs q)
  then have q: "r = Gives bs # q" "w = want" by simp_all
  show ?thesis
  proof (cases "want < length bs")
    case True
    then show ?thesis using assms q that(3) [of "take want bs" "Gives (drop want bs) # q"] by auto
  next
    case False
    then show ?thesis using assms q that(3) [of bs q] by auto
  qed
qed (use assms that in auto)

lemma read_len_steady:
  assumes "steady r" "length got \<le> 4"
  shows "(got = [] \<and> pipe_bytes r = [] \<longrightarrow> fst (read_len got r) = Inr None) \<and>
    (4 \<le> length got + length (pipe_bytes r) \<longrightarrow> (\<exists>r'. read_len got r = (Inr (Some (got @ take (4 - length got) (pipe_bytes r))), r') \<and>
       steady r' \<and> pipe_bytes r' = drop (4 - length got) (pipe_bytes r))) \<and>
    (0 < length got + length (pipe_bytes r) \<and> length got + length (pipe_bytes r) < 4 \<longrightarrow> fst (read_len got r) = Inl UnexpectedEof)"
  using assms
proof (induction got r rule: read_len.induct)
  case (1 got r)
  show ?case
  proof (cases "length got < 4")
    case False
    then show ?thesis using "1.prems" by (subst (1 2 3) read_len.simps) auto
  next
    case True
    from True have w: "0 < 4 - length got" by simp
    show ?thesis
    proof (rule read_some_steady [OF "1.prems"(1) w])
      fix r' assume r: "read_some (4 - length got) r = (Inl Interrupted, r')" "pipe_bytes r' = pipe_bytes r" "steady r'"
      then have e: "read_len got r = read_len got r'" using True by (subst read_len.simps) simp
      show ?thesis unfolding e using "1.IH"(1) [OF True r(1) [symmetric] refl refl r(3)] "1.prems" r by simp
    next
      assume r: "read_some (4 - length got) r = (Inr [], [])" "pipe_bytes r = []"
      have e: "read_len got r = (if got = [] then (Inr None, []) else (Inl UnexpectedEof, []))"
        using True by (subst read_len.simps) (simp only: r(1) if_True prod.case sum.case refl)
      show ?thesis unfolding e using True r(2) by simp
    next
      fix bs r' assume r: "read_some (4 - length got) r = (Inr bs, r')" "bs \<noteq> []" "length bs \<le> 4 - length got"
        "pipe_bytes r = bs @ pipe_bytes r'" "steady r'"
      then have "read_len got r = read_len (got @ bs) r'" using True by (subst read_len.simps) simp
      moreover have "length (got @ bs) \<le> 4" using r(3) True by simp
      ultimately show ?thesis using "1.IH"(2) [OF True r(1) [symmetric] refl r(2) r(5)] r by (simp add: add.assoc)
    qed
  qed
qed

lemma read_exact_steady:
  assumes "steady r" "length got \<le> n"
  shows "(n \<le> length got + length (pipe_bytes r) \<longrightarrow> (\<exists>r'. read_exact n got r = (Inr (got @ take (n - length got) (pipe_bytes r)), r') \<and>
       steady r' \<and> pipe_bytes r' = drop (n - length got) (pipe_bytes r))) \<and>
    (length got + length (pipe_bytes r) < n \<longrightarrow> fst (read_exact n got r) = Inl UnexpectedEof)"
  using assms
proof (induction n got r rule: read_exact.induct)
  case (1 n got r)
  show ?case
  proof (cases "length got < n")
    case False
    then show ?thesis using "1.prems" by (subst (1 2) read_exact.simps) auto
  next
    case True
    from True have w: "0 < n - length got" by simp
    show ?thesis
    proof (rule read_some_steady [OF "1.prems"(1) w])
      fix r' assume r: "read_some (n - length got) r = (Inl Interrupted, r')" "pipe_bytes r' = pipe_bytes r" "steady r'"
      then have "read_exact n got r = read_exact n got r'" using True by (subst read_exact.simps) simp
      then show ?thesis using "1.IH"(1) [OF True r(1) [symmetric] refl refl r(3)] "1.prems" r by simp
    next
      assume "read_some (n - length got) r = (Inr [], [])" "pipe_bytes r = []"
      then show ?thesis using True by (subst (1 2) read_exact.simps) simp
    next
      fix bs r' assume r: "read_some (n - length got) r = (Inr bs, r')" "bs \<noteq> []" "length bs \<le> n - length got"
        "pipe_bytes r = bs @ pipe_bytes r'" "steady r'"
      then have "read_exact n got r = read_exact n (got @ bs) r'" using True by (subst read_exact.simps) simp
      moreover have "length (got @ bs) \<le> n" using r(3) True by simp
      ultimately show ?thesis using "1.IH"(2) [OF True r(1) [symmetric] refl r(2) r(5)] r by (simp add: add.assoc)
    qed
  qed
qed

section \<open>Frames\<close>

definition frame_bytes :: "ctl_frame \<Rightarrow> byte list" where
  "frame_bytes f = u32_le (4 + length (fr_json f) + length (fr_payload f)) @ u32_le (length (fr_json f)) @ fr_json f @ fr_payload f"

definition frame_ok :: "ctl_frame \<Rightarrow> bool" where
  "frame_ok f \<longleftrightarrow> 4 + length (fr_json f) + length (fr_payload f) \<le> max_frame_bytes"

lemma write_frame_ok:
  assumes "\<And>bs w. put bs w = (Inr (), w @ bs)" "\<And>w. flush w = (Inr (), w)"
  shows "write_frame put flush (fr_json f) (fr_payload f) w =
    (if frame_ok f then (Inr (), w @ frame_bytes f) else (Inl (InvalidData ''control frame too large''), w))"
  by (simp add: write_frame_def assms frame_ok_def frame_bytes_def Let_def)

lemma read_frame_ok:
  assumes "steady r" "frame_ok f" "pipe_bytes r = frame_bytes f @ rest"
  shows "\<exists>r'. read_frame r = (Inr (Some f), r') \<and> steady r' \<and> pipe_bytes r' = rest"
proof -
  let ?n = "4 + length (fr_json f) + length (fr_payload f)"
  let ?body = "u32_le (length (fr_json f)) @ fr_json f @ fr_payload f"
  have n: "?n \<le> max_frame_bytes" "?n < 2 ^ 32" "length (fr_json f) < 2 ^ 32"
    using assms(2) by (auto simp: frame_ok_def max_frame_bytes_def)
  have b: "pipe_bytes r = u32_le ?n @ ?body @ rest" using assms(3) by (simp add: frame_bytes_def)
  from read_len_steady [OF assms(1), of "[]"] b obtain r1 where
    r1: "read_len [] r = (Inr (Some (u32_le ?n)), r1)" "steady r1" "pipe_bytes r1 = ?body @ rest" by auto
  have "length ?body = ?n" by simp
  then obtain r2 where r2: "read_exact ?n [] r1 = (Inr ?body, r2)" "steady r2" "pipe_bytes r2 = rest"
    using read_exact_steady [OF r1(2), of "[]" ?n] r1(3) by auto
  show ?thesis
    using r1 r2 n by (simp add: read_frame_def Let_def u32_of_le_u32_le)
qed

lemma read_frame_end: "steady r \<Longrightarrow> pipe_bytes r = [] \<Longrightarrow> fst (read_frame r) = Inr None"
  using read_len_steady [of r "[]"] by (cases "read_len [] r") (auto simp: read_frame_def)

text \<open>A stream that ends inside a frame.\<close>

lemma read_frame_cut:
  assumes "steady r" "frame_ok f" "frame_bytes f = pipe_bytes r @ lost" "pipe_bytes r \<noteq> []" "lost \<noteq> []"
  shows "fst (read_frame r) = Inl UnexpectedEof"
proof (cases "length (pipe_bytes r) < 4")
  case True
  have "0 < length (pipe_bytes r)" using assms(4) by simp
  then have "fst (read_len [] r) = Inl UnexpectedEof" using read_len_steady [OF assms(1), of "[]"] True by simp
  then show ?thesis by (cases "read_len [] r") (simp add: read_frame_def)
next
  case False
  let ?n = "4 + length (fr_json f) + length (fr_payload f)"
  have n: "?n \<le> max_frame_bytes" "?n < 2 ^ 32" using assms(2) by (auto simp: frame_ok_def max_frame_bytes_def)
  have "take 4 (frame_bytes f) = take 4 (pipe_bytes r)" using False unfolding assms(3) by simp
  then have t: "take 4 (pipe_bytes r) = u32_le ?n" by (simp add: frame_bytes_def)
  have l: "length (pipe_bytes r) < 4 + ?n"
  proof -
    have "length (frame_bytes f) = 4 + ?n" by (simp add: frame_bytes_def)
    then show ?thesis using arg_cong [OF assms(3), of length] assms(5) by (cases lost) simp_all
  qed
  from read_len_steady [OF assms(1), of "[]"] False obtain r1 where
    r1: "read_len [] r = (Inr (Some (u32_le ?n)), r1)" "steady r1" "pipe_bytes r1 = drop 4 (pipe_bytes r)" by (auto simp: t)
  then have "fst (read_exact ?n [] r1) = Inl UnexpectedEof"
    using read_exact_steady [OF r1(2), of "[]" ?n] l False by simp
  then show ?thesis using r1 n by (cases "read_exact ?n [] r1") (simp add: read_frame_def Let_def u32_of_le_u32_le)
qed

section \<open>A conversation\<close>

text \<open>The host's side writes messages, the sandbox's loop reads them until the stream ends or fails.\<close>

fun write_frames where
  "write_frames put flush [] w = (Inr (), w)"
| "write_frames put flush (f # fs) w =
     (case write_frame put flush (fr_json f) (fr_payload f) w of
        (Inl e, w1) \<Rightarrow> (Inl e, w1)
      | (Inr _, w1) \<Rightarrow> write_frames put flush fs w1)"

fun read_frames :: "nat \<Rightarrow> pipe \<Rightarrow> ctl_frame list \<times> (pipe_error + ctl_frame option) \<times> pipe" where
  "read_frames 0 r = ([], read_frame r)"
| "read_frames (Suc n) r =
     (case read_frame r of
        (Inr (Some f), r') \<Rightarrow> (case read_frames n r' of (fs, res) \<Rightarrow> (f # fs, res))
      | res \<Rightarrow> ([], res))"

lemma write_frames_ok:
  assumes "\<And>bs w. put bs w = (Inr (), w @ bs)" "\<And>w. flush w = (Inr (), w)"
  shows "list_all frame_ok fs \<Longrightarrow> write_frames put flush fs w = (Inr (), w @ concat (map frame_bytes fs))"
  by (induction fs arbitrary: w) (simp_all add: write_frame_ok [OF assms])

lemma read_frames_ok:
  "steady r \<Longrightarrow> list_all frame_ok fs \<Longrightarrow> pipe_bytes r = concat (map frame_bytes fs) \<Longrightarrow>
   \<exists>r'. read_frames (length fs) r = (fs, Inr None, r')"
proof (induction fs arbitrary: r)
  case Nil
  then show ?case using read_frame_end [of r] by (cases "read_frame r") simp
next
  case (Cons f fs)
  then obtain r1 where r1: "read_frame r = (Inr (Some f), r1)" "steady r1" "pipe_bytes r1 = concat (map frame_bytes fs)"
    using read_frame_ok [of r f "concat (map frame_bytes fs)"] by auto
  with Cons.IH [OF r1(2)] Cons.prems show ?case by auto
qed

text \<open>C27: Whatever frames one side writes (each within the size limit), the other side reads back exactly, in order, and then
  the clean end of the stream: however the pipe cuts the bytes into reads and however often a read is interrupted.\<close>

theorem control_frames_roundtrip:
  assumes "\<And>bs w. put bs w = (Inr (), w @ bs)" "\<And>w. flush w = (Inr (), w)" "list_all frame_ok fs"
    "write_frames put flush fs [] = (res, sent)" "steady r" "pipe_bytes r = sent"
  shows "res = Inr () \<and> (\<exists>r'. read_frames (length fs) r = (fs, Inr None, r'))"
  using write_frames_ok [OF assms(1,2,3), of "[]"] read_frames_ok [OF assms(5,3)] assms(4,6) by simp

text \<open>A stream that breaks off inside a frame is an \<open>UnexpectedEof\<close> error, never a frame and never a clean end, at
  whichever byte it breaks off.\<close>

theorem cut_frame_is_an_error:
  assumes "steady r" "frame_ok f" "frame_bytes f = pipe_bytes r @ lost" "pipe_bytes r \<noteq> []" "lost \<noteq> []"
  shows "fst (read_frame r) = Inl UnexpectedEof"
  by (rule read_frame_cut [OF assms])

definition buffer_put :: "byte list \<Rightarrow> byte list \<Rightarrow> (pipe_error + unit) \<times> byte list" where
  "buffer_put bs w = (Inr (), w @ bs)"

definition hello_frame :: ctl_frame where
  "hello_frame = \<lparr>fr_json = [123, 125], fr_payload = [9]\<rparr>"

definition hello_pipe :: pipe where
  "hello_pipe = [Gives [7, 0], Interrupts, Gives [0, 0, 2, 0, 0, 0, 123], Gives [125, 9]]"

lemma hello_bytes: "pipe_bytes hello_pipe = frame_bytes hello_frame"
  by (simp add: hello_pipe_def hello_frame_def frame_bytes_def u32_le_def f32_le_def drop_bit_eq_div)

theorem control_frames_roundtrip_witness:
  "\<exists>r'. read_frames 1 hello_pipe = ([hello_frame], Inr None, r')"
proof -
  have ok: "list_all frame_ok [hello_frame]" by (simp add: hello_frame_def frame_ok_def max_frame_bytes_def)
  have w: "write_frames buffer_put (\<lambda>w. (Inr (), w)) [hello_frame] [] = (Inr (), pipe_bytes hello_pipe)"
    using write_frames_ok [of buffer_put "\<lambda>w. (Inr (), w)", OF _ _ ok, of "[]"] by (simp add: buffer_put_def hello_bytes)
  have "steady hello_pipe" by (simp add: hello_pipe_def)
  from control_frames_roundtrip [of buffer_put "\<lambda>w. (Inr (), w)", OF _ _ ok w this] show ?thesis
    by (simp add: buffer_put_def)
qed

theorem cut_frame_is_an_error_witness: "fst (read_frame [Gives [7, 0, 0], Interrupts, Gives [0, 2]]) = Inl UnexpectedEof"
proof (rule cut_frame_is_an_error [where f = hello_frame and lost = "[0, 0, 0, 123, 125, 9]"])
  show "frame_bytes hello_frame = pipe_bytes [Gives [7, 0, 0], Interrupts, Gives [0, 2]] @ [0, 0, 0, 123, 125, 9]"
    unfolding hello_bytes [symmetric] by (simp add: hello_pipe_def)
qed (simp_all add: hello_frame_def frame_ok_def max_frame_bytes_def)

end
