(* ===== verification/Transport.thy ===== *)
theory Transport
  imports Prelude
begin

text \<open>
  The playback state machine of the engine: \<^verbatim>\<open>crates/engine/src/transport.rs\<close>.

  Positions and lengths are sample counts.  The control thread sends commands and answers to the output thread's events:
  a stop fade that finished (\<open>on_stopped\<close>), a pass that ended (\<open>on_ended\<close>), a stream that closed.  \<open>epoch\<close> numbers the
  passes in a \<open>u32\<close> that skips 0.
\<close>

section \<open>State\<close>

datatype transport_cmd = Play | Pause | PlayPause | Stop | PlayFromStart | ReturnToStart | Seek nat

datatype action = StartAction nat nat bool | SeekAction nat nat | StopAction

datatype stop_kind = PauseStop | FullStop

record transport =
  tp_playing :: bool
  tp_playhead :: nat
  tp_play_start :: nat
  tp_display_pos :: nat
  tp_epoch :: nat
  tp_len :: nat
  tp_selection :: "(nat \<times> nat) option"
  tp_rack_pos :: "nat option"
  tp_awaiting :: "(nat \<times> stop_kind) option"
  tp_loop :: bool

definition transport_default :: transport where
  "transport_default =
     \<lparr>tp_playing = False, tp_playhead = 0, tp_play_start = 0, tp_display_pos = 0, tp_epoch = 0, tp_len = 0,
      tp_selection = None, tp_rack_pos = None, tp_awaiting = None, tp_loop = False\<rparr>"

section \<open>Operations\<close>

definition set_loop_enabled :: "bool \<Rightarrow> transport \<Rightarrow> transport" where
  "set_loop_enabled on t = t\<lparr>tp_loop := on\<rparr>"

definition loop_region :: "nat \<Rightarrow> transport \<Rightarrow> (nat \<times> nat) option" where
  "loop_region min_len t =
     (if \<not> tp_loop t \<or> tp_len t = 0 then None
      else case tp_selection t of
             Some (s, e) \<Rightarrow> if e - s \<ge> max min_len 1 then Some (s, e) else Some (0, tp_len t)
           | None \<Rightarrow> Some (0, tp_len t))"

text \<open>\<open>wrapping_add(1).max(1)\<close> on a \<open>u32\<close>.\<close>

definition next_epoch :: "transport \<Rightarrow> nat \<times> transport" where
  "next_epoch t = (let e = max ((tp_epoch t + 1) mod 2 ^ 32) 1 in (e, t\<lparr>tp_epoch := e\<rparr>))"

definition next_run_epoch :: "transport \<Rightarrow> nat \<times> transport" where
  "next_run_epoch t = next_epoch (t\<lparr>tp_rack_pos := None, tp_awaiting := None\<rparr>)"

definition play :: "bool \<Rightarrow> transport \<Rightarrow> action option \<times> transport" where
  "play can_play t =
     (if tp_playing t \<or> \<not> can_play \<or> tp_len t = 0 then (None, t)
      else
        let pos = (if tp_playhead t \<ge> tp_len t then 0 else tp_playhead t)
        in case next_epoch t of
             (epoch, t1) \<Rightarrow>
               let t2 = t1\<lparr>tp_playing := True, tp_play_start := pos, tp_display_pos := pos, tp_playhead := pos, tp_awaiting := None\<rparr>;
                   reset = (tp_rack_pos t2 \<noteq> Some pos)
               in (Some (StartAction epoch pos reset), t2))"

definition pause :: "nat \<Rightarrow> bool \<Rightarrow> transport \<Rightarrow> action option \<times> transport" where
  "pause heard alive t =
     (if \<not> tp_playing t then (None, t)
      else (Some StopAction,
            t\<lparr>tp_playing := False, tp_playhead := min heard (tp_len t), tp_rack_pos := None,
              tp_awaiting := (if alive then Some (tp_epoch t, PauseStop) else None)\<rparr>))"

definition stop :: "bool \<Rightarrow> transport \<Rightarrow> action option \<times> transport" where
  "stop alive t =
     (if \<not> tp_playing t then (None, t)
      else (Some StopAction,
            t\<lparr>tp_playing := False, tp_playhead := tp_play_start t, tp_rack_pos := None,
              tp_awaiting := (if alive then Some (tp_epoch t, FullStop) else None)\<rparr>))"

definition seek :: "nat \<Rightarrow> transport \<Rightarrow> action option \<times> transport" where
  "seek pos0 t =
     (let pos = min pos0 (tp_len t)
      in if tp_playing t then
           (case next_epoch t of (epoch, t1) \<Rightarrow> (Some (SeekAction epoch pos), t1\<lparr>tp_display_pos := pos\<rparr>))
         else (None, t\<lparr>tp_playhead := pos\<rparr>))"

fun transport_command :: "transport_cmd \<Rightarrow> bool \<Rightarrow> nat \<Rightarrow> bool \<Rightarrow> transport \<Rightarrow> action option \<times> transport" where
  "transport_command Play can_play heard alive t = play can_play t"
| "transport_command Pause can_play heard alive t = pause heard alive t"
| "transport_command PlayPause can_play heard alive t = (if tp_playing t then pause heard alive t else play can_play t)"
| "transport_command Stop can_play heard alive t = stop alive t"
| "transport_command PlayFromStart can_play heard alive t =
     (let pos = min (case tp_selection t of None \<Rightarrow> 0 | Some s \<Rightarrow> fst s) (tp_len t)
      in if tp_playing t then seek pos (t\<lparr>tp_play_start := pos\<rparr>) else play can_play (t\<lparr>tp_playhead := pos\<rparr>))"
| "transport_command ReturnToStart can_play heard alive t = seek 0 t"
| "transport_command (Seek pos) can_play heard alive t = seek pos t"

definition on_stopped :: "nat \<Rightarrow> nat \<Rightarrow> transport \<Rightarrow> transport" where
  "on_stopped epoch pos t =
     (case tp_awaiting t of
        Some (e, kind) \<Rightarrow>
          if e = epoch then
            let t1 = t\<lparr>tp_awaiting := None, tp_rack_pos := Some pos\<rparr>
            in if kind = PauseStop then t1\<lparr>tp_playhead := min pos (tp_len t)\<rparr> else t1
          else t
      | None \<Rightarrow> t)"

definition on_ended :: "nat \<Rightarrow> nat \<Rightarrow> transport \<Rightarrow> bool \<times> transport" where
  "on_ended epoch pos t =
     (if tp_playing t \<and> epoch = tp_epoch t then
        (True, t\<lparr>tp_playing := False, tp_playhead := min pos (tp_len t), tp_rack_pos := Some pos, tp_awaiting := None\<rparr>)
      else (False, if (\<exists>k. tp_awaiting t = Some (epoch, k)) then t\<lparr>tp_awaiting := None\<rparr> else t))"

definition stream_closed :: "transport \<Rightarrow> transport" where
  "stream_closed t = t\<lparr>tp_awaiting := None, tp_rack_pos := None\<rparr>"

definition set_selection :: "(nat \<times> nat) option \<Rightarrow> transport \<Rightarrow> transport" where
  "set_selection sel t =
     t\<lparr>tp_selection :=
         (case sel of
            None \<Rightarrow> None
          | Some (a, b) \<Rightarrow>
              let s = min (min a b) (tp_len t); e = min (max a b) (tp_len t)
              in if e > s then Some (s, e) else None)\<rparr>"

definition set_doc :: "nat \<Rightarrow> transport \<Rightarrow> transport" where
  "set_doc len t =
     (let t1 = t\<lparr>tp_len := len, tp_playhead := min (tp_playhead t) len, tp_play_start := min (tp_play_start t) len,
                 tp_display_pos := min (tp_display_pos t) len, tp_rack_pos := None\<rparr>
      in set_selection (tp_selection t1) t1)"

section \<open>Runs\<close>

datatype transport_op =
    Command transport_cmd bool nat bool
  | Stopped nat nat
  | Ended nat nat
  | Closed
  | Document nat
  | Selection "(nat \<times> nat) option"
  | Loop bool
  | RecordRun

fun transport_do :: "transport_op \<Rightarrow> transport \<Rightarrow> transport" where
  "transport_do (Command c can_play heard alive) t = snd (transport_command c can_play heard alive t)"
| "transport_do (Stopped epoch pos) t = on_stopped epoch pos t"
| "transport_do (Ended epoch pos) t = snd (on_ended epoch pos t)"
| "transport_do Closed t = stream_closed t"
| "transport_do (Document len) t = set_doc len t"
| "transport_do (Selection sel) t = set_selection sel t"
| "transport_do (Loop on) t = set_loop_enabled on t"
| "transport_do RecordRun t = snd (next_run_epoch t)"

definition transport_run :: "transport_op list \<Rightarrow> transport \<Rightarrow> transport" where
  "transport_run ops t = fold transport_do ops t"

definition transport_ok :: "transport \<Rightarrow> bool" where
  "transport_ok t \<longleftrightarrow>
     tp_playhead t \<le> tp_len t \<and> tp_play_start t \<le> tp_len t \<and> tp_display_pos t \<le> tp_len t \<and> tp_epoch t < 2 ^ 32 \<and>
     (\<forall>s e. tp_selection t = Some (s, e) \<longrightarrow> s < e \<and> e \<le> tp_len t) \<and>
     (tp_playing t \<longrightarrow> 0 < tp_epoch t \<and> tp_awaiting t = None)"

lemmas transport_defs = play_def pause_def stop_def seek_def next_epoch_def next_run_epoch_def on_stopped_def on_ended_def
  stream_closed_def set_selection_def set_doc_def set_loop_enabled_def Let_def

lemma epoch_bounds: "0 < max ((e + 1) mod 2 ^ 32) (1 :: nat) \<and> max ((e + 1) mod 2 ^ 32) (1 :: nat) < 2 ^ 32"
  by simp

lemma play_ok: "transport_ok t \<Longrightarrow> transport_ok (snd (play can_play t))"
  by (auto simp: transport_ok_def transport_defs)

lemma seek_ok: "transport_ok t \<Longrightarrow> transport_ok (snd (seek pos t))"
  by (auto simp: transport_ok_def transport_defs)

lemma pause_ok: "transport_ok t \<Longrightarrow> transport_ok (snd (pause heard alive t))"
  by (auto simp: transport_ok_def transport_defs)

lemma stop_ok: "transport_ok t \<Longrightarrow> transport_ok (snd (stop alive t))"
  by (auto simp: transport_ok_def transport_defs)

lemma command_ok: "transport_ok t \<Longrightarrow> transport_ok (snd (transport_command c can_play heard alive t))"
proof (cases c)
  case PlayFromStart
  assume ok: "transport_ok t"
  then have "transport_ok (t\<lparr>tp_play_start := min p (tp_len t)\<rparr>)" "transport_ok (t\<lparr>tp_playhead := min p (tp_len t)\<rparr>)" for p
    by (auto simp: transport_ok_def)
  then show ?thesis using PlayFromStart by (auto simp: Let_def intro: play_ok seek_ok)
qed (auto intro: play_ok pause_ok stop_ok seek_ok)

lemma set_selection_ok: "transport_ok t \<Longrightarrow> transport_ok (set_selection sel t)"
  by (auto simp: transport_ok_def set_selection_def Let_def split: option.splits)

lemma transport_do_ok: "transport_ok t \<Longrightarrow> transport_ok (transport_do op t)"
proof (cases op)
  case (Document len)
  assume ok: "transport_ok t"
  then have "transport_ok (t\<lparr>tp_len := len, tp_playhead := min (tp_playhead t) len, tp_play_start := min (tp_play_start t) len,
      tp_display_pos := min (tp_display_pos t) len, tp_rack_pos := None, tp_selection := None\<rparr>)"
    by (auto simp: transport_ok_def)
  from set_selection_ok [OF this, of "tp_selection t"] Document show ?thesis
    by (cases "tp_selection t") (auto simp: set_doc_def set_selection_def Let_def)
next
  case (Command c can_play heard alive)
  then show "transport_ok t \<Longrightarrow> ?thesis" by (simp add: command_ok)
next
  case (Selection sel)
  then show "transport_ok t \<Longrightarrow> ?thesis" by (simp add: set_selection_ok)
qed (auto simp: transport_ok_def next_run_epoch_def next_epoch_def on_stopped_def on_ended_def
    stream_closed_def set_loop_enabled_def Let_def split: option.splits)

lemma transport_run_ok: "transport_ok t \<Longrightarrow> transport_ok (transport_run ops t)"
  by (induction ops arbitrary: t) (simp_all add: transport_run_def transport_do_ok)

lemma transport_default_ok: "transport_ok transport_default"
  by (simp add: transport_ok_def transport_default_def)

section \<open>A pass\<close>

text \<open>What may happen between Play and Stop: anything that neither starts over from the selection, changes the document, nor ends
  the pass.  An end reported for another epoch is an old one.\<close>

fun within_pass :: "transport_op \<Rightarrow> transport \<Rightarrow> bool" where
  "within_pass (Command c _ _ _) t \<longleftrightarrow> c = Play \<or> c = ReturnToStart \<or> (\<exists>p. c = Seek p)"
| "within_pass (Ended epoch _) t \<longleftrightarrow> epoch \<noteq> tp_epoch t"
| "within_pass (Document _) t \<longleftrightarrow> False"
| "within_pass _ t \<longleftrightarrow> True"

fun pass_run :: "transport_op list \<Rightarrow> transport \<Rightarrow> bool" where
  "pass_run [] t \<longleftrightarrow> True"
| "pass_run (op # ops) t \<longleftrightarrow> within_pass op t \<and> pass_run ops (transport_do op t)"

lemma within_pass_keeps:
  "within_pass op t \<Longrightarrow> tp_playing t \<Longrightarrow> tp_awaiting t = None \<Longrightarrow>
   tp_playing (transport_do op t) \<and> tp_awaiting (transport_do op t) = None \<and> tp_play_start (transport_do op t) = tp_play_start t"
  by (cases op) (auto simp: transport_defs)

lemma pass_run_keeps:
  "pass_run ops t \<Longrightarrow> tp_playing t \<Longrightarrow> tp_awaiting t = None \<Longrightarrow>
   tp_playing (transport_run ops t) \<and> tp_play_start (transport_run ops t) = tp_play_start t"
proof (induction ops arbitrary: t)
  case (Cons op ops)
  then have w: "within_pass op t" "pass_run ops (transport_do op t)" by simp_all
  note k = within_pass_keeps [OF w(1) Cons.prems(2,3)]
  then show ?case using Cons.IH [OF w(2)] by (simp add: transport_run_def)
qed (simp add: transport_run_def)

section \<open>Properties\<close>

text \<open>In every reachable state the playhead, the play start and the shown position lie inside the document, the selection
  is a non-empty range of it, the loop region is a non-empty range of it whenever loop is on and a document is loaded, and
  a playing transport waits for no stop fade.\<close>

theorem transport_stays_inside:
  "transport_ok (transport_run ops transport_default) \<and>
   (case loop_region min_len (transport_run ops transport_default) of
      None \<Rightarrow> tp_loop (transport_run ops transport_default) = False \<or> tp_len (transport_run ops transport_default) = 0
    | Some (s, e) \<Rightarrow> s < e \<and> e \<le> tp_len (transport_run ops transport_default))"
proof -
  have ok: "transport_ok (transport_run ops transport_default)" by (rule transport_run_ok [OF transport_default_ok])
  then show ?thesis by (auto simp: loop_region_def transport_ok_def split: option.splits)
qed

text \<open>C31: Stop returns the playhead to where Play was pressed, through any seeks, loop and selection changes, stale events of
  earlier passes and record runs in between, and a late report of the stop fade does not move it.\<close>

theorem stop_returns_to_play_start:
  assumes "play True t = (Some (StartAction epoch pos reset), t1)" "pass_run ops t1" "transport_command Stop can_play heard alive (transport_run ops t1) = (act, t2)"
  shows "act = Some StopAction \<and> \<not> tp_playing t2 \<and> tp_playhead t2 = pos \<and> (\<forall>e p. tp_playhead (on_stopped e p t2) = pos)"
proof -
  have p: "tp_playing t1" "tp_awaiting t1 = None" "tp_play_start t1 = pos"
    using assms(1) by (auto simp: play_def next_epoch_def Let_def split: if_splits)
  with pass_run_keeps [OF assms(2)] assms(3) show ?thesis
    by (auto simp: stop_def on_stopped_def split: option.splits)
qed

definition loaded :: transport where
  "loaded = set_doc 1000 transport_default"

theorem stop_returns_to_play_start_witness:
  "\<exists>act t2. transport_command Stop True 700 True
     (transport_run [Command (Seek 500) True 0 True, Loop True, Ended 1 900]
       (snd (play True (loaded\<lparr>tp_playhead := 100\<rparr>)))) = (act, t2) \<and> tp_playhead t2 = 100"
proof -
  let ?t = "loaded\<lparr>tp_playhead := 100\<rparr>"
  let ?t1 = "snd (play True ?t)"
  let ?ops = "[Command (Seek 500) True 0 True, Loop True, Ended 1 900]"
  have p: "play True ?t = (Some (StartAction 1 100 True), ?t1)"
    by (simp add: loaded_def transport_default_def transport_defs)
  have r: "pass_run ?ops ?t1" by (simp add: loaded_def transport_default_def transport_defs)
  obtain act t2 where s: "transport_command Stop True 700 True (transport_run ?ops ?t1) = (act, t2)" by fastforce
  from stop_returns_to_play_start [OF p r s] s show ?thesis by blast
qed

text \<open>A seek while a pause is still fading out is overwritten by the report of the fade.\<close>

lemma seek_during_fade_is_lost:
  "tp_playhead (transport_run [Command Play True 0 True, Command Pause True 400 True, Command (Seek 50) True 0 True, Stopped 1 410]
     loaded) = 410"
  by (simp add: transport_run_def loaded_def transport_default_def transport_defs)

end
