(* ===== verification/Device_State.thy ===== *)
theory Device_State
  imports Prelude
begin

text \<open>
  The device-lost and recovery state machine of the engine: \<^verbatim>\<open>crates/engine/src/device_state.rs\<close>.

  The machine is pure: events in, actions out.  \<open>device_world\<close> puts it next to what its caller does with the actions: the
  stream handles, opened before \<open>Opened\<close> is reported and dropped on \<open>CloseStream\<close>.
\<close>

section \<open>Events and actions\<close>

datatype direction = Input | Output

record activity =
  ac_playing :: bool
  ac_recording :: bool
  ac_monitoring :: bool

datatype device_event =
    Configured direction "string option"
  | Opened direction bool
  | OpenFailed direction
  | ClosedByCaller direction
  | Flags direction "32 word"
  | DevicePoll direction bool
  | Rescan

text \<open>The notices the machine raises; \<open>DeviceLost\<close> says whether the recording stopped, the playback stopped, the recording goes
  on.\<close>

datatype device_notice =
    DeviceLost direction string bool bool bool
  | DeviceReconnected direction string
  | BackendError direction string

datatype device_action =
    StopPlayback
  | StopRecording
  | StopMonitoring
  | CloseStream direction
  | ReopenStream direction
  | Notice device_notice

definition device_lost_flag :: "32 word" where "device_lost_flag = 1"
definition backend_error_flag :: "32 word" where "backend_error_flag = 2"

section \<open>One direction\<close>

text \<open>\<open>Lost reopen seen_absent retried\<close>.\<close>

datatype link_state = NotSelected | Idle | Open | Reopening | Lost bool bool bool

datatype device_status = DsNotSelected | DsHealthy | DsFallback | DsLost

record side =
  sd_dir :: direction
  sd_device :: "string option"
  sd_state :: link_state
  sd_fallback :: bool
  sd_error :: bool

definition side_new :: "direction \<Rightarrow> side" where
  "side_new dir = \<lparr>sd_dir = dir, sd_device = None, sd_state = NotSelected, sd_fallback = False, sd_error = False\<rparr>"

definition side_name :: "side \<Rightarrow> string" where
  "side_name s = unwrap_or (sd_device s) []"

definition lose :: "activity \<Rightarrow> bool \<Rightarrow> bool \<Rightarrow> side \<Rightarrow> device_action list \<times> side" where
  "lose act stream_open in_use s =
     (let close = (if stream_open then [CloseStream (sd_dir s)] else []);
          recording_continues = (in_use \<and> sd_dir s = Output \<and> ac_recording act);
          recording_stopped = (in_use \<and> sd_dir s = Input \<and> ac_recording act);
          playback_stopped = (in_use \<and> ac_playing act);
          rec = (if recording_stopped then [StopRecording] else []);
          play = (if playback_stopped then [StopPlayback] else []);
          mon = (if in_use \<and> ac_monitoring act then [StopMonitoring] else [])
      in (close @ rec @ play @ mon @
            [Notice (DeviceLost (sd_dir s) (side_name s) recording_stopped playback_stopped recording_continues)],
          s\<lparr>sd_state := Lost (sd_dir s = Output \<or> in_use) False False\<rparr>))"

fun side_handle :: "device_event \<Rightarrow> activity \<Rightarrow> side \<Rightarrow> device_action list \<times> side" where
  "side_handle (Configured d device) act s =
     ([], s\<lparr>sd_device := device, sd_fallback := False, sd_error := False, sd_state := (if device = None then NotSelected else Idle)\<rparr>)"
| "side_handle (Opened d fallback) act s =
     (if sd_device s = None then ([], s)
      else
        let recovered = (sd_state s = Reopening \<or> (\<exists>r a t. sd_state s = Lost r a t));
            s1 = s\<lparr>sd_state := Open, sd_fallback := fallback, sd_error := False\<rparr>
        in (if recovered then [Notice (DeviceReconnected (sd_dir s1) (side_name s1))] else [], s1))"
| "side_handle (OpenFailed d) act s =
     (case sd_state s of
        NotSelected \<Rightarrow> ([], s)
      | Reopening \<Rightarrow> ([], s\<lparr>sd_state := Lost True False True\<rparr>)
      | Lost _ _ _ \<Rightarrow> ([], s)
      | _ \<Rightarrow>
          let stream_open = (sd_state s = Open)
          in case lose act stream_open True s of
               (acts, s1) \<Rightarrow>
                 (acts, case sd_state s1 of Lost r a _ \<Rightarrow> s1\<lparr>sd_state := Lost r a True\<rparr> | _ \<Rightarrow> s1))"
| "side_handle (ClosedByCaller d) act s =
     (case sd_state s of
        Open \<Rightarrow> ([], s\<lparr>sd_state := Idle\<rparr>)
      | Lost r a t \<Rightarrow> ([], if sd_dir s = Input then s\<lparr>sd_state := Lost False a t\<rparr> else s)
      | _ \<Rightarrow> ([], s))"
| "side_handle (Flags d bits) act s =
     (if bits AND device_lost_flag \<noteq> 0 \<and> sd_state s = Open then lose act True True s
      else if bits AND backend_error_flag \<noteq> 0 \<and> sd_state s = Open \<and> \<not> sd_error s
      then ([Notice (BackendError (sd_dir s) (side_name s))], s\<lparr>sd_error := True\<rparr>)
      else ([], s))"
| "side_handle (DevicePoll d present) act s =
     (if (sd_state s = Idle \<or> sd_state s = Open) \<and> \<not> present then
        let is_open = (sd_state s = Open); in_use = (is_open \<or> sd_dir s = Output)
        in case lose act is_open in_use s of
             (acts, s1) \<Rightarrow> (acts, case sd_state s1 of Lost r _ t \<Rightarrow> s1\<lparr>sd_state := Lost r True t\<rparr> | _ \<Rightarrow> s1)
      else
        case sd_state s of
          Lost reopen seen_absent retried \<Rightarrow>
            if \<not> present then ([], s\<lparr>sd_state := Lost reopen True retried\<rparr>)
            else if seen_absent \<or> \<not> retried then
              if reopen then ([ReopenStream (sd_dir s)], s\<lparr>sd_state := Reopening\<rparr>)
              else ([Notice (DeviceReconnected (sd_dir s) (side_name s))], s\<lparr>sd_state := Idle\<rparr>)
            else ([], s)
        | _ \<Rightarrow> ([], s))"
| "side_handle Rescan act s =
     (case sd_state s of Lost r a _ \<Rightarrow> ([], s\<lparr>sd_state := Lost r a False\<rparr>) | _ \<Rightarrow> ([], s))"

definition side_status :: "side \<Rightarrow> device_status" where
  "side_status s =
     (case sd_state s of
        NotSelected \<Rightarrow> DsNotSelected
      | Lost _ _ _ \<Rightarrow> DsLost
      | Reopening \<Rightarrow> DsLost
      | _ \<Rightarrow> if sd_fallback s then DsFallback else DsHealthy)"

section \<open>Both directions\<close>

record device_machine =
  dm_input :: side
  dm_output :: side

definition machine_new :: device_machine where
  "machine_new = \<lparr>dm_input = side_new Input, dm_output = side_new Output\<rparr>"

fun event_dir :: "device_event \<Rightarrow> direction option" where
  "event_dir (Configured d _) = Some d"
| "event_dir (Opened d _) = Some d"
| "event_dir (OpenFailed d) = Some d"
| "event_dir (ClosedByCaller d) = Some d"
| "event_dir (Flags d _) = Some d"
| "event_dir (DevicePoll d _) = Some d"
| "event_dir Rescan = None"

definition machine_handle :: "device_event \<Rightarrow> activity \<Rightarrow> device_machine \<Rightarrow> device_action list \<times> device_machine" where
  "machine_handle ev act m =
     (case event_dir ev of
        Some Input \<Rightarrow> (case side_handle ev act (dm_input m) of (out, s) \<Rightarrow> (out, m\<lparr>dm_input := s\<rparr>))
      | Some Output \<Rightarrow> (case side_handle ev act (dm_output m) of (out, s) \<Rightarrow> (out, m\<lparr>dm_output := s\<rparr>))
      | None \<Rightarrow>
          (case side_handle ev act (dm_input m) of (out1, s1) \<Rightarrow>
           case side_handle ev act (dm_output m) of (out2, s2) \<Rightarrow> (out1 @ out2, m\<lparr>dm_input := s1, dm_output := s2\<rparr>)))"

definition machine_side :: "direction \<Rightarrow> device_machine \<Rightarrow> side" where
  "machine_side d m = (case d of Input \<Rightarrow> dm_input m | Output \<Rightarrow> dm_output m)"

lemma machine_handle_side:
  "machine_handle ev act m = (out, m') \<Longrightarrow>
   machine_side d m' = (if event_dir ev = Some d \<or> event_dir ev = None then snd (side_handle ev act (machine_side d m)) else machine_side d m)"
  by (cases d) (auto simp: machine_handle_def machine_side_def split: option.splits direction.splits prod.splits)

lemma machine_handle_out:
  "fst (machine_handle ev act m) =
     (case event_dir ev of Some d \<Rightarrow> fst (side_handle ev act (machine_side d m))
      | None \<Rightarrow> fst (side_handle ev act (machine_side Input m)) @ fst (side_handle ev act (machine_side Output m)))"
  by (auto simp: machine_handle_def machine_side_def split: option.splits direction.splits prod.splits)

section \<open>The machine and its streams\<close>

text \<open>The caller's handles: \<open>Opened\<close> is reported with an open one, a configuration or a close by the caller without.\<close>

fun handle_before :: "device_event \<Rightarrow> (direction \<Rightarrow> bool) \<Rightarrow> direction \<Rightarrow> bool" where
  "handle_before (Opened d _) h = h(d := True)"
| "handle_before (Configured d _) h = h(d := False)"
| "handle_before (ClosedByCaller d) h = h(d := False)"
| "handle_before _ h = h"

fun do_action :: "device_action \<Rightarrow> (direction \<Rightarrow> bool) \<Rightarrow> direction \<Rightarrow> bool" where
  "do_action (CloseStream d) h = h(d := False)"
| "do_action _ h = h"

record device_world =
  dw_machine :: device_machine
  dw_handles :: "direction \<Rightarrow> bool"
  dw_log :: "device_action list"

definition world_start :: device_world where
  "world_start = \<lparr>dw_machine = machine_new, dw_handles = (\<lambda>_. False), dw_log = []\<rparr>"

definition world_step :: "device_event \<times> activity \<Rightarrow> device_world \<Rightarrow> device_world" where
  "world_step e w =
     (case machine_handle (fst e) (snd e) (dw_machine w) of
        (out, m) \<Rightarrow>
          w\<lparr>dw_machine := m, dw_handles := fold do_action out (handle_before (fst e) (dw_handles w)), dw_log := dw_log w @ out\<rparr>)"

definition world_run :: "(device_event \<times> activity) list \<Rightarrow> device_world \<Rightarrow> device_world" where
  "world_run es w = fold world_step es w"

text \<open>A stream is opened only for a configured device.\<close>

fun sensible :: "device_event \<Rightarrow> device_machine \<Rightarrow> bool" where
  "sensible (Opened d _) m \<longleftrightarrow> sd_device (machine_side d m) \<noteq> None"
| "sensible _ m \<longleftrightarrow> True"

fun sensible_run :: "(device_event \<times> activity) list \<Rightarrow> device_world \<Rightarrow> bool" where
  "sensible_run [] w \<longleftrightarrow> True"
| "sensible_run (e # es) w \<longleftrightarrow> sensible (fst e) (dw_machine w) \<and> sensible_run es (world_step e w)"

definition is_lost :: "link_state \<Rightarrow> bool" where
  "is_lost s \<longleftrightarrow> s = Reopening \<or> (\<exists>r a t. s = Lost r a t)"

lemma is_lost_simps [simp]:
  "\<not> is_lost NotSelected" "\<not> is_lost Idle" "\<not> is_lost Open" "is_lost Reopening" "is_lost (Lost r a t)"
  by (simp_all add: is_lost_def)

text \<open>What a side does: its direction stays, it closes exactly the open stream it leaves, and it says when it is lost and when it
  is back.\<close>

definition closes :: "direction \<Rightarrow> device_action list \<Rightarrow> bool" where
  "closes d out \<longleftrightarrow> CloseStream d \<in> set out"

definition says :: "direction \<Rightarrow> device_action list \<Rightarrow> bool list" where
  "says d out = List.map_filter
     (\<lambda>a. case a of Notice (DeviceLost d' _ _ _ _) \<Rightarrow> if d' = d then Some True else None
      | Notice (DeviceReconnected d' _) \<Rightarrow> if d' = d then Some False else None | _ \<Rightarrow> None) out"

lemma says_simps [simp]: "says d [] = []" "says d (xs @ ys) = says d xs @ says d ys"
  by (simp_all add: says_def List.map_filter_def)

lemma says_Cons:
  "says d (a # out) = (case a of Notice (DeviceLost d' _ _ _ _) \<Rightarrow> if d' = d then [True] else []
      | Notice (DeviceReconnected d' _) \<Rightarrow> if d' = d then [False] else [] | _ \<Rightarrow> []) @ says d out"
  by (auto simp: says_def List.map_filter_def split: device_action.splits device_notice.splits)

lemma side_handle_dir [simp]: "sd_dir (snd (side_handle ev act s)) = sd_dir s"
  by (cases ev) (auto simp: lose_def Let_def split: link_state.splits prod.splits)

lemma side_handle_other:
  "d \<noteq> sd_dir s \<Longrightarrow> \<not> closes d (fst (side_handle ev act s)) \<and> says d (fst (side_handle ev act s)) = []"
  by (cases ev) (auto simp: lose_def Let_def closes_def says_Cons split: link_state.splits prod.splits)

lemma side_handle_open:
  assumes "\<not> (\<exists>d f. ev = Opened d f \<and> sd_device s = None)"
  shows "sd_state (snd (side_handle ev act s)) = Open \<longleftrightarrow>
    ((\<exists>d f. ev = Opened d f) \<or> sd_state s = Open \<and> \<not> (\<exists>d x. ev = Configured d x) \<and> \<not> (\<exists>d. ev = ClosedByCaller d)) \<and>
    \<not> closes (sd_dir s) (fst (side_handle ev act s))"
  using assms
  by (cases ev; cases "sd_state s") (auto simp: lose_def Let_def closes_def split: link_state.splits prod.splits)

lemma side_handle_says:
  "(says (sd_dir s) (fst (side_handle ev act s)) =
     (if (\<exists>d x. ev = Configured d x) then []
      else if \<not> is_lost (sd_state s) \<and> is_lost (sd_state (snd (side_handle ev act s))) then [True]
      else if is_lost (sd_state s) \<and> \<not> is_lost (sd_state (snd (side_handle ev act s))) then [False] else []))"
  by (cases ev; cases "sd_state s") (auto simp: lose_def Let_def says_Cons is_lost_def split: link_state.splits prod.splits)

lemma side_handle_recording: "StopRecording \<in> set (fst (side_handle ev act s)) \<Longrightarrow> sd_dir s = Input"
  by (cases ev) (auto simp: lose_def Let_def split: link_state.splits prod.splits if_splits)

section \<open>Invariant\<close>

text \<open>Every reconnection is announced right after the loss it ends.\<close>

definition paired :: "bool list \<Rightarrow> bool" where
  "paired xs \<longleftrightarrow> (\<forall>i < length xs. \<not> xs ! i \<longrightarrow> 0 < i \<and> xs ! (i - 1))"

lemma paired_snoc: "paired (xs @ [b]) \<longleftrightarrow> paired xs \<and> (b \<or> xs \<noteq> [] \<and> last xs)"
  by (cases xs rule: rev_cases) (auto simp: paired_def nth_append less_Suc_eq all_conj_distrib)

definition world_ok :: "device_world \<Rightarrow> bool" where
  "world_ok w \<longleftrightarrow>
     (\<forall>d. sd_dir (machine_side d (dw_machine w)) = d \<and>
        (dw_handles w d \<longleftrightarrow> sd_state (machine_side d (dw_machine w)) = Open) \<and> paired (says d (dw_log w)) \<and>
        (is_lost (sd_state (machine_side d (dw_machine w))) \<longrightarrow> says d (dw_log w) \<noteq> [] \<and> last (says d (dw_log w))))"

lemma fold_do_action: "fold do_action out h d \<longleftrightarrow> h d \<and> \<not> closes d out"
proof (induction out arbitrary: h)
  case (Cons a out)
  then show ?case by (cases a) (auto simp: closes_def)
qed (simp add: closes_def)

lemma closes_append [simp]: "closes d (xs @ ys) \<longleftrightarrow> closes d xs \<or> closes d ys"
  by (auto simp: closes_def)

lemma machine_out_of:
  assumes "\<And>d. sd_dir (machine_side d m) = d" "machine_handle ev act m = (out, m')"
  shows "closes d out = ((event_dir ev = Some d \<or> event_dir ev = None) \<and> closes d (fst (side_handle ev act (machine_side d m))))"
    "says d out = (if event_dir ev = Some d \<or> event_dir ev = None then says d (fst (side_handle ev act (machine_side d m))) else [])"
proof -
  have out: "out = (case event_dir ev of Some d \<Rightarrow> fst (side_handle ev act (machine_side d m))
      | None \<Rightarrow> fst (side_handle ev act (machine_side Input m)) @ fst (side_handle ev act (machine_side Output m)))"
    using machine_handle_out [of ev act m] assms(2) by simp
  have other: "\<not> closes d (fst (side_handle ev act (machine_side d' m)))" "says d (fst (side_handle ev act (machine_side d' m))) = []"
    if "d' \<noteq> d" for d'
    using side_handle_other [of d "machine_side d' m" ev act] assms(1) that by auto
  consider "event_dir ev = None" | "event_dir ev = Some d" | d' where "event_dir ev = Some d'" "d' \<noteq> d"
    by (cases "event_dir ev") auto
  then show "closes d out = ((event_dir ev = Some d \<or> event_dir ev = None) \<and> closes d (fst (side_handle ev act (machine_side d m))))"
    by cases (use other out in \<open>auto intro: direction.exhaust [of d]\<close>)
  consider "event_dir ev = None" | "event_dir ev = Some d" | d' where "event_dir ev = Some d'" "d' \<noteq> d"
    by (cases "event_dir ev") auto
  then show "says d out = (if event_dir ev = Some d \<or> event_dir ev = None then says d (fst (side_handle ev act (machine_side d m))) else [])"
    by cases (use other out in \<open>auto intro: direction.exhaust [of d]\<close>)
qed

lemma world_step_ok:
  assumes "world_ok w" "sensible (fst e) (dw_machine w)"
  shows "world_ok (world_step e w)"
proof -
  obtain ev act where e: "e = (ev, act)" by fastforce
  obtain out m' where h: "machine_handle ev act (dw_machine w) = (out, m')" by fastforce
  have w': "world_step e w = w\<lparr>dw_machine := m', dw_handles := fold do_action out (handle_before ev (dw_handles w)), dw_log := dw_log w @ out\<rparr>"
    by (simp add: world_step_def e h)
  have dirs: "sd_dir (machine_side d (dw_machine w)) = d" for d using assms(1) by (simp add: world_ok_def)
  note o = machine_out_of [OF dirs h] and s = machine_handle_side [OF h]
  show ?thesis
    unfolding world_ok_def
  proof (intro allI)
    fix d
    let ?s = "machine_side d (dw_machine w)"
    have ok: "dw_handles w d \<longleftrightarrow> sd_state ?s = Open" "paired (says d (dw_log w))"
      "is_lost (sd_state ?s) \<longrightarrow> says d (dw_log w) \<noteq> [] \<and> last (says d (dw_log w))"
      using assms(1) by (simp_all add: world_ok_def)
    show "sd_dir (machine_side d (dw_machine (world_step e w))) = d \<and>
        (dw_handles (world_step e w) d \<longleftrightarrow> sd_state (machine_side d (dw_machine (world_step e w))) = Open) \<and>
        paired (says d (dw_log (world_step e w))) \<and>
        (is_lost (sd_state (machine_side d (dw_machine (world_step e w)))) \<longrightarrow>
           says d (dw_log (world_step e w)) \<noteq> [] \<and> last (says d (dw_log (world_step e w))))"
    proof (cases "event_dir ev = Some d \<or> event_dir ev = None")
      case False
      then have "handle_before ev (dw_handles w) d = dw_handles w d" by (cases ev) auto
      then show ?thesis using False ok dirs by (auto simp: w' fold_do_action o s)
    next
      case True
      have n: "\<not> (\<exists>d f. ev = Opened d f \<and> sd_device ?s = None)" using assms(2) True by (auto simp: e)
      have hb: "handle_before ev (dw_handles w) d \<longleftrightarrow>
          (\<exists>d f. ev = Opened d f) \<or> dw_handles w d \<and> \<not> (\<exists>d x. ev = Configured d x) \<and> \<not> (\<exists>d. ev = ClosedByCaller d)"
        using True by (cases ev) auto
      have st: "sd_state (machine_side d m') = sd_state (snd (side_handle ev act ?s))" using True by (simp add: s)
      note sy = side_handle_says [of ?s ev act, unfolded dirs]
      have c: "\<exists>d x. ev = Configured d x \<Longrightarrow> \<not> is_lost (sd_state (snd (side_handle ev act ?s)))"
        by (auto simp: is_lost_def split: if_splits)
      let ?l = "says d (dw_log w) @ says d (fst (side_handle ev act ?s))"
      have "paired ?l \<and> (is_lost (sd_state (snd (side_handle ev act ?s))) \<longrightarrow> ?l \<noteq> [] \<and> last ?l)"
        using sy c ok(2,3)
        by (cases "\<exists>d x. ev = Configured d x"; cases "is_lost (sd_state ?s)"; cases "is_lost (sd_state (snd (side_handle ev act ?s)))")
          (simp_all add: paired_snoc)
      moreover have "(handle_before ev (dw_handles w) d \<and> \<not> closes d out) = (sd_state (snd (side_handle ev act ?s)) = Open)"
        using True ok(1) side_handle_open [OF n, of act, unfolded dirs] o(1) hb by blast
      ultimately show ?thesis using True dirs by (simp add: w' fold_do_action o(2) s)
    qed
  qed
qed

lemma world_run_ok: "world_ok w \<Longrightarrow> sensible_run es w \<Longrightarrow> world_ok (world_run es w)"
  by (induction es arbitrary: w) (simp_all add: world_run_def world_step_ok)

lemma world_start_ok: "world_ok world_start"
  by (auto simp: world_ok_def world_start_def machine_new_def machine_side_def side_new_def paired_def split: direction.splits)

section \<open>Retries\<close>

text \<open>While a device stays listed: nothing configured, opened, closed, rescanned or seen absent.\<close>

fun stays_listed :: "direction \<Rightarrow> device_event \<Rightarrow> bool" where
  "stays_listed d (DevicePoll d' present) \<longleftrightarrow> d' = d \<longrightarrow> present"
| "stays_listed d (OpenFailed d') \<longleftrightarrow> True"
| "stays_listed d (Flags d' bits) \<longleftrightarrow> True"
| "stays_listed d Rescan \<longleftrightarrow> False"
| "stays_listed d ev \<longleftrightarrow> event_dir ev \<noteq> Some d"

definition retries_left :: "link_state \<Rightarrow> nat" where
  "retries_left s = (case s of NotSelected \<Rightarrow> 0 | Reopening \<Rightarrow> 0 | Lost r a t \<Rightarrow> if a \<or> \<not> t then 1 else 0 | _ \<Rightarrow> 1)"

definition reopens :: "direction \<Rightarrow> device_action list \<Rightarrow> nat" where
  "reopens d out = length (filter (\<lambda>a. a = ReopenStream d) out)"

lemma reopens_simps [simp]: "reopens d [] = 0" "reopens d (xs @ ys) = reopens d xs + reopens d ys"
  "reopens d (a # xs) = (if a = ReopenStream d then 1 else 0) + reopens d xs"
  by (simp_all add: reopens_def)

lemma side_handle_retries:
  "stays_listed d ev \<Longrightarrow> event_dir ev = Some d \<Longrightarrow>
   reopens d (fst (side_handle ev act s)) + retries_left (sd_state (snd (side_handle ev act s))) \<le> retries_left (sd_state s)"
  by (cases ev; cases "sd_state s") (auto simp: lose_def Let_def retries_left_def split: link_state.splits prod.splits)

lemma side_handle_no_reopen: "d \<noteq> sd_dir s \<Longrightarrow> reopens d (fst (side_handle ev act s)) = 0"
  by (cases ev) (auto simp: lose_def Let_def split: link_state.splits prod.splits)

lemma world_run_retries:
  assumes "\<forall>d. sd_dir (machine_side d (dw_machine w)) = d" "\<forall>e \<in> set es. stays_listed d (fst e)"
  shows "reopens d (dw_log (world_run es w)) + retries_left (sd_state (machine_side d (dw_machine (world_run es w)))) \<le>
    reopens d (dw_log w) + retries_left (sd_state (machine_side d (dw_machine w)))"
  using assms
proof (induction es arbitrary: w)
  case (Cons e es)
  obtain ev act where e: "e = (ev, act)" by fastforce
  obtain out m' where h: "machine_handle ev act (dw_machine w) = (out, m')" by fastforce
  note s = machine_handle_side [OF h]
  have dirs: "\<forall>d. sd_dir (machine_side d m') = d" using Cons.prems(1) by (simp add: s)
  have sl: "stays_listed d ev" using Cons.prems(2) e by simp
  then obtain d' where d': "event_dir ev = Some d'" by (cases ev) auto
  have "out = fst (side_handle ev act (machine_side d' (dw_machine w)))"
    using machine_handle_out [of ev act "dw_machine w"] h d' by simp
  then have "reopens d out + retries_left (sd_state (machine_side d m')) \<le> retries_left (sd_state (machine_side d (dw_machine w)))"
    using side_handle_retries [OF sl, of act "machine_side d (dw_machine w)"] Cons.prems(1) d' s
      side_handle_no_reopen [of d "machine_side d' (dw_machine w)" ev act]
    by (cases "d' = d") auto
  moreover have "dw_machine (world_step e w) = m'" "dw_log (world_step e w) = dw_log w @ out" by (simp_all add: world_step_def e h)
  ultimately show ?case using Cons.IH [of "world_step e w"] dirs Cons.prems(2) by (simp add: world_run_def)
qed (simp add: world_run_def)

section \<open>Properties\<close>


text \<open>C30: A lost device comes back: the first poll that sees it again after it was seen absent reopens its stream; but while it
  stays listed and fails, it is tried at most once more.\<close>

theorem lost_device_reopens:
  assumes "sensible_run es world_start" "w = world_run es world_start" "sd_state (machine_side d (dw_machine w)) = Lost True a t"
  shows "dw_log (world_run [(DevicePoll d False, act1), (DevicePoll d True, act2)] w) = dw_log w @ [ReopenStream d] \<and>
    (\<forall>fs. (\<forall>e \<in> set fs. stays_listed d (fst e)) \<longrightarrow> reopens d (dw_log (world_run fs w)) \<le> reopens d (dw_log w) + 1)"
proof -
  have dirs: "\<forall>d. sd_dir (machine_side d (dw_machine w)) = d"
    using world_run_ok [OF world_start_ok assms(1)] assms(2) by (simp add: world_ok_def)
  have "retries_left (Lost True a t) \<le> 1" by (simp add: retries_left_def)
  then have "\<forall>fs. (\<forall>e \<in> set fs. stays_listed d (fst e)) \<longrightarrow> reopens d (dw_log (world_run fs w)) \<le> reopens d (dw_log w) + 1"
    using world_run_retries [OF dirs, of _ d] assms(3) by (metis (no_types, lifting) add_leD1 add_left_mono le_trans)
  moreover have "dw_log (world_run [(DevicePoll d False, act1), (DevicePoll d True, act2)] w) = dw_log w @ [ReopenStream d]"
    using assms(3) dirs [rule_format, of d] by (cases d) (auto simp: world_run_def world_step_def machine_handle_def machine_side_def)
  ultimately show ?thesis by blast
qed

definition busy :: activity where
  "busy = \<lparr>ac_playing = True, ac_recording = True, ac_monitoring = False\<rparr>"

definition unplugged :: "(device_event \<times> activity) list" where
  "unplugged = [(Configured Output (Some ''usb''), busy), (Opened Output False, busy), (Flags Output 1, busy)]"

lemma unplugged_run:
  "sensible_run unplugged world_start \<and> sd_state (machine_side Output (dw_machine (world_run unplugged world_start))) = Lost True False False \<and>
   dw_log (world_run unplugged world_start) = [CloseStream Output, StopPlayback, Notice (DeviceLost Output ''usb'' False True True)]"
  by (simp add: unplugged_def world_run_def world_step_def world_start_def machine_new_def machine_handle_def machine_side_def side_new_def
      device_lost_flag_def lose_def side_name_def busy_def Let_def)


theorem lost_device_reopens_witness:
  "\<exists>log. dw_log (world_run [(DevicePoll Output False, busy), (DevicePoll Output True, busy)] (world_run unplugged world_start)) =
     log @ [ReopenStream Output]"
  using lost_device_reopens [OF conjunct1 [OF unplugged_run] refl, of Output] unplugged_run by blast

end
