(* ===== verification/Delay_Line.thy ===== *)
theory Delay_Line
  imports Prelude
begin

text \<open>
  The delay line behind the latency-matched dry paths of the rack: \<^verbatim>\<open>crates/rack/src/delay.rs\<close>.

  \<open>holds\<close> is its abstraction: the last samples of everything written, read backwards from the write position.  A slice
  copied with \<open>copy_from_slice\<close> lies inside the buffer wherever the lemmas apply.
\<close>

type_synonym delay_sample = "32 word"

record delay_line =
  dl_buf :: "delay_sample list"
  dl_write :: nat
  dl_max_tap :: nat

definition delay_new :: "nat \<Rightarrow> nat \<Rightarrow> delay_line" where
  "delay_new max_tap max_block =
     (if max_tap = 0 then \<lparr>dl_buf = [], dl_write = 0, dl_max_tap = 0\<rparr>
      else \<lparr>dl_buf = replicate (max_tap + max_block) 0, dl_write = 0, dl_max_tap = max_tap\<rparr>)"

definition delay_write :: "delay_sample list \<Rightarrow> delay_line \<Rightarrow> nat \<times> delay_line" where
  "delay_write input d =
     (let base = dl_write d; cap = length (dl_buf d)
      in if cap = 0 then (0, d)
         else
           let first = min (length input) (cap - base);
               buf1 = copy_at base (take first input) (dl_buf d);
               buf2 = copy_at 0 (drop first input) buf1
           in (base, d\<lparr>dl_buf := buf2, dl_write := (base + length input) mod cap\<rparr>))"

definition delay_get :: "nat \<Rightarrow> nat \<Rightarrow> nat \<Rightarrow> delay_line \<Rightarrow> delay_sample" where
  "delay_get base i tap d = (let cap = length (dl_buf d) in dl_buf d ! ((base + i + cap - tap) mod cap))"

definition delay_read_into :: "nat \<Rightarrow> nat \<Rightarrow> nat \<Rightarrow> delay_line \<Rightarrow> delay_sample list" where
  "delay_read_into base tap n d =
     (let cap = length (dl_buf d); start = (base + cap - tap) mod cap; first = min n (cap - start)
      in take first (drop start (dl_buf d)) @ take (n - first) (dl_buf d))"

definition delay_clear :: "delay_line \<Rightarrow> delay_line" where
  "delay_clear d = d\<lparr>dl_buf := replicate (length (dl_buf d)) 0\<rparr>"

fun copy_loop :: "nat list \<Rightarrow> delay_line \<Rightarrow> delay_line \<Rightarrow> delay_line" where
  "copy_loop [] other d = d"
| "copy_loop (j # js) other d =
     (let cap = length (dl_buf d); ocap = length (dl_buf other)
      in copy_loop js other
           (d\<lparr>dl_buf := (dl_buf d)[(dl_write d + cap - j) mod cap := dl_buf other ! ((dl_write other + ocap - j) mod ocap)]\<rparr>))"

definition copy_history_from :: "delay_line \<Rightarrow> delay_line \<Rightarrow> delay_line" where
  "copy_history_from other d =
     (let cap = length (dl_buf d); ocap = length (dl_buf other)
      in if cap = 0 \<or> ocap = 0 then d else copy_loop [1 ..< min cap ocap + 1] other d)"

section \<open>What a line holds\<close>

text \<open>The sample \<open>j\<close> before the end of a stream that was silent before it began.\<close>

definition past :: "delay_sample list \<Rightarrow> nat \<Rightarrow> delay_sample" where
  "past h j = (if j \<le> length h then h ! (length h - j) else 0)"

definition holds :: "delay_line \<Rightarrow> delay_sample list \<Rightarrow> nat \<Rightarrow> bool" where
  "holds d h m \<longleftrightarrow>
     dl_write d < length (dl_buf d) \<and> m \<le> length (dl_buf d) \<and>
     (\<forall>j. 1 \<le> j \<and> j \<le> m \<longrightarrow>
        dl_buf d ! ((dl_write d + length (dl_buf d) - j) mod length (dl_buf d)) = past h j)"

lemma mod_shift_neq:
  assumes "i < cap" "j < cap" "i \<noteq> j"
  shows "(b + i) mod cap \<noteq> (b + j) mod (cap :: nat)"
proof
  assume e: "(b + i) mod cap = (b + j) mod cap"
  show False
  proof (cases "i < j")
    case True
    then have "cap dvd j - i" using e mod_eq_dvd_iff_nat [of "b + i" "b + j" cap] by simp
    then show False using True assms(2) by (auto dest: dvd_imp_le)
  next
    case False
    then have "cap dvd i - j" using e mod_eq_dvd_iff_nat [of "b + j" "b + i" cap] by simp
    then show False using False assms(1,3) by (auto dest: dvd_imp_le)
  qed
qed

lemma wrap_once: "b < cap \<Longrightarrow> t \<le> cap \<Longrightarrow> (b + t) mod cap = (if b + t < cap then b + t else b + t - (cap :: nat))"
  by (simp add: mod_if)

text \<open>The cells a written block lands in, and those it leaves.\<close>

lemma delay_write_cells:
  assumes "dl_write d < length (dl_buf d)" "length xs \<le> length (dl_buf d)"
  shows "fst (delay_write xs d) = dl_write d"
    "length (dl_buf (snd (delay_write xs d))) = length (dl_buf d)"
    "dl_write (snd (delay_write xs d)) = (dl_write d + length xs) mod length (dl_buf d)"
    "t < length xs \<Longrightarrow> dl_buf (snd (delay_write xs d)) ! ((dl_write d + t) mod length (dl_buf d)) = xs ! t"
    "length xs \<le> t \<Longrightarrow> t < length (dl_buf d) \<Longrightarrow>
      dl_buf (snd (delay_write xs d)) ! ((dl_write d + t) mod length (dl_buf d)) = dl_buf d ! ((dl_write d + t) mod length (dl_buf d))"
proof -
  let ?cap = "length (dl_buf d)" and ?b = "dl_write d"
  define first where "first = min (length xs) (?cap - ?b)"
  have cap: "dl_buf d \<noteq> []" using assms(1) by auto
  have e: "delay_write xs d = (?b, d\<lparr>dl_buf := copy_at 0 (drop first xs) (copy_at ?b (take first xs) (dl_buf d)),
      dl_write := (?b + length xs) mod ?cap\<rparr>)"
    using cap by (simp add: delay_write_def Let_def first_def)
  have f: "?b + first \<le> ?cap" "first \<le> length xs" "length xs - first \<le> ?b" "first < length xs \<longrightarrow> first = ?cap - ?b"
    using assms unfolding first_def by linarith+
  show "fst (delay_write xs d) = ?b" "length (dl_buf (snd (delay_write xs d))) = ?cap"
    "dl_write (snd (delay_write xs d)) = (?b + length xs) mod ?cap"
    using f assms(1) by (simp_all add: e min_def)
  have cell: "dl_buf (snd (delay_write xs d)) ! i =
      (if i < length xs - first then xs ! (first + i) else if ?b \<le> i \<and> i < ?b + first then xs ! (i - ?b) else dl_buf d ! i)"
    if "i < ?cap" for i
    using that f assms(1) by (auto simp: e nth_copy_at min_def)
  {
    assume t: "t < length xs"
    then have w: "(?b + t) mod ?cap = (if ?b + t < ?cap then ?b + t else ?b + t - ?cap)" "(?b + t) mod ?cap < ?cap"
      using assms wrap_once [of ?b ?cap t] by auto
    show "dl_buf (snd (delay_write xs d)) ! ((?b + t) mod ?cap) = xs ! t"
      unfolding cell [OF w(2)] unfolding w(1) using t f assms by auto
  }
  {
    assume t: "length xs \<le> t" "t < ?cap"
    then have w: "(?b + t) mod ?cap = (if ?b + t < ?cap then ?b + t else ?b + t - ?cap)" "(?b + t) mod ?cap < ?cap"
      using assms wrap_once [of ?b ?cap t] by auto
    show "dl_buf (snd (delay_write xs d)) ! ((?b + t) mod ?cap) = dl_buf d ! ((?b + t) mod ?cap)"
      unfolding cell [OF w(2)] unfolding w(1) using t f assms by auto
  }
qed

lemma past_append: "past (h @ xs) j = (if j \<le> length xs then xs ! (length xs - j) else past h (j - length xs))" if "1 \<le> j"
  using that by (auto simp: past_def nth_append)

lemma delay_write_holds:
  assumes "holds d h m" "length xs \<le> length (dl_buf d)"
  shows "holds (snd (delay_write xs d)) (h @ xs) (min (length (dl_buf d)) (m + length xs))"
proof -
  let ?cap = "length (dl_buf d)" and ?b = "dl_write d" and ?n = "length xs"
  have h: "?b < ?cap" "m \<le> ?cap" using assms(1) by (simp_all add: holds_def)
  note c = delay_write_cells [OF h(1) assms(2)]
  have "dl_buf (snd (delay_write xs d)) ! (((?b + ?n) mod ?cap + ?cap - j) mod ?cap) = past (h @ xs) j"
    if j: "1 \<le> j" "j \<le> ?cap" "j \<le> m + ?n" for j
  proof -
    have i: "((?b + ?n) mod ?cap + ?cap - j) mod ?cap = (?b + (?n + ?cap - j)) mod ?cap"
    proof -
      have "((?b + ?n) mod ?cap + ?cap - j) mod ?cap = ((?b + ?n) mod ?cap + (?cap - j)) mod ?cap" using j by simp
      also have "\<dots> = (?b + ?n + (?cap - j)) mod ?cap" by (rule mod_add_left_eq)
      also have "?b + ?n + (?cap - j) = ?b + (?n + ?cap - j)" using j by simp
      finally show ?thesis .
    qed
    show ?thesis
    proof (cases "j \<le> ?n")
      case True
      then have "?b + (?n + ?cap - j) = ?b + (?n - j) + ?cap" using j by linarith
      then have "(?b + (?n + ?cap - j)) mod ?cap = (?b + (?n - j)) mod ?cap" by (simp only: mod_add_self2)
      then show ?thesis using c(4) [of "?n - j"] True j by (simp add: i past_append)
    next
      case False
      then have e: "?n + ?cap - j < ?cap" "?n \<le> ?n + ?cap - j" "1 \<le> j - ?n" "j - ?n \<le> m" using j by linarith+
      have "?b + ?cap - (j - ?n) = ?b + (?n + ?cap - j)" using False j by linarith
      then have "dl_buf d ! ((?b + (?n + ?cap - j)) mod ?cap) = past h (j - ?n)" using assms(1) e by (auto simp: holds_def)
      then show ?thesis using c(5) [OF e(2,1)] False j by (simp add: i past_append)
    qed
  qed
  moreover have "(?b + ?n) mod ?cap < ?cap" using h(1) by (intro mod_less_divisor) linarith
  ultimately show ?thesis unfolding holds_def c(2,3) by auto
qed

section \<open>Reading\<close>

lemma delay_read_into_eq:
  assumes "n \<le> length (dl_buf d)" "tap \<le> length (dl_buf d)" "0 < length (dl_buf d)"
  shows "delay_read_into base tap n d = map (\<lambda>i. delay_get base i tap d) [0 ..< n]"
proof -
  let ?cap = "length (dl_buf d)"
  define start where "start = (base + ?cap - tap) mod ?cap"
  have s: "start < ?cap" using assms(3) by (simp add: start_def)
  have g: "delay_get base i tap d = dl_buf d ! ((start + i) mod ?cap)" for i
  proof -
    have "base + i + ?cap - tap = base + ?cap - tap + i" using assms(2) by linarith
    then show ?thesis unfolding delay_get_def Let_def start_def by (simp only: mod_add_left_eq)
  qed
  show ?thesis
    unfolding delay_read_into_def Let_def start_def [symmetric]
    by (rule nth_equalityI) (use s assms(1) in \<open>auto simp: g nth_append wrap_once add.commute\<close>)
qed

text \<open>One block through the line.\<close>

definition delay_block :: "nat \<Rightarrow> delay_sample list \<Rightarrow> delay_line \<Rightarrow> delay_sample list \<times> delay_line" where
  "delay_block tap xs d = (case delay_write xs d of (base, d1) \<Rightarrow> (delay_read_into base tap (length xs) d1, d1))"

fun delay_run :: "nat \<Rightarrow> delay_sample list list \<Rightarrow> delay_line \<Rightarrow> delay_sample list \<times> delay_line" where
  "delay_run tap [] d = ([], d)"
| "delay_run tap (xs # blocks) d =
     (case delay_block tap xs d of (out, d1) \<Rightarrow> case delay_run tap blocks d1 of (outs, d2) \<Rightarrow> (out @ outs, d2))"

definition delayed :: "nat \<Rightarrow> delay_sample list \<Rightarrow> delay_sample list \<Rightarrow> delay_sample list" where
  "delayed tap h xs = map (\<lambda>i. past (h @ take i xs) tap) [0 ..< length xs]"

lemma delayed_append: "delayed tap h (xs @ ys) = delayed tap h xs @ delayed tap (h @ xs) ys"
proof -
  have "delayed tap h (xs @ ys) = map (\<lambda>i. past (h @ take i (xs @ ys)) tap) ([0 ..< length xs] @ map (\<lambda>i. i + length xs) [0 ..< length ys])"
    by (simp add: delayed_def map_add_upt upt_add_eq_append [of 0 "length xs" "length ys", simplified] add.commute)
  also have "\<dots> = delayed tap h xs @ delayed tap (h @ xs) ys"
    by (simp add: delayed_def)
  finally show ?thesis .
qed

lemma delayed_eq:
  assumes "1 \<le> tap"
  shows "delayed tap h xs = take (length xs) (drop (length h) (replicate tap 0 @ h @ xs))"
proof (rule nth_equalityI)
  fix i assume "i < length (delayed tap h xs)"
  then have i: "i < length xs" by (simp add: delayed_def)
  let ?k = "length h + i"
  have "delayed tap h xs ! i = (if tap \<le> ?k then (h @ take i xs) ! (?k - tap) else 0)"
    using i by (simp add: delayed_def past_def min_def)
  also have "\<dots> = (if tap \<le> ?k then (h @ xs) ! (?k - tap) else 0)"
    using assms i by (auto simp: nth_append)
  also have "\<dots> = (replicate tap 0 @ h @ xs) ! ?k"
    by (cases "?k < tap") (simp_all add: nth_append not_less)
  finally show "delayed tap h xs ! i = take (length xs) (drop (length h) (replicate tap 0 @ h @ xs)) ! i"
    using i by (simp del: drop_append take_append)
qed (simp add: delayed_def del: drop_append take_append)

lemma delay_block_out:
  assumes "holds d h m" "1 \<le> tap" "tap \<le> m" "tap + length xs \<le> length (dl_buf d)"
  shows "fst (delay_block tap xs d) = delayed tap h xs"
    "holds (snd (delay_block tap xs d)) (h @ xs) (min (length (dl_buf d)) (m + length xs))"
    "length (dl_buf (snd (delay_block tap xs d))) = length (dl_buf d)"
proof -
  let ?cap = "length (dl_buf d)" and ?b = "dl_write d" and ?n = "length xs"
  have h: "?b < ?cap" "m \<le> ?cap" using assms(1) by (simp_all add: holds_def)
  have n: "?n \<le> ?cap" using assms(4) by simp
  note c = delay_write_cells [OF h(1) n] and w = delay_write_holds [OF assms(1) n]
  obtain d1 where d1: "delay_write xs d = (?b, d1)" using c(1) by (cases "delay_write xs d") simp
  have l: "length (dl_buf d1) = ?cap" "dl_write d1 = (?b + ?n) mod ?cap" using c(2,3) d1 by simp_all
  have "delay_get ?b i tap d1 = past (h @ take i xs) tap" if "i < ?n" for i
  proof -
    let ?j = "?n - i + tap"
    have j: "1 \<le> ?j" "?j \<le> min ?cap (m + ?n)" using that assms(2-4) by auto
    have "?b + i + ?cap - tap = ?b + ?n + (?cap - ?j)" using that j assms(4) by linarith
    then have "(?b + i + ?cap - tap) mod ?cap = (?b + ?n + (?cap - ?j)) mod ?cap" by (rule arg_cong)
    also have "\<dots> = ((?b + ?n) mod ?cap + (?cap - ?j)) mod ?cap" by (rule mod_add_left_eq [symmetric])
    also have "\<dots> = ((?b + ?n) mod ?cap + ?cap - ?j) mod ?cap" using j by simp
    finally have "delay_get ?b i tap d1 = past (h @ xs) ?j"
      using w j d1 by (simp add: delay_get_def holds_def Let_def l)
    also have "\<dots> = past (h @ take i xs) tap" using that assms(2) by (auto simp: past_def nth_append min_def)
    finally show ?thesis .
  qed
  moreover have "dl_buf d \<noteq> []" using h(1) by auto
  ultimately show "fst (delay_block tap xs d) = delayed tap h xs"
    using delay_read_into_eq [of ?n d1 tap ?b] l n assms(4) h(1) by (simp add: delay_block_def d1 delayed_def)
  show "holds (snd (delay_block tap xs d)) (h @ xs) (min ?cap (m + ?n))" "length (dl_buf (snd (delay_block tap xs d))) = ?cap"
    using w l by (simp_all add: delay_block_def d1)
qed

lemma delay_run_out:
  assumes "holds d h m" "1 \<le> tap" "tap \<le> m" "\<forall>b \<in> set blocks. tap + length b \<le> length (dl_buf d)"
  shows "fst (delay_run tap blocks d) = delayed tap h (concat blocks) \<and>
    (\<exists>m'. m \<le> m' \<and> holds (snd (delay_run tap blocks d)) (h @ concat blocks) m') \<and>
    length (dl_buf (snd (delay_run tap blocks d))) = length (dl_buf d)"
  using assms
proof (induction blocks arbitrary: d h m)
  case Nil
  then show ?case by (auto simp: delayed_def)
next
  case (Cons xs blocks)
  then have fit: "tap + length xs \<le> length (dl_buf d)" by simp
  note b = delay_block_out [OF Cons.prems(1-3) fit]
  have m: "m \<le> min (length (dl_buf d)) (m + length xs)" using Cons.prems(1) by (simp add: holds_def)
  obtain d1 where d1: "delay_block tap xs d = (delayed tap h xs, d1)" using b(1) by (cases "delay_block tap xs d") simp
  have "\<forall>b \<in> set blocks. tap + length b \<le> length (dl_buf d1)" using Cons.prems(4) b(3) d1 by simp
  then have ih: "fst (delay_run tap blocks d1) = delayed tap (h @ xs) (concat blocks)"
    "\<exists>m' \<ge> min (length (dl_buf d)) (m + length xs). holds (snd (delay_run tap blocks d1)) ((h @ xs) @ concat blocks) m'"
    "length (dl_buf (snd (delay_run tap blocks d1))) = length (dl_buf d)"
    using Cons.IH [of d1 "h @ xs" "min (length (dl_buf d)) (m + length xs)"] b d1 Cons.prems(2) le_trans [OF Cons.prems(3) m] by auto
  obtain outs d2 where d2: "delay_run tap blocks d1 = (outs, d2)" by fastforce
  then have "delay_run tap (xs # blocks) d = (delayed tap h xs @ outs, d2)" using d1 by simp
  moreover have "\<exists>m' \<ge> m. holds d2 (h @ concat (xs # blocks)) m'" using ih(2) d2 m by (fastforce dest: order_trans [OF m])
  ultimately show ?case using ih(1,3) d2 by (simp add: delayed_append)
qed

lemma delay_new_holds: "0 < max_tap \<Longrightarrow> holds (delay_new max_tap max_block) [] (max_tap + max_block)"
  by (simp add: holds_def delay_new_def past_def)

section \<open>Taking over a history\<close>

lemma copy_loop_cells:
  assumes "dl_write d < length (dl_buf d)" "distinct js" "\<forall>j \<in> set js. 1 \<le> j \<and> j \<le> length (dl_buf d)"
  shows "dl_write (copy_loop js other d) = dl_write d \<and> length (dl_buf (copy_loop js other d)) = length (dl_buf d) \<and>
    (\<forall>j. 1 \<le> j \<and> j \<le> length (dl_buf d) \<longrightarrow>
      dl_buf (copy_loop js other d) ! ((dl_write d + length (dl_buf d) - j) mod length (dl_buf d)) =
        (if j \<in> set js then dl_buf other ! ((dl_write other + length (dl_buf other) - j) mod length (dl_buf other))
         else dl_buf d ! ((dl_write d + length (dl_buf d) - j) mod length (dl_buf d))))"
  using assms
proof (induction js arbitrary: d)
  case (Cons j js)
  let ?cap = "length (dl_buf d)" and ?o = "\<lambda>j. dl_buf other ! ((dl_write other + length (dl_buf other) - j) mod length (dl_buf other))"
  let ?p = "\<lambda>j. (dl_write d + ?cap - j) mod ?cap"
  define d1 where "d1 = d\<lparr>dl_buf := (dl_buf d)[?p j := ?o j]\<rparr>"
  have l: "length (dl_buf d1) = ?cap" "dl_write d1 = dl_write d" by (simp_all add: d1_def)
  have run: "copy_loop (j # js) other d = copy_loop js other d1" by (simp add: d1_def Let_def)
  have pre: "dl_write d1 < length (dl_buf d1)" "distinct js" "\<forall>j \<in> set js. 1 \<le> j \<and> j \<le> length (dl_buf d1)"
    using Cons.prems by (simp_all add: l)
  note ih = Cons.IH [OF pre, unfolded l]
  have cells: "dl_buf d1 ! ?p i = (if i = j then ?o j else dl_buf d ! ?p i)" if "1 \<le> i" "i \<le> ?cap" for i
  proof -
    have j: "1 \<le> j" "j \<le> ?cap" using Cons.prems(3) by simp_all
    have "?p i \<noteq> ?p j" if "i \<noteq> j"
      using mod_shift_neq [of "?cap - i" ?cap "?cap - j" "dl_write d"] that j \<open>1 \<le> i\<close> \<open>i \<le> ?cap\<close> by simp
    moreover have "?p j < ?cap" using Cons.prems(1) by (intro mod_less_divisor) linarith
    ultimately show ?thesis by (auto simp: d1_def)
  qed
  have "\<forall>i. 1 \<le> i \<and> i \<le> ?cap \<longrightarrow> dl_buf (copy_loop (j # js) other d) ! ?p i = (if i \<in> set (j # js) then ?o i else dl_buf d ! ?p i)"
    unfolding run using ih cells Cons.prems(2) by auto
  then show ?case unfolding run using ih by blast
qed simp

lemma copy_history_holds:
  assumes "holds other h m" "dl_write d < length (dl_buf d)"
  shows "holds (copy_history_from other d) h (min m (length (dl_buf d)))"
    "length (dl_buf (copy_history_from other d)) = length (dl_buf d)"
proof -
  let ?cap = "length (dl_buf d)" and ?ocap = "length (dl_buf other)"
  have n: "\<not> (?cap = 0 \<or> ?ocap = 0)" using assms by (auto simp: holds_def)
  have e: "copy_history_from other d = copy_loop [1 ..< min ?cap ?ocap + 1] other d"
    using n by (simp add: copy_history_from_def Let_def)
  have js: "\<forall>j \<in> set [1 ..< min ?cap ?ocap + 1]. 1 \<le> j \<and> j \<le> ?cap" by auto
  note c = copy_loop_cells [OF assms(2) distinct_upt js, of other, THEN conjunct1]
    copy_loop_cells [OF assms(2) distinct_upt js, of other, THEN conjunct2, THEN conjunct1]
    copy_loop_cells [OF assms(2) distinct_upt js, of other, THEN conjunct2, THEN conjunct2]
  show "length (dl_buf (copy_history_from other d)) = ?cap" unfolding e by (rule c(2))
  have "dl_buf (copy_history_from other d) ! ((dl_write d + ?cap - j) mod ?cap) = past h j"
    if "1 \<le> j" "j \<le> min m ?cap" for j
  proof -
    have "j \<in> set [1 ..< min ?cap ?ocap + 1]" "j \<le> ?cap" using that assms(1) by (auto simp: holds_def)
    then show ?thesis unfolding e using c(3) that assms(1) by (auto simp: holds_def)
  qed
  then show "holds (copy_history_from other d) h (min m ?cap)"
    using c(1,2) assms(2) unfolding holds_def e by simp
qed

section \<open>Property\<close>

text \<open>C33: A tap delays the stream by exactly its length, silence first, however the stream is cut into blocks; and when the line
  is replaced by a new one of another size that takes over its history, the delayed stream goes on without a gap.\<close>

theorem delay_is_exact:
  assumes "1 \<le> tap" "tap \<le> max_tap" "\<forall>b \<in> set blocks. length b \<le> max_block"
    "tap \<le> max_tap2" "\<forall>b \<in> set blocks2. length b \<le> max_block2"
    "delay_run tap blocks (delay_new max_tap max_block) = (out, d)"
    "delay_run tap blocks2 (copy_history_from d (delay_new max_tap2 max_block2)) = (out2, d2)"
  shows "out @ out2 = take (length (concat (blocks @ blocks2))) (replicate tap 0 @ concat (blocks @ blocks2))"
proof -
  have cap: "length (dl_buf (delay_new max_tap max_block)) = max_tap + max_block"
    "length (dl_buf (delay_new max_tap2 max_block2)) = max_tap2 + max_block2"
    "dl_write (delay_new max_tap2 max_block2) < max_tap2 + max_block2"
    using assms(1,2,4) by (simp_all add: delay_new_def)
  have fit: "\<forall>b \<in> set blocks. tap + length b \<le> length (dl_buf (delay_new max_tap max_block))"
    "\<forall>b \<in> set blocks2. tap + length b \<le> max_tap2 + max_block2"
    using assms(2-5) unfolding cap by fastforce+
  have "0 < max_tap" "tap \<le> max_tap + max_block" using assms(1,2) by simp_all
  from delay_run_out [OF delay_new_holds [OF this(1)] assms(1) this(2) fit(1)] assms(6) obtain m where
    one: "out = delayed tap [] (concat blocks)" "max_tap + max_block \<le> m" "holds d (concat blocks) m" by auto
  note take_over = copy_history_holds [OF one(3), of "delay_new max_tap2 max_block2", unfolded cap, OF cap(3)]
  have "tap \<le> min m (max_tap2 + max_block2)" using one(2) assms(2,4) by simp
  from delay_run_out [OF take_over(1) assms(1) this, unfolded take_over(2), OF fit(2)] assms(7)
  have "out2 = delayed tap (concat blocks) (concat blocks2)" by simp
  then have "out @ out2 = delayed tap [] (concat (blocks @ blocks2))"
    using one(1) delayed_append [of tap "[]" "concat blocks" "concat blocks2"] by simp
  then show ?thesis using delayed_eq [OF assms(1), of "[]"] by simp
qed

theorem delay_is_exact_witness:
  "\<exists>out d out2 d2. delay_run 2 [[1, 2, 3], [4]] (delay_new 2 3) = (out, d) \<and>
     delay_run 2 [[5], [6, 7]] (copy_history_from d (delay_new 5 2)) = (out2, d2) \<and> out @ out2 = [0, 0, 1, 2, 3, 4, 5]"
proof -
  obtain out d where r: "delay_run 2 [[1, 2, 3], [4]] (delay_new 2 3) = (out, d)" by fastforce
  obtain out2 d2 where r2: "delay_run 2 [[5], [6, 7]] (copy_history_from d (delay_new 5 2)) = (out2, d2)" by fastforce
  have "out @ out2 = [0, 0, 1, 2, 3, 4, 5]"
    using delay_is_exact [of 2 2 "[[1, 2, 3], [4]]" 3 5 "[[5], [6, 7]]" 2, OF _ _ _ _ _ r r2] by (simp add: numeral_eq_Suc)
  with r r2 show ?thesis by blast
qed

end
