(* ===== verification/Sha256.thy ===== *)
theory Sha256
  imports Prelude
begin

text \<open>
  The checksums of module packages: \<^verbatim>\<open>crates/plugin-host/src/sha256.rs\<close>.  \<open>sha256_spec\<close> is the FIPS 180-4 digest of a
  whole message: pad, cut into blocks, compress.  The streaming hasher is shown to compute it however the message is cut.
\<close>

definition sha_k :: "32 word list" where
  "sha_k = concat
    [[0x428a2f98, 0x71374491, 0xb5c0fbcf, 0xe9b5dba5], [0x3956c25b, 0x59f111f1, 0x923f82a4, 0xab1c5ed5],
     [0xd807aa98, 0x12835b01, 0x243185be, 0x550c7dc3], [0x72be5d74, 0x80deb1fe, 0x9bdc06a7, 0xc19bf174],
     [0xe49b69c1, 0xefbe4786, 0x0fc19dc6, 0x240ca1cc], [0x2de92c6f, 0x4a7484aa, 0x5cb0a9dc, 0x76f988da],
     [0x983e5152, 0xa831c66d, 0xb00327c8, 0xbf597fc7], [0xc6e00bf3, 0xd5a79147, 0x06ca6351, 0x14292967],
     [0x27b70a85, 0x2e1b2138, 0x4d2c6dfc, 0x53380d13], [0x650a7354, 0x766a0abb, 0x81c2c92e, 0x92722c85],
     [0xa2bfe8a1, 0xa81a664b, 0xc24b8b70, 0xc76c51a3], [0xd192e819, 0xd6990624, 0xf40e3585, 0x106aa070],
     [0x19a4c116, 0x1e376c08, 0x2748774c, 0x34b0bcb5], [0x391c0cb3, 0x4ed8aa4a, 0x5b9cca4f, 0x682e6ff3],
     [0x748f82ee, 0x78a5636f, 0x84c87814, 0x8cc70208], [0x90befffa, 0xa4506ceb, 0xbef9a3f7, 0xc67178f2]]"

definition sha_h0 :: "32 word list" where
  "sha_h0 = [0x6a09e667, 0xbb67ae85, 0x3c6ef372, 0xa54ff53a, 0x510e527f, 0x9b05688c, 0x1f83d9ab, 0x5be0cd19]"

record sha256 =
  sh_state :: "32 word list"
  sh_block :: "byte list"
  sh_filled :: nat
  sh_total :: nat

definition sha_new :: sha256 where
  "sha_new = \<lparr>sh_state = sha_h0, sh_block = replicate 64 0, sh_filled = 0, sh_total = 0\<rparr>"

section \<open>Compression\<close>

text \<open>\<open>u32::from_be_bytes\<close> and \<open>to_be_bytes\<close>.\<close>

definition be32 :: "byte list \<Rightarrow> 32 word" where
  "be32 bs = push_bit 24 (ucast (bs ! 0)) OR push_bit 16 (ucast (bs ! 1)) OR push_bit 8 (ucast (bs ! 2)) OR ucast (bs ! 3)"

definition to_be32 :: "32 word \<Rightarrow> byte list" where
  "to_be32 w = [ucast (drop_bit 24 w), ucast (drop_bit 16 w), ucast (drop_bit 8 w), ucast w]"

definition to_be64 :: "nat \<Rightarrow> byte list" where
  "to_be64 n = map (\<lambda>i. word_of_nat (n div 256 ^ (7 - i))) [0 ..< 8]"

definition schedule_word :: "nat \<Rightarrow> 32 word list \<Rightarrow> 32 word list" where
  "schedule_word t w =
     (let s0 = word_rotr 7 (w ! (t - 15)) XOR word_rotr 18 (w ! (t - 15)) XOR drop_bit 3 (w ! (t - 15));
          s1 = word_rotr 17 (w ! (t - 2)) XOR word_rotr 19 (w ! (t - 2)) XOR drop_bit 10 (w ! (t - 2))
      in w[t := w ! (t - 16) + s0 + w ! (t - 7) + s1])"

definition schedule :: "byte list \<Rightarrow> 32 word list" where
  "schedule block =
     fold schedule_word [16 ..< 64] (map (\<lambda>t. be32 (take 4 (drop (4 * t) block))) [0 ..< 16] @ replicate 48 0)"

type_synonym sha_vars = "32 word \<times> 32 word \<times> 32 word \<times> 32 word \<times> 32 word \<times> 32 word \<times> 32 word \<times> 32 word"

definition sha_round :: "32 word list \<Rightarrow> nat \<Rightarrow> sha_vars \<Rightarrow> sha_vars" where
  "sha_round w t v =
     (case v of (a, b, c, d, e, f, g, h) \<Rightarrow>
        let s1 = word_rotr 6 e XOR word_rotr 11 e XOR word_rotr 25 e;
            ch = (e AND f) XOR (NOT e AND g);
            t1 = h + s1 + ch + sha_k ! t + w ! t;
            s0 = word_rotr 2 a XOR word_rotr 13 a XOR word_rotr 22 a;
            maj = (a AND b) XOR (a AND c) XOR (b AND c);
            t2 = s0 + maj
        in (t1 + t2, a, b, c, d + t1, e, f, g))"

definition compress :: "32 word list \<Rightarrow> byte list \<Rightarrow> 32 word list" where
  "compress state block =
     (case fold (sha_round (schedule block)) [0 ..< 64]
             (state ! 0, state ! 1, state ! 2, state ! 3, state ! 4, state ! 5, state ! 6, state ! 7) of
        (a, b, c, d, e, f, g, h) \<Rightarrow> map2 (+) state [a, b, c, d, e, f, g, h])"

section \<open>Streaming\<close>

definition blocks64 :: "byte list \<Rightarrow> byte list list" where
  "blocks64 m = map (\<lambda>i. take 64 (drop (64 * i) m)) [0 ..< length m div 64]"

definition rest64 :: "byte list \<Rightarrow> byte list" where
  "rest64 m = drop (64 * (length m div 64)) m"

definition update_blocks :: "byte list \<Rightarrow> sha256 \<Rightarrow> sha256" where
  "update_blocks data s =
     s\<lparr>sh_state := foldl compress (sh_state s) (blocks64 data), sh_block := copy_at 0 (rest64 data) (sh_block s),
       sh_filled := length (rest64 data)\<rparr>"

definition sha_update :: "byte list \<Rightarrow> sha256 \<Rightarrow> sha256" where
  "sha_update data s0 =
     (let s = s0\<lparr>sh_total := (sh_total s0 + length data) mod 2 ^ 64\<rparr>
      in if sh_filled s > 0 then
           let n = min (64 - sh_filled s) (length data);
               s1 = s\<lparr>sh_block := copy_at (sh_filled s) (take n data) (sh_block s), sh_filled := sh_filled s + n\<rparr>
           in if sh_filled s1 < 64 then s1
              else update_blocks (drop n data) (s1\<lparr>sh_state := compress (sh_state s1) (sh_block s1), sh_filled := 0\<rparr>)
         else update_blocks data s)"

definition sha_finalize :: "sha256 \<Rightarrow> byte list" where
  "sha_finalize s =
     (let bits = (sh_total s * 8) mod 2 ^ 64;
          pad = 0x80 # replicate 71 0;
          pad_len = (if sh_filled s < 56 then 56 - sh_filled s else 120 - sh_filled s);
          s1 = sha_update (take pad_len pad) s;
          s2 = sha_update (to_be64 bits) s1
      in concat (map to_be32 (sh_state s2)))"

definition hex_text :: "byte list \<Rightarrow> string" where
  "hex_text bytes = concat (map (\<lambda>b. [''0123456789abcdef'' ! unat (drop_bit 4 b), ''0123456789abcdef'' ! unat (b AND 0xF)]) bytes)"

definition sha256_hex :: "byte list \<Rightarrow> string" where
  "sha256_hex data = hex_text (sha_finalize (sha_update data sha_new))"

definition is_sha256_hex :: "string \<Rightarrow> bool" where
  "is_sha256_hex s \<longleftrightarrow> length s = 64 \<and> (\<forall>c \<in> set s. c \<in> set ''0123456789abcdef'')"

section \<open>The digest of a message\<close>

definition padding :: "byte list \<Rightarrow> byte list" where
  "padding m = 0x80 # replicate ((119 - length m mod 64) mod 64) 0 @ to_be64 (8 * length m mod 2 ^ 64)"

definition sha256_spec :: "byte list \<Rightarrow> byte list" where
  "sha256_spec m = concat (map to_be32 (foldl compress sha_h0 (blocks64 (m @ padding m))))"

lemma length_padded: "64 dvd length (m @ padding m)"
proof -
  have "length (m @ padding m) = length m + 9 + (119 - length m mod 64) mod 64" by (simp add: padding_def to_be64_def)
  moreover have "\<exists>k. length m + 9 + (119 - length m mod 64) mod 64 = 64 * k"
  proof -
    define q f where "q = length m div 64" and "f = length m mod 64"
    have l: "length m = 64 * q + f" "f < 64" by (simp_all add: q_def f_def)
    show ?thesis
    proof (cases "f < 56")
      case True
      then have "(119 - f) mod 64 = 55 - f" by (simp add: mod_if)
      then have "length m + 9 + (119 - f) mod 64 = 64 * (q + 1)" using l True by simp
      then show ?thesis unfolding f_def [symmetric] by blast
    next
      case False
      then have "(119 - f) mod 64 = 119 - f" by simp
      then have "length m + 9 + (119 - f) mod 64 = 64 * (q + 2)" using l False by simp
      then show ?thesis unfolding f_def [symmetric] by blast
    qed
  qed
  ultimately show ?thesis by (metis dvd_triv_left)
qed

lemma blocks64_append: "64 dvd length a \<Longrightarrow> blocks64 (a @ b) = blocks64 a @ blocks64 b"
proof -
  assume "64 dvd length a"
  then obtain k where k: "length a = 64 * k" by blast
  have n: "length (a @ b) div 64 = k + length b div 64" using k by simp
  have "blocks64 (a @ b) ! i = (blocks64 a @ blocks64 b) ! i" if i: "i < k + length b div 64" for i
  proof (cases "i < k")
    case True
    then have "take 64 (drop (64 * i) (a @ b)) = take 64 (drop (64 * i) a)" using k by simp
    then show ?thesis using True i n k by (simp add: blocks64_def nth_append)
  next
    case False
    then have "64 * i - length a = 64 * (i - k)" "length a \<le> 64 * i" using k by auto
    then have "take 64 (drop (64 * i) (a @ b)) = take 64 (drop (64 * (i - k)) b)" by simp
    then show ?thesis using False i n k by (simp add: blocks64_def nth_append)
  qed
  then show ?thesis using n k by (intro nth_equalityI) (simp_all add: blocks64_def)
qed

lemma blocks64_short [simp]: "length r < 64 \<Longrightarrow> blocks64 r = []"
  by (simp add: blocks64_def)

lemma blocks64_one: "length r = 64 \<Longrightarrow> blocks64 r = [r]"
  by (simp add: blocks64_def)

lemma rest64_split: "m = take (64 * (length m div 64)) m @ rest64 m" "64 dvd length (take (64 * (length m div 64)) m)"
  "length (rest64 m) < 64" "blocks64 m = blocks64 (take (64 * (length m div 64)) m)"
proof -
  let ?a = "take (64 * (length m div 64)) m"
  show s: "m = ?a @ rest64 m" by (simp add: rest64_def)
  have l: "length ?a = 64 * (length m div 64)" by simp
  then show d: "64 dvd length ?a" by (metis dvd_triv_left)
  have "length (rest64 m) = length m - 64 * (length m div 64)" by (simp add: rest64_def)
  then show r: "length (rest64 m) < 64" by presburger
  show "blocks64 m = blocks64 ?a" using blocks64_append [OF d, of "rest64 m"] s r by simp
qed

text \<open>What a hasher has absorbed: whole blocks \<open>a\<close> and the rest \<open>r\<close>.\<close>

definition absorbed :: "sha256 \<Rightarrow> byte list \<Rightarrow> bool" where
  "absorbed s m \<longleftrightarrow>
     (\<exists>a r. m = a @ r \<and> 64 dvd length a \<and> length r < 64 \<and> sh_state s = foldl compress sha_h0 (blocks64 a) \<and>
        sh_filled s = length r \<and> take (length r) (sh_block s) = r \<and> length (sh_block s) = 64) \<and>
     sh_total s = length m mod 2 ^ 64"

lemma absorbed_new: "absorbed sha_new []"
  by (simp add: absorbed_def sha_new_def blocks64_def)

lemma update_blocks_absorbed:
  assumes "64 dvd length a" "sh_state s = foldl compress sha_h0 (blocks64 a)" "length (sh_block s) = 64"
    "sh_total s = length (a @ data) mod 2 ^ 64"
  shows "absorbed (update_blocks data s) (a @ data)"
proof -
  note r = rest64_split [of data]
  let ?b = "take (64 * (length data div 64)) data"
  have "a @ data = (a @ ?b) @ rest64 data" using r(1) by simp
  moreover have "64 dvd length (a @ ?b)" using assms(1) r(2) by simp
  moreover have "sh_state (update_blocks data s) = foldl compress sha_h0 (blocks64 (a @ ?b))"
    using assms(2) blocks64_append [OF assms(1), of ?b] r(4) by (simp add: update_blocks_def)
  moreover have "take (length (rest64 data)) (sh_block (update_blocks data s)) = rest64 data"
    "length (sh_block (update_blocks data s)) = 64"
    using r(3) assms(3) by (simp_all add: update_blocks_def copy_at_def)
  moreover have "sh_filled (update_blocks data s) = length (rest64 data)" "sh_total (update_blocks data s) = sh_total s"
    by (simp_all add: update_blocks_def)
  ultimately show ?thesis unfolding absorbed_def using r(3) assms(4)
    by (intro conjI exI [of _ "a @ ?b"] exI [of _ "rest64 data"]) simp_all
qed

lemma sha_update_absorbed:
  assumes "absorbed s m"
  shows "absorbed (sha_update data s) (m @ data)"
proof -
  obtain a r where ar: "m = a @ r" "64 dvd length a" "length r < 64" "sh_state s = foldl compress sha_h0 (blocks64 a)"
    "sh_filled s = length r" "take (length r) (sh_block s) = r" "length (sh_block s) = 64" and t: "sh_total s = length m mod 2 ^ 64"
    using assms unfolding absorbed_def by blast
  have total: "(sh_total s + length data) mod 2 ^ 64 = length (m @ data) mod 2 ^ 64"
    using t by (simp add: mod_add_left_eq)
  let ?s = "s\<lparr>sh_total := length (m @ data) mod 2 ^ 64\<rparr>"
  show ?thesis
  proof (cases "r = []")
    case True
    then have "sha_update data s = update_blocks data ?s" using ar(5) total by (simp add: sha_update_def Let_def)
    then show ?thesis using update_blocks_absorbed [of a ?s data] ar True by simp
  next
    case False
    let ?n = "min (64 - length r) (length data)"
    have blk: "copy_at (length r) (take ?n data) (sh_block s) = r @ take ?n data @ drop (length r + ?n) (sh_block s)"
      using ar(6) by (simp add: copy_at_def)
    show ?thesis
    proof (cases "length r + ?n < 64")
      case True
      then have n: "?n = length data" "length r + length data < 64" by linarith+
      have "sha_update data s = ?s\<lparr>sh_block := r @ data @ drop (length r + length data) (sh_block s), sh_filled := length (r @ data)\<rparr>"
        using False True ar(5) total n blk by (simp add: sha_update_def Let_def)
      then show ?thesis unfolding absorbed_def using ar n
        by (intro conjI exI [of _ a] exI [of _ "r @ data"]) simp_all
    next
      case wrap: False
      have n: "length r + ?n = 64" "?n \<le> length data" using wrap ar(3) by linarith+
      let ?s1 = "?s\<lparr>sh_block := r @ take ?n data, sh_state := compress (sh_state s) (r @ take ?n data), sh_filled := 0\<rparr>"
      have "sha_update data s = update_blocks (drop ?n data) ?s1"
        using False wrap ar(5,7) total n blk by (simp add: sha_update_def Let_def)
      moreover have "64 dvd length (a @ r @ take ?n data)" using ar(2) n by (simp add: min_absorb2)
      moreover have "sh_state ?s1 = foldl compress sha_h0 (blocks64 (a @ r @ take ?n data))"
        using ar(4) blocks64_append [OF ar(2), of "r @ take ?n data"] blocks64_one [of "r @ take ?n data"] n by (simp add: min_absorb2)
      moreover have "length (sh_block ?s1) = 64" using n by (simp add: min_absorb2)
      moreover have "sh_total ?s1 = length ((a @ r @ take ?n data) @ drop ?n data) mod 2 ^ 64" using ar(1) by simp
      ultimately have "absorbed (sha_update data s) ((a @ r @ take ?n data) @ drop ?n data)"
        using update_blocks_absorbed [of "a @ r @ take ?n data" ?s1 "drop ?n data"] by metis
      then show ?thesis using ar(1) by simp
    qed
  qed
qed

lemma sha_updates_absorbed: "absorbed s m \<Longrightarrow> absorbed (fold sha_update pieces s) (m @ concat pieces)"
  by (induction pieces arbitrary: s m) (simp_all add: sha_update_absorbed, metis append_assoc sha_update_absorbed)

lemma sha_finalize_spec:
  assumes "absorbed s m"
  shows "sha_finalize s = sha256_spec m"
proof -
  obtain a r where ar: "m = a @ r" "64 dvd length a" "length r < 64" "sh_filled s = length r" and t: "sh_total s = length m mod 2 ^ 64"
    using assms unfolding absorbed_def by blast
  have f: "length m mod 64 = length r" using ar by auto
  let ?len = "if sh_filled s < 56 then 56 - sh_filled s else 120 - sh_filled s"
  let ?bits = "(sh_total s * 8) mod 2 ^ 64"
  have "?bits = length m * 8 mod 2 ^ 64" unfolding t by (rule mod_mult_left_eq)
  then have bits: "?bits = 8 * length m mod 2 ^ 64" by (simp add: mult.commute)
  have len: "?len = Suc ((119 - length m mod 64) mod 64)" "?len \<le> 72"
    using ar(3,4) f by (auto simp: mod_if)
  have pad: "take ?len (0x80 # replicate 71 0) @ to_be64 ?bits = padding m"
    unfolding padding_def bits len(1) using len by (simp add: take_Cons' min_absorb1)
  have "absorbed (sha_update (to_be64 ?bits) (sha_update (take ?len (0x80 # replicate 71 0)) s)) (m @ padding m)"
    using sha_update_absorbed [OF sha_update_absorbed [OF assms], of "to_be64 ?bits" "take ?len (0x80 # replicate 71 0)"] pad by simp
  then obtain b q where bq: "m @ padding m = b @ q" "64 dvd length b" "length q < 64"
    "sh_state (sha_update (to_be64 ?bits) (sha_update (take ?len (0x80 # replicate 71 0)) s)) = foldl compress sha_h0 (blocks64 b)"
    unfolding absorbed_def by blast
  have "64 dvd length b + length q" using length_padded [of m] bq(1) by simp
  then have "q = []" using bq(2,3) by (simp add: dvd_add_right_iff) (metis length_0_conv nat_dvd_not_less neq0_conv)
  then show ?thesis using bq(1,4) by (simp add: sha_finalize_def sha256_spec_def Let_def)
qed

section \<open>Property\<close>

lemma sha_streaming: "sha_finalize (fold sha_update pieces sha_new) = sha256_spec (concat pieces)"
  using sha_finalize_spec [OF sha_updates_absorbed [OF absorbed_new, of pieces]] by simp


end
