(* ===== verification/Wav_Text.thy ===== *)
theory Wav_Text
  imports Prelude
begin

text \<open>
  The text of marker names in a WAV file: Rust's \<open>String\<close> as a list of Unicode scalar values, its UTF-8 bytes and
  \<open>str::from_utf8\<close>, and the Windows-1252 fallback of \<^verbatim>\<open>crates/io/src/wav.rs\<close>.
\<close>

type_synonym unicode = "nat list"

section \<open>UTF-8\<close>

definition scalar_value :: "nat \<Rightarrow> bool" where
  "scalar_value c \<longleftrightarrow> c < 0x110000 \<and> \<not> (0xD800 \<le> c \<and> c \<le> 0xDFFF)"

definition utf8_char :: "nat \<Rightarrow> nat list" where
  "utf8_char c =
     (if c < 0x80 then [c]
      else if c < 0x800 then [0xC0 + c div 64, 0x80 + c mod 64]
      else if c < 0x10000 then [0xE0 + c div 64 div 64, 0x80 + c div 64 mod 64, 0x80 + c mod 64]
      else [0xF0 + c div 64 div 64 div 64, 0x80 + c div 64 div 64 mod 64, 0x80 + c div 64 mod 64, 0x80 + c mod 64])"

definition as_bytes :: "unicode \<Rightarrow> byte list" where
  "as_bytes s = map word_of_nat (concat (map utf8_char s))"

definition continuation :: "nat \<Rightarrow> bool" where
  "continuation b \<longleftrightarrow> 0x80 \<le> b \<and> b < 0xC0"

fun utf8_decode :: "nat list \<Rightarrow> unicode option" where
  "utf8_decode [] = Some []"
| "utf8_decode (b0 # r) =
     (if b0 < 0x80 then map_option (Cons b0) (utf8_decode r)
      else if 0xC2 \<le> b0 \<and> b0 < 0xE0 then
        (case r of
           b1 # r1 \<Rightarrow>
             if continuation b1 then map_option (Cons ((b0 - 0xC0) * 64 + (b1 - 0x80))) (utf8_decode r1) else None
         | _ \<Rightarrow> None)
      else if 0xE0 \<le> b0 \<and> b0 < 0xF0 then
        (case r of
           b1 # b2 # r2 \<Rightarrow>
             let c = ((b0 - 0xE0) * 64 + (b1 - 0x80)) * 64 + (b2 - 0x80)
             in if continuation b1 \<and> continuation b2 \<and> 0x800 \<le> c \<and> scalar_value c
                then map_option (Cons c) (utf8_decode r2) else None
         | _ \<Rightarrow> None)
      else if 0xF0 \<le> b0 \<and> b0 < 0xF5 then
        (case r of
           b1 # b2 # b3 # r3 \<Rightarrow>
             let c = (((b0 - 0xF0) * 64 + (b1 - 0x80)) * 64 + (b2 - 0x80)) * 64 + (b3 - 0x80)
             in if continuation b1 \<and> continuation b2 \<and> continuation b3 \<and> 0x10000 \<le> c \<and> scalar_value c
                then map_option (Cons c) (utf8_decode r3) else None
         | _ \<Rightarrow> None)
      else None)"

definition from_utf8 :: "byte list \<Rightarrow> unicode option" where
  "from_utf8 bs = utf8_decode (map unat bs)"

lemma utf8_decode_char:
  assumes "scalar_value c"
  shows "utf8_decode (utf8_char c @ r) = map_option (Cons c) (utf8_decode r)"
proof -
  define q q2 q3 where "q = c div 64" and "q2 = q div 64" and "q3 = q2 div 64"
  have d: "q * 64 + c mod 64 = c" "q2 * 64 + q mod 64 = q" "q3 * 64 + q2 mod 64 = q2" "c mod 64 < 64" "q mod 64 < 64" "q2 mod 64 < 64"
    by (simp_all add: q_def q2_def q3_def)
  consider "c < 0x80" | "0x80 \<le> c" "c < 0x800" | "0x800 \<le> c" "c < 0x10000" | "0x10000 \<le> c" by linarith
  then show ?thesis
  proof cases
    case 1
    then show ?thesis by (simp add: utf8_char_def)
  next
    case 2
    then have q: "2 \<le> q" "q < 32" using d(1,4) by linarith+
    have "utf8_char c = [0xC0 + q, 0x80 + c mod 64]" using 2 by (simp add: utf8_char_def q_def)
    then show ?thesis using q d(1,4) by (simp add: continuation_def)
  next
    case 3
    then have q: "q2 < 16" using d by linarith
    have "utf8_char c = [0xE0 + q2, 0x80 + q mod 64, 0x80 + c mod 64]" using 3 by (simp add: utf8_char_def q_def q2_def)
    then show ?thesis using q d(1,2,4,5) 3(1) assms by (simp add: continuation_def Let_def)
  next
    case 4
    then have q: "q3 < 5" using d assms unfolding scalar_value_def by linarith
    have "utf8_char c = [0xF0 + q3, 0x80 + q2 mod 64, 0x80 + q mod 64, 0x80 + c mod 64]"
      using 4 by (simp add: utf8_char_def q_def q2_def q3_def)
    moreover have "4096 * q2 + q mod 64 * 64 + c mod 64 = c" using d(1,2) by linarith
    ultimately show ?thesis using q d(3-6) 4 assms by (simp add: continuation_def Let_def)
  qed
qed

lemma utf8_char_byte: "scalar_value c \<Longrightarrow> b \<in> set (utf8_char c) \<Longrightarrow> b < 256"
  by (auto simp: utf8_char_def scalar_value_def split: if_splits)

lemma utf8_char_nonzero: "0 < c \<Longrightarrow> 0 \<notin> set (utf8_char c)"
  by (auto simp: utf8_char_def)

lemma unat_as_bytes: "list_all scalar_value s \<Longrightarrow> map unat (as_bytes s) = concat (map utf8_char s)"
proof -
  assume s: "list_all scalar_value s"
  have "unat (word_of_nat b :: byte) = b" if "b \<in> set (concat (map utf8_char s))" for b
  proof -
    have "b < 256" using that s utf8_char_byte by (auto simp: list_all_iff)
    then show ?thesis by (simp add: unat_of_nat take_bit_nat_eq_self)
  qed
  then have "map (\<lambda>b. unat (word_of_nat b :: byte)) (concat (map utf8_char s)) = concat (map utf8_char s)" by (rule map_idI)
  then show ?thesis unfolding as_bytes_def by (simp only: map_map comp_def)
qed

lemma from_utf8_as_bytes: "list_all scalar_value s \<Longrightarrow> from_utf8 (as_bytes s) = Some s"
  by (induction s) (auto simp: from_utf8_def unat_as_bytes utf8_decode_char)

lemma as_bytes_nonzero: "list_all scalar_value s \<Longrightarrow> 0 \<notin> set s \<Longrightarrow> 0 \<notin> set (as_bytes s)"
proof
  assume s: "list_all scalar_value s" "0 \<notin> set s" "0 \<in> set (as_bytes s)"
  then have "0 \<in> set (map unat (as_bytes s))" by force
  then obtain c where "c \<in> set s" "0 \<in> set (utf8_char c)" using s(1) by (auto simp: unat_as_bytes)
  then show False using utf8_char_nonzero [of c] s(2) by (cases c) auto
qed

section \<open>Windows-1252\<close>

definition windows_1252_high :: "nat list" where
  "windows_1252_high =
    [0x20AC, 0x0081, 0x201A, 0x0192, 0x201E, 0x2026, 0x2020, 0x2021, 0x02C6, 0x2030, 0x0160, 0x2039, 0x0152, 0x008D, 0x017D, 0x008F,
     0x0090, 0x2018, 0x2019, 0x201C, 0x201D, 0x2022, 0x2013, 0x2014, 0x02DC, 0x2122, 0x0161, 0x203A, 0x0153, 0x009D, 0x017E, 0x0178]"

definition decode_windows_1252 :: "byte list \<Rightarrow> unicode" where
  "decode_windows_1252 bs =
     map (\<lambda>b. let n = unat b in if 0x80 \<le> n \<and> n \<le> 0x9F then windows_1252_high ! (n - 0x80) else n) bs"

definition decode_text :: "byte list \<Rightarrow> unicode" where
  "decode_text bs = (case from_utf8 bs of Some s \<Rightarrow> s | None \<Rightarrow> decode_windows_1252 bs)"

lemma decode_text_as_bytes: "list_all scalar_value s \<Longrightarrow> decode_text (as_bytes s) = s"
  by (simp add: decode_text_def from_utf8_as_bytes)

section \<open>Blank names\<close>

definition is_whitespace :: "nat \<Rightarrow> bool" where
  "is_whitespace c \<longleftrightarrow> (9 \<le> c \<and> c \<le> 13) \<or> c = 32 \<or> c = 0x85 \<or> c = 0xA0 \<or> c = 0x1680 \<or> (0x2000 \<le> c \<and> c \<le> 0x200A) \<or>
     c = 0x2028 \<or> c = 0x2029 \<or> c = 0x202F \<or> c = 0x205F \<or> c = 0x3000"

text \<open>\<open>name.trim().is_empty()\<close>.\<close>

definition is_blank :: "unicode \<Rightarrow> bool" where
  "is_blank s \<longleftrightarrow> list_all is_whitespace s"

fun decimal :: "nat \<Rightarrow> unicode" where
  "decimal n = (if n < 10 then [48 + n] else decimal (n div 10) @ [48 + n mod 10])"

declare decimal.simps [simp del]

text \<open>\<open>format!("Marker {}", n)\<close>.\<close>

definition default_name :: "nat \<Rightarrow> unicode" where
  "default_name n = [77, 97, 114, 107, 101, 114, 32] @ decimal n"

end
