(* ===== verification/Wav_Markers.thy ===== *)
theory Wav_Markers
  imports Wav_Text Store_Data
begin

text \<open>
  Markers in a WAV file: the \<^verbatim>\<open>cue \<close> and \<^verbatim>\<open>LIST adtl\<close> chunks that \<^verbatim>\<open>crates/io/src/wav.rs\<close> reads and
  writes.  A file is its bytes; a cursor is the bytes that remain.  Chunk tags are written as their bytes.
\<close>

definition riff_tag :: "byte list" where "riff_tag = [0x52, 0x49, 0x46, 0x46]"
definition wave_tag :: "byte list" where "wave_tag = [0x57, 0x41, 0x56, 0x45]"
definition cue_tag :: "byte list" where "cue_tag = [0x63, 0x75, 0x65, 0x20]"
definition list_tag :: "byte list" where "list_tag = [0x4C, 0x49, 0x53, 0x54]"
definition adtl_tag :: "byte list" where "adtl_tag = [0x61, 0x64, 0x74, 0x6C]"
definition labl_tag :: "byte list" where "labl_tag = [0x6C, 0x61, 0x62, 0x6C]"
definition ltxt_tag :: "byte list" where "ltxt_tag = [0x6C, 0x74, 0x78, 0x74]"
definition data_tag :: "byte list" where "data_tag = [0x64, 0x61, 0x74, 0x61]"
definition rgn_tag :: "byte list" where "rgn_tag = [0x72, 0x67, 0x6E, 0x20]"
definition info_tag :: "byte list" where "info_tag = [0x49, 0x4E, 0x46, 0x4F]"
definition foreign_tags :: "byte list list" where
  "foreign_tags = [[0x62, 0x65, 0x78, 0x74], [0x69, 0x58, 0x4D, 0x4C], [0x73, 0x6D, 0x70, 0x6C], [0x69, 0x64, 0x33, 0x20], [0x49, 0x44, 0x33, 0x20]]"

lemmas tag_defs = riff_tag_def wave_tag_def cue_tag_def list_tag_def adtl_tag_def labl_tag_def ltxt_tag_def data_tag_def rgn_tag_def

record wav_marker =
  wm_pos :: nat
  wm_len :: nat
  wm_name :: unicode

record wav_markers_result =
  wr_markers :: "wav_marker list"
  wr_bad_cue :: bool
  wr_bad_adtl :: bool
  wr_out_of_range :: nat

definition markers_unreadable :: "wav_markers_result \<Rightarrow> bool" where
  "markers_unreadable r \<longleftrightarrow> wr_bad_cue r \<or> wr_bad_adtl r"

definition cue_max_points :: nat where
  "cue_max_points = 100000"

section \<open>Reading\<close>

definition c_take :: "nat \<Rightarrow> byte list \<Rightarrow> (byte list \<times> byte list) option" where
  "c_take n c = (if length c < n then None else Some (take n c, drop n c))"

definition c_u32 :: "byte list \<Rightarrow> (nat \<times> byte list) option" where
  "c_u32 c = map_option (\<lambda>(b, r). (u32_of_le b, r)) (c_take 4 c)"

definition c_skip_pad :: "nat \<Rightarrow> byte list \<Rightarrow> byte list" where
  "c_skip_pad n c = (if n mod 2 = 1 then (case c_take 1 c of Some (_, r) \<Rightarrow> r | None \<Rightarrow> c) else c)"

lemma c_take_append [simp]: "length a = n \<Longrightarrow> c_take n (a @ r) = Some (a, r)"
  by (simp add: c_take_def)

lemma c_take_length: "c_take n c = Some (b, r) \<Longrightarrow> length b = n \<and> length c = n + length r"
  by (auto simp: c_take_def split: if_splits)

lemma c_u32_length: "c_u32 c = Some (v, r) \<Longrightarrow> length c = 4 + length r"
  by (auto simp: c_u32_def dest: c_take_length)

lemma c_skip_pad_length: "length (c_skip_pad n c) \<le> length c"
  by (auto simp: c_skip_pad_def c_take_def)

lemma c_u32_append [simp]: "n < 2 ^ 32 \<Longrightarrow> c_u32 (u32_le n @ r) = Some (n, r)"
  by (simp add: c_u32_def u32_of_le_u32_le)

record raw_cue =
  rq_id :: nat
  rq_position :: nat
  rq_fcc :: "byte list"
  rq_chunk_start :: nat
  rq_block_start :: nat
  rq_sample_offset :: nat

record marker_scan =
  ps_cues :: "raw_cue list"
  ps_seen :: "nat list"
  ps_labels :: "nat \<rightharpoonup> unicode"
  ps_regions :: "nat \<rightharpoonup> nat"
  ps_bad_cue :: bool
  ps_bad_adtl :: bool

definition scan_start :: marker_scan where
  "scan_start = \<lparr>ps_cues = [], ps_seen = [], ps_labels = Map.empty, ps_regions = Map.empty, ps_bad_cue = False, ps_bad_adtl = False\<rparr>"

definition push_cue :: "raw_cue \<Rightarrow> marker_scan \<Rightarrow> marker_scan" where
  "push_cue q st =
     (if rq_id q \<in> set (ps_seen st) then st else st\<lparr>ps_seen := rq_id q # ps_seen st, ps_cues := ps_cues st @ [q]\<rparr>)"

fun read_cues :: "nat \<Rightarrow> byte list \<Rightarrow> marker_scan \<Rightarrow> marker_scan" where
  "read_cues 0 c st = st"
| "read_cues (Suc k) c st =
     (case c_u32 c of None \<Rightarrow> st | Some (cue_id, c1) \<Rightarrow>
      case c_u32 c1 of None \<Rightarrow> st | Some (pos0, c2) \<Rightarrow>
      case c_take 4 c2 of None \<Rightarrow> st | Some (fcc, c3) \<Rightarrow>
      case c_u32 c3 of None \<Rightarrow> st | Some (chunk_start, c4) \<Rightarrow>
      case c_u32 c4 of None \<Rightarrow> st | Some (block_start, c5) \<Rightarrow>
      case c_u32 c5 of None \<Rightarrow> st | Some (sample_offset, c6) \<Rightarrow>
        read_cues k c6
          (push_cue \<lparr>rq_id = cue_id, rq_position = pos0, rq_fcc = fcc, rq_chunk_start = chunk_start,
             rq_block_start = block_start, rq_sample_offset = sample_offset\<rparr> st))"

definition sub_chunk :: "byte list \<Rightarrow> byte list \<Rightarrow> marker_scan \<Rightarrow> marker_scan" where
  "sub_chunk sub_id body st =
     (if sub_id = labl_tag \<and> length body \<ge> 4 then
        st\<lparr>ps_labels := (ps_labels st)(u32_of_le (take 4 body) \<mapsto> decode_text (takeWhile (\<lambda>b. b \<noteq> 0) (drop 4 body)))\<rparr>
      else if sub_id = ltxt_tag \<and> length body \<ge> 20 then
        st\<lparr>ps_regions := (ps_regions st)(u32_of_le (take 4 body) \<mapsto> u32_of_le (take 4 (drop 4 body)))\<rparr>
      else st)"

function scan_adtl :: "byte list \<Rightarrow> marker_scan \<Rightarrow> marker_scan" where
  "scan_adtl c st =
     (if length c < 8 then st
      else
        case c_take 4 c of None \<Rightarrow> st | Some (sub_id, c1) \<Rightarrow>
        case c_u32 c1 of None \<Rightarrow> st | Some (sub_size, c2) \<Rightarrow>
        case c_take sub_size c2 of
          None \<Rightarrow> st\<lparr>ps_bad_adtl := True\<rparr>
        | Some (body, c3) \<Rightarrow> scan_adtl (c_skip_pad sub_size c3) (sub_chunk sub_id body st))"
  by pat_completeness auto
termination
proof (relation "measure (\<lambda>(c, _). length c)", goal_cases)
  case (2 c st x sub_id c1 y sub_size c2 z body c3)
  then show ?case
    using c_take_length [of 4 c sub_id c1] c_u32_length [of c1 sub_size c2] c_take_length [of sub_size c2 body c3]
      c_skip_pad_length [of sub_size c3] by simp
qed simp

declare scan_adtl.simps [simp del]

definition chunk_step :: "byte list \<Rightarrow> byte list \<Rightarrow> marker_scan \<Rightarrow> marker_scan" where
  "chunk_step chunk_id body st =
     (if chunk_id = cue_tag then
        (case c_u32 body of
           None \<Rightarrow> st
         | Some (points, c) \<Rightarrow> if points > cue_max_points then st\<lparr>ps_bad_cue := True\<rparr> else read_cues points c st)
      else if chunk_id = list_tag then
        (case c_take 4 body of
           None \<Rightarrow> st
         | Some (t, c) \<Rightarrow> if t \<noteq> adtl_tag then st else scan_adtl c st)
      else st)"

function scan_chunks :: "byte list \<Rightarrow> marker_scan \<Rightarrow> marker_scan option" where
  "scan_chunks c st =
     (if length c < 8 then Some st
      else
        case c_take 4 c of None \<Rightarrow> None | Some (chunk_id, c1) \<Rightarrow>
        case c_u32 c1 of None \<Rightarrow> None | Some (chunk_size, c2) \<Rightarrow>
        case c_take chunk_size c2 of
          None \<Rightarrow> Some st
        | Some (body, c3) \<Rightarrow> scan_chunks (c_skip_pad chunk_size c3) (chunk_step chunk_id body st))"
  by pat_completeness auto
termination
proof (relation "measure (\<lambda>(c, _). length c)", goal_cases)
  case (2 c st x chunk_id c1 y chunk_size c2 z body c3)
  then show ?case
    using c_take_length [of 4 c chunk_id c1] c_u32_length [of c1 chunk_size c2] c_take_length [of chunk_size c2 body c3]
      c_skip_pad_length [of chunk_size c3] by simp
qed simp

declare scan_chunks.simps [simp del]

definition cue_pos :: "raw_cue \<Rightarrow> nat" where
  "cue_pos q =
     (if rq_fcc q = data_tag \<and> rq_chunk_start q = 0 \<and> rq_block_start q = 0 then rq_sample_offset q else rq_position q)"

definition cue_marker :: "marker_scan \<Rightarrow> raw_cue \<Rightarrow> wav_marker" where
  "cue_marker st q =
     \<lparr>wm_pos = cue_pos q, wm_len = unwrap_or (ps_regions st (rq_id q)) 0, wm_name = unwrap_or (ps_labels st (rq_id q)) []\<rparr>"

definition in_audio :: "nat option \<Rightarrow> wav_marker \<Rightarrow> bool" where
  "in_audio audio_len m =
     (case audio_len of
        None \<Rightarrow> True
      | Some len \<Rightarrow> (case checked_add64 (wm_pos m) (wm_len m) of Some e \<Rightarrow> e \<le> len | None \<Rightarrow> False))"

definition name_markers :: "wav_marker list \<Rightarrow> wav_marker list" where
  "name_markers ms = map (\<lambda>(i, m). if is_blank (wm_name m) then m\<lparr>wm_name := default_name (i + 1)\<rparr> else m) (enumerate 0 ms)"

definition has_riff_header :: "byte list \<Rightarrow> bool" where
  "has_riff_header bytes \<longleftrightarrow> \<not> (length bytes < 12 \<or> take 4 bytes \<noteq> riff_tag \<or> take 4 (drop 8 bytes) \<noteq> wave_tag)"

definition parse_wav_markers :: "byte list \<Rightarrow> nat option \<Rightarrow> wav_markers_result option" where
  "parse_wav_markers bytes audio_len =
     (if \<not> has_riff_header bytes then None
      else
        case scan_chunks (drop 12 bytes) scan_start of
          None \<Rightarrow> None
        | Some st \<Rightarrow>
            let all_markers = map (cue_marker st) (ps_cues st);
                markers = filter (in_audio audio_len) all_markers
            in Some \<lparr>wr_markers = name_markers (sort_key wm_pos markers), wr_bad_cue = ps_bad_cue st, wr_bad_adtl = ps_bad_adtl st,
                     wr_out_of_range = length (filter (\<lambda>m. \<not> in_audio audio_len m) all_markers)\<rparr>)"

text \<open>\<open>scan_for_foreign_metadata\<close>.\<close>

function scan_foreign :: "byte list \<Rightarrow> bool" where
  "scan_foreign c =
     (if length c < 8 then False
      else
        case c_take 4 c of None \<Rightarrow> False | Some (chunk_id, c1) \<Rightarrow>
        case c_u32 c1 of None \<Rightarrow> False | Some (chunk_size, c2) \<Rightarrow>
        case c_take chunk_size c2 of
          None \<Rightarrow> False
        | Some (body, c3) \<Rightarrow>
            if chunk_id \<in> set foreign_tags \<or> (chunk_id = list_tag \<and> length body \<ge> 4 \<and> take 4 body = info_tag) then True
            else scan_foreign (c_skip_pad chunk_size c3))"
  by pat_completeness auto
termination
proof (relation "measure length", goal_cases)
  case (2 c x chunk_id c1 y chunk_size c2 z body c3)
  then show ?case
    using c_take_length [of 4 c chunk_id c1] c_u32_length [of c1 chunk_size c2] c_take_length [of chunk_size c2 body c3]
      c_skip_pad_length [of chunk_size c3] by simp
qed simp

declare scan_foreign.simps [simp del]

definition has_foreign_metadata :: "byte list \<Rightarrow> bool" where
  "has_foreign_metadata bytes \<longleftrightarrow> has_riff_header bytes \<and> scan_foreign (drop 12 bytes)"

section \<open>Writing\<close>

definition pad_even :: "byte list \<Rightarrow> byte list" where
  "pad_even bs = (if length bs mod 2 = 1 then bs @ [0] else bs)"

definition cue_record :: "nat \<times> wav_marker \<Rightarrow> byte list" where
  "cue_record p =
     (case p of (i, m) \<Rightarrow>
        let pos = min (wm_pos m) u32_max
        in u32_le (as_u32 i) @ u32_le pos @ data_tag @ u32_le 0 @ u32_le 0 @ u32_le pos)"

definition write_cue_chunk :: "wav_marker list \<Rightarrow> byte list" where
  "write_cue_chunk ms =
     cue_tag @ u32_le (as_u32 (4 + 24 * length ms)) @ u32_le (as_u32 (length ms)) @ concat (map cue_record (enumerate 1 ms))"

definition write_labl :: "nat \<Rightarrow> unicode \<Rightarrow> byte list" where
  "write_labl i name = (let data = u32_le i @ as_bytes name @ [0] in labl_tag @ u32_le (as_u32 (length data)) @ pad_even data)"

definition write_ltxt :: "nat \<Rightarrow> nat \<Rightarrow> byte list" where
  "write_ltxt i sample_length = ltxt_tag @ u32_le 20 @ u32_le i @ u32_le sample_length @ rgn_tag @ replicate 8 0"

definition adtl_record :: "nat \<times> wav_marker \<Rightarrow> byte list" where
  "adtl_record p =
     (case p of (i, m) \<Rightarrow>
        write_labl (as_u32 i) (wm_name m) @ (if wm_len m > 0 then write_ltxt (as_u32 i) (min (wm_len m) u32_max) else []))"

definition write_adtl_chunk :: "wav_marker list \<Rightarrow> byte list" where
  "write_adtl_chunk ms =
     (let body = adtl_tag @ concat (map adtl_record (enumerate 1 ms)) in list_tag @ u32_le (as_u32 (length body)) @ body)"

text \<open>\<open>append_markers\<close> on the bytes of the finalized temporary file.\<close>

definition append_markers :: "byte list \<Rightarrow> wav_marker list \<Rightarrow> string + byte list" where
  "append_markers file ms =
     (if ms = [] then Inr file
      else
        let all_bytes = file @ write_cue_chunk ms @ write_adtl_chunk ms; riff_size = length all_bytes - 8
        in if riff_size > u32_max then Inl ''WAV exceeds the 4 GiB RIFF size limit''
           else Inr (copy_at 4 (u32_le riff_size) all_bytes))"

section \<open>Well-formed chunks\<close>

definition chunk_bytes :: "byte list \<Rightarrow> byte list \<Rightarrow> byte list" where
  "chunk_bytes chunk_id body = chunk_id @ u32_le (length body) @ pad_even body"

lemma c_skip_pad_even: "pad_even body = body @ p \<Longrightarrow> c_skip_pad (length body) (p @ r) = r"
  by (auto simp: pad_even_def c_skip_pad_def c_take_def split: if_splits)

lemma pad_even_split: obtains p where "pad_even body = body @ p"
  by (rule that [of "if length body mod 2 = 1 then [0] else []"]) (simp add: pad_even_def)

lemma scan_chunks_chunk:
  assumes "length chunk_id = 4" "length body < 2 ^ 32"
  shows "scan_chunks (chunk_bytes chunk_id body @ r) st = scan_chunks r (chunk_step chunk_id body st)"
proof -
  obtain p where p: "pad_even body = body @ p" by (rule pad_even_split)
  show ?thesis
    using assms c_skip_pad_even [OF p] by (subst scan_chunks.simps) (simp add: chunk_bytes_def p)
qed

lemma scan_adtl_chunk:
  assumes "length sub_id = 4" "length body < 2 ^ 32"
  shows "scan_adtl (chunk_bytes sub_id body @ r) st = scan_adtl r (sub_chunk sub_id body st)"
proof -
  obtain p where p: "pad_even body = body @ p" by (rule pad_even_split)
  show ?thesis
    using assms c_skip_pad_even [OF p] by (subst scan_adtl.simps) (simp add: chunk_bytes_def p)
qed

lemma scan_short [simp]: "scan_chunks [] st = Some st" "scan_adtl [] st = st"
  by (simp_all add: scan_chunks.simps scan_adtl.simps)

end
