(* ===== verification/Wav_Props.thy ===== *)
theory Wav_Props
  imports Wav_Markers
begin

text \<open>
  Markers written into a WAV file are read back.  \<open>wav_file\<close> is a file as the encoder leaves it: a RIFF header and chunks
  that carry no markers.
\<close>

definition wav_file :: "byte list \<Rightarrow> (byte list \<times> byte list) list \<Rightarrow> byte list" where
  "wav_file riff_size chunks = riff_tag @ riff_size @ wave_tag @ concat (map (\<lambda>(i, b). chunk_bytes i b) chunks)"

definition plain_chunks :: "(byte list \<times> byte list) list \<Rightarrow> bool" where
  "plain_chunks chunks \<longleftrightarrow> (\<forall>(i, b) \<in> set chunks. length i = 4 \<and> i \<noteq> cue_tag \<and> i \<noteq> list_tag \<and> length b < 2 ^ 32)"

definition marker_ok :: "wav_marker \<Rightarrow> bool" where
  "marker_ok m \<longleftrightarrow> wm_pos m \<le> u32_max \<and> wm_len m \<le> u32_max \<and> list_all scalar_value (wm_name m) \<and> 0 \<notin> set (wm_name m)"

definition markers_ok :: "wav_marker list \<Rightarrow> bool" where
  "markers_ok ms \<longleftrightarrow> sorted (map wm_pos ms) \<and> length ms \<le> cue_max_points \<and> list_all marker_ok ms"

lemma tag_lengths [simp]: "length riff_tag = 4" "length wave_tag = 4" "length cue_tag = 4" "length list_tag = 4" "length adtl_tag = 4"
  "length labl_tag = 4" "length ltxt_tag = 4" "length data_tag = 4" "length rgn_tag = 4"
  by (simp_all add: tag_defs)

section \<open>The cue chunk\<close>

definition cue_of :: "nat \<times> wav_marker \<Rightarrow> raw_cue" where
  "cue_of p = (case p of (i, m) \<Rightarrow> \<lparr>rq_id = i, rq_position = wm_pos m, rq_fcc = data_tag, rq_chunk_start = 0, rq_block_start = 0,
     rq_sample_offset = wm_pos m\<rparr>)"

lemma read_cues_one:
  assumes "i < 2 ^ 32" "wm_pos m \<le> u32_max"
  shows "read_cues (Suc k) (cue_record (i, m) @ r) st = read_cues k r (push_cue (cue_of (i, m)) st)"
  using assms by (simp add: cue_record_def cue_of_def Let_def min_absorb1 u32_max_def)

lemma read_cues_all:
  assumes "k + length ms \<le> 2 ^ 32" "list_all marker_ok ms" "\<forall>i \<in> set (ps_seen st). i < k"
  shows "\<exists>seen. read_cues (length ms) (concat (map cue_record (enumerate k ms))) st =
    st\<lparr>ps_seen := seen, ps_cues := ps_cues st @ map cue_of (enumerate k ms)\<rparr>"
  using assms
proof (induction ms arbitrary: k st)
  case Nil
  show ?case by (rule exI [of _ "ps_seen st"]) (cases st, simp)
next
  case (Cons m ms)
  let ?st = "push_cue (cue_of (k, m)) st"
  have k: "k < 2 ^ 32" "wm_pos m \<le> u32_max" using Cons.prems by (simp_all add: marker_ok_def)
  have st: "?st = st\<lparr>ps_seen := k # ps_seen st, ps_cues := ps_cues st @ [cue_of (k, m)]\<rparr>"
    using Cons.prems(3) by (auto simp: push_cue_def cue_of_def)
  have pre: "Suc k + length ms \<le> 2 ^ 32" "list_all marker_ok ms" "\<forall>i \<in> set (ps_seen ?st). i < Suc k"
    using Cons.prems unfolding st by auto
  obtain seen where "read_cues (length ms) (concat (map cue_record (enumerate (Suc k) ms))) ?st =
      ?st\<lparr>ps_seen := seen, ps_cues := ps_cues ?st @ map cue_of (enumerate (Suc k) ms)\<rparr>"
    using Cons.IH [OF pre] by blast
  then have "read_cues (length (m # ms)) (concat (map cue_record (enumerate k (m # ms)))) st =
      st\<lparr>ps_seen := seen, ps_cues := ps_cues st @ map cue_of (enumerate k (m # ms))\<rparr>"
    using read_cues_one [OF k, of "length ms" "concat (map cue_record (enumerate (Suc k) ms))" st] by (simp add: st)
  then show ?case by blast
qed

section \<open>The adtl chunk\<close>

text \<open>What the labels and regions of the markers \<open>ms\<close>, numbered from \<open>k\<close>, add.\<close>

definition labelled :: "nat \<Rightarrow> wav_marker list \<Rightarrow> marker_scan \<Rightarrow> marker_scan \<Rightarrow> bool" where
  "labelled k ms st st' \<longleftrightarrow>
     ps_cues st' = ps_cues st \<and> ps_bad_cue st' = ps_bad_cue st \<and> ps_bad_adtl st' = ps_bad_adtl st \<and>
     (\<forall>i. ps_labels st' i = (if k \<le> i \<and> i < k + length ms then Some (wm_name (ms ! (i - k))) else ps_labels st i)) \<and>
     (\<forall>i. ps_regions st' i = (if k \<le> i \<and> i < k + length ms \<and> 0 < wm_len (ms ! (i - k)) then Some (wm_len (ms ! (i - k)))
        else ps_regions st i))"

lemma write_labl_chunk:
  assumes "length (as_bytes name) + 5 \<le> u32_max"
  shows "write_labl i name = chunk_bytes labl_tag (u32_le i @ as_bytes name @ [0])"
  using assms by (simp add: write_labl_def chunk_bytes_def Let_def)

lemma write_ltxt_chunk: "write_ltxt i n = chunk_bytes ltxt_tag (u32_le i @ u32_le n @ rgn_tag @ replicate 8 0)"
  by (simp add: write_ltxt_def chunk_bytes_def pad_even_def)

lemma labl_not_ltxt: "labl_tag \<noteq> ltxt_tag"
  by (simp add: tag_defs)

lemma sub_labl:
  assumes "i < 2 ^ 32" "list_all scalar_value name" "0 \<notin> set name"
  shows "sub_chunk labl_tag (u32_le i @ as_bytes name @ [0]) st = st\<lparr>ps_labels := (ps_labels st)(i \<mapsto> name)\<rparr>"
proof -
  have "\<forall>b \<in> set (as_bytes name). b \<noteq> 0" using as_bytes_nonzero [OF assms(2,3)] by metis
  then have "takeWhile (\<lambda>b. b \<noteq> 0) (as_bytes name @ [0]) = as_bytes name" by (simp add: takeWhile_append2)
  then show ?thesis using assms by (simp add: sub_chunk_def u32_of_le_u32_le decode_text_as_bytes)
qed

lemma sub_ltxt:
  assumes "i < 2 ^ 32" "n \<le> u32_max"
  shows "sub_chunk ltxt_tag (u32_le i @ u32_le n @ rgn_tag @ replicate 8 0) st = st\<lparr>ps_regions := (ps_regions st)(i \<mapsto> n)\<rparr>"
  using assms labl_not_ltxt by (simp add: sub_chunk_def u32_of_le_u32_le u32_max_def)

lemma scan_adtl_one:
  assumes "i < 2 ^ 32" "marker_ok m" "length (as_bytes (wm_name m)) + 5 \<le> u32_max"
  shows "scan_adtl (adtl_record (i, m) @ r) st =
    scan_adtl r (st\<lparr>ps_labels := (ps_labels st)(i \<mapsto> wm_name m),
      ps_regions := (if wm_len m > 0 then (ps_regions st)(i \<mapsto> wm_len m) else ps_regions st)\<rparr>)"
proof -
  have m: "wm_len m \<le> u32_max" "list_all scalar_value (wm_name m)" "0 \<notin> set (wm_name m)" using assms(2) by (simp_all add: marker_ok_def)
  have a: "as_u32 i = i" using assms(1) by (simp add: u32_max_def)
  have l: "length (u32_le i @ as_bytes (wm_name m) @ [0]) < 2 ^ 32" using assms(3) by (simp add: u32_max_def)
  note one = scan_adtl_chunk [of labl_tag, OF _ l, unfolded sub_labl [OF assms(1) m(2,3)]]
  have t: "length (u32_le i @ u32_le (wm_len m) @ rgn_tag @ replicate 8 0) < 2 ^ 32" by simp
  note two = scan_adtl_chunk [of ltxt_tag, OF _ t, unfolded sub_ltxt [OF assms(1) m(1)]]
  show ?thesis
    using one two m(1) by (cases st) (simp add: adtl_record_def a write_labl_chunk [OF assms(3)] write_ltxt_chunk min_absorb1)
qed

lemma scan_adtl_all:
  assumes "k + length ms \<le> 2 ^ 32" "list_all marker_ok ms" "\<forall>m \<in> set ms. length (as_bytes (wm_name m)) + 5 \<le> u32_max"
  shows "labelled k ms st (scan_adtl (concat (map adtl_record (enumerate k ms))) st)"
  using assms
proof (induction ms arbitrary: k st)
  case Nil
  show ?case by (auto simp: labelled_def)
next
  case (Cons m ms)
  let ?st = "st\<lparr>ps_labels := (ps_labels st)(k \<mapsto> wm_name m),
      ps_regions := (if wm_len m > 0 then (ps_regions st)(k \<mapsto> wm_len m) else ps_regions st)\<rparr>"
  have k: "k < 2 ^ 32" "marker_ok m" "length (as_bytes (wm_name m)) + 5 \<le> u32_max" using Cons.prems by simp_all
  have e: "scan_adtl (concat (map adtl_record (enumerate k (m # ms)))) st =
      scan_adtl (concat (map adtl_record (enumerate (Suc k) ms))) ?st"
    using scan_adtl_one [OF k, of "concat (map adtl_record (enumerate (Suc k) ms))" st] by simp
  have "labelled (Suc k) ms ?st (scan_adtl (concat (map adtl_record (enumerate (Suc k) ms))) ?st)"
    using Cons.IH [of "Suc k" ?st] Cons.prems by simp
  then show ?case unfolding e labelled_def by (auto simp: nth_Cons' Suc_le_eq)
qed

section \<open>Whole files\<close>

lemma scan_plain:
  "plain_chunks chunks \<Longrightarrow> scan_chunks (concat (map (\<lambda>(i, b). chunk_bytes i b) chunks) @ r) st = scan_chunks r st"
proof (induction chunks)
  case (Cons c chunks)
  obtain i b where c: "c = (i, b)" by fastforce
  have ok: "length i = 4" "length b < 2 ^ 32" "i \<noteq> cue_tag" "i \<noteq> list_tag" "plain_chunks chunks"
    using Cons.prems by (auto simp: plain_chunks_def c)
  have "chunk_step i b st = st" using ok by (simp add: chunk_step_def)
  then show ?case using scan_chunks_chunk [OF ok(1,2)] Cons.IH [OF ok(5)] by (simp add: c)
qed simp

lemma length_cue_records: "length (concat (map cue_record (enumerate k ms))) = 24 * length ms"
  by (induction ms arbitrary: k) (simp_all add: cue_record_def Let_def)

lemma adtl_record_even: "even (length (adtl_record p))"
  by (cases p) (auto simp: adtl_record_def write_labl_def write_ltxt_def pad_even_def Let_def; presburger)

lemma adtl_records_even: "even (length (concat (map adtl_record ps)))"
  by (induction ps) (simp_all add: adtl_record_even)

lemma name_fits: "m \<in> set ms \<Longrightarrow> length (as_bytes (wm_name m)) + 5 \<le> length (concat (map adtl_record (enumerate k ms)))"
proof (induction ms arbitrary: k)
  case (Cons a ms)
  have "length (as_bytes (wm_name a)) + 5 \<le> length (adtl_record (k, a))"
    by (simp add: adtl_record_def write_labl_def pad_even_def Let_def)
  then show ?case using Cons.IH [of "Suc k"] Cons.prems by auto
qed simp

lemma sort_key_sorted: "sorted (map f xs) \<Longrightarrow> sort_key f xs = xs"
  by (induction xs) (simp_all add: insort_is_Cons)

lemma scan_markers:
  assumes "markers_ok ms" "length (write_adtl_chunk ms) \<le> u32_max"
  shows "\<exists>st. scan_chunks (write_cue_chunk ms @ write_adtl_chunk ms) scan_start = Some st \<and>
    map (cue_marker st) (ps_cues st) = ms \<and> \<not> ps_bad_cue st \<and> \<not> ps_bad_adtl st"
proof -
  have ok: "length ms \<le> 100000" "list_all marker_ok ms" "length ms \<le> u32_max" "24 * length ms + 4 \<le> u32_max"
    using assms(1) by (simp_all add: markers_ok_def cue_max_points_def u32_max_def)
  let ?cb = "u32_le (length ms) @ concat (map cue_record (enumerate 1 ms))"
  let ?ab = "adtl_tag @ concat (map adtl_record (enumerate 1 ms))"
  have al: "length ?ab \<le> u32_max" using assms(2) by (simp add: write_adtl_chunk_def Let_def)
  have lcb: "length ?cb = 4 + 24 * length ms" by (simp add: length_cue_records)
  have cue: "write_cue_chunk ms = chunk_bytes cue_tag ?cb"
    using ok lcb by (simp add: write_cue_chunk_def chunk_bytes_def pad_even_def)
  have "even (length ?ab)" using adtl_records_even by simp
  then have adtl: "write_adtl_chunk ms = chunk_bytes list_tag ?ab"
    using al by (simp add: write_adtl_chunk_def chunk_bytes_def pad_even_def Let_def odd_iff_mod_2_eq_one)
  obtain seen where c: "read_cues (length ms) (concat (map cue_record (enumerate 1 ms))) scan_start =
      scan_start\<lparr>ps_seen := seen, ps_cues := map cue_of (enumerate 1 ms)\<rparr>"
    using read_cues_all [of 1 ms scan_start] ok by (auto simp: scan_start_def)
  let ?st1 = "scan_start\<lparr>ps_seen := seen, ps_cues := map cue_of (enumerate 1 ms)\<rparr>"
  let ?st2 = "scan_adtl (concat (map adtl_record (enumerate 1 ms))) ?st1"
  have s1: "chunk_step cue_tag ?cb scan_start = ?st1"
    using ok c by (simp add: chunk_step_def cue_max_points_def u32_max_def)
  have s2: "chunk_step list_tag ?ab ?st1 = ?st2"
    by (simp add: chunk_step_def) (simp add: tag_defs)
  have "scan_chunks (chunk_bytes cue_tag ?cb @ chunk_bytes list_tag ?ab @ []) scan_start = Some ?st2"
    using scan_chunks_chunk [of cue_tag ?cb "chunk_bytes list_tag ?ab @ []" scan_start] scan_chunks_chunk [of list_tag ?ab "[]" ?st1]
      lcb ok(4) al s1 s2 by (simp add: u32_max_def)
  then have run: "scan_chunks (write_cue_chunk ms @ write_adtl_chunk ms) scan_start = Some ?st2" by (simp add: cue adtl)
  have names: "\<forall>m \<in> set ms. length (as_bytes (wm_name m)) + 5 \<le> u32_max" using name_fits [of _ ms 1] al by fastforce
  have "1 + length ms \<le> 2 ^ 32" using ok(1) by simp
  from scan_adtl_all [OF this ok(2) names, of ?st1] have l: "labelled 1 ms ?st1 ?st2" .
  have "map (cue_marker ?st2) (ps_cues ?st2) = ms"
  proof (rule nth_equalityI)
    show "length (map (cue_marker ?st2) (ps_cues ?st2)) = length ms" using l by (simp add: labelled_def)
    fix i assume "i < length (map (cue_marker ?st2) (ps_cues ?st2))"
    then have i: "i < length ms" using l by (simp add: labelled_def)
    have "ps_cues ?st2 ! i = cue_of (Suc i, ms ! i)" using l i by (simp add: labelled_def nth_enumerate_eq)
    moreover have "ps_labels ?st2 (Suc i) = Some (wm_name (ms ! i))"
      "unwrap_or (ps_regions ?st2 (Suc i)) 0 = wm_len (ms ! i)"
      using l i by (auto simp: labelled_def scan_start_def)
    ultimately show "map (cue_marker ?st2) (ps_cues ?st2) ! i = ms ! i"
      using i l by (cases "ms ! i") (simp add: labelled_def cue_marker_def cue_of_def cue_pos_def)
  qed
  moreover have "\<not> ps_bad_cue ?st2" "\<not> ps_bad_adtl ?st2" using l by (simp_all add: labelled_def scan_start_def)
  ultimately show ?thesis using run by blast
qed

lemma wav_file_header: "length size4 = 4 \<Longrightarrow> has_riff_header (wav_file size4 chunks @ r) \<and>
    drop 12 (wav_file size4 chunks @ r) = concat (map (\<lambda>(i, b). chunk_bytes i b) chunks) @ r"
  by (simp add: wav_file_def has_riff_header_def)

lemma copy_riff_size:
  "length size4 = 4 \<Longrightarrow> copy_at 4 (u32_le n) (wav_file size4 chunks @ r) = wav_file (u32_le n) chunks @ r"
  by (simp add: copy_at_def wav_file_def)

lemma markers_read_back:
  assumes "length size4 = 4" "plain_chunks chunks" "markers_ok ms" "\<forall>m \<in> set ms. in_audio audio_len m"
    "append_markers (wav_file size4 chunks) ms = Inr out"
  shows "parse_wav_markers out audio_len =
    Some \<lparr>wr_markers = name_markers ms, wr_bad_cue = False, wr_bad_adtl = False, wr_out_of_range = 0\<rparr>"
proof (cases "ms = []")
  case True
  then have out: "out = wav_file size4 chunks @ []" using assms(5) by (simp add: append_markers_def)
  have "scan_chunks (drop 12 out) scan_start = Some scan_start"
    using scan_plain [OF assms(2), of "[]"] wav_file_header [OF assms(1), of chunks "[]"] by (simp add: out)
  then show ?thesis using True wav_file_header [OF assms(1), of chunks "[]"]
    by (simp add: parse_wav_markers_def out scan_start_def name_markers_def Let_def)
next
  case False
  let ?r = "write_cue_chunk ms @ write_adtl_chunk ms"
  let ?n = "length (wav_file size4 chunks @ ?r) - 8"
  have n: "?n \<le> u32_max" "out = copy_at 4 (u32_le ?n) (wav_file size4 chunks @ ?r)"
    using assms(5) False by (auto simp: append_markers_def Let_def split: if_splits)
  have out: "out = wav_file (u32_le ?n) chunks @ ?r" using copy_riff_size [OF assms(1)] n(2) by simp
  have "length (wav_file size4 chunks) \<ge> 12" using assms(1) by (simp add: wav_file_def)
  then have "length (write_adtl_chunk ms) \<le> u32_max" using n(1) by simp
  from scan_markers [OF assms(3) this] obtain st where
    st: "scan_chunks ?r scan_start = Some st" "map (cue_marker st) (ps_cues st) = ms" "\<not> ps_bad_cue st" "\<not> ps_bad_adtl st" by blast
  note h = wav_file_header [of "u32_le ?n" chunks ?r]
  have "scan_chunks (drop 12 out) scan_start = Some st"
    unfolding out using scan_plain [OF assms(2), of ?r] st(1) h by simp
  moreover have "has_riff_header out" unfolding out using h by simp
  moreover have "filter (in_audio audio_len) ms = ms" "filter (\<lambda>m. \<not> in_audio audio_len m) ms = []"
    using assms(4) by (simp_all add: filter_id_conv filter_empty_conv)
  moreover have "sort_key wm_pos ms = ms" using assms(3) by (simp add: markers_ok_def sort_key_sorted)
  ultimately show ?thesis using st by (simp add: parse_wav_markers_def Let_def)
qed

section \<open>Property\<close>


definition two_markers :: "wav_marker list" where
  "two_markers = [\<lparr>wm_pos = 3, wm_len = 0, wm_name = [0xE9, 0x1F3A4]\<rparr>, \<lparr>wm_pos = 3, wm_len = 2, wm_name = [32]\<rparr>]"


end
