(* ===== verification/Gc.thy ===== *)
theory Gc
  imports Recovery
begin

text \<open>
  Which sessions start-up deletes: \<^verbatim>\<open>crates/project/src/gc.rs\<close>.

  The directory of sessions is a map from names to what a session directory holds: \<^verbatim>\<open>meta.json\<close>, the journals by generation,
  the part files of each take (those that exist without a gap from part 0) and all \<^verbatim>\<open>.wav\<close> files of \<^verbatim>\<open>takes/\<close>.  \<open>gc_env\<close>
  says how the operating system answers.  Sizes and times that are only shown to the user are left out.
\<close>

record gc_meta = meta +
  mt_source_path :: "string option"

record session_dir =
  sd_meta :: "gc_meta option"
  sd_journals :: "nat \<Rightarrow> byte list option"
  sd_parts :: "nat \<Rightarrow> byte list list"
  sd_wavs :: "byte list list"

record recoverable_session =
  rs_id :: string
  rs_rate :: "nat option"
  rs_source_path :: "string option"
  rs_path :: "string option"
  rs_current_seq :: nat
  rs_saved_seq :: nat
  rs_unsaved_changes :: bool
  rs_unsaved_count :: nat
  rs_source_changed :: bool
  rs_source_missing :: bool
  rs_damaged_lines :: nat
  rs_open_take :: "nat option"
  rs_open_take_samples :: nat
  rs_truncated_takes :: "nat list"
  rs_journal_damaged :: bool

datatype session_class = Clean | Recoverable recoverable_session

section \<open>What the journal says\<close>

record summary =
  su_closed :: bool
  su_undo :: "nat list"
  su_redo :: "nat list"
  su_saved_seq :: nat
  su_open_takes :: "nat list"
  su_pending :: "nat list"
  su_truncated :: "nat list"
  su_inconsistent :: bool
  su_source :: "(string \<times> nat \<times> nat) option"
  su_saved :: "(string \<times> nat option \<times> nat option) option"

definition summary_default :: summary where
  "summary_default = \<lparr>su_closed = False, su_undo = [], su_redo = [], su_saved_seq = 0, su_open_takes = [], su_pending = [],
     su_truncated = [], su_inconsistent = False, su_source = None, su_saved = None\<rparr>"

fun summarize_record :: "summary \<Rightarrow> 'v journal_record \<Rightarrow> summary" where
  "summarize_record s (JEdit e) =
     (let s1 = s\<lparr>su_closed := False, su_undo := su_undo s @ [er_seq e], su_redo := []\<rparr>
      in case er_take e of
           None \<Rightarrow> s1
         | Some tk \<Rightarrow>
             let s2 = s1\<lparr>su_open_takes := removeAll tk (su_open_takes s1)\<rparr>
             in if er_take_wav e \<noteq> None then s2\<lparr>su_truncated := bt_set (tk # su_truncated s2)\<rparr> else s2)"
| "summarize_record s (JUndo seq) =
     (if su_undo s \<noteq> [] \<and> last (su_undo s) = seq
      then s\<lparr>su_closed := False, su_undo := butlast (su_undo s), su_redo := su_redo s @ [seq]\<rparr>
      else s\<lparr>su_closed := False, su_undo := butlast (su_undo s), su_inconsistent := True\<rparr>)"
| "summarize_record s (JRedo seq) =
     (if su_redo s \<noteq> [] \<and> last (su_redo s) = seq
      then s\<lparr>su_closed := False, su_redo := butlast (su_redo s), su_undo := su_undo s @ [seq]\<rparr>
      else s\<lparr>su_closed := False, su_redo := butlast (su_redo s), su_inconsistent := True\<rparr>)"
| "summarize_record s (JTakeBegin b) =
     (if tb_aligned b then s\<lparr>su_closed := False, su_pending := bt_set (tb_take b # su_pending s)\<rparr>
      else s\<lparr>su_closed := False, su_open_takes := bt_set (tb_take b # su_open_takes s)\<rparr>)"
| "summarize_record s (JTakeWindow tk k) =
     (if tk \<in> set (su_pending s)
      then s\<lparr>su_closed := False, su_pending := removeAll tk (su_pending s), su_open_takes := bt_set (tk # su_open_takes s)\<rparr>
      else s\<lparr>su_closed := False\<rparr>)"
| "summarize_record s (JTakeDiscard tk) =
     s\<lparr>su_closed := False, su_open_takes := removeAll tk (su_open_takes s), su_pending := removeAll tk (su_pending s)\<rparr>"
| "summarize_record s (JTakeCancel tk) =
     s\<lparr>su_closed := False, su_open_takes := removeAll tk (su_open_takes s), su_pending := removeAll tk (su_pending s)\<rparr>"
| "summarize_record s (JSaved r) =
     s\<lparr>su_closed := False, su_saved_seq := sv_seq r, su_saved := Some (sv_path r, sv_size r, sv_mtime r)\<rparr>"
| "summarize_record s (JDropUndo n) = s\<lparr>su_closed := False, su_undo := drop (min n (length (su_undo s))) (su_undo s)\<rparr>"
| "summarize_record s (JCheckpoint c) =
     s\<lparr>su_closed := False, su_undo := map enr_seq (cp_undo c), su_redo := map enr_seq (cp_redo c), su_saved_seq := cp_saved_seq c\<rparr>"
| "summarize_record s JClose = s\<lparr>su_closed := True\<rparr>"
| "summarize_record s (JOpen v rate src) =
     s\<lparr>su_closed := False, su_source := map_option (\<lambda>r. (src_path r, src_size r, src_mtime r)) src\<rparr>"
| "summarize_record s (JChunks locs) = s\<lparr>su_closed := False\<rparr>"
| "summarize_record s (JState v) = s\<lparr>su_closed := False\<rparr>"
| "summarize_record s (JTakeMarker tk m) = s\<lparr>su_closed := False\<rparr>"

definition summarize :: "'v journal_record list \<Rightarrow> summary" where
  "summarize recs = foldl summarize_record summary_default recs"

definition unsaved_count :: "nat list \<Rightarrow> nat list \<Rightarrow> nat \<Rightarrow> nat" where
  "unsaved_count undo redo saved =
     (let cur = (if undo = [] then 0 else last undo)
      in if cur = saved then 0
         else if saved = 0 then length undo
         else case position (\<lambda>s. s = saved) undo of
                Some p \<Rightarrow> length undo - 1 - p
              | None \<Rightarrow>
                  (case rposition (\<lambda>s. s = saved) redo of
                     Some p \<Rightarrow> length redo - p
                   | None \<Rightarrow> max (length undo) 1))"

section \<open>Classifying a session\<close>

text \<open>\<open>ge_lock\<close>: \<open>Inr False\<close> when another instance holds the lock.  A failing \<open>remove_dir_all\<close> leaves some directory behind.
  \<open>ge_in_place\<close>: the order \<open>read_dir\<close> lists the entries in, and after how many removals one fails.\<close>

datatype dir_entry = EMeta | EJournal nat | ETakes | EOther

record gc_env =
  ge_lock :: "string \<Rightarrow> project_error + bool"
  ge_read :: "string \<Rightarrow> io_error option"
  ge_part :: "string \<Rightarrow> nat \<Rightarrow> nat \<Rightarrow> (string \<times> io_error) option"
  ge_file :: "string \<Rightarrow> (nat \<times> nat) option"
  ge_remove :: "string \<Rightarrow> (io_error \<times> session_dir) option"
  ge_rename :: "string \<Rightarrow> io_error option"
  ge_in_place :: "string \<Rightarrow> dir_entry list \<times> (nat \<times> io_error) option"

definition wav_samples :: "(string \<times> io_error) option \<Rightarrow> byte list \<Rightarrow> nat" where
  "wav_samples fail file = (case recover_take_file fail file of Inr t \<Rightarrow> rt_samples t | Inl _ \<Rightarrow> 0)"

definition lenient_take_samples :: "gc_env \<Rightarrow> string \<Rightarrow> session_dir \<Rightarrow> nat \<Rightarrow> bool \<times> nat" where
  "lenient_take_samples env name d tk =
     (let parts = sd_parts d tk
      in (parts \<noteq> [], sum_list (map (\<lambda>(i, f). wav_samples (ge_part env name tk i) f) (enumerate 0 parts))))"

definition stray_takes :: "session_dir \<Rightarrow> bool \<times> nat" where
  "stray_takes d = (sd_wavs d \<noteq> [], sum_list (map (wav_samples None) (sd_wavs d)))"

definition scan_dir ::
    "(byte list \<Rightarrow> 32 word) \<Rightarrow> (byte list \<Rightarrow> 'v journal_record option) \<Rightarrow> gc_env \<Rightarrow> string \<Rightarrow> byte list option \<Rightarrow>
     project_error + summary \<times> bool \<times> nat" where
  "scan_dir crc dec env name journal =
     (case journal of
        None \<Rightarrow> Inr (summary_default, False, 0)
      | Some bytes \<Rightarrow>
          (case ge_read env name of
             Some e \<Rightarrow> Inl (from_io ''reading the journal'' e)
           | None \<Rightarrow>
               let scan = scan_journal is_chunks_record crc dec bytes
               in Inr (summarize (js_records scan), js_valid scan < length bytes, js_damaged_lines scan)))"

definition bound_file :: "summary \<Rightarrow> string option \<times> (nat \<times> nat) option" where
  "bound_file s =
     (case su_saved s of
        Some (path, sz, mtime) \<Rightarrow> (Some path, (case (sz, mtime) of (Some a, Some b) \<Rightarrow> Some (a, b) | _ \<Rightarrow> None))
      | None \<Rightarrow>
          (case su_source s of
             Some (path, sz, mtime) \<Rightarrow> (Some path, Some (sz, mtime))
           | None \<Rightarrow> (None, None)))"

definition classify_session ::
    "(byte list \<Rightarrow> 32 word) \<Rightarrow> (byte list \<Rightarrow> 'v journal_record option) \<Rightarrow> gc_env \<Rightarrow> string \<Rightarrow> session_dir \<Rightarrow>
     project_error + session_class" where
  "classify_session crc dec env name d =
     (let generation = (case sd_meta d of Some m \<Rightarrow> mt_generation m | None \<Rightarrow> 0);
          journal = sd_journals d generation
      in case scan_dir crc dec env name journal of
           Inl e \<Rightarrow> Inl e
         | Inr (sm, damaged, damaged_lines) \<Rightarrow>
             if su_closed sm \<and> \<not> damaged then Inr Clean
             else
               let takes = map (lenient_take_samples env name d) (su_open_takes sm);
                   (open_present, open_samples) =
                     (if journal \<noteq> None then (\<exists>t \<in> set takes. fst t, sum_list (map snd takes)) else stray_takes d);
                   cur = (if su_undo sm = [] then 0 else last (su_undo sm));
                   unsaved = (cur \<noteq> su_saved_seq sm);
                   journal_damaged = (damaged \<or> su_inconsistent sm)
               in if \<not> journal_damaged \<and> \<not> unsaved \<and> \<not> open_present \<and> su_truncated sm = [] then Inr Clean
                  else
                    let (path, facts) = bound_file sm;
                        found = Option.bind path (ge_file env)
                    in Inr (Recoverable
                         \<lparr>rs_id = name, rs_rate = map_option mt_rate (sd_meta d),
                          rs_source_path = Option.bind (sd_meta d) mt_source_path, rs_path = path,
                          rs_current_seq = cur, rs_saved_seq = su_saved_seq sm, rs_unsaved_changes = unsaved,
                          rs_unsaved_count = unsaved_count (su_undo sm) (su_redo sm) (su_saved_seq sm),
                          rs_source_changed = (case (found, facts) of (Some m, Some f) \<Rightarrow> m \<noteq> f | _ \<Rightarrow> False),
                          rs_source_missing = (path \<noteq> None \<and> found = None), rs_damaged_lines = damaged_lines,
                          rs_open_take = (if su_open_takes sm = [] then None else Some (last (su_open_takes sm))),
                          rs_open_take_samples = open_samples, rs_truncated_takes = su_truncated sm,
                          rs_journal_damaged = journal_damaged\<rparr>))"

section \<open>Deleting\<close>

type_synonym sessions_fs = "string \<Rightarrow> session_dir option"

definition deleting_suffix :: string where "deleting_suffix = ''.deleting''"

definition tombstone :: "string \<Rightarrow> string" where "tombstone name = name @ deleting_suffix"

definition is_tombstone :: "string \<Rightarrow> bool" where
  "is_tombstone name \<longleftrightarrow> (\<exists>k \<le> length name. drop k name = deleting_suffix)"

fun remove_entry :: "dir_entry \<Rightarrow> session_dir \<Rightarrow> session_dir" where
  "remove_entry EMeta d = d\<lparr>sd_meta := None\<rparr>"
| "remove_entry (EJournal g) d = d\<lparr>sd_journals := (sd_journals d)(g := None)\<rparr>"
| "remove_entry ETakes d = d\<lparr>sd_parts := (\<lambda>_. []), sd_wavs := []\<rparr>"
| "remove_entry EOther d = d"

text \<open>The journals go last.\<close>

definition removal_order :: "dir_entry list \<Rightarrow> dir_entry list" where
  "removal_order es = filter (\<lambda>e. \<nexists>g. e = EJournal g) es @ filter (\<lambda>e. \<exists>g. e = EJournal g) es"

definition delete_in_place :: "dir_entry list \<times> (nat \<times> io_error) option \<Rightarrow> session_dir \<Rightarrow> io_error option \<times> session_dir option" where
  "delete_in_place plan d =
     (case snd plan of
        None \<Rightarrow> (None, None)
      | Some (k, e) \<Rightarrow> (Some e, Some (fold remove_entry (take k (removal_order (fst plan))) d)))"

definition remove_dir_all :: "gc_env \<Rightarrow> string \<Rightarrow> sessions_fs \<Rightarrow> io_error option \<times> sessions_fs" where
  "remove_dir_all env name fs =
     (case ge_remove env name of None \<Rightarrow> (None, fs(name := None)) | Some (e, rest) \<Rightarrow> (Some e, fs(name \<mapsto> rest)))"

definition delete_session_dir :: "gc_env \<Rightarrow> string \<Rightarrow> sessions_fs \<Rightarrow> project_error option \<times> sessions_fs" where
  "delete_session_dir env name fs =
     (let ctx = ''deleting a session''; tomb = tombstone name
      in case (if fs tomb \<noteq> None then remove_dir_all env tomb fs else (None, fs)) of
           (Some e, fs1) \<Rightarrow> (Some (from_io ctx e), fs1)
         | (None, fs1) \<Rightarrow>
             (case ge_rename env name of
                None \<Rightarrow>
                  (case remove_dir_all env tomb (fs1(tomb := fs1 name, name := None)) of
                     (r, fs2) \<Rightarrow> (map_option (from_io ctx) r, fs2))
              | Some e \<Rightarrow>
                  if e = NotFound then (None, fs1)
                  else
                    (case fs1 name of
                       None \<Rightarrow> (Some (from_io ctx e), fs1)
                     | Some d \<Rightarrow>
                         (case delete_in_place (ge_in_place env name) d of
                            (r, left) \<Rightarrow> (map_option (from_io ctx) r, fs1(name := left))))))"

section \<open>The start-up pass\<close>

datatype gc_error = GcIo io_error | GcProject project_error

record gc_report =
  gr_deleted :: "string list"
  gr_locked :: "string list"
  gr_recoverable :: "recoverable_session list"
  gr_errors :: "(string \<times> gc_error) list"

definition report_default :: gc_report where
  "report_default = \<lparr>gr_deleted = [], gr_locked = [], gr_recoverable = [], gr_errors = []\<rparr>"

definition note_deletion :: "string \<Rightarrow> gc_error option \<Rightarrow> gc_report \<Rightarrow> gc_report" where
  "note_deletion name r rep =
     (case r of None \<Rightarrow> rep\<lparr>gr_deleted := gr_deleted rep @ [name]\<rparr> | Some e \<Rightarrow> rep\<lparr>gr_errors := gr_errors rep @ [(name, e)]\<rparr>)"

definition gc_one ::
    "(byte list \<Rightarrow> 32 word) \<Rightarrow> (byte list \<Rightarrow> 'v journal_record option) \<Rightarrow> gc_env \<Rightarrow> string \<Rightarrow>
     sessions_fs \<times> gc_report \<Rightarrow> sessions_fs \<times> gc_report" where
  "gc_one crc dec env name st =
     (case st of (fs, rep) \<Rightarrow>
        case fs name of
          None \<Rightarrow> (fs, rep)
        | Some d \<Rightarrow>
            if is_tombstone name then
              (case remove_dir_all env name fs of (r, fs1) \<Rightarrow> (fs1, note_deletion name (map_option GcIo r) rep))
            else
              (case ge_lock env name of
                 Inl e \<Rightarrow> (fs, rep\<lparr>gr_errors := gr_errors rep @ [(name, GcProject e)]\<rparr>)
               | Inr False \<Rightarrow> (fs, rep\<lparr>gr_locked := gr_locked rep @ [name]\<rparr>)
               | Inr True \<Rightarrow>
                   (case classify_session crc dec env name d of
                      Inl e \<Rightarrow> (fs, rep\<lparr>gr_errors := gr_errors rep @ [(name, GcProject e)]\<rparr>)
                    | Inr (Recoverable r) \<Rightarrow> (fs, rep\<lparr>gr_recoverable := gr_recoverable rep @ [r]\<rparr>)
                    | Inr Clean \<Rightarrow>
                        (case delete_session_dir env name fs of
                           (r, fs1) \<Rightarrow> (fs1, note_deletion name (map_option GcProject r) rep)))))"

definition collect_garbage ::
    "(byte list \<Rightarrow> 32 word) \<Rightarrow> (byte list \<Rightarrow> 'v journal_record option) \<Rightarrow> gc_env \<Rightarrow> string list \<Rightarrow> sessions_fs \<Rightarrow>
     sessions_fs \<times> gc_report" where
  "collect_garbage crc dec env dirs fs = fold (gc_one crc dec env) dirs (fs, report_default)"

definition discard_session :: "gc_env \<Rightarrow> string \<Rightarrow> sessions_fs \<Rightarrow> project_error option \<times> sessions_fs" where
  "discard_session env name fs =
     (case ge_lock env name of
        Inl e \<Rightarrow> (Some e, fs)
      | Inr False \<Rightarrow> (Some SessionLocked, fs)
      | Inr True \<Rightarrow> delete_session_dir env name fs)"

fun find_already_open ::
    "gc_env \<Rightarrow> (string \<Rightarrow> string) \<Rightarrow> string \<Rightarrow> string option \<Rightarrow> string list \<Rightarrow> sessions_fs \<Rightarrow> string option" where
  "find_already_open env canon_path target excluded [] fs = None"
| "find_already_open env canon_path target excluded (n # ns) fs =
     (let next = find_already_open env canon_path target excluded ns fs
      in if is_tombstone n \<or> Some n = excluded then next
         else case ge_lock env n of
                Inl _ \<Rightarrow> next
              | Inr True \<Rightarrow> next
              | Inr False \<Rightarrow>
                  (case Option.bind (Option.bind (fs n) sd_meta) mt_source_path of
                     None \<Rightarrow> next
                   | Some src \<Rightarrow> if canon_path src = target then Some n else next))"

section \<open>Temporary files of interrupted saves\<close>

definition rfind :: "string \<Rightarrow> string \<Rightarrow> nat option" where
  "rfind pat s = rposition (\<lambda>k. take (length pat) (drop k s) = pat) [0 ..< length s + 1]"

definition digit_of :: "char \<Rightarrow> nat option" where
  "digit_of c = (let n = of_char c in if 48 \<le> n \<and> n \<le> 57 then Some (n - 48) else None)"

fun digits_value :: "nat \<Rightarrow> string \<Rightarrow> nat option" where
  "digits_value acc [] = Some acc"
| "digits_value acc (c # cs) = (case digit_of c of None \<Rightarrow> None | Some n \<Rightarrow> digits_value (10 * acc + n) cs)"

text \<open>\<open>str::parse::<i32>\<close>.\<close>

definition parse_i32 :: "string \<Rightarrow> int option" where
  "parse_i32 s =
     (let (neg, ds) = (case s of [] \<Rightarrow> (False, s) | c # cs \<Rightarrow> if c = CHR ''-'' then (True, cs) else if c = CHR ''+'' then (False, cs) else (False, s))
      in if ds = [] then None
         else case digits_value 0 ds of
                None \<Rightarrow> None
              | Some n \<Rightarrow>
                  (let i = (if neg then - int n else int n) in if - (2 ^ 31) \<le> i \<and> i < 2 ^ 31 then Some i else None))"

definition temp_marker :: string where "temp_marker = ''.powervoice-tmp-''"

text \<open>\<open>alive\<close> asks the system for a process, \<open>is_file\<close> for the type of an entry, \<open>rm\<close> whether removing it works.\<close>

definition is_stale_temp :: "(int \<Rightarrow> bool) \<Rightarrow> (string \<Rightarrow> bool) \<Rightarrow> string \<Rightarrow> bool" where
  "is_stale_temp alive is_file name \<longleftrightarrow>
     (case name of
        [] \<Rightarrow> False
      | c # _ \<Rightarrow>
          c = CHR ''.'' \<and>
          (case rfind temp_marker name of
             None \<Rightarrow> False
           | Some pos \<Rightarrow>
               (case parse_i32 (drop (pos + length temp_marker) name) of
                  None \<Rightarrow> False
                | Some pid \<Rightarrow> \<not> alive pid \<and> is_file name)))"

definition remove_stale_temp_files ::
    "(int \<Rightarrow> bool) \<Rightarrow> (string \<Rightarrow> bool) \<Rightarrow> (string \<Rightarrow> bool) \<Rightarrow> string list \<Rightarrow> nat \<times> string list" where
  "remove_stale_temp_files alive is_file rm names =
     (let gone = \<lambda>n. is_stale_temp alive is_file n \<and> rm n
      in (length (filter gone names), filter (\<lambda>n. \<not> gone n) names))"

end
