(* ===== verification/Session_Open.thy ===== *)
theory Session_Open
  imports Session_Log
begin

text \<open>
  The journal of a running session does not end in \<open>close\<close>.  \<open>open_log\<close>: whatever is appended that does not end in \<open>close\<close>,
  the journal keeps \<open>Q\<close>; then every operation of a session keeps it.
\<close>

definition ends_open :: "'v journal_record list \<Rightarrow> bool" where
  "ends_open recs \<longleftrightarrow> recs = [] \<or> last recs \<noteq> JClose"

text \<open>\<open>keeps_log Q s s'\<close>: what holds of the journal of \<open>s\<close> holds of that of \<open>s'\<close>.\<close>

definition keeps_log :: "('j \<Rightarrow> bool) \<Rightarrow> ('v, 'j) session \<Rightarrow> ('v, 'j) session \<Rightarrow> bool" where
  "keeps_log Q s s' \<longleftrightarrow> (Q (ss_journal s) \<longrightarrow> Q (ss_journal s'))"

lemma keeps_log_trans: "keeps_log Q s t \<Longrightarrow> keeps_log Q t u \<Longrightarrow> keeps_log Q s u"
  by (simp add: keeps_log_def)

lemma keeps_log_simps [simp]:
  "keeps_log Q s s" "keeps_log Q s (s\<lparr>ss_store := st\<rparr>)" "keeps_log Q s (t\<lparr>ss_history := h\<rparr>) = keeps_log Q s t"
  "keeps_log Q s (t\<lparr>ss_open := x\<rparr>) = keeps_log Q s t" "keeps_log Q s (t\<lparr>ss_markers := ms\<rparr>) = keeps_log Q s t"
  "keeps_log Q s (t\<lparr>ss_open := x, ss_markers := ms\<rparr>) = keeps_log Q s t"
  "keeps_log Q s (t\<lparr>ss_next_take := n\<rparr>) = keeps_log Q s t" "keeps_log Q s (t\<lparr>ss_last_saved := a\<rparr>) = keeps_log Q s t"
  "keeps_log Q s (t\<lparr>ss_last_state := b\<rparr>) = keeps_log Q s t" "keeps_log Q s (t\<lparr>ss_journaled := js\<rparr>) = keeps_log Q s t"
  "keeps_log Q s (t\<lparr>ss_journaled := js, ss_history := h\<rparr>) = keeps_log Q s t"
  "keeps_log Q s (t\<lparr>ss_history := h, ss_last_saved := a\<rparr>) = keeps_log Q s t"
  "keeps_log Q s (close_open t) = keeps_log Q s t"
  by (simp_all add: keeps_log_def close_open_def)

lemma ends_open_simps [simp]: "ends_open []" "ends_open (chunk_records locs @ [r]) \<longleftrightarrow> r \<noteq> JClose" "ends_open [r] \<longleftrightarrow> r \<noteq> JClose"
  by (simp_all add: ends_open_def)

locale open_log =
  fixes ap :: "('v, 'j) appender"
    and Q :: "'j \<Rightarrow> bool"
  assumes ap_keeps: "ends_open recs \<Longrightarrow> Q j \<Longrightarrow> ap recs j = (r, j') \<Longrightarrow> Q j'"
begin

lemma write_log_keeps: "write_log ap recs s = (r, s') \<Longrightarrow> ends_open recs \<Longrightarrow> keeps_log Q s s'"
  using ap_keeps by (fastforce simp: write_log_def keeps_log_def split: prod.splits)

lemma sync_new_keeps: "sync_new env locs s = (r, s') \<Longrightarrow> keeps_log Q s s'"
  by (auto simp: sync_new_def sync_session_def keeps_log_def split: if_splits prod.splits)

lemma commit_internal_keeps:
  assumes c: "commit_internal ap env e tk s = (r, s')"
  shows "keeps_log Q s s'"
proof -
  define locs where "locs = unjournaled_chunks s (concat (map op_pieces (e_ops e)))"
  show ?thesis
  proof (cases "(\<exists>err. validate_op_refs (ss_store s) (e_ops e) = Inl err) \<or> (\<exists>err. prepare (ss_history s) e = Inl err)")
    case True
    then show ?thesis using c by (auto simp: commit_internal_def split: sum.splits)
  next
    case False
    then obtain p where v: "validate_op_refs (ss_store s) (e_ops e) = Inr ()" and p: "prepare (ss_history s) e = Inr p"
      by (metis old.sum.exhaust old.unit.exhaust)
    obtain r1 s1 where y: "sync_new env locs s = (r1, s1)" by fastforce
    obtain r2 s2 where w: "write_log ap (chunk_records locs @ [JEdit ((from_edit (pe_seq p) e (map_option fst tk))\<lparr>er_take_wav := Option.bind tk snd\<rparr>)]) s1 = (r2, s2)"
      by fastforce
    have "keeps_log Q s s2" using keeps_log_trans [OF sync_new_keeps [OF y] write_log_keeps [OF w]] by simp
    with sync_new_keeps [OF y] c v p y w show ?thesis
      by (cases r1; cases r2) (auto simp: commit_internal_def locs_def [symmetric] Let_def split: prod.splits)
  qed
qed

lemma commit_edit_keeps: "commit_edit ap env e s = (r, s') \<Longrightarrow> keeps_log Q s s'"
  by (auto simp: commit_edit_def split: if_splits intro: commit_internal_keeps)

lemma set_floor_keeps: "set_floor ap env wa markers s = (r, s') \<Longrightarrow> keeps_log Q s s'"
  unfolding set_floor_def Let_def
  by (auto split: if_splits sum.splits prod.splits dest!: write_log_keeps sync_new_keeps intro: keeps_log_trans)

lemma simple_keeps:
  "session_undo ap s = (r1, s') \<Longrightarrow> keeps_log Q s s'" "session_redo ap s = (r1, s') \<Longrightarrow> keeps_log Q s s'"
  "session_drop_undo ap n s = (r2, s') \<Longrightarrow> keeps_log Q s s'" "new_marker_id s = (i, s') \<Longrightarrow> keeps_log Q s s'"
  "mark_saved_file_at ap q path fmt sm sidecar facts s = (r3, s') \<Longrightarrow> keeps_log Q s s'"
  "append_state ap v s = (r3, s') \<Longrightarrow> keeps_log Q s s'" "note_take_window ap tk k s = (r3, s') \<Longrightarrow> keeps_log Q s s'"
  "note_take_marker ap tk m s = (r3, s') \<Longrightarrow> keeps_log Q s s'" "discard_take ap tk s = (r3, s') \<Longrightarrow> keeps_log Q s s'"
  "close_cancelled_take ap tk s = (r4, s') \<Longrightarrow> keeps_log Q s s'"
  unfolding session_undo_def session_redo_def session_drop_undo_def new_marker_id_def mark_saved_file_at_def append_state_def
    note_take_window_def note_take_marker_def discard_take_def close_cancelled_take_def Let_def
  by (auto split: if_splits option.splits sum.splits prod.splits dest!: write_log_keeps)

lemma begin_keeps: "begin_take_with ap te now mode params options s = (r, s') \<Longrightarrow> keeps_log Q s s'"
proof -
  have k: "keeps_log Q s (snd (write_log ap rs t))" if "keeps_log Q s t" "ends_open rs" for rs and t :: "('v, 'j) session"
    using keeps_log_trans [OF that(1) write_log_keeps [of rs t "fst (write_log ap rs t)" "snd (write_log ap rs t)"]] that(2) by simp
  assume "begin_take_with ap te now mode params options s = (r, s')"
  then show ?thesis
    unfolding begin_take_with_def Let_def
    by (auto split: if_splits option.splits sum.splits prod.splits dest!: write_log_keeps intro!: k)
qed

lemma commit_markers_keeps: "commit_markers ap env len ms s = (r, s') \<Longrightarrow> keeps_log Q s s'"
proof (induction ms arbitrary: s)
  case (Cons m ms)
  then show ?case by (auto split: prod.splits sum.splits dest!: commit_internal_keeps intro: keeps_log_trans)
qed simp

lemma cancel_keeps: "cancel_take ap env tk s = (r, s') \<Longrightarrow> keeps_log Q s s'"
  unfolding cancel_take_def
  by (auto split: prod.splits sum.splits dest!: commit_markers_keeps simple_keeps(10) intro: keeps_log_trans)

lemma commit_take_keeps: "commit_take ap env f markers s = (r, s') \<Longrightarrow> keeps_log Q s s'"
  unfolding commit_take_def Let_def
  by (auto split: option.splits if_splits prod.splits sum.splits dest!: commit_internal_keeps write_log_keeps)

lemma build_keeps: "build_edit crc env mix plan ps window s = (r, s') \<Longrightarrow> keeps_log Q s s'"
  by (auto simp: build_edit_def split: prod.splits)

lemma commit_window_keeps: "commit_take_window ap crc env mix f window markers s = (r, s') \<Longrightarrow> keeps_log Q s s'"
  unfolding commit_take_window_def Let_def
  by (auto split: option.splits if_splits prod.splits sum.splits dest!: build_keeps commit_internal_keeps cancel_keeps
      intro: keeps_log_trans)

lemma apply_wav_keeps:
  assumes c: "apply_open_take_from_wav ap crc env mix parts_of s = (r, s')"
  shows "keeps_log Q s s'"
proof (cases "(\<exists>tk plan parts. ss_open s = Some (tk, plan) \<and> parts_of tk = Inr parts)")
  case False
  with c show ?thesis by (auto simp: apply_open_take_from_wav_def split: option.splits sum.splits)
next
  case True
  then obtain tk plan parts where o: "ss_open s = Some (tk, plan)" "parts_of tk = Inr parts" by blast
  obtain r1 st where i: "import_take crc env parts (ss_store s) = (r1, st)" by fastforce
  define s1 where "s1 = s\<lparr>ss_store := st\<rparr>"
  have m1: "keeps_log Q s s1" by (simp add: s1_def)
  note eq = c [unfolded apply_open_take_from_wav_def o option.case prod.case sum.case i Let_def, folded s1_def]
  show ?thesis
    using eq m1
    by (auto split: sum.splits option.splits prod.splits
        dest!: simple_keeps(10) build_keeps write_log_keeps commit_internal_keeps intro: keeps_log_trans)
qed

end

section \<open>Reachable sessions\<close>

definition unclosed :: "(byte list \<Rightarrow> 32 word) \<Rightarrow> ('v journal_record \<Rightarrow> byte list option) \<Rightarrow> env_log \<Rightarrow> bool" where
  "unclosed crc enc l \<longleftrightarrow> (\<exists>recs. file_holds crc enc recs l \<and> ends_open recs)"

interpretation open_file: open_log "log_append crc enc" "unclosed crc enc" for crc and enc :: "'v journal_record \<Rightarrow> byte list option"
proof
  fix recs :: "'v journal_record list" and j r j'
  assume o: "ends_open recs" and u: "unclosed crc enc j" and a: "log_append crc enc recs j = (r, j')"
  from u obtain old where h: "file_holds crc enc old j" "ends_open old" by (auto simp: unclosed_def)
  show "unclosed crc enc j'"
  proof (cases r)
    case (Inl e)
    with file_log.ap_err [OF h(1)] a h(2) show ?thesis by (auto simp: unclosed_def)
  next
    case (Inr u)
    have "ends_open (old @ recs)" using o h(2) by (cases "recs = []") (auto simp: ends_open_def)
    with file_log.ap_ok [OF h(1)] a Inr show ?thesis by (auto simp: unclosed_def)
  qed
qed

lemma session_step_unclosed:
  assumes "session_step crc enc s s'" "unclosed crc enc (ss_journal s)"
  shows "unclosed crc enc (ss_journal s')"
proof -
  have "keeps_log (unclosed crc enc) s s'"
    using assms(1)
    by (cases rule: session_step.cases)
       (erule open_file.commit_edit_keeps open_file.set_floor_keeps open_file.simple_keeps
          open_file.begin_keeps open_file.cancel_keeps open_file.commit_take_keeps
          open_file.commit_window_keeps open_file.apply_wav_keeps | simp)+
  with assms(2) show ?thesis by (simp add: keeps_log_def)
qed

lemma compacting_unclosed:
  assumes "compacting crc enc s0 s pc index rest" "unclosed crc enc (ss_journal s0)"
  shows "unclosed crc enc (ss_journal s)"
  using assms
proof (induction rule: compacting.induct)
  case (compacting_step s pc index rest s')
  then show ?case using session_step_unclosed by blast
qed simp_all

lemma switch_ends_open: "ends_open (switch_records s index)"
  by (simp add: switch_records_def ends_open_def)

lemma finish_switch_appends:
  assumes "finish_generation_switch ap cx j0 s index = (r, (j, switched))" "switched"
  shows "\<exists>u. ap (switch_records s index) j0 = (Inr u, j)"
  using assms by (auto simp: finish_generation_switch_def split: option.splits sum.splits prod.splits)

lemma finish_unclosed:
  assumes json: "json_ok enc dec" and u: "unclosed crc enc (ss_journal s)"
    and f: "finish_compact (log_append crc enc) (log_reopen crc dec env) crc re we cx (log_new envs) pc index extra (s, mt) =
      (r, (s', mt'))"
  shows "unclosed crc enc (ss_journal s')"
proof -
  have new: "el_journal (log_new envs) = journal_create" by (simp add: log_new_def)
  have k: "unclosed crc enc j \<and> (\<forall>j'. log_reopen crc dec env j = Inr j' \<longrightarrow> unclosed crc enc j')"
    if "finish_generation_switch (log_append crc enc) cx (log_new envs) t i = (q, (j, True))" for t i q j
  proof -
    from finish_switch_appends [OF that] obtain v where a: "log_append crc enc (switch_records t i) (log_new envs) = (Inr v, j)"
      by auto
    have "file_holds crc enc (switch_records t i) j" using file_log.ap_ok [OF log_new_holds a] by simp
    moreover have "file_holds crc enc (switch_records t i) j'" if "log_reopen crc dec env j = Inr j'" for j'
      using file_generations.reopen_holds [OF json new a that] .
    ultimately show ?thesis using switch_ends_open by (auto simp: unclosed_def)
  qed
  have sw: "switched" if "finish_generation_switch (log_append crc enc) cx (log_new envs) t i = (Inr v, (j, switched))" for t i v j switched
    using that by (auto simp: finish_generation_switch_def split: option.splits sum.splits prod.splits)
  have k2: "unclosed crc enc j" if "finish_generation_switch (log_append crc enc) cx (log_new envs) t i = (Inr v, (j, switched))"
    for t i v j switched using sw [OF that] k [of t i "Inr v" j] that by simp
  from f u show ?thesis
    unfolding finish_compact_def Let_def
    by (auto simp: switched_session_def split: if_splits option.splits sum.splits prod.splits dest!: k k2)
qed

lemma reached_unclosed: "reached crc enc s \<Longrightarrow> unclosed crc enc (ss_journal s)"
proof (induction rule: reached.induct)
  case (reached_create envs before after rate src budget s)
  then show ?case
    using file_log.ap_ok [OF log_new_holds, of _ _ _ envs]
    by (fastforce simp: session_create_def Let_def unclosed_def ends_open_def split: if_splits option.splits prod.splits sum.splits)
next
  case (reached_step s s')
  then show ?case using session_step_unclosed by blast
next
  case (reached_compact s0 s pc index dec env re we cx envs extra mt r s' mt')
  then show ?case using finish_unclosed [OF reached_compact.hyps(3) compacting_unclosed [OF reached_compact.hyps(2)]] by blast
qed

text \<open>The records of a session that is still open, as \<open>reachedE\<close> gives them.\<close>

lemma unclosed_records:
  assumes "json_ok enc dec" "reached crc enc s"
    and "encode_records crc enc recs = Inr buf" "jl_file (el_journal (ss_journal s)) = buf @ rest"
    "jl_len (el_journal (ss_journal s)) = length buf"
  shows "ends_open recs"
proof -
  from reached_unclosed [OF assms(2)] obtain recs' buf' rest' where u: "ends_open recs'" "encode_records crc enc recs' = Inr buf'"
    "jl_file (el_journal (ss_journal s)) = buf' @ rest'" "jl_len (el_journal (ss_journal s)) = length buf'"
    by (auto simp: unclosed_def file_holds_def log_holds_def)
  then have "buf' = buf" using assms(4,5) by simp
  with parse_ends [OF assms(1) u(2), of "[]" 0] parse_ends [OF assms(1,3), of "[]" 0] have "recs' = recs" by auto
  with u(1) show ?thesis by simp
qed

end
