(* ===== verification/Gc_Props.thy ===== *)
theory Gc_Props
  imports Gc Session_Open Session_Props
begin

text \<open>
  What start-up does with the sessions it finds: nothing that could still be recovered is deleted, a session that was closed is.
\<close>

section \<open>The summary follows the replay\<close>

lemma summary_closed: "su_closed (summarize_record s r) \<longleftrightarrow> r = JClose"
  by (cases r) (auto simp: Let_def split: option.splits)

lemma summarize_snoc: "summarize (recs @ [r]) = summarize_record (summarize recs) r"
  by (simp add: summarize_def)

lemma summarize_closed: "su_closed (summarize recs) \<longleftrightarrow> recs \<noteq> [] \<and> last recs = JClose"
  by (cases recs rule: rev_cases) (simp_all add: summarize_snoc summary_closed, simp add: summarize_def summary_default_def)

definition hist_summary :: "summary \<Rightarrow> history \<Rightarrow> bool" where
  "hist_summary s h \<longleftrightarrow> su_undo s = map en_seq (h_undo h) \<and> su_redo s = map en_seq (h_redo h) \<and> su_saved_seq s = h_saved_seq h"

text \<open>Every take the replay holds open is one the summary knows; one whose window opened counts as open.\<close>

definition takes_summary :: "summary \<Rightarrow> 'v replay_state \<Rightarrow> bool" where
  "takes_summary s r \<longleftrightarrow> (\<forall>tk plan. map_of (rp_open_takes r) tk = Some plan \<longrightarrow>
     (if tp_k_start plan = None then tk \<in> set (su_pending s) else tk \<in> set (su_open_takes s)))"

lemma peek_seq_last: "peek_seq es = Some q \<longleftrightarrow> es \<noteq> [] \<and> last (map en_seq es) = q"
  by (auto simp: peek_seq_def last_map)

lemma butlast_map: "butlast (map f xs) = map f (butlast xs)"
  by (simp add: map_butlast)

lemma hist_summary_step:
  assumes "apply_change r rec = Some r'" "hist_summary s (rp_history r)"
  shows "hist_summary (summarize_record s rec) (rp_history r')"
proof (cases rec)
  case (JEdit er)
  with assms obtain p where "prepare (rp_history r) (to_edit er) = Inr p" "pe_seq p = er_seq er"
    "rp_history r' = snd (commit (rp_history r) p)"
    by (auto simp: Let_def split: if_splits sum.splits)
  with assms(2) JEdit show ?thesis by (auto simp: hist_summary_def commit_def Let_def split: option.splits)
next
  case (JUndo q)
  with assms show ?thesis
    by (auto simp: hist_summary_def peek_seq_last history_undo_def restamp_def Let_def butlast_map last_map split: if_splits)
next
  case (JRedo q)
  with assms show ?thesis
    by (auto simp: hist_summary_def peek_seq_last history_redo_def restamp_def Let_def butlast_map last_map split: if_splits)
next
  case (JDropUndo n)
  with assms show ?thesis by (auto simp: hist_summary_def drop_oldest_undo_def Let_def drop_map)
qed (use assms in \<open>auto simp: hist_summary_def mark_saved_at_def\<close>)

lemma note_history [simp]: "rp_history (note_metadata r rec) = rp_history r"
  by (cases rec) (auto simp: note_metadata_def close_take_def split: option.splits)

lemma hist_summary_records:
  "apply_records r recs = (r', length recs) \<Longrightarrow> hist_summary s (rp_history r) \<Longrightarrow>
   hist_summary (foldl summarize_record s recs) (rp_history r')"
proof (induction recs arbitrary: r s)
  case (Cons rec recs)
  from Cons.prems(1) obtain r1 where r1: "apply_change r rec = Some r1" "apply_records (note_metadata r1 rec) recs = (r', length recs)"
    by (auto simp: apply_record_def split: option.splits prod.splits)
  from Cons.IH [OF r1(2), of "summarize_record s rec"] hist_summary_step [OF r1(1) Cons.prems(2)] show ?case by simp
qed simp

lemma hist_summary_checkpoint: "hist_summary (summarize_record s (JCheckpoint c)) (to_history c)"
  by (simp add: hist_summary_def to_history_def from_parts_def to_entry_def comp_def Let_def split: prod.splits)

lemma takes_summary_step: "takes_summary s r \<Longrightarrow> takes_summary (summarize_record s rec) (note_metadata r rec)"
proof (cases rec)
  case (JTakeWindow tk k)
  assume t: "takes_summary s r"
  show ?thesis
  proof (cases "map_of (rp_open_takes r) tk")
    case None
    with t JTakeWindow show ?thesis by (auto simp: takes_summary_def note_metadata_def)
  next
    case (Some plan)
    with t have "tk \<notin> set (su_pending s) \<Longrightarrow> tk \<in> set (su_open_takes s)" unfolding takes_summary_def by metis
    with t JTakeWindow Some show ?thesis by (auto simp: takes_summary_def note_metadata_def)
  qed
qed (auto simp: takes_summary_def note_metadata_def close_take_def plan_of_def Let_def split: option.splits if_splits)

lemma takes_summary_fold: "takes_summary s r \<Longrightarrow> takes_summary (foldl summarize_record s recs) (foldl note_metadata r recs)"
  by (induction recs arbitrary: s r) (simp_all add: takes_summary_step)

lemma takes_summary_change: "apply_change r rec = Some r' \<Longrightarrow> takes_summary s r' = takes_summary s r"
  by (subst apply_change_base [of r rec r']) (simp_all add: takes_summary_def with_base_def)

lemma takes_summary_records:
  "apply_records r recs = (r', length recs) \<Longrightarrow> takes_summary s r \<Longrightarrow> takes_summary (foldl summarize_record s recs) r'"
proof (induction recs arbitrary: r s)
  case (Cons rec recs)
  from Cons.prems(1) obtain r1 where r1: "apply_change r rec = Some r1" "apply_records (note_metadata r1 rec) recs = (r', length recs)"
    by (auto simp: apply_record_def split: option.splits prod.splits)
  from Cons.IH [OF r1(2), of "summarize_record s rec"] takes_summary_step [of s r1 rec] takes_summary_change [OF r1(1)] Cons.prems(2)
  show ?case by simp
qed simp

lemma replayed_summary:
  fixes recs :: "'v journal_record list"
  assumes "replayed recs rep"
  shows "hist_summary (summarize recs) (rp_history rep)" "takes_summary (summarize recs) rep"
proof -
  from assms obtain k c where k: "checkpoint_of (recs ! k) = Some c" "k < length recs"
    "apply_records (foldl note_metadata (replay_from c) (take k recs)) (drop (k + 1) recs) = (rep, length (drop (k + 1) recs))"
    by (rule replayedE)
  have ck: "recs ! k = JCheckpoint c" using k(1) by (cases "recs ! k") auto
  define s1 where "s1 = foldl summarize_record summary_default (take k recs)"
  have sp: "recs = take k recs @ [JCheckpoint c] @ drop (k + 1) recs"
    using id_take_nth_drop [OF k(2)] unfolding ck Suc_eq_plus1 append.simps .
  have sm: "summarize recs = foldl summarize_record (summarize_record s1 (JCheckpoint c :: 'v journal_record)) (drop (k + 1) recs)"
    unfolding summarize_def by (subst sp) (simp only: foldl_append foldl.simps s1_def)
  let ?r0 = "foldl note_metadata (replay_from c) (take k recs)"
  have h0: "rp_history (foldl note_metadata r xs) = rp_history r" for r :: "'v replay_state" and xs
    by (induction xs arbitrary: r) simp_all
  have "hist_summary (summarize_record s1 (JCheckpoint c :: 'v journal_record)) (rp_history ?r0)"
    using hist_summary_checkpoint by (simp add: h0 replay_from_def)
  from hist_summary_records [OF k(3) this] show "hist_summary (summarize recs) (rp_history rep)" by (simp add: sm)
  have "takes_summary summary_default (replay_from c)" by (simp add: takes_summary_def replay_from_def)
  from takes_summary_fold [OF this, of "take k recs"] have "takes_summary (summarize_record s1 (JCheckpoint c :: 'v journal_record)) ?r0"
    by (simp add: takes_summary_def s1_def)
  from takes_summary_records [OF k(3) this] show "takes_summary (summarize recs) rep" by (simp add: sm)
qed

section \<open>What a crash leaves of a session\<close>

text \<open>\<open>left_by s d\<close>: the directory a session leaves when it is killed at any moment.  Its \<^verbatim>\<open>meta.json\<close> names its generation, the
  journal holds what was acknowledged with at most a torn line after it; nothing is said of the rest.\<close>

definition left_by :: "('v, env_log) session \<Rightarrow> session_dir \<Rightarrow> bool" where
  "left_by s d \<longleftrightarrow> (\<exists>m. sd_meta d = Some m \<and> mt_generation m = ss_generation s) \<and>
     (\<exists>torn. 10 \<notin> set torn \<and> sd_journals d (ss_generation s) =
        Some (take (jl_len (el_journal (ss_journal s))) (jl_file (el_journal (ss_journal s))) @ torn))"

text \<open>What start-up must not lose: unsaved changes, and a take whose recording began and that has a file.\<close>

definition worth_keeping :: "('v, env_log) session \<Rightarrow> session_dir \<Rightarrow> bool" where
  "worth_keeping s d \<longleftrightarrow> is_dirty (ss_history s) \<or>
     (\<exists>tk plan. ss_open s = Some (tk, plan) \<and> tp_k_start plan \<noteq> None \<and> sd_parts d tk \<noteq> [])"

lemma scan_valid:
  assumes "json_ok enc dec" "encode_records crc enc recs = Inr buf" "10 \<notin> set torn"
  shows "js_records (scan_journal isc crc dec (buf @ torn)) = recs" "js_valid (scan_journal isc crc dec (buf @ torn)) = length buf"
  using parse_ends [OF assms, of 0] by (auto simp: scan_journal_def Let_def split: prod.splits)

lemma hist_summary_seq: "hist_summary sm h \<Longrightarrow> (if su_undo sm = [] then 0 else last (su_undo sm)) = current_seq h"
  by (auto simp: hist_summary_def current_seq_def peek_seq_def last_map)

lemma unsaved_count_pos:
  assumes "(if undo = [] then 0 else last undo) \<noteq> saved"
  shows "0 < unsaved_count undo redo saved"
proof (cases "saved = 0")
  case True
  then show ?thesis using assms by (auto simp: unsaved_count_def Let_def)
next
  case False
  show ?thesis
  proof (cases "position (\<lambda>s. s = saved) undo")
    case (Some p)
    from position_SomeD [OF this] have p: "p < length undo" "undo ! p = saved" by auto
    then have "p \<noteq> length undo - 1" using assms by (cases "undo = []") (auto simp: last_conv_nth)
    with Some p assms False show ?thesis by (auto simp: unsaved_count_def Let_def)
  next
    case None
    then show ?thesis using assms False
      by (auto simp: unsaved_count_def Let_def dest!: rposition_SomeD split: option.splits)
  qed
qed

lemma classify_left:
  assumes json: "json_ok enc dec" and reach: "reached crc enc s" and left: "left_by s d" and keep: "worth_keeping s d"
    and rd: "ge_read env name = None"
  shows "\<exists>r. classify_session crc dec env name d = Inr (Recoverable r) \<and> rs_id r = name \<and>
    rs_unsaved_changes r = is_dirty (ss_history s) \<and> rs_current_seq r = current_seq (ss_history s) \<and>
    rs_saved_seq r = h_saved_seq (ss_history s) \<and> (is_dirty (ss_history s) \<longrightarrow> 0 < rs_unsaved_count r)"
proof -
  obtain recs rep buf rest where t: "session_inv crc s" "replayed recs rep" "session_match rep s"
    "encode_records crc enc recs = Inr buf" "jl_file (el_journal (ss_journal s)) = buf @ rest"
    "jl_len (el_journal (ss_journal s)) = length buf" by (rule reachedE [OF reach])
  from left t(5,6) obtain m torn where d: "sd_meta d = Some m" "mt_generation m = ss_generation s" "10 \<notin> set torn"
    "sd_journals d (ss_generation s) = Some (buf @ torn)" by (auto simp: left_by_def)
  note sc = scan_valid [OF json t(4) d(3), of is_chunks_record]
  define sm where "sm = summarize recs"
  note rs = replayed_summary [OF t(2), folded sm_def]
  have h: "hist_sim (rp_history rep) (ss_history s)" and tm: "takes_match rep (ss_next_take s) (ss_open s) (ss_markers s)"
    using t(3) by (simp_all add: session_match_def)
  have hs: "hist_summary sm (ss_history s)" using rs(1) hist_simD [OF h] by (simp add: hist_summary_def)
  have closed: "\<not> su_closed sm"
    using unclosed_records [OF json reach t(4-6)] by (auto simp: sm_def summarize_closed ends_open_def)
  have dirty: "(if su_undo sm = [] then 0 else last (su_undo sm)) \<noteq> su_saved_seq sm \<longleftrightarrow> is_dirty (ss_history s)"
    using hist_summary_seq [OF hs] hs by (simp add: is_dirty_def hist_summary_def)
  have "\<exists>t \<in> set (map (lenient_take_samples env name d) (su_open_takes sm)). fst t" if "\<not> is_dirty (ss_history s)"
  proof -
    from that keep obtain tk plan where o: "ss_open s = Some (tk, plan)" "tp_k_start plan \<noteq> None" "sd_parts d tk \<noteq> []"
      by (auto simp: worth_keeping_def)
    then have "map_of (rp_open_takes rep) tk = Some plan" using tm by (simp add: takes_match_def)
    then have "tk \<in> set (su_open_takes sm)" using rs(2) o(2) by (auto simp: takes_summary_def)
    with o(3) show ?thesis by (auto simp: lenient_take_samples_def Let_def)
  qed
  then have no_clean: "\<not> (\<not> is_dirty (ss_history s) \<and> \<not> (\<exists>t \<in> set (map (lenient_take_samples env name d) (su_open_takes sm)). fst t))"
    by blast
  have "scan_dir crc dec env name (sd_journals d (ss_generation s)) =
      Inr (sm, torn \<noteq> [], js_damaged_lines (scan_journal is_chunks_record crc dec (buf @ torn)))"
    using rd d(4) by (simp add: scan_dir_def sc sm_def Let_def)
  then show ?thesis
    using d(1,2,4) closed no_clean hist_summary_seq [OF hs] unsaved_count_pos [of "su_undo sm" "su_saved_seq sm" "su_redo sm"] hs
    unfolding classify_session_def Let_def dirty
    by (simp add: dirty is_dirty_def hist_summary_def split: prod.splits)
qed

section \<open>Directories the pass does not touch\<close>

lemma tombstone_is: "is_tombstone (tombstone n)"
  by (auto simp: is_tombstone_def tombstone_def intro!: exI [of _ "length n"])

lemma remove_dir_other: "remove_dir_all env n fs = (r, fs') \<Longrightarrow> name \<noteq> n \<Longrightarrow> fs' name = fs name"
  by (auto simp: remove_dir_all_def split: option.splits)

lemma delete_other:
  assumes "delete_session_dir env n fs = (r, fs')" "name \<noteq> n" "\<not> is_tombstone name"
  shows "fs' name = fs name"
proof -
  have t: "name \<noteq> tombstone n" using assms(3) tombstone_is by blast
  obtain r1 fs1 where f: "(if fs (tombstone n) \<noteq> None then remove_dir_all env (tombstone n) fs else (None, fs)) = (r1, fs1)" by fastforce
  then have one: "fs1 name = fs name" using remove_dir_other [OF _ t] by (auto split: if_splits)
  note d = assms(1) [unfolded delete_session_dir_def Let_def f prod.case]
  show ?thesis
  proof (cases r1)
    case (Some e)
    with d one show ?thesis by simp
  next
    case None
    show ?thesis
    proof (cases "ge_rename env n")
      case None2: None
      obtain r2 fs2 where rm: "remove_dir_all env (tombstone n) (fs1(tombstone n := fs1 n, n := None)) = (r2, fs2)" by fastforce
      from remove_dir_other [OF rm t] one assms(2) t None None2 rm d show ?thesis by auto
    next
      case (Some e)
      with d one assms(2) None show ?thesis by (auto split: if_splits option.splits prod.splits)
    qed
  qed
qed

lemma gc_one_other:
  assumes "name \<noteq> n" "\<not> is_tombstone name"
  shows "fst (gc_one crc dec env n (fs, rep)) name = fs name"
  using remove_dir_other [OF _ assms(1)] delete_other [OF _ assms]
  by (fastforce simp: gc_one_def split: option.splits sum.splits bool.splits session_class.splits prod.splits)

lemma gc_one_recoverable: "set (gr_recoverable rep) \<subseteq> set (gr_recoverable (snd (gc_one crc dec env n (fs, rep))))"
  by (auto simp: gc_one_def note_deletion_def split: option.splits sum.splits bool.splits session_class.splits prod.splits)

text \<open>A directory that is not classified clean stays, and is offered when its turn comes.\<close>

lemma gc_keeps:
  assumes "fs name = Some d" "\<not> is_tombstone name" "classify_session crc dec env name d \<noteq> Inr Clean"
  shows "fst (fold (gc_one crc dec env) dirs (fs, rep)) name = Some d \<and>
    set (gr_recoverable rep) \<subseteq> set (gr_recoverable (snd (fold (gc_one crc dec env) dirs (fs, rep)))) \<and>
    (name \<in> set dirs \<and> ge_lock env name = Inr True \<longrightarrow>
      (\<forall>r. classify_session crc dec env name d = Inr (Recoverable r) \<longrightarrow>
         r \<in> set (gr_recoverable (snd (fold (gc_one crc dec env) dirs (fs, rep))))))"
  using assms(1)
proof (induction dirs arbitrary: fs rep)
  case (Cons n dirs)
  obtain fs1 rep1 where g: "gc_one crc dec env n (fs, rep) = (fs1, rep1)" by fastforce
  have k: "fs1 name = Some d"
  proof (cases "n = name")
    case True
    with g Cons.prems assms(2,3) show ?thesis
      by (auto simp: gc_one_def split: sum.splits bool.splits session_class.splits)
  next
    case False
    with gc_one_other [of name n crc dec env fs rep] g Cons.prems assms(2) show ?thesis by simp
  qed
  have m: "set (gr_recoverable rep) \<subseteq> set (gr_recoverable rep1)" using gc_one_recoverable [of rep crc dec env n fs] g by simp
  have o: "r \<in> set (gr_recoverable rep1)"
    if "n = name" "ge_lock env name = Inr True" "classify_session crc dec env name d = Inr (Recoverable r)" for r
    using that g Cons.prems assms(2) by (auto simp: gc_one_def)
  show ?case using Cons.IH [of fs1 rep1, OF k] m o by (auto simp: g)
qed simp

section \<open>Properties\<close>


definition calm_gc :: gc_env where
  "calm_gc = \<lparr>ge_lock = (\<lambda>_. Inr True), ge_read = (\<lambda>_. None), ge_part = (\<lambda>_ _ _. None), ge_file = (\<lambda>_. None),
     ge_remove = (\<lambda>_. None), ge_rename = (\<lambda>_. None), ge_in_place = (\<lambda>_. ([], None))\<rparr>"

definition tiny_dir :: session_dir where
  "tiny_dir = \<lparr>sd_meta = Some \<lparr>mt_version = 1, mt_generation = 0, mt_rate = 8000, mt_source_path = None\<rparr>,
     sd_journals = [0 \<mapsto> take (jl_len (el_journal (ss_journal tiny_session))) (jl_file (el_journal (ss_journal tiny_session))) @ [1, 2]],
     sd_parts = (\<lambda>_. []), sd_wavs = []\<rparr>"


section \<open>Closed sessions\<close>

lemma gc_gone: "fs name = None \<Longrightarrow> \<not> is_tombstone name \<Longrightarrow> fst (fold (gc_one crc dec env) dirs (fs, rep)) name = None"
proof (induction dirs arbitrary: fs rep)
  case (Cons n dirs)
  obtain fs1 rep1 where g: "gc_one crc dec env n (fs, rep) = (fs1, rep1)" by fastforce
  have "fs1 name = None"
  proof (cases "n = name")
    case True
    then show ?thesis using g Cons.prems(1) by (simp add: gc_one_def)
  next
    case False
    then show ?thesis using gc_one_other [of name n crc dec env fs rep] g Cons.prems by simp
  qed
  then show ?case using Cons.IH [of fs1 rep1] Cons.prems(2) g by simp
qed simp

lemma delete_done:
  assumes "ge_rename env name = None" "ge_remove env (tombstone name) = None"
  shows "fst (delete_session_dir env name fs) = None \<and> snd (delete_session_dir env name fs) name = None"
proof -
  have "name \<noteq> tombstone name" by (simp add: tombstone_def deleting_suffix_def)
  then show ?thesis using assms by (auto simp: delete_session_dir_def remove_dir_all_def Let_def)
qed

lemma gc_deletes:
  assumes "fs name = Some d" "\<not> is_tombstone name" "classify_session crc dec env name d = Inr Clean" "name \<in> set dirs"
    "ge_lock env name = Inr True" "ge_rename env name = None" "ge_remove env (tombstone name) = None"
  shows "fst (fold (gc_one crc dec env) dirs (fs, rep)) name = None"
  using assms(1,4)
proof (induction dirs arbitrary: fs rep)
  case (Cons n dirs)
  obtain fs1 rep1 where g: "gc_one crc dec env n (fs, rep) = (fs1, rep1)" by fastforce
  show ?case
  proof (cases "n = name")
    case True
    have "fs1 name = None"
      using g Cons.prems(1) assms(2,3,5) delete_done [OF assms(6,7), of fs]
      by (auto simp: gc_one_def True split: prod.splits)
    then show ?thesis using gc_gone [of fs1 name crc dec env dirs rep1] assms(2) g by simp
  next
    case False
    then have "fs1 name = Some d" using gc_one_other [of name n crc dec env fs rep] g Cons.prems assms(2) by simp
    then show ?thesis using Cons.IH [of fs1 rep1] Cons.prems(2) False g by simp
  qed
qed simp



section \<open>Interrupted deletions\<close>

lemma remove_entry_fields:
  "sd_journals (fold remove_entry es d) g = (if EJournal g \<in> set es then None else sd_journals d g)"
  "sd_meta (fold remove_entry es d) = (if EMeta \<in> set es then None else sd_meta d)"
  "sd_parts (fold remove_entry es d) tk = (if ETakes \<in> set es then [] else sd_parts d tk)"
  "sd_wavs (fold remove_entry es d) = (if ETakes \<in> set es then [] else sd_wavs d)"
proof (induction es arbitrary: d)
  case (Cons e es)
  { case 1 show ?case using Cons.IH(1) by (cases e) auto }
  { case 2 show ?case using Cons.IH(2) by (cases e) auto }
  { case 3 show ?case using Cons.IH(3) by (cases e) auto }
  { case 4 show ?case using Cons.IH(4) by (cases e) auto }
qed simp_all

lemma journals_last:
  assumes "EJournal g \<in> set (take k (removal_order es))" "e \<in> set es" "\<nexists>g. e = EJournal g"
  shows "e \<in> set (take k (removal_order es))"
proof -
  let ?A = "filter (\<lambda>e. \<nexists>g. e = EJournal g) es"
  have "EJournal g \<notin> set (take k ?A)" by (auto dest: in_set_takeD)
  then have "length ?A < k" using assms(1) by (cases "length ?A < k") (auto simp: removal_order_def)
  then have "set ?A \<subseteq> set (take k (removal_order es))" by (simp add: removal_order_def)
  then show ?thesis using assms(2,3) by auto
qed

text \<open>An interrupted deletion stays a deletion.  If the directory of a clean session that was never compacted cannot be renamed and
  is emptied in place instead, then wherever that stops, what is left is still classified clean, so the next start-up finishes
  it and does not offer it for recovery.\<close>

theorem interrupted_deletion_stays_clean:
  assumes "classify_session crc dec env name d = Inr Clean" "\<forall>m. sd_meta d = Some m \<longrightarrow> mt_generation m = 0"
    and "delete_in_place (es, Some (k, e)) d = (x, Some left)" "ETakes \<in> set es \<or> sd_wavs d = []"
  shows "classify_session crc dec env name left = Inr Clean"
proof -
  let ?done = "take k (removal_order es)"
  have l: "left = fold remove_entry ?done d" using assms(3) by (simp add: delete_in_place_def)
  have gen: "(case sd_meta d of Some m \<Rightarrow> mt_generation m | None \<Rightarrow> 0) = 0"
    "(case sd_meta left of Some m \<Rightarrow> mt_generation m | None \<Rightarrow> 0) = 0"
    using assms(2) by (auto simp: l remove_entry_fields split: option.splits)
  show ?thesis
  proof (cases "EJournal 0 \<in> set ?done \<or> sd_journals d 0 = None")
    case True
    then have j: "sd_journals left 0 = None" by (auto simp: l remove_entry_fields)
    have "sd_wavs left = []"
    proof (cases "sd_journals d 0")
      case None
      then have "sd_wavs d = []"
        using assms(1) by (auto simp: classify_session_def gen scan_dir_def stray_takes_def summary_default_def Let_def split: if_splits prod.splits)
      then show ?thesis by (simp add: l remove_entry_fields)
    next
      case (Some bytes)
      then have "EJournal 0 \<in> set ?done" using True by simp
      from journals_last [OF this, of ETakes] assms(4) show ?thesis by (auto simp: l remove_entry_fields)
    qed
    with j show ?thesis by (simp add: classify_session_def gen scan_dir_def stray_takes_def summary_default_def Let_def)
  next
    case False
    then obtain bytes where j: "sd_journals d 0 = Some bytes" "sd_journals left 0 = Some bytes" by (auto simp: l remove_entry_fields)
    have "fst (lenient_take_samples env name left tk) \<longrightarrow> fst (lenient_take_samples env name d tk)" for tk
      by (auto simp: lenient_take_samples_def l remove_entry_fields Let_def)
    then show ?thesis
      using assms(1) by (auto simp: classify_session_def gen j scan_dir_def Let_def split: if_splits prod.splits option.splits)
  qed
qed

theorem interrupted_deletion_stays_clean_witness:
  "\<exists>left. delete_in_place ([EJournal 0, ETakes, EMeta], Some (2, PermissionDenied)) (tiny_dir\<lparr>sd_journals := Map.empty\<rparr>) = (Some PermissionDenied, Some left) \<and>
     sd_meta left = None \<and> classify_session sum_crc tiny_dec calm_gc ''a'' left = Inr Clean"
proof -
  let ?d = "tiny_dir\<lparr>sd_journals := Map.empty\<rparr>"
  have c: "classify_session sum_crc tiny_dec calm_gc ''a'' ?d = Inr Clean" and g: "\<forall>m. sd_meta ?d = Some m \<longrightarrow> mt_generation m = 0"
    by (simp_all add: classify_session_def scan_dir_def stray_takes_def summary_default_def tiny_dir_def Let_def)
  obtain left where l: "delete_in_place ([EJournal 0, ETakes, EMeta], Some (2, PermissionDenied)) ?d = (Some PermissionDenied, Some left)"
    "sd_meta left = None" by (simp add: delete_in_place_def removal_order_def)
  have w: "ETakes \<in> set [EJournal 0, ETakes, EMeta] \<or> sd_wavs ?d = []" by simp
  from interrupted_deletion_stays_clean [OF c g l(1) w] l show ?thesis by blast
qed

text \<open>A compacted session has no journal of generation 0: once \<^verbatim>\<open>meta.json\<close> is removed its takes look like strays.\<close>

lemma compacted_deletion_is_offered:
  assumes "sd_journals d 0 = None" "sd_wavs d \<noteq> []" "delete_in_place (EMeta # es, Some (1, e)) d = (x, Some left)"
  shows "\<exists>r. classify_session crc dec env name left = Inr (Recoverable r)"
proof -
  have "left = d\<lparr>sd_meta := None\<rparr>" using assms(3) by (simp add: delete_in_place_def removal_order_def)
  with assms(1,2) show ?thesis
    by (simp add: classify_session_def scan_dir_def stray_takes_def summary_default_def Let_def split: prod.splits)
qed

text \<open>An edit that was dropped from the undo history without having been saved reads as nothing to recover.\<close>

lemma dropped_edit_is_clean:
  assumes "js_records (scan_journal is_chunks_record crc dec bytes) =
      [JOpen v rate None, JCheckpoint (from_history (history_new flr) []), JEdit er, JDropUndo 1]"
    and "js_valid (scan_journal is_chunks_record crc dec bytes) = length bytes" "er_take er = None"
    and "sd_journals d 0 = Some bytes" "\<forall>m. sd_meta d = Some m \<longrightarrow> mt_generation m = 0" "ge_read env name = None"
  shows "classify_session crc dec env name d = Inr Clean"
proof -
  have g: "(case sd_meta d of Some m \<Rightarrow> mt_generation m | None \<Rightarrow> 0) = 0" using assms(5) by (simp split: option.splits)
  show ?thesis
    using assms(1-4,6)
    by (simp add: classify_session_def g scan_dir_def summarize_def summary_default_def from_history_def history_new_def Let_def)
qed

end
